(* ===== verification/Prelude.thy ===== *)
theory Prelude
  imports Main "HOL-Library.Word"
begin

text \<open>
  What every component of the development shares: the outcomes of a C++ operation (the
  exceptions the code throws and the undefined behaviour it can run into, both as values),
  the sequencing of two operations, the arithmetic of \<open>size_t\<close> and of a checked
  \<open>int\<close>, and copying into and out of a block of memory.
\<close>

section \<open>Collections of facts\<close>

named_theorems outcome_simps \<open>equations that run a sequence of operations\<close>
named_theorems memory_simps \<open>facts on reading and writing a block of bytes\<close>

section \<open>Outcomes of an operation\<close>

text \<open>
  The first four are exceptions of the standard library that the sources throw. The others
  are executions that C++ leaves undefined: an access outside an allocated block, a
  \<open>memcpy\<close> between overlapping ranges, an \<open>int\<close> that leaves its 32 bits, a null
  or invalid pointer that is followed, an \<open>assert\<close> that fails, a division by zero; \<open>Process_aborted\<close> is a call of \<open>abort\<close>.
\<close>

datatype cpp_error =
    Out_of_range | Invalid_argument | Logic_error | Runtime_error
  | Bad_access | Overlapping_copy | Signed_overflow | Null_deref | Assertion_failed | Process_aborted
  | Division_by_zero

definition thrown :: "cpp_error \<Rightarrow> bool" where
  "thrown e \<longleftrightarrow> e \<in> {Out_of_range, Invalid_argument, Logic_error, Runtime_error}"

text \<open>
  An operation on an object of type \<open>'s\<close> returns a value or an error, and the object as
  it is then: an exception does not undo what was written before it was thrown.
\<close>

type_synonym ('s, 'a) cpp = "(cpp_error + 'a) \<times> 's"

definition bindc :: "('s, 'a) cpp \<Rightarrow> ('a \<Rightarrow> 's \<Rightarrow> ('s, 'b) cpp) \<Rightarrow> ('s, 'b) cpp" where
  "bindc m f = (case m of (Inl e, s) \<Rightarrow> (Inl e, s) | (Inr a, s) \<Rightarrow> f a s)"

lemma bindc_simps [simp, outcome_simps]:
  "bindc (Inl e, s) f = (Inl e, s)"
  "bindc (Inr a, s) f = f a s"
  by (simp_all add: bindc_def)

lemma bindc_Inr_iff [outcome_simps]:
  "bindc m f = (Inr b, t) \<longleftrightarrow> (\<exists>a s. m = (Inr a, s) \<and> f a s = (Inr b, t))"
  by (cases m; cases "fst m") (auto simp: bindc_def)

lemma bindc_assoc: "bindc (bindc m f) g = bindc m (\<lambda>a s. bindc (f a s) g)"
  by (cases m; cases "fst m") (auto simp: bindc_def)

lemma bindc_split:
  "P (bindc m f) \<longleftrightarrow>
     (\<forall>e s. m = (Inl e, s) \<longrightarrow> P (Inl e, s)) \<and> (\<forall>a s. m = (Inr a, s) \<longrightarrow> P (f a s))"
  by (cases m; cases "fst m") (auto simp: bindc_def)

text \<open>One operation for each element of a list, the results collected; the first error stops.\<close>

fun mapc :: "('x \<Rightarrow> 's \<Rightarrow> ('s, 'a) cpp) \<Rightarrow> 'x list \<Rightarrow> 's \<Rightarrow> ('s, 'a list) cpp" where
  "mapc f [] s = (Inr [], s)"
| "mapc f (x # xs) s =
     bindc (f x s) (\<lambda>a s. bindc (mapc f xs s) (\<lambda>as s. (Inr (a # as), s)))"

section \<open>Unsigned 64-bit sizes and checked 32-bit integers\<close>

text \<open>
  A \<open>size_t\<close> is a natural number below \<open>two64\<close>; the subtraction and the addition wrap,
  and an \<open>int\<close> that is converted to it is taken modulo \<open>two64\<close>.
\<close>

definition two64 :: nat where
  "two64 = 18446744073709551616"

definition size_sub :: "nat \<Rightarrow> nat \<Rightarrow> nat" where
  "size_sub a b = (if b \<le> a then a - b else a + two64 - b)"

definition size_add :: "nat \<Rightarrow> nat \<Rightarrow> nat" where
  "size_add a b = (a + b) mod two64"

definition size_of_int :: "int \<Rightarrow> nat" where
  "size_of_int i = nat (i mod int two64)"

lemma size_sub_le [simp]: "b \<le> a \<Longrightarrow> size_sub a b = a - b"
  by (simp add: size_sub_def)

lemma size_add_small: "a + b < two64 \<Longrightarrow> size_add a b = a + b"
  by (simp add: size_add_def)

lemma size_of_int_small: "0 \<le> i \<Longrightarrow> i < int two64 \<Longrightarrow> size_of_int i = nat i"
  by (simp add: size_of_int_def)

lemma size_of_int_of_nat: "n < two64 \<Longrightarrow> size_of_int (int n) = n"
  by (simp add: size_of_int_small)

lemma size_of_int_numeral [simp]:
  "size_of_int 0 = 0" "size_of_int 1 = 1" "size_of_int 2 = 2" "size_of_int 3 = 3"
  "size_of_int 5 = 5" "size_of_int 6 = 6"
  by (simp_all add: size_of_int_def two64_def)

text \<open>An \<open>int\<close> has 32 bits; arithmetic that leaves them is undefined.\<close>

definition int32_ok :: "int \<Rightarrow> bool" where
  "int32_ok i \<longleftrightarrow> - 2147483648 \<le> i \<and> i \<le> 2147483647"

section \<open>Blocks of memory\<close>

text \<open>
  A block is the list of its bytes. \<open>slice xs i n\<close> are the \<open>n\<close> bytes from offset
  \<open>i\<close>; \<open>blit xs i ys\<close> is the block after the bytes \<open>ys\<close> are copied to offset
  \<open>i\<close>. Callers check the range first.
\<close>

definition slice :: "'a list \<Rightarrow> nat \<Rightarrow> nat \<Rightarrow> 'a list" where
  "slice xs i n = take n (drop i xs)"

definition blit :: "'a list \<Rightarrow> nat \<Rightarrow> 'a list \<Rightarrow> 'a list" where
  "blit xs i ys = take i xs @ ys @ drop (i + length ys) xs"

lemma length_slice [simp, memory_simps]: "i + n \<le> length xs \<Longrightarrow> length (slice xs i n) = n"
  by (simp add: slice_def)

lemma slice_0 [simp, memory_simps]: "slice xs i 0 = []"
  by (simp add: slice_def)

lemma slice_all [simp, memory_simps]: "slice xs 0 (length xs) = xs"
  by (simp add: slice_def)

lemma length_blit [simp, memory_simps]:
  "i + length ys \<le> length xs \<Longrightarrow> length (blit xs i ys) = length xs"
  by (simp add: blit_def)

lemma slice_blit_same [memory_simps]:
  "i + length ys \<le> length xs \<Longrightarrow> slice (blit xs i ys) i (length ys) = ys"
  by (simp add: slice_def blit_def)

lemma slice_blit_before [memory_simps]:
  "j + n \<le> i \<Longrightarrow> i + length ys \<le> length xs \<Longrightarrow> slice (blit xs i ys) j n = slice xs j n"
  by (simp add: slice_def blit_def drop_take min_absorb1 min_absorb2)

lemma slice_append_adjacent: "slice xs i (m + n) = slice xs i m @ slice xs (i + m) n"
  by (simp add: slice_def take_add add.commute)

lemma slice_Suc_right:
  "i + n < length xs \<Longrightarrow> slice xs i (Suc n) = slice xs i n @ [xs ! (i + n)]"
  by (simp add: slice_def take_Suc_conv_app_nth)

lemma nth_slice [memory_simps]: "k < n \<Longrightarrow> i + n \<le> length xs \<Longrightarrow> slice xs i n ! k = xs ! (i + k)"
  by (simp add: slice_def)

lemma slice_slice: "j + m \<le> n \<Longrightarrow> slice (slice xs i n) j m = slice xs (i + j) m"
  by (simp add: slice_def drop_take min_def add.commute)

lemma slice_extend_blit:
  assumes "j \<le> i" and "i + length ys \<le> length xs"
  shows "slice (blit xs i ys) j (i + length ys - j) = slice xs j (i - j) @ ys"
proof -
  have "i + length ys - j = (i - j) + length ys" using assms(1) by simp
  then have "slice (blit xs i ys) j (i + length ys - j)
      = slice (blit xs i ys) j (i - j) @ slice (blit xs i ys) (j + (i - j)) (length ys)"
    by (simp add: slice_append_adjacent)
  also have "\<dots> = slice xs j (i - j) @ ys"
    using assms by (simp add: slice_blit_before slice_blit_same)
  finally show ?thesis .
qed

section \<open>Decimal numbers\<close>

text \<open>\<open>%d\<close> and \<open>std::to_string\<close>.\<close>

fun dec_nat :: "nat \<Rightarrow> string" where
  "dec_nat n = (if n < 10 then [char_of (48 + n)] else dec_nat (n div 10) @ [char_of (48 + n mod 10)])"

declare dec_nat.simps [simp del]

definition dec_string :: "int \<Rightarrow> string" where
  "dec_string i = (if i < 0 then CHR ''-'' # dec_nat (nat (- i)) else dec_nat (nat i))"

section \<open>Bytes of a number\<close>

lemma four_bytes:
  "i = i div 16777216 * 16777216 + i div 65536 mod 256 * 65536 + i div 256 mod 256 * 256 + i mod (256 :: int)"
proof -
  have "i div 65536 = i div 256 div 256" "i div 16777216 = i div 65536 div 256"
    using zdiv_zmult2_eq [of 256 i 256] zdiv_zmult2_eq [of 256 i 65536] by simp_all
  moreover have "x = x div 256 * 256 + x mod 256" for x :: int by simp
  ultimately show ?thesis by (smt (verit))
qed

end
