(* ===== verification/User_Buffer.thy ===== *)
theory User_Buffer
  imports Prelude
begin

text \<open>
  \<open>src/src/tool/userbuffer.h\<close> and \<open>userbuffer.cc\<close>: the byte buffer of a connection.
  The record has the class's fields, each method is a definition, and the abstract value of
  a buffer is the byte sequence \<open>UB_content\<close> between the read and the write spot. The
  locale \<open>byte_fifo\<close> states what the users of a buffer rely on; it is interpreted on the
  class's own methods at the end of the theory.
\<close>

section \<open>The state and its accessors\<close>

record UserBuffer =
  Buffer :: "char list"
  Write_Spot :: nat
  Read_Spot :: nat
  Buffer_Size :: nat

text \<open>The constructor: \<open>make_unique<char[]>\<close> fills the block with zero bytes.\<close>

definition UserBuffer_new :: "nat \<Rightarrow> UserBuffer" where
  "UserBuffer_new Length =
     \<lparr>Buffer = replicate Length (CHR 0x00), Write_Spot = 0, Read_Spot = 0,
      Buffer_Size = Length\<rparr>"

definition UB_Length :: "UserBuffer \<Rightarrow> nat" where
  "UB_Length ub = Buffer_Size ub"

definition UB_Readable :: "UserBuffer \<Rightarrow> nat" where
  "UB_Readable ub = size_sub (Write_Spot ub) (Read_Spot ub)"

definition UB_Writeable :: "UserBuffer \<Rightarrow> nat" where
  "UB_Writeable ub = size_sub (Buffer_Size ub) (Write_Spot ub)"

text \<open>Pointers into the block are offsets from its start.\<close>

definition UB_ReadPtr :: "UserBuffer \<Rightarrow> nat" where
  "UB_ReadPtr ub = Read_Spot ub"

definition UB_WritePtr :: "UserBuffer \<Rightarrow> nat" where
  "UB_WritePtr ub = Write_Spot ub"

definition UB_Clean :: "UserBuffer \<Rightarrow> UserBuffer" where
  "UB_Clean ub = ub\<lparr>Write_Spot := 0, Read_Spot := 0\<rparr>"

definition UB_ReWirte :: "UserBuffer \<Rightarrow> int \<Rightarrow> UserBuffer" where
  "UB_ReWirte ub spot = ub\<lparr>Write_Spot := size_of_int spot\<rparr>"

section \<open>Reading\<close>

text \<open>\<open>void Read(char* Start, int bytes)\<close>: the value returned is what is copied to \<open>Start\<close>.\<close>

definition UB_Read :: "UserBuffer \<Rightarrow> int \<Rightarrow> (UserBuffer, char list) cpp" where
  "UB_Read ub bytes =
     (let n = size_of_int bytes in
      if size_add (Read_Spot ub) n > Write_Spot ub then (Inl Out_of_range, ub)
      else if length (Buffer ub) < Read_Spot ub + n then (Inl Bad_access, ub)
      else (Inr (slice (Buffer ub) (Read_Spot ub) n),
            ub\<lparr>Read_Spot := size_add (Read_Spot ub) n\<rparr>))"

text \<open>
  \<open>unique_ptr<char[]> Read(int bytes)\<close> allocates with \<open>new char(Readable())\<close>, one
  \<open>char\<close> and not an array, before it copies \<open>bytes\<close> bytes into it. \<open>usable n\<close> is
  the size of the block the allocator returns for a request of \<open>n\<close> bytes.
\<close>

definition UB_Read_alloc ::
  "(nat \<Rightarrow> nat) \<Rightarrow> UserBuffer \<Rightarrow> int \<Rightarrow> (UserBuffer, char list) cpp" where
  "UB_Read_alloc usable ub bytes =
     (let n = size_of_int bytes in
      if size_add (Read_Spot ub) n > Write_Spot ub then (Inl Out_of_range, ub)
      else if length (Buffer ub) < Read_Spot ub + n \<or> usable 1 < n then (Inl Bad_access, ub)
      else (Inr (slice (Buffer ub) (Read_Spot ub) n),
            ub\<lparr>Read_Spot := size_add (Read_Spot ub) n\<rparr>))"

text \<open>\<open>void read(int bytes)\<close>: skips, with no check against the write spot.\<close>

definition UB_skip :: "UserBuffer \<Rightarrow> int \<Rightarrow> (UserBuffer, unit) cpp" where
  "UB_skip ub bytes =
     (if bytes < 0 then (Inl Invalid_argument, ub)
      else (Inr (), ub\<lparr>Read_Spot := size_add (Read_Spot ub) (size_of_int bytes)\<rparr>))"

text \<open>
  \<open>Peek\<close>: the second conjunct of its guard compares an unsigned value with \<open>< 0\<close>, so
  it never throws, and what remains is the access to the block.
\<close>

definition UB_Peek_guard :: "UserBuffer \<Rightarrow> int \<Rightarrow> bool" where
  "UB_Peek_guard ub jump \<longleftrightarrow>
     (let spot = size_add (Read_Spot ub) (size_of_int jump) in
      Write_Spot ub < spot \<and> int spot < 0)"

definition UB_Peek :: "UserBuffer \<Rightarrow> int \<Rightarrow> cpp_error + char" where
  "UB_Peek ub jump =
     (let spot = size_add (Read_Spot ub) (size_of_int jump) in
      if UB_Peek_guard ub jump then Inl Out_of_range
      else if spot < length (Buffer ub) then Inr (Buffer ub ! spot)
      else Inl Bad_access)"

section \<open>Writing\<close>

definition UB_Move_Buffer :: "UserBuffer \<Rightarrow> (UserBuffer, unit) cpp" where
  "UB_Move_Buffer ub =
     (if Read_Spot ub < Buffer_Size ub div 2 then (Inr (), ub)
      else
        let inter = size_sub (Write_Spot ub) (Read_Spot ub) in
        if length (Buffer ub) < Read_Spot ub + inter then (Inl Bad_access, ub)
        else if Read_Spot ub < inter then (Inl Overlapping_copy, ub)
        else (Inr (),
              ub\<lparr>Buffer := blit (Buffer ub) 0 (slice (Buffer ub) (Read_Spot ub) inter),
                 Read_Spot := 0, Write_Spot := inter\<rparr>))"

text \<open>
  \<open>Write(int bytes)\<close> accounts for bytes that someone else stored behind the write spot
  (\<open>recv\<close> or \<open>vsnprintf\<close>); \<open>UB_poke\<close> is that store.
\<close>

definition UB_poke :: "UserBuffer \<Rightarrow> char list \<Rightarrow> UserBuffer" where
  "UB_poke ub bs = ub\<lparr>Buffer := blit (Buffer ub) (Write_Spot ub) bs\<rparr>"

definition UB_Write_count :: "UserBuffer \<Rightarrow> int \<Rightarrow> (UserBuffer, int) cpp" where
  "UB_Write_count ub bytes =
     (if size_of_int bytes > UB_Writeable ub then (Inl Out_of_range, ub)
      else bindc (UB_Move_Buffer
                    (ub\<lparr>Write_Spot := size_add (Write_Spot ub) (size_of_int bytes)\<rparr>))
             (\<lambda>_ ub. (Inr bytes, ub)))"

text \<open>The \<open>memcpy\<close> behind the write spot that the other overloads end with.\<close>

definition UB_append :: "UserBuffer \<Rightarrow> char list \<Rightarrow> nat \<Rightarrow> (UserBuffer, unit) cpp" where
  "UB_append ub Buf n =
     (if length Buf < n \<or> length (Buffer ub) < Write_Spot ub + n then (Inl Bad_access, ub)
      else (Inr (),
            ub\<lparr>Buffer := blit (Buffer ub) (Write_Spot ub) (take n Buf),
               Write_Spot := size_add (Write_Spot ub) n\<rparr>))"

text \<open>
  \<open>Write(char*, int)\<close> and \<open>Write(const char*, int)\<close> have the same body; \<open>Buf\<close> are
  the bytes that can be read from the pointer.
\<close>

definition UB_Write :: "UserBuffer \<Rightarrow> char list \<Rightarrow> int \<Rightarrow> (UserBuffer, int) cpp" where
  "UB_Write ub Buf bytes =
     (let n = size_of_int bytes in
      bindc (if n > UB_Writeable ub then UB_Move_Buffer ub else (Inr (), ub)) (\<lambda>_ ub.
      if n > UB_Writeable ub then (Inl Out_of_range, ub)
      else bindc (UB_append ub Buf n) (\<lambda>_ ub. (Inr bytes, ub))))"

definition UB_Write_string :: "UserBuffer \<Rightarrow> char list \<Rightarrow> (UserBuffer, int) cpp" where
  "UB_Write_string ub str =
     (let len = length str in
      bindc (if len > UB_Writeable ub then UB_Move_Buffer ub else (Inr (), ub)) (\<lambda>_ ub.
      if len > UB_Writeable ub then (Inl Out_of_range, ub)
      else bindc (UB_append ub str len) (\<lambda>_ ub. (Inr (int len), ub))))"

text \<open>
  \<open>SWrite\<close> is \<open>vsnprintf(WritePtr(), Writeable(), ...)\<close>: \<open>text\<close> is the formatted
  output; at most \<open>Writeable() - 1\<close> of its bytes and a zero byte are stored, and the length
  of the whole output is returned. The write spot does not move.
\<close>

definition UB_SWrite :: "UserBuffer \<Rightarrow> char list \<Rightarrow> UserBuffer \<times> int" where
  "UB_SWrite ub text =
     (if UB_Writeable ub = 0 then (ub, int (length text))
      else (UB_poke ub (take (UB_Writeable ub - 1) text @ [CHR 0x00]), int (length text)))"

section \<open>The invariant and the abstract value\<close>

text \<open>
  Every buffer of the program is built with an even size that fits an \<open>int\<close> (4048, 4096 or
  8096); with an even size the two ranges of the \<open>memcpy\<close> in \<open>Move_Buffer\<close> are disjoint.
\<close>

definition UB_wf :: "UserBuffer \<Rightarrow> bool" where
  "UB_wf ub \<longleftrightarrow>
     Read_Spot ub \<le> Write_Spot ub \<and> Write_Spot ub \<le> Buffer_Size ub \<and>
     length (Buffer ub) = Buffer_Size ub \<and> Buffer_Size ub < 2147483648 \<and> even (Buffer_Size ub)"

definition UB_content :: "UserBuffer \<Rightarrow> char list" where
  "UB_content ub = slice (Buffer ub) (Read_Spot ub) (Write_Spot ub - Read_Spot ub)"

lemma UB_wfD:
  assumes "UB_wf ub"
  shows "Read_Spot ub \<le> Write_Spot ub" "Write_Spot ub \<le> Buffer_Size ub"
    "length (Buffer ub) = Buffer_Size ub" "Buffer_Size ub < 2147483648"
    "even (Buffer_Size ub)" "Buffer_Size ub < two64" "Write_Spot ub < two64"
    "Read_Spot ub < two64"
  using assms by (simp_all add: UB_wf_def two64_def)

lemma UB_wf_new: "even n \<Longrightarrow> n < 2147483648 \<Longrightarrow> UB_wf (UserBuffer_new n)"
  by (simp add: UB_wf_def UserBuffer_new_def)

lemma UB_content_new [simp]: "UB_content (UserBuffer_new n) = []"
  by (simp add: UB_content_def UserBuffer_new_def)

text \<open>The block alone, wherever the positions are.\<close>

definition UB_block :: "UserBuffer \<Rightarrow> bool" where
  "UB_block ub \<longleftrightarrow> length (Buffer ub) = Buffer_Size ub \<and> Buffer_Size ub < 2147483648 \<and> even (Buffer_Size ub)"

lemma UB_wf_block: "UB_wf ub \<Longrightarrow> UB_block ub"
  by (simp add: UB_wf_def UB_block_def)

lemma UB_block_Clean: "UB_block ub \<Longrightarrow> UB_wf (UB_Clean ub)"
  by (simp add: UB_wf_def UB_block_def UB_Clean_def)

lemma UB_wf_Clean [simp]: "UB_wf ub \<Longrightarrow> UB_wf (UB_Clean ub)"
  by (simp add: UB_wf_def UB_Clean_def)

lemma UB_content_Clean [simp]: "UB_content (UB_Clean ub) = []"
  by (simp add: UB_content_def UB_Clean_def)

lemma length_UB_content: "UB_wf ub \<Longrightarrow> length (UB_content ub) = Write_Spot ub - Read_Spot ub"
  by (simp add: UB_content_def UB_wf_def)

lemma UB_Readable_content: "UB_wf ub \<Longrightarrow> UB_Readable ub = length (UB_content ub)"
  by (simp add: length_UB_content UB_Readable_def UB_wfD)

lemma UB_Writeable_wf: "UB_wf ub \<Longrightarrow> UB_Writeable ub = Buffer_Size ub - Write_Spot ub"
  by (simp add: UB_Writeable_def UB_wfD)

lemma UB_content_nth:
  assumes "UB_wf ub" and "k < length (UB_content ub)"
  shows "UB_content ub ! k = Buffer ub ! (Read_Spot ub + k)"
  using assms by (simp add: UB_content_def nth_slice length_UB_content UB_wf_def)

text \<open>Advancing the read spot inside the content drops bytes from its front.\<close>

lemma UB_advance:
  assumes "UB_wf ub" and "n \<le> length (UB_content ub)"
  shows "UB_wf (ub\<lparr>Read_Spot := Read_Spot ub + n\<rparr>)"
    and "UB_content (ub\<lparr>Read_Spot := Read_Spot ub + n\<rparr>) = drop n (UB_content ub)"
  using assms by (auto simp: UB_wf_def length_UB_content UB_content_def slice_def drop_take add.commute)

lemma size_add_Read_Spot:
  "UB_wf ub \<Longrightarrow> n \<le> length (UB_content ub) \<Longrightarrow> size_add (Read_Spot ub) n = Read_Spot ub + n"
  by (auto simp: UB_wf_def length_UB_content two64_def intro: size_add_small)

section \<open>What each operation does\<close>

lemma UB_Read_content:
  assumes "UB_wf ub" and "n \<le> length (UB_content ub)"
  shows "UB_Read ub (int n) =
     (Inr (take n (UB_content ub)), ub\<lparr>Read_Spot := Read_Spot ub + n\<rparr>)"
proof -
  have n: "size_of_int (int n) = n"
    using assms by (auto simp: UB_wf_def length_UB_content two64_def intro: size_of_int_of_nat)
  have "Read_Spot ub + n \<le> Write_Spot ub"
    using assms by (auto simp: UB_wf_def length_UB_content)
  moreover have "slice (Buffer ub) (Read_Spot ub) n = take n (UB_content ub)"
    using assms by (simp add: UB_content_def slice_def length_UB_content min_absorb1 UB_wf_def)
  ultimately show ?thesis
    using assms UB_wfD(2) [OF assms(1)]
    by (simp add: UB_Read_def n size_add_Read_Spot UB_wfD(3))
qed

lemma UB_Read_short:
  assumes "UB_wf ub" and "length (UB_content ub) < n" and "n < 2147483648"
  shows "UB_Read ub (int n) = (Inl Out_of_range, ub)"
proof -
  have "size_of_int (int n) = n" "size_add (Read_Spot ub) n = Read_Spot ub + n"
    using assms by (auto simp: UB_wf_def two64_def intro!: size_of_int_of_nat size_add_small)
  then show ?thesis
    using assms by (auto simp: UB_Read_def length_UB_content UB_wf_def)
qed

lemma UB_skip_content:
  assumes "UB_wf ub" and "n \<le> length (UB_content ub)"
  shows "UB_skip ub (int n) = (Inr (), ub\<lparr>Read_Spot := Read_Spot ub + n\<rparr>)"
proof -
  have "size_of_int (int n) = n"
    using assms by (auto simp: UB_wf_def length_UB_content two64_def intro: size_of_int_of_nat)
  with assms show ?thesis by (simp add: UB_skip_def size_add_Read_Spot)
qed

lemma UB_Peek_guard_never [simp]: "\<not> UB_Peek_guard ub jump"
  by (simp add: UB_Peek_guard_def Let_def)

lemma UB_Peek_content:
  assumes "UB_wf ub" and "k < length (UB_content ub)"
  shows "UB_Peek ub (int k) = Inr (UB_content ub ! k)"
proof -
  have "size_of_int (int k) = k" "size_add (Read_Spot ub) k = Read_Spot ub + k"
    using assms
    by (auto simp: UB_wf_def length_UB_content two64_def intro!: size_of_int_of_nat size_add_small)
  with assms show ?thesis
    by (auto simp: UB_Peek_def UB_content_nth length_UB_content UB_wf_def Let_def)
qed

text \<open>
  \<open>Move_Buffer\<close> never fails on a well-formed buffer, keeps the content, and leaves at least
  as much room at the end.
\<close>

lemma UB_Move_Buffer_wf:
  assumes wf: "UB_wf ub"
  obtains ub' where "UB_Move_Buffer ub = (Inr (), ub')" "UB_wf ub'"
    "UB_content ub' = UB_content ub" "UB_Writeable ub \<le> UB_Writeable ub'"
    "Buffer_Size ub' = Buffer_Size ub"
    "Read_Spot ub' < Buffer_Size ub div 2 \<or> Read_Spot ub' = 0"
proof (cases "Read_Spot ub < Buffer_Size ub div 2")
  case True
  then show thesis using wf by (intro that [of ub]) (simp_all add: UB_Move_Buffer_def)
next
  case False
  define inter where "inter = Write_Spot ub - Read_Spot ub"
  define moved where "moved = slice (Buffer ub) (Read_Spot ub) inter"
  define ub' where "ub' = ub\<lparr>Buffer := blit (Buffer ub) 0 moved, Read_Spot := 0, Write_Spot := inter\<rparr>"
  from wf False have le: "inter \<le> Read_Spot ub" "Read_Spot ub + inter \<le> length (Buffer ub)"
    unfolding inter_def UB_wf_def by (auto elim!: evenE)
  then have len: "length moved = inter" by (simp add: moved_def)
  have "UB_Move_Buffer ub = (Inr (), ub')"
    using UB_wfD(1) [OF wf] False le
    by (simp add: UB_Move_Buffer_def ub'_def moved_def inter_def Let_def)
  moreover have "UB_wf ub'"
    using wf le len by (auto simp: UB_wf_def ub'_def inter_def)
  moreover have "UB_content ub' = UB_content ub"
    using le slice_blit_same [of 0 moved "Buffer ub"] len
    by (simp add: UB_content_def ub'_def) (simp add: moved_def inter_def)
  moreover have "UB_Writeable ub \<le> UB_Writeable ub'"
    using wf \<open>UB_wf ub'\<close> by (simp add: UB_Writeable_wf) (simp add: ub'_def inter_def)
  ultimately show thesis by (intro that [of ub']) (simp_all add: ub'_def)
qed

text \<open>Storing bytes behind the write spot and moving it appends them to the content.\<close>

lemma UB_append_wf:
  assumes "UB_wf ub" and "length bs \<le> UB_Writeable ub"
  shows "UB_wf (ub\<lparr>Buffer := blit (Buffer ub) (Write_Spot ub) bs,
                   Write_Spot := Write_Spot ub + length bs\<rparr>)" (is "UB_wf ?u")
    and "UB_content (ub\<lparr>Buffer := blit (Buffer ub) (Write_Spot ub) bs,
                        Write_Spot := Write_Spot ub + length bs\<rparr>) = UB_content ub @ bs"
proof -
  have room: "Write_Spot ub + length bs \<le> length (Buffer ub)"
    using assms by (simp add: UB_Writeable_wf) (auto simp: UB_wf_def)
  then show "UB_wf ?u" using assms by (simp add: UB_wf_def)
  show "UB_content ?u = UB_content ub @ bs"
    using slice_extend_blit [OF UB_wfD(1) [OF assms(1)] room] by (simp add: UB_content_def)
qed

lemma UB_append_fits:
  assumes "UB_wf ub" and "length bs \<le> UB_Writeable ub"
  obtains ub' where "UB_append ub bs (length bs) = (Inr (), ub')" "UB_wf ub'"
    "UB_content ub' = UB_content ub @ bs" "UB_Writeable ub \<le> UB_Writeable ub' + length bs"
    "Buffer_Size ub' = Buffer_Size ub"
proof -
  let ?u = "ub\<lparr>Buffer := blit (Buffer ub) (Write_Spot ub) bs, Write_Spot := Write_Spot ub + length bs\<rparr>"
  have room: "Write_Spot ub + length bs \<le> Buffer_Size ub"
    using assms by (simp add: UB_Writeable_wf) (auto simp: UB_wf_def)
  then have "size_add (Write_Spot ub) (length bs) = Write_Spot ub + length bs"
    using assms(1) by (auto simp: UB_wf_def two64_def intro: size_add_small)
  then have "UB_append ub bs (length bs) = (Inr (), ?u)"
    using assms(1) room by (simp add: UB_append_def UB_wfD)
  moreover note UB_append_wf [OF assms]
  ultimately show thesis
    by (intro that [of ?u]) (simp_all add: UB_Writeable_wf assms(1))
qed

section \<open>Room, and the two ways of writing\<close>

text \<open>
  \<open>UB_room\<close> is how many bytes a \<open>Write\<close> accepts: the bytes behind the write spot, or,
  once the read spot has passed the middle, all that the content leaves free.
\<close>

definition UB_room :: "UserBuffer \<Rightarrow> nat" where
  "UB_room ub =
     (if Read_Spot ub < Buffer_Size ub div 2 then UB_Writeable ub
      else Buffer_Size ub - length (UB_content ub))"

lemma UB_Writeable_le_room: "UB_wf ub \<Longrightarrow> UB_Writeable ub \<le> UB_room ub"
  by (auto simp: UB_room_def UB_Writeable_wf length_UB_content dest: UB_wfD(1))

lemma UB_room_le_size: "UB_wf ub \<Longrightarrow> UB_room ub \<le> Buffer_Size ub"
  by (simp add: UB_room_def UB_Writeable_wf)

lemma UB_room_Writeable:
  assumes "UB_wf ub" and "Read_Spot ub < Buffer_Size ub div 2 \<or> Read_Spot ub = 0"
  shows "UB_room ub = UB_Writeable ub"
  using assms by (auto simp: UB_room_def UB_Writeable_wf length_UB_content)

lemma UB_room_same:
  assumes "UB_wf ub" "UB_wf ub'" "Buffer_Size ub' = Buffer_Size ub"
    "length (UB_content ub') = length (UB_content ub) + n"
    "Read_Spot ub' = Read_Spot ub \<or> Read_Spot ub' = 0 \<and> Buffer_Size ub div 2 \<le> Read_Spot ub"
  shows "UB_room ub \<le> UB_room ub' + n"
  using assms UB_wfD(1,2) [OF assms(1)] UB_wfD(1,2) [OF assms(2)]
  by (auto simp: UB_room_def UB_Writeable_wf length_UB_content split: if_splits)

text \<open>The compaction step at the start of a \<open>Write\<close> of \<open>n\<close> bytes.\<close>

lemma UB_make_room:
  assumes wf: "UB_wf ub"
  obtains u where
    "(if n > UB_Writeable ub then UB_Move_Buffer ub else (Inr (), ub)) = (Inr (), u)"
    "UB_wf u" "UB_content u = UB_content ub" "Buffer_Size u = Buffer_Size ub"
    "n \<le> UB_Writeable u \<longleftrightarrow> n \<le> UB_room ub"
    "Read_Spot u = Read_Spot ub \<or> Read_Spot u = 0 \<and> Buffer_Size ub div 2 \<le> Read_Spot ub"
proof (cases "n > UB_Writeable ub")
  case False
  then show thesis
    using wf UB_Writeable_le_room [OF wf] by (intro that [of ub]) auto
next
  case True
  obtain u where u: "UB_Move_Buffer ub = (Inr (), u)" "UB_wf u" "UB_content u = UB_content ub"
    "Buffer_Size u = Buffer_Size ub" "Read_Spot u < Buffer_Size ub div 2 \<or> Read_Spot u = 0"
    using UB_Move_Buffer_wf [OF wf] by metis
  have spot: "Read_Spot u = Read_Spot ub \<or> Read_Spot u = 0 \<and> Buffer_Size ub div 2 \<le> Read_Spot ub"
    using u(1) by (auto simp: UB_Move_Buffer_def Let_def split: if_splits)
  have "UB_Writeable u = UB_room ub"
  proof (cases "Read_Spot ub < Buffer_Size ub div 2")
    case True
    with u(1) show ?thesis by (simp add: UB_Move_Buffer_def UB_room_def)
  next
    case False
    with spot u(5) have "Read_Spot u = 0" by auto
    with u False show ?thesis
      using length_UB_content [OF u(2)] by (simp add: UB_room_def UB_Writeable_wf)
  qed
  with True u spot show thesis by (intro that [of u]) auto
qed

lemma UB_Write_string_fits:
  assumes wf: "UB_wf ub" and fits: "length bs \<le> UB_room ub"
  shows "\<exists>ub'. UB_Write_string ub bs = (Inr (int (length bs)), ub') \<and> UB_wf ub' \<and>
           UB_content ub' = UB_content ub @ bs \<and> Buffer_Size ub' = Buffer_Size ub \<and>
           UB_room ub \<le> UB_room ub' + length bs"
proof -
  obtain u where u: "(if length bs > UB_Writeable ub then UB_Move_Buffer ub else (Inr (), ub)) = (Inr (), u)"
    "UB_wf u" "UB_content u = UB_content ub" "Buffer_Size u = Buffer_Size ub"
    "length bs \<le> UB_Writeable u \<longleftrightarrow> length bs \<le> UB_room ub"
    "Read_Spot u = Read_Spot ub \<or> Read_Spot u = 0 \<and> Buffer_Size ub div 2 \<le> Read_Spot ub"
    using UB_make_room [OF wf] by metis
  obtain v where v: "UB_append u bs (length bs) = (Inr (), v)" "UB_wf v"
    "UB_content v = UB_content u @ bs" "Buffer_Size v = Buffer_Size u"
    using UB_append_fits [OF u(2)] u(5) fits by metis
  have "Read_Spot v = Read_Spot u"
    using v(1) by (auto simp: UB_append_def split: if_splits)
  then have "UB_room ub \<le> UB_room v + length bs"
    using u v by (intro UB_room_same [OF wf v(2)]) auto
  moreover have "UB_Write_string ub bs = (Inr (int (length bs)), v)"
    using u v(1) fits by (simp add: UB_Write_string_def Let_def)
  ultimately show ?thesis using u v by auto
qed

lemma UB_Write_string_full:
  assumes wf: "UB_wf ub" and full: "UB_room ub < length bs"
  shows "\<exists>ub'. UB_Write_string ub bs = (Inl Out_of_range, ub') \<and> UB_wf ub' \<and>
           UB_content ub' = UB_content ub"
proof -
  obtain u where u: "(if length bs > UB_Writeable ub then UB_Move_Buffer ub else (Inr (), ub)) = (Inr (), u)"
    "UB_wf u" "UB_content u = UB_content ub"
    "length bs \<le> UB_Writeable u \<longleftrightarrow> length bs \<le> UB_room ub"
    using UB_make_room [OF wf] by metis
  then have "UB_Write_string ub bs = (Inl Out_of_range, u)"
    using full by (simp add: UB_Write_string_def Let_def)
  with u show ?thesis by auto
qed

text \<open>The pointer overload is the string overload when the length it is given is the right one.\<close>

lemma UB_Write_eq_string:
  assumes "length bs < two64"
  shows "UB_Write ub bs (int (length bs)) = UB_Write_string ub bs"
  by (simp add: UB_Write_def UB_Write_string_def Let_def size_of_int_of_nat [OF assms] bindc_def)

text \<open>What \<open>recv\<close> and \<open>vsnprintf\<close> stored behind the write spot joins the content.\<close>

lemma UB_Write_count_content:
  assumes wf: "UB_wf ub" and fits: "length bs \<le> UB_Writeable ub"
  shows "\<exists>ub'. UB_Write_count (UB_poke ub bs) (int (length bs)) = (Inr (int (length bs)), ub') \<and>
           UB_wf ub' \<and> UB_content ub' = UB_content ub @ bs \<and> Buffer_Size ub' = Buffer_Size ub \<and>
           UB_Writeable ub \<le> UB_Writeable ub' + length bs"
proof -
  let ?u = "ub\<lparr>Buffer := blit (Buffer ub) (Write_Spot ub) bs, Write_Spot := Write_Spot ub + length bs\<rparr>"
  have room: "Write_Spot ub + length bs \<le> Buffer_Size ub" and n: "length bs < two64"
    using wf fits by (auto simp: UB_Writeable_wf) (auto simp: UB_wf_def two64_def)
  have u: "UB_wf ?u" "UB_content ?u = UB_content ub @ bs"
    using UB_append_wf [OF assms] by auto
  obtain v where v: "UB_Move_Buffer ?u = (Inr (), v)" "UB_wf v" "UB_content v = UB_content ?u"
    "UB_Writeable ?u \<le> UB_Writeable v" "Buffer_Size v = Buffer_Size ?u"
    using UB_Move_Buffer_wf [OF u(1)] by metis
  have "size_add (Write_Spot ub) (length bs) = Write_Spot ub + length bs"
    using room wf by (auto simp: UB_wf_def two64_def intro: size_add_small)
  then have "UB_Write_count (UB_poke ub bs) (int (length bs)) = (Inr (int (length bs)), v)"
    using v(1) fits wf by (simp add: UB_Write_count_def UB_poke_def UB_Writeable_def size_of_int_of_nat [OF n])
  moreover have "UB_Writeable ub \<le> UB_Writeable v + length bs"
    using v(4) u(1) wf by (simp add: UB_Writeable_wf)
  ultimately show ?thesis using v u(2) by auto
qed

section \<open>The interface of a byte buffer\<close>

text \<open>
  What a user of a buffer relies on: bytes that fit are appended and counted, bytes that do
  not fit are refused and change nothing, and reading returns the oldest bytes.
\<close>

locale byte_fifo =
  fixes ok :: "'b \<Rightarrow> bool"
    and content :: "'b \<Rightarrow> char list"
    and room :: "'b \<Rightarrow> nat"
    and put :: "char list \<Rightarrow> 'b \<Rightarrow> ('b, int) cpp"
    and get :: "nat \<Rightarrow> 'b \<Rightarrow> ('b, char list) cpp"
  assumes put_fits: "ok b \<Longrightarrow> length bs \<le> room b \<Longrightarrow>
      \<exists>b'. put bs b = (Inr (int (length bs)), b') \<and> ok b' \<and> content b' = content b @ bs \<and>
           room b \<le> room b' + length bs"
    and put_full: "ok b \<Longrightarrow> room b < length bs \<Longrightarrow> length bs < 2147483648 \<Longrightarrow>
      \<exists>b'. put bs b = (Inl Out_of_range, b') \<and> ok b' \<and> content b' = content b"
    and get_some: "ok b \<Longrightarrow> n \<le> length (content b) \<Longrightarrow>
      \<exists>b'. get n b = (Inr (take n (content b)), b') \<and> ok b' \<and> content b' = drop n (content b) \<and>
           room b \<le> room b'"
begin

lemma put_all:
  assumes "ok b" and "sum_list (map length bss) \<le> room b"
  shows "\<exists>b'. mapc put bss b = (Inr (map (int \<circ> length) bss), b') \<and> ok b' \<and>
           content b' = content b @ concat bss"
  using assms
proof (induction bss arbitrary: b)
  case Nil
  then show ?case by simp
next
  case (Cons bs bss)
  then obtain b1 where b1: "put bs b = (Inr (int (length bs)), b1)" "ok b1"
    "content b1 = content b @ bs" "room b \<le> room b1 + length bs"
    using put_fits [of b bs] by auto
  with Cons.prems have "sum_list (map length bss) \<le> room b1" by simp
  with Cons.IH [OF b1(2)] b1 show ?case by auto
qed

text \<open>Writing pieces into an empty buffer and reading their total length back is the identity.\<close>

lemma put_all_get:
  assumes "ok b" and "content b = []" and "sum_list (map length bss) \<le> room b"
  shows "\<exists>b'. bindc (mapc put bss b) (\<lambda>_ b. get (sum_list (map length bss)) b)
                = (Inr (concat bss), b') \<and> content b' = []"
proof -
  obtain b1 where b1: "mapc put bss b = (Inr (map (int \<circ> length) bss), b1)" "ok b1"
    "content b1 = concat bss"
    using put_all [OF assms(1,3)] assms(2) by auto
  then show ?thesis
    using get_some [of b1 "sum_list (map length bss)"] by (auto simp: length_concat)
qed

end

lemma UB_get_some:
  assumes wf: "UB_wf ub" and n: "n \<le> length (UB_content ub)"
  shows "\<exists>ub'. UB_Read ub (int n) = (Inr (take n (UB_content ub)), ub') \<and> UB_wf ub' \<and>
           UB_content ub' = drop n (UB_content ub) \<and> UB_room ub \<le> UB_room ub'"
proof -
  let ?u = "ub\<lparr>Read_Spot := Read_Spot ub + n\<rparr>"
  have u: "UB_wf ?u" "UB_content ?u = drop n (UB_content ub)"
    using UB_advance [OF assms] by auto
  then have "UB_room ub \<le> UB_room ?u"
    using wf n UB_wfD(1,2) [OF wf]
    by (auto simp: UB_room_def UB_Writeable_wf length_UB_content)
  with u UB_Read_content [OF assms] show ?thesis by auto
qed

text \<open>Both overloads of \<open>Write\<close> implement the interface.\<close>

interpretation ub_string: byte_fifo UB_wf UB_content UB_room
  "\<lambda>bs ub. UB_Write_string ub bs" "\<lambda>n ub. UB_Read ub (int n)"
proof unfold_locales
  fix b :: UserBuffer and bs :: "char list" and n :: nat
  assume wf: "UB_wf b"
  show "\<exists>b'. UB_Write_string b bs = (Inr (int (length bs)), b') \<and> UB_wf b' \<and>
      UB_content b' = UB_content b @ bs \<and> UB_room b \<le> UB_room b' + length bs"
    if "length bs \<le> UB_room b"
    using UB_Write_string_fits [OF wf that] by auto
  show "\<exists>b'. UB_Write_string b bs = (Inl Out_of_range, b') \<and> UB_wf b' \<and>
      UB_content b' = UB_content b"
    if "UB_room b < length bs" "length bs < 2147483648"
    using UB_Write_string_full [OF wf that(1)] .
  show "\<exists>b'. UB_Read b (int n) = (Inr (take n (UB_content b)), b') \<and> UB_wf b' \<and>
      UB_content b' = drop n (UB_content b) \<and> UB_room b \<le> UB_room b'"
    if "n \<le> length (UB_content b)"
    using UB_get_some [OF wf that] .
qed

interpretation ub_pointer: byte_fifo UB_wf UB_content UB_room
  "\<lambda>bs ub. UB_Write ub bs (int (length bs))" "\<lambda>n ub. UB_Read ub (int n)"
proof unfold_locales
  fix b :: UserBuffer and bs :: "char list" and n :: nat
  assume wf: "UB_wf b"
  show "\<exists>b'. UB_Write b bs (int (length bs)) = (Inr (int (length bs)), b') \<and> UB_wf b' \<and>
      UB_content b' = UB_content b @ bs \<and> UB_room b \<le> UB_room b' + length bs"
    if fits: "length bs \<le> UB_room b"
  proof -
    have "length bs < two64"
      using fits UB_room_le_size [OF wf] UB_wfD(6) [OF wf] by simp
    with ub_string.put_fits [OF wf fits] show ?thesis by (simp add: UB_Write_eq_string)
  qed
  show "\<exists>b'. UB_Write b bs (int (length bs)) = (Inl Out_of_range, b') \<and> UB_wf b' \<and>
      UB_content b' = UB_content b"
    if "UB_room b < length bs" "length bs < 2147483648"
    using ub_string.put_full [OF wf that] that by (simp add: UB_Write_eq_string two64_def)
  show "\<exists>b'. UB_Read b (int n) = (Inr (take n (UB_content b)), b') \<and> UB_wf b' \<and>
      UB_content b' = drop n (UB_content b) \<and> UB_room b \<le> UB_room b'"
    if "n \<le> length (UB_content b)"
    using ub_string.get_some [OF wf that] .
qed

end
