(* ===== verification/Http_Status.thy ===== *)
theory Http_Status
  imports User_Buffer
begin

text \<open>
  \<open>src/src/http/httpstatus.h\<close>: the status codes and their reason phrases, the methods, the
  states and the faults of the request parser, the parser's working record, and the two
  character tables with the predicates that read them.
\<close>

section \<open>Enumerations\<close>

datatype HttpStatusCode =
    HSCInit
  | HSCOK
  | HSCNoContent
  | HSCPartialContent
  | HSCMovedPermanently
  | HSCFound
  | HSCSeeOther
  | HSCNotModified
  | HSCTemporaryRedirect
  | HSCBadRequest
  | HSCUnauthorized
  | HSCForbidden
  | HSCNotFound
  | HSCInternalServerError
  | HSCServiceUnavailable
  | kHCGatewayTimeout
  | kHCHttpVersionNotSupported

fun HttpStatusCode_value :: "HttpStatusCode \<Rightarrow> int" where
  "HttpStatusCode_value HSCInit = 0"
| "HttpStatusCode_value HSCOK = 200"
| "HttpStatusCode_value HSCNoContent = 204"
| "HttpStatusCode_value HSCPartialContent = 206"
| "HttpStatusCode_value HSCMovedPermanently = 301"
| "HttpStatusCode_value HSCFound = 302"
| "HttpStatusCode_value HSCSeeOther = 303"
| "HttpStatusCode_value HSCNotModified = 304"
| "HttpStatusCode_value HSCTemporaryRedirect = 307"
| "HttpStatusCode_value HSCBadRequest = 400"
| "HttpStatusCode_value HSCUnauthorized = 401"
| "HttpStatusCode_value HSCForbidden = 403"
| "HttpStatusCode_value HSCNotFound = 404"
| "HttpStatusCode_value HSCInternalServerError = 500"
| "HttpStatusCode_value HSCServiceUnavailable = 503"
| "HttpStatusCode_value kHCGatewayTimeout = 504"
| "HttpStatusCode_value kHCHttpVersionNotSupported = 505"

datatype HttpRequestMethod = HRGet | HRHead | HRDELETE | HRPost | HRPut | HROptions | HRInit

datatype HttpFlag = Close | Keep_Alive

datatype HttpParserStatus =
    HPSOK | HPSGAMEOVER | HPSGET | HPSPOST | HPSOPTION | HPSHEAD | HPSDELETE | HPSBetweenMU
  | HPSUriStart | HPSURIParser | HPSUriEnd | HPSVersionMajor | HPSVersionMinor | HPSVersionEnd
  | HPSLF | HPSCRLFCR | HPSHeader | HPSColon | HPSHeader_Value | HPSStore_Header

datatype HttpParserFault =
    HPFOK | HPFToLittleMessage | HPFInvaildMethod | HPFBetween_Method_URI_NoBlank
  | HPFInvaildUri | HPFInvaildVersion | HPFNoSupportVersion | HPFInvaildHeader
  | HPFInvaildHeader_Value | HPFContentLength | HPFSetConnection | HPFContent | HPFCRLFCR
  | HPFContent_Nonatch_Length

section \<open>The working record of the parser\<close>

text \<open>
  The three pointers lead into the block of the user buffer: an offset, or \<open>None\<close> for
  \<open>nullptr\<close>.
\<close>

record HttpParser_Content =
  Method :: HttpRequestMethod
  Status :: HttpParserStatus
  Fault :: HttpParserFault
  Uri :: "nat option"
  Header :: "nat option"
  Value :: "nat option"
  Uri_length :: int
  Header_length :: int
  Value_length :: int
  Content_length :: int
  V_major :: int
  V_minor :: int
  Set_Ka :: HttpFlag

definition HttpParser_Content_new :: HttpParser_Content where
  "HttpParser_Content_new =
     \<lparr>Method = HRInit, Status = HPSOK, Fault = HPFOK, Uri = None, Header = None, Value = None,
      Uri_length = 1, Header_length = 1, Value_length = 1, Content_length = 0,
      V_major = 0, V_minor = 0, Set_Ka = Keep_Alive\<rparr>"

text \<open>\<open>init\<close> assigns every field but \<open>Set_Ka\<close>.\<close>

definition HttpParser_Content_init :: "HttpParser_Content \<Rightarrow> HttpParser_Content" where
  "HttpParser_Content_init pc =
     pc\<lparr>Method := HRInit, Status := HPSOK, Fault := HPFOK, Uri := None, Header := None,
        Value := None, Uri_length := 1, Header_length := 1, Value_length := 1,
        Content_length := 0, V_major := 0, V_minor := 0\<rparr>"

section \<open>Reason phrases\<close>

definition StatusCode_to_String :: "int \<Rightarrow> string" where
  "StatusCode_to_String statuscode =
     (if statuscode = HttpStatusCode_value HSCOK then ''OK'' else
      if statuscode = HttpStatusCode_value HSCNoContent then ''No Content'' else
      if statuscode = HttpStatusCode_value HSCPartialContent then ''Partial Content'' else
      if statuscode = HttpStatusCode_value HSCMovedPermanently then ''Moved Permanently'' else
      if statuscode = HttpStatusCode_value HSCFound then ''Found'' else
      if statuscode = HttpStatusCode_value HSCSeeOther then ''See Other'' else
      if statuscode = HttpStatusCode_value HSCNotModified then ''Not Modified'' else
      if statuscode = HttpStatusCode_value HSCTemporaryRedirect then ''Temporary Redirect'' else
      if statuscode = HttpStatusCode_value HSCBadRequest then ''Bad Request'' else
      if statuscode = HttpStatusCode_value HSCUnauthorized then ''Unauthorized'' else
      if statuscode = HttpStatusCode_value HSCForbidden then ''Forbidden'' else
      if statuscode = HttpStatusCode_value HSCNotFound then ''Not Found'' else
      if statuscode = HttpStatusCode_value HSCInternalServerError then ''Internal Server Error'' else
      if statuscode = HttpStatusCode_value HSCServiceUnavailable then ''Service Unavailable'' else
      if statuscode = HttpStatusCode_value kHCGatewayTimeout then ''Gateway Timeout'' else
      if statuscode = HttpStatusCode_value kHCHttpVersionNotSupported then ''Http Version Not Supported'' else
      ''Parser error, Don't have this httpstatuscode'')"

section \<open>Character classes\<close>

text \<open>
  \<open>char\<close> is signed on the platforms the server runs on, so \<open>c >= 0\<close> means that the byte
  is below 128. \<open>isdigit\<close> and \<open>isalnum\<close> are those of the C locale.
\<close>

definition char_code :: "char \<Rightarrow> nat" where
  "char_code c = of_char c"

definition isdigit :: "char \<Rightarrow> bool" where
  "isdigit c \<longleftrightarrow> 48 \<le> char_code c \<and> char_code c \<le> 57"

definition isalnum :: "char \<Rightarrow> bool" where
  "isalnum c \<longleftrightarrow> isdigit c \<or> 65 \<le> char_code c \<and> char_code c \<le> 90
     \<or> 97 \<le> char_code c \<and> char_code c \<le> 122"

definition isheader :: "char \<Rightarrow> bool" where
  "isheader c \<longleftrightarrow> isalnum c \<or> c = CHR ''-'' \<or> c = CHR ''_''"

text \<open>A table of the source, one string for each of its lines of eight entries.\<close>

definition truth_table :: "string \<Rightarrow> bool list" where
  "truth_table s = map (\<lambda>c. c = CHR ''T'') s"

definition is_uri :: "bool list" where
  "is_uri = truth_table
     (''FFFFFFFF'' @ ''FFFFFFFF'' @ ''FFFFFFFF'' @ ''FFFFFFFF'' @
      ''FFFTTTTF'' @ ''FFFTTTTT'' @ ''TTTTTTTT'' @ ''TTTTFTFT'' @
      ''TTTTTTTT'' @ ''TTTTTTTT'' @ ''TTTTTTTT'' @ ''TTTFFFFT'' @
      ''FTTTTTTT'' @ ''TTTTTTTT'' @ ''TTTTTTTT'' @ ''TTTFFFFF'')"

definition isuri :: "char \<Rightarrow> bool" where
  "isuri c = (if char_code c < 128 then is_uri ! char_code c else False)"

definition is_value :: "bool list" where
  "is_value = truth_table
     (''FFFFFFFF'' @ ''FFFFFFFF'' @ ''FFFFFFFF'' @ ''FFFFFFFF'' @
      ''TTTTTTTT'' @ ''TTTTTTTT'' @ ''TTTTTTTT'' @ ''TTTTTTTT'' @
      ''TTTTTTTT'' @ ''TTTTTTTT'' @ ''TTTTTTTT'' @ ''TTTTTTTT'' @
      ''TTTTTTTT'' @ ''TTTTTTTT'' @ ''TTTTTTTT'' @ ''TTTTTTTF'')"

definition isvalue :: "char \<Rightarrow> bool" where
  "isvalue c = (if char_code c < 128 then is_value ! char_code c else False)"

text \<open>What the two tables say, as ranges of codes.\<close>

lemma all_ascii: "P 0 \<Longrightarrow> P 1 \<Longrightarrow> list_all P [2..<128] \<Longrightarrow> n < 128 \<Longrightarrow> P n"
  by (cases "n = 0 \<or> n = 1") (auto simp: list_all_iff simp del: upt_rec_numeral)

lemma is_value_range: "n < 128 \<Longrightarrow> is_value ! n \<longleftrightarrow> 32 \<le> n \<and> n \<le> 126"
  by (rule all_ascii [where P = "\<lambda>n. is_value ! n \<longleftrightarrow> 32 \<le> n \<and> n \<le> 126"])
     (simp_all add: is_value_def truth_table_def)

lemma is_uri_range:
  "n < 128 \<Longrightarrow> is_uri ! n \<longleftrightarrow>
     35 \<le> n \<and> n \<le> 38 \<or> 43 \<le> n \<and> n \<le> 59 \<or> n = 61 \<or> 63 \<le> n \<and> n \<le> 90 \<or> n = 95 \<or>
     97 \<le> n \<and> n \<le> 122"
  by (rule all_ascii [where P = "\<lambda>n. is_uri ! n \<longleftrightarrow>
       35 \<le> n \<and> n \<le> 38 \<or> 43 \<le> n \<and> n \<le> 59 \<or> n = 61 \<or> 63 \<le> n \<and> n \<le> 90 \<or>
       n = 95 \<or> 97 \<le> n \<and> n \<le> 122"])
     (simp_all add: is_uri_def truth_table_def)

lemma isvalue_range: "isvalue c \<longleftrightarrow> 32 \<le> char_code c \<and> char_code c \<le> 126"
  by (auto simp: isvalue_def is_value_range)

lemma isuri_range:
  "isuri c \<longleftrightarrow>
     35 \<le> char_code c \<and> char_code c \<le> 38 \<or> 43 \<le> char_code c \<and> char_code c \<le> 59 \<or>
     char_code c = 61 \<or> 63 \<le> char_code c \<and> char_code c \<le> 90 \<or> char_code c = 95 \<or>
     97 \<le> char_code c \<and> char_code c \<le> 122"
  by (auto simp: isuri_def is_uri_range)

lemma char_code_eq: "char_code c = char_code d \<longleftrightarrow> c = d"
  by (simp add: char_code_def)

lemma isheader_range:
  "isheader c \<longleftrightarrow>
     48 \<le> char_code c \<and> char_code c \<le> 57 \<or> 65 \<le> char_code c \<and> char_code c \<le> 90 \<or>
     97 \<le> char_code c \<and> char_code c \<le> 122 \<or> char_code c = 45 \<or> char_code c = 95"
proof -
  have "c = CHR ''-'' \<longleftrightarrow> char_code c = 45" "c = CHR ''_'' \<longleftrightarrow> char_code c = 95"
    using char_code_eq [of c "CHR ''-''"] char_code_eq [of c "CHR ''_''"]
    by (simp_all add: char_code_def)
  then show ?thesis by (auto simp: isheader_def isalnum_def isdigit_def)
qed

lemma isheader_isuri: "isheader c \<Longrightarrow> isuri c"
  by (auto simp: isheader_range isuri_range)

lemma isuri_isvalue: "isuri c \<Longrightarrow> isvalue c"
  by (auto simp: isvalue_range isuri_range)

text \<open>The delimiters of a request are in none of the classes that would absorb them.\<close>

lemma delimiters [simp]:
  "\<not> isuri CHR '' ''" "\<not> isheader CHR '':''" "\<not> isheader CHR 0x0D" "\<not> isvalue CHR 0x0D"
  "\<not> isvalue CHR 0x0A" "\<not> isheader CHR 0x0A" "\<not> isheader CHR '' ''" "\<not> isuri CHR 0x0D"
  "\<not> isdigit CHR ''.''" "\<not> isdigit CHR 0x0D"
  by (simp_all add: isuri_range isvalue_range isheader_range isdigit_def char_code_def)

end
