(* ===== verification/Http_Request.thy ===== *)
theory Http_Request
  imports Http_Status User_Buffer
begin

text \<open>
  \<open>src/src/http/parsed_header.h\<close>, \<open>parsed_header.cc\<close>, \<open>httprequest.h\<close> and
  \<open>httprequest.cc\<close>: a view of bytes that someone else owns, its comparisons, and the parsed
  request with its table of header fields. The bytes a view leads to are read from the memory
  (\<open>mem\<close>, the block of the connection's user buffer) at the moment of the comparison.
\<close>

section \<open>Views\<close>

datatype cptr = Null_ptr | In_buffer nat | Literal string

record ParsedHeader =
  ph_Header :: cptr
  ph_length :: nat

definition ParsedHeader_make :: "cptr \<Rightarrow> int \<Rightarrow> ParsedHeader" where
  "ParsedHeader_make ptr len = \<lparr>ph_Header = ptr, ph_length = size_of_int len\<rparr>"

text \<open>\<open>explicit ParsedHeader(const char*)\<close>, on a string literal.\<close>

definition ParsedHeader_literal :: "string \<Rightarrow> ParsedHeader" where
  "ParsedHeader_literal s = \<lparr>ph_Header = Literal s, ph_length = length s\<rparr>"

text \<open>The bytes from a pointer on; a literal ends with a zero byte.\<close>

fun bytes_at :: "char list \<Rightarrow> cptr \<Rightarrow> cpp_error + char list" where
  "bytes_at mem Null_ptr = Inl Null_deref"
| "bytes_at mem (In_buffer p) = (if p \<le> length mem then Inr (drop p mem) else Inl Bad_access)"
| "bytes_at mem (Literal s) = Inr (s @ [CHR 0x00])"

text \<open>\<open>char Peek(int jump)\<close>: its guard admits one position past the end of the view.\<close>

definition PH_Peek :: "char list \<Rightarrow> ParsedHeader \<Rightarrow> nat \<Rightarrow> cpp_error + char" where
  "PH_Peek mem ph jump =
     (if jump > ph_length ph then Inl Out_of_range
      else case bytes_at mem (ph_Header ph) of
             Inl e \<Rightarrow> Inl e
           | Inr bs \<Rightarrow> if jump < length bs then Inr (bs ! jump) else Inl Bad_access)"

section \<open>Comparing\<close>

text \<open>
  \<open>my_memcmp\<close> counts down before it compares, so that the last pair of bytes is compared by
  the subtraction after the loop.
\<close>

fun my_memcmp :: "char list \<Rightarrow> char list \<Rightarrow> nat \<Rightarrow> cpp_error + int" where
  "my_memcmp xs ys 0 = Inr 0"
| "my_memcmp (x # xs) (y # ys) (Suc n) =
     (if n \<noteq> 0 \<and> x = y then my_memcmp xs ys n
      else Inr (int (char_code x) - int (char_code y)))"
| "my_memcmp _ _ (Suc n) = Inl Bad_access"

fun my_strlen :: "char list \<Rightarrow> cpp_error + nat" where
  "my_strlen [] = Inl Bad_access"
| "my_strlen (c # cs) =
     (if c = CHR 0x00 then Inr 0
      else case my_strlen cs of Inl e \<Rightarrow> Inl e | Inr n \<Rightarrow> Inr (Suc n))"

text \<open>\<open>strncmp(a, b, n) == 0\<close> stops at a common zero byte.\<close>

fun strncmp_eq :: "char list \<Rightarrow> char list \<Rightarrow> nat \<Rightarrow> cpp_error + bool" where
  "strncmp_eq xs ys 0 = Inr True"
| "strncmp_eq (x # xs) (y # ys) (Suc n) =
     (if x \<noteq> y then Inr False else if x = CHR 0x00 then Inr True else strncmp_eq xs ys n)"
| "strncmp_eq _ _ (Suc n) = Inl Bad_access"

definition view_eq ::
  "char list \<Rightarrow> ParsedHeader \<Rightarrow> ParsedHeader \<Rightarrow> (char list \<Rightarrow> char list \<Rightarrow> nat \<Rightarrow> cpp_error + bool)
     \<Rightarrow> cpp_error + bool" where
  "view_eq mem a b cmp =
     (if ph_length a \<noteq> ph_length b then Inr False
      else case bytes_at mem (ph_Header a) of
             Inl e \<Rightarrow> Inl e
           | Inr xs \<Rightarrow> (case bytes_at mem (ph_Header b) of
                          Inl e \<Rightarrow> Inl e
                        | Inr ys \<Rightarrow> cmp xs ys (ph_length a)))"

definition memcmp_eq :: "char list \<Rightarrow> char list \<Rightarrow> nat \<Rightarrow> cpp_error + bool" where
  "memcmp_eq xs ys n = (case my_memcmp xs ys n of Inl e \<Rightarrow> Inl e | Inr d \<Rightarrow> Inr (d = 0))"

definition ParsedHeaderIsEqual ::
  "char list \<Rightarrow> ParsedHeader \<Rightarrow> ParsedHeader \<Rightarrow> cpp_error + bool" where
  "ParsedHeaderIsEqual mem a b = view_eq mem a b memcmp_eq"

text \<open>\<open>bool ParsedHeaderIsEqual(const char* ptr)\<close>.\<close>

definition ParsedHeaderIsEqual_str ::
  "char list \<Rightarrow> ParsedHeader \<Rightarrow> cptr \<Rightarrow> cpp_error + bool" where
  "ParsedHeaderIsEqual_str mem a ptr =
     (case bytes_at mem ptr of
        Inl e \<Rightarrow> Inl e
      | Inr ys \<Rightarrow>
          (case my_strlen ys of
             Inl e \<Rightarrow> Inl e
           | Inr len \<Rightarrow>
               if ph_length a \<noteq> len then Inr False
               else case bytes_at mem (ph_Header a) of
                      Inl e \<Rightarrow> Inl e
                    | Inr xs \<Rightarrow> memcmp_eq xs ys (ph_length a)))"

definition ParsedHeader_op_eq ::
  "char list \<Rightarrow> ParsedHeader \<Rightarrow> ParsedHeader \<Rightarrow> cpp_error + bool" where
  "ParsedHeader_op_eq mem a b = view_eq mem a b strncmp_eq"

section \<open>The request\<close>

record HttpRequest =
  Version_Major :: int
  Version_Minor :: int
  Content_Start :: cptr
  rq_Content_Length :: nat
  rq_StatusCode :: HttpStatusCode
  rq_Method :: HttpRequestMethod
  rq_Flag :: HttpFlag
  rq_Fault :: HttpParserFault
  rq_Uri :: ParsedHeader
  Request_Buffer_set :: bool
  Header_Value :: "(ParsedHeader \<times> ParsedHeader) list"

text \<open>
  \<open>Request_Buffer_\<close> is null until \<open>SetRequesting\<close> makes it the connection's user buffer.
  The constructor leaves the scalar fields as they are in memory (\<open>junk\<close>).
\<close>

definition HttpRequest_new :: "HttpRequest \<Rightarrow> HttpRequest" where
  "HttpRequest_new junk = junk\<lparr>Request_Buffer_set := False, Header_Value := []\<rparr>"

text \<open>
  \<open>Store_Header\<close> is \<open>unordered_map::emplace\<close>: nothing is inserted when the search of
  the table finds an equal key. The hash of a view is computed from its address and its length,
  not from its bytes, so which stored keys a search compares with depends on the addresses:
  \<open>visits k' k\<close> says whether the search for \<open>k\<close> comes by the stored key \<open>k'\<close>.
\<close>

fun find_equal_key ::
  "char list \<Rightarrow> (ParsedHeader \<Rightarrow> ParsedHeader \<Rightarrow> bool) \<Rightarrow> ParsedHeader
     \<Rightarrow> (ParsedHeader \<times> ParsedHeader) list \<Rightarrow> cpp_error + bool" where
  "find_equal_key mem visits k [] = Inr False"
| "find_equal_key mem visits k ((k', v) # es) =
     (if visits k' k
      then (case ParsedHeader_op_eq mem k' k of
              Inl e \<Rightarrow> Inl e
            | Inr True \<Rightarrow> Inr True
            | Inr False \<Rightarrow> find_equal_key mem visits k es)
      else find_equal_key mem visits k es)"

definition Store_Header ::
  "char list \<Rightarrow> (ParsedHeader \<Rightarrow> ParsedHeader \<Rightarrow> bool) \<Rightarrow> HttpRequest
     \<Rightarrow> ParsedHeader \<Rightarrow> ParsedHeader \<Rightarrow> cpp_error + HttpRequest" where
  "Store_Header mem visits rq header val =
     (case find_equal_key mem visits header (Header_Value rq) of
        Inl e \<Rightarrow> Inl e
      | Inr found \<Rightarrow>
          Inr (if found then rq
               else rq\<lparr>Header_Value := Header_Value rq @ [(header, val)]\<rparr>))"

text \<open>
  \<open>Get_Value\<close> is a linear \<open>find_if\<close> over the table, in an iteration order that the
  library does not specify (\<open>order\<close>).
\<close>

fun find_if_equal ::
  "char list \<Rightarrow> ParsedHeader \<Rightarrow> (ParsedHeader \<times> ParsedHeader) list \<Rightarrow> cpp_error + ParsedHeader" where
  "find_if_equal mem h [] = Inl Invalid_argument"
| "find_if_equal mem h ((k, v) # es) =
     (case ParsedHeaderIsEqual mem k h of
        Inl e \<Rightarrow> Inl e
      | Inr True \<Rightarrow> Inr v
      | Inr False \<Rightarrow> find_if_equal mem h es)"

definition Get_Value ::
  "char list \<Rightarrow> ((ParsedHeader \<times> ParsedHeader) list \<Rightarrow> (ParsedHeader \<times> ParsedHeader) list)
     \<Rightarrow> HttpRequest \<Rightarrow> ParsedHeader \<Rightarrow> cpp_error + ParsedHeader" where
  "Get_Value mem order rq header = find_if_equal mem header (order (Header_Value rq))"

definition Request_good :: "HttpRequest \<Rightarrow> bool" where
  "Request_good rq \<longleftrightarrow> rq_Fault rq = HPFContent"

text \<open>
  \<open>clear\<close> cleans the buffer, through a pointer that is null before the first parse, and
  empties the table. The buffer it cleans is the user buffer, which belongs to the caller's state.
\<close>

definition HttpRequest_clear :: "UserBuffer \<Rightarrow> HttpRequest \<Rightarrow> (UserBuffer \<times> HttpRequest, unit) cpp" where
  "HttpRequest_clear ub rq =
     (if Request_Buffer_set rq then (Inr (), UB_Clean ub, rq\<lparr>Header_Value := []\<rparr>)
      else (Inl Null_deref, ub, rq))"

section \<open>What a view shows, and when two views are equal\<close>

fun view_base :: "char list \<Rightarrow> cptr \<Rightarrow> char list" where
  "view_base mem Null_ptr = []"
| "view_base mem (In_buffer p) = drop p mem"
| "view_base mem (Literal s) = s @ [CHR 0x00]"

definition view_bytes :: "char list \<Rightarrow> ParsedHeader \<Rightarrow> char list" where
  "view_bytes mem ph = take (ph_length ph) (view_base mem (ph_Header ph))"

fun ptr_ok :: "char list \<Rightarrow> cptr \<Rightarrow> bool" where
  "ptr_ok mem Null_ptr = False"
| "ptr_ok mem (In_buffer p) = (p \<le> length mem)"
| "ptr_ok mem (Literal s) = True"

definition view_ok :: "char list \<Rightarrow> ParsedHeader \<Rightarrow> bool" where
  "view_ok mem ph \<longleftrightarrow>
     ptr_ok mem (ph_Header ph) \<and> ph_length ph \<le> length (view_base mem (ph_Header ph))"

lemma bytes_at_ok: "ptr_ok mem p \<Longrightarrow> bytes_at mem p = Inr (view_base mem p)"
  by (cases p) simp_all

lemma length_view_bytes [simp]: "view_ok mem ph \<Longrightarrow> length (view_bytes mem ph) = ph_length ph"
  by (simp add: view_ok_def view_bytes_def)

lemma view_bytes_slice:
  "ph_Header ph = In_buffer p \<Longrightarrow> view_bytes mem ph = slice mem p (ph_length ph)"
  by (simp add: view_bytes_def slice_def)

lemma view_ok_literal [simp]: "view_ok mem (ParsedHeader_literal s)"
  by (simp add: view_ok_def ParsedHeader_literal_def)

lemma view_bytes_literal [simp]: "view_bytes mem (ParsedHeader_literal s) = s"
  by (simp add: view_bytes_def ParsedHeader_literal_def)

lemma my_memcmp_spec:
  assumes "n \<le> length xs" and "n \<le> length ys"
  shows "\<exists>d. my_memcmp xs ys n = Inr d \<and> (d = 0 \<longleftrightarrow> take n xs = take n ys)"
  using assms
  by (induction xs ys n rule: my_memcmp.induct) (auto simp: char_code_eq Suc_le_eq)

lemma memcmp_eq_spec:
  assumes "n \<le> length xs" and "n \<le> length ys"
  shows "memcmp_eq xs ys n = Inr (take n xs = take n ys)"
  using my_memcmp_spec [OF assms] by (auto simp: memcmp_eq_def)

lemma strncmp_eq_spec:
  assumes "n \<le> length xs" and "n \<le> length ys" and "CHR 0x00 \<notin> set (take n xs)"
  shows "strncmp_eq xs ys n = Inr (take n xs = take n ys)"
  using assms by (induction xs ys n rule: strncmp_eq.induct) auto

lemma my_strlen_spec: "CHR 0x00 \<notin> set s \<Longrightarrow> my_strlen (s @ CHR 0x00 # rest) = Inr (length s)"
  by (induction s) auto

lemma view_eq_spec:
  assumes "view_ok mem a" and "view_ok mem b"
    and "\<And>xs ys n. n = ph_length a \<Longrightarrow> n \<le> length xs \<Longrightarrow> n \<le> length ys \<Longrightarrow>
           take n xs = view_bytes mem a \<Longrightarrow> cmp xs ys n = Inr (take n xs = take n ys)"
  shows "view_eq mem a b cmp = Inr (view_bytes mem a = view_bytes mem b)"
proof (cases "ph_length a = ph_length b")
  case False
  then have "view_bytes mem a \<noteq> view_bytes mem b"
    using assms(1,2) length_view_bytes by metis
  with False show ?thesis by (simp add: view_eq_def)
next
  case True
  have "cmp (view_base mem (ph_Header a)) (view_base mem (ph_Header b)) (ph_length a)
      = Inr (view_bytes mem a = view_bytes mem b)"
    using assms(1,2) True by (subst assms(3)) (auto simp: view_ok_def view_bytes_def)
  with True assms(1,2) show ?thesis by (simp add: view_eq_def bytes_at_ok view_ok_def)
qed

lemma ParsedHeaderIsEqual_spec:
  "view_ok mem a \<Longrightarrow> view_ok mem b \<Longrightarrow>
     ParsedHeaderIsEqual mem a b = Inr (view_bytes mem a = view_bytes mem b)"
  unfolding ParsedHeaderIsEqual_def by (rule view_eq_spec) (simp_all add: memcmp_eq_spec)

lemma ParsedHeader_op_eq_spec:
  "view_ok mem a \<Longrightarrow> view_ok mem b \<Longrightarrow> CHR 0x00 \<notin> set (view_bytes mem a) \<Longrightarrow>
     ParsedHeader_op_eq mem a b = Inr (view_bytes mem a = view_bytes mem b)"
  unfolding ParsedHeader_op_eq_def by (rule view_eq_spec) (simp_all add: strncmp_eq_spec)

lemma ParsedHeaderIsEqual_str_spec:
  assumes a: "view_ok mem a" and s: "CHR 0x00 \<notin> set s"
  shows "ParsedHeaderIsEqual_str mem a (Literal s) = Inr (view_bytes mem a = s)"
proof (cases "ph_length a = length s")
  case False
  then have "view_bytes mem a \<noteq> s" using a length_view_bytes by metis
  with False s show ?thesis
    using my_strlen_spec [OF s, of "[]"] by (simp add: ParsedHeaderIsEqual_str_def)
next
  case True
  then show ?thesis
    using a my_strlen_spec [OF s, of "[]"]
    by (simp add: ParsedHeaderIsEqual_str_def bytes_at_ok view_ok_def memcmp_eq_spec view_bytes_def)
qed

section \<open>The table of header fields\<close>

text \<open>
  \<open>table_ok\<close>: every key of the table is a readable view without zero bytes. The parser only
  stores such keys.
\<close>

definition table_ok :: "char list \<Rightarrow> (ParsedHeader \<times> ParsedHeader) list \<Rightarrow> bool" where
  "table_ok mem es \<longleftrightarrow>
     (\<forall>(k, v) \<in> set es. view_ok mem k \<and> CHR 0x00 \<notin> set (view_bytes mem k))"

lemma table_ok_simps [simp]:
  "table_ok mem []"
  "table_ok mem ((k, v) # es) \<longleftrightarrow>
     view_ok mem k \<and> CHR 0x00 \<notin> set (view_bytes mem k) \<and> table_ok mem es"
  "table_ok mem (es @ fs) \<longleftrightarrow> table_ok mem es \<and> table_ok mem fs"
  by (auto simp: table_ok_def)

definition table_names :: "char list \<Rightarrow> (ParsedHeader \<times> ParsedHeader) list \<Rightarrow> char list list" where
  "table_names mem es = map (view_bytes mem \<circ> fst) es"

lemma find_equal_key_spec:
  assumes "table_ok mem es" and "view_ok mem k"
  shows "find_equal_key mem visits k es =
     Inr (\<exists>e \<in> set es. visits (fst e) k \<and> view_bytes mem (fst e) = view_bytes mem k)"
  using assms by (induction es) (auto simp: ParsedHeader_op_eq_spec split: bool.splits)

text \<open>A field with a new name is always stored, whatever the table compares it with.\<close>

lemma Store_Header_new:
  assumes "table_ok mem (Header_Value rq)" and "view_ok mem k"
    and "view_bytes mem k \<notin> set (table_names mem (Header_Value rq))"
  shows "Store_Header mem visits rq k v = Inr (rq\<lparr>Header_Value := Header_Value rq @ [(k, v)]\<rparr>)"
proof -
  have "find_equal_key mem visits k (Header_Value rq) = Inr False"
    using assms by (force simp: find_equal_key_spec table_names_def)
  then show ?thesis by (simp add: Store_Header_def)
qed

lemma find_if_equal_spec:
  assumes "table_ok mem es" and "view_ok mem h"
  shows "find_if_equal mem h es =
     (case find (\<lambda>(k, v). view_bytes mem k = view_bytes mem h) es of
        None \<Rightarrow> Inl Invalid_argument | Some (k, v) \<Rightarrow> Inr v)"
  using assms by (induction es) (auto simp: ParsedHeaderIsEqual_spec split: prod.splits bool.splits)

text \<open>
  With distinct names the value found does not depend on the iteration order of the table.
\<close>

lemma find_if_equal_unique:
  assumes ok: "table_ok mem es" "view_ok mem h"
    and dist: "distinct (table_names mem es)"
    and mem: "(k, v) \<in> set es" "view_bytes mem k = view_bytes mem h"
    and perm: "set fs = set es"
  shows "find_if_equal mem h fs = Inr v"
proof -
  have "table_ok mem fs" using ok(1) perm by (simp add: table_ok_def)
  have uniq: "k' = k \<and> v' = v"
    if "(k', v') \<in> set es" "view_bytes mem k' = view_bytes mem h" for k' v'
  proof -
    have "inj_on (view_bytes mem \<circ> fst) (set es)"
      using dist by (simp add: table_names_def distinct_map)
    from inj_onD [OF this, of "(k', v')" "(k, v)"] show ?thesis using that mem by simp
  qed
  obtain kv where kv: "find (\<lambda>(k, v). view_bytes mem k = view_bytes mem h) fs = Some kv"
    using mem perm by (cases "find (\<lambda>(k, v). view_bytes mem k = view_bytes mem h) fs")
      (auto simp: find_None_iff)
  then have "kv \<in> set es" "view_bytes mem (fst kv) = view_bytes mem h"
    using perm by (auto simp: find_Some_iff) (metis nth_mem)
  with uniq have "snd kv = v" by (cases kv) auto
  with kv show ?thesis
    using find_if_equal_spec [OF \<open>table_ok mem fs\<close> ok(2)] by (cases kv) simp
qed

lemma Get_Value_missing:
  assumes "table_ok mem (Header_Value rq)" and "view_ok mem h"
    and "set (order (Header_Value rq)) = set (Header_Value rq)"
    and "view_bytes mem h \<notin> set (table_names mem (Header_Value rq))"
  shows "Get_Value mem order rq h = Inl Invalid_argument"
proof -
  have ok: "table_ok mem (order (Header_Value rq))" using assms(1,3) by (simp add: table_ok_def)
  have "find (\<lambda>(k, v). view_bytes mem k = view_bytes mem h) (order (Header_Value rq)) = None"
    using assms(3,4) by (force simp: find_None_iff table_names_def)
  then show ?thesis by (simp add: Get_Value_def find_if_equal_spec [OF ok assms(2)])
qed

end
