(* ===== verification/Write_Loop.thy ===== *)
theory Write_Loop
  imports User_Buffer
begin

text \<open>
  \<open>src/src/tool/writeloop.h\<close>, \<open>writeloop.cc\<close>, \<open>filereader.h\<close>, \<open>filereader.cc\<close> and
  the parts of \<open>fileproxy.cc\<close> they use: the output side of a connection, an output buffer and
  a queue of tasks that send a stretch of the buffer or a file. The kernel side of the socket is
  a record with its answers, the bytes it accepted and \<open>errno\<close>.
\<close>

section \<open>The socket, files and tasks\<close>

datatype send_errno = No_error | EWOULDBLOCK | EPIPE | ECONNRESET | Other_errno

text \<open>
  \<open>Sent n\<close> accepts at most \<open>n\<close> bytes of what is offered. When the answers are used up,
  the socket blocks.
\<close>

datatype send_answer = Sent nat | Send_failed send_errno

record Kernel =
  answers :: "send_answer list"
  wire :: "char list"
  errno :: send_errno

definition kernel_send :: "char list \<Rightarrow> Kernel \<Rightarrow> int \<times> Kernel" where
  "kernel_send bs k =
     (case answers k of
        [] \<Rightarrow> (- 1, k\<lparr>errno := EWOULDBLOCK\<rparr>)
      | Sent n # as \<Rightarrow>
          (let m = min n (length bs) in (int m, k\<lparr>answers := as, wire := wire k @ take m bs\<rparr>))
      | Send_failed e # as \<Rightarrow> (- 1, k\<lparr>answers := as, errno := e\<rparr>))"

text \<open>A \<open>FileReader\<close>: the file's bytes, its length when it was opened, and the offset.\<close>

record FileReader =
  file_bytes :: "char list"
  file_length :: int
  offest :: int

definition FileReader_open :: "char list \<Rightarrow> FileReader" where
  "FileReader_open bs = \<lparr>file_bytes = bs, file_length = int (length bs), offest = 0\<rparr>"

definition Send_End :: "FileReader \<Rightarrow> bool" where
  "Send_End fr \<longleftrightarrow> file_length fr = offest fr"

text \<open>\<open>sendfile\<close> advances the offset by what it sent.\<close>

definition FileReader_SendFile :: "FileReader \<Rightarrow> Kernel \<Rightarrow> int \<times> FileReader \<times> Kernel" where
  "FileReader_SendFile fr k =
     (case kernel_send (slice (file_bytes fr) (nat (offest fr)) (nat (file_length fr - offest fr))) k of
        (n, k) \<Rightarrow> (n, fr\<lparr>offest := offest fr + (if n < 0 then 0 else n)\<rparr>, k))"

text \<open>
  The closures of the queue: \<open>Send(length)\<close>, \<open>Send(User_Buffer_->Readable())\<close> with the
  length at the time it runs, and \<open>SendFile(ptr)\<close>.
\<close>

datatype task = Task_Send int | Task_Send_readable | Task_SendFile FileReader

datatype COMPLETETYPE = IMCOMPLETE | COMPLETE | EMPTY

record WriteLoop =
  wl_Buffer :: UserBuffer
  Que :: "task list"
  throughout :: "32 word"
  interval :: "32 word"
  reports :: "int list"

text \<open>
  The constructor does not assign \<open>interval\<close> (\<open>junk\<close>); \<open>reports\<close> are the arguments
  the load-balancing callback was called with.
\<close>

definition WriteLoop_new :: "32 word \<Rightarrow> nat \<Rightarrow> WriteLoop" where
  "WriteLoop_new junk len =
     \<lparr>wl_Buffer = UserBuffer_new len, Que = [], throughout = 0, interval = junk, reports = []\<rparr>"

section \<open>Filling the buffer and the queue\<close>

definition wl_write :: "char list \<Rightarrow> WriteLoop \<Rightarrow> (WriteLoop, int) cpp" where
  "wl_write buf w =
     (case UB_Write (wl_Buffer w) buf (int (length buf)) of (r, ub) \<Rightarrow> (r, w\<lparr>wl_Buffer := ub\<rparr>))"

definition wl_write_string :: "string \<Rightarrow> WriteLoop \<Rightarrow> (WriteLoop, int) cpp" where
  "wl_write_string str w =
     (case UB_Write_string (wl_Buffer w) str of (r, ub) \<Rightarrow> (r, w\<lparr>wl_Buffer := ub\<rparr>))"

text \<open>\<open>swrite\<close>: \<open>text\<close> is the formatted output.\<close>

definition swrite :: "string \<Rightarrow> WriteLoop \<Rightarrow> (WriteLoop, int) cpp" where
  "swrite text w =
     (case UB_SWrite (wl_Buffer w) text of
        (ub, ret) \<Rightarrow>
          (case UB_Write_count ub ret of
             (Inl e, ub) \<Rightarrow> (Inl e, w\<lparr>wl_Buffer := ub\<rparr>)
           | (Inr _, ub) \<Rightarrow> (Inr ret, w\<lparr>wl_Buffer := ub\<rparr>)))"

definition AddSend :: "int \<Rightarrow> WriteLoop \<Rightarrow> WriteLoop" where
  "AddSend len w = w\<lparr>Que := Que w @ [Task_Send len]\<rparr>"

definition AddSend_readable :: "WriteLoop \<Rightarrow> WriteLoop" where
  "AddSend_readable w = w\<lparr>Que := Que w @ [Task_Send_readable]\<rparr>"

definition AddSendFile :: "FileReader \<Rightarrow> WriteLoop \<Rightarrow> WriteLoop" where
  "AddSendFile fr w = w\<lparr>Que := Que w @ [Task_SendFile fr]\<rparr>"

definition InsertSend :: "int \<Rightarrow> WriteLoop \<Rightarrow> WriteLoop" where
  "InsertSend len w = w\<lparr>Que := Task_Send len # Que w\<rparr>"

text \<open>\<open>InsertSendFile\<close> puts the task at the end, too.\<close>

definition InsertSendFile :: "FileReader \<Rightarrow> WriteLoop \<Rightarrow> WriteLoop" where
  "InsertSendFile fr w = w\<lparr>Que := Que w @ [Task_SendFile fr]\<rparr>"

definition WriteLoop_clear :: "WriteLoop \<Rightarrow> WriteLoop" where
  "WriteLoop_clear w = w\<lparr>Que := [], wl_Buffer := UB_Clean (wl_Buffer w)\<rparr>"

section \<open>Sending\<close>

text \<open>
  The loop of \<open>Send\<close>: every \<open>send\<close> starts at \<open>ReadPtr()\<close>, which the loop does not
  move, and \<open>throughout\<close> is increased by the sum so far. What can be read behind the end of
  the block is not defined.
\<close>

function Send_loop ::
  "int \<Rightarrow> int \<Rightarrow> Kernel \<times> WriteLoop \<Rightarrow> (Kernel \<times> WriteLoop, int) cpp" where
  "Send_loop len sent (k, w) =
     (if len - sent \<le> 0 then (Inr sent, (k, w))
      else if length (Buffer (wl_Buffer w)) < UB_ReadPtr (wl_Buffer w) + nat (len - sent)
      then (Inl Bad_access, (k, w))
      else
        case kernel_send (slice (Buffer (wl_Buffer w)) (UB_ReadPtr (wl_Buffer w)) (nat (len - sent))) k of
          (ans, k) \<Rightarrow>
            if ans > 0 then
              Send_loop len (sent + ans)
                (k, w\<lparr>throughout := throughout w + word_of_int (sent + ans), interval := interval w + 1\<rparr>)
            else (Inr sent, (k, w)))"
  by pat_completeness auto
termination
  by (relation "measure (\<lambda>(len, sent, _). nat (len - sent))") auto

declare Send_loop.simps [simp del]

definition WL_Send :: "int \<Rightarrow> Kernel \<times> WriteLoop \<Rightarrow> (Kernel \<times> WriteLoop, COMPLETETYPE) cpp" where
  "WL_Send len s =
     (if len < 1 then (Inl Invalid_argument, s)
      else
        bindc (Send_loop len 0 s) (\<lambda>sent (k, w).
          (case UB_skip (wl_Buffer w) sent of
             (Inl e, ub) \<Rightarrow> (Inl e, (k, w\<lparr>wl_Buffer := ub\<rparr>))
           | (Inr _, ub) \<Rightarrow>
               (let w = w\<lparr>wl_Buffer := ub\<rparr>;
                    Remaining = len - sent;
                    faultError = (errno k = EPIPE \<or> errno k = ECONNRESET) in
                if \<not> faultError \<and> Remaining > 0
                then (Inr IMCOMPLETE, (k, InsertSend Remaining w))
                else (Inr COMPLETE, (k, w))))))"

text \<open>
  \<open>SendFile\<close>: the condition \<open>len = ptr->SendFile(fd_) && len > 0\<close> assigns the value of
  the conjunction, whose second operand is evaluated with the old \<open>len\<close>, zero. So
  \<open>sendfile\<close> is called once and the body of the loop is not executed.
\<close>

definition WL_SendFile :: "FileReader \<Rightarrow> Kernel \<times> WriteLoop \<Rightarrow> (Kernel \<times> WriteLoop, COMPLETETYPE) cpp" where
  "WL_SendFile fr s =
     (case s of (k, w) \<Rightarrow>
        (let w = w\<lparr>interval := interval w + 1\<rparr> in
         case FileReader_SendFile fr k of
           (n, fr, k) \<Rightarrow>
             if \<not> Send_End fr then (Inr IMCOMPLETE, (k, InsertSendFile fr w))
             else (Inr COMPLETE, (k, w))))"

fun run_task :: "task \<Rightarrow> Kernel \<times> WriteLoop \<Rightarrow> (Kernel \<times> WriteLoop, COMPLETETYPE) cpp" where
  "run_task (Task_Send len) s = WL_Send len s"
| "run_task Task_Send_readable s = WL_Send (int (UB_Readable (wl_Buffer (snd s)))) s"
| "run_task (Task_SendFile fr) s = WL_SendFile fr s"

definition DoFirst :: "Kernel \<times> WriteLoop \<Rightarrow> (Kernel \<times> WriteLoop, COMPLETETYPE) cpp" where
  "DoFirst s =
     (case s of (k, w) \<Rightarrow>
        (case Que w of
           [] \<Rightarrow> (Inr EMPTY, (k, w))
         | t # ts \<Rightarrow> run_task t (k, w\<lparr>Que := ts\<rparr>)))"

definition report_interval :: "WriteLoop \<Rightarrow> WriteLoop" where
  "report_interval w =
     (if interval w \<ge> 3
      then w\<lparr>reports := reports w @ [sint (throughout w)], throughout := 0, interval := 0\<rparr>
      else w)"

text \<open>A task that completes has left the queue, so the loop of \<open>DoAll\<close> ends.\<close>

lemma Send_loop_Que: "Que (snd (snd (Send_loop len sent s))) = Que (snd s)"
proof (induction len sent s rule: Send_loop.induct)
  case (1 len sent k w)
  then show ?case by (subst Send_loop.simps) (simp add: case_prod_beta split: prod.split)
qed

lemma run_task_COMPLETE:
  assumes "run_task t (k, w) = (Inr COMPLETE, (k', w'))"
  shows "Que w' = Que w"
  using assms
proof (cases t)
  case (Task_SendFile fr)
  then show ?thesis
    using assms by (auto simp: WL_SendFile_def Let_def split: prod.splits if_splits)
next
  have *: "Que w' = Que w" if "WL_Send len (k, w) = (Inr COMPLETE, (k', w'))" for len
    using that Send_loop_Que [of len 0 "(k, w)"]
    by (auto simp: WL_Send_def Let_def bindc_def split: if_splits sum.splits prod.splits)
  {
    case (Task_Send len)
    then show ?thesis using assms * by simp
  next
    case Task_Send_readable
    then show ?thesis using assms * by simp
  }
qed

lemma DoFirst_COMPLETE:
  assumes "DoFirst (k, w) = (Inr COMPLETE, (k', w'))"
  shows "length (Que w') < length (Que w)"
  using assms run_task_COMPLETE [of _ k "w\<lparr>Que := tl (Que w)\<rparr>" k' w']
  by (auto simp: DoFirst_def split: list.splits)

function DoAll :: "Kernel \<times> WriteLoop \<Rightarrow> (Kernel \<times> WriteLoop, COMPLETETYPE) cpp" where
  "DoAll (k, w) =
     (case DoFirst (k, w) of
        (Inl e, s) \<Rightarrow> (Inl e, s)
      | (Inr c, (k, w)) \<Rightarrow>
          (let w = report_interval w in
           if c = COMPLETE then DoAll (k, w) else (Inr c, (k, w))))"
  by pat_completeness auto
termination
proof (relation "measure (\<lambda>(k, w). length (Que w))")
  fix k :: Kernel and w :: WriteLoop and a s c k' w' x
  show "wf (measure (\<lambda>(k, w). length (Que w)))" by simp
  show "((k', x), k, w) \<in> measure (\<lambda>(k, w). length (Que w))"
    if "(a, s) = DoFirst (k, w)" "a = Inr c" "(k', w') = s" "x = report_interval w'" "c = COMPLETE"
    using that DoFirst_COMPLETE [of k w k' w'] by (auto simp: report_interval_def)
qed

declare DoAll.simps [simp del]

end
