(* ===== verification/Provider.thy ===== *)
theory Provider
  imports Http_Request Write_Loop Mime_Table
begin

text \<open>
  \<open>src/src/http/provider/provider.h\<close>, \<open>provider.cc\<close>, \<open>reaprovider.h\<close> and
  \<open>reaprovider.cc\<close>: building the response. The state is the parsed request and the output
  side; \<open>mem\<close> is the block of the user buffer, into which the views of the request lead.
  Parameters: the date line that \<open>strftime\<close> prints (\<open>date\<close>), the size of the block that
  the allocator returns (\<open>usable\<close>), the file system and the FastCGI exchange.
\<close>

section \<open>Printing\<close>

definition line_end :: string where
  "line_end = [CHR 0x0D, CHR 0x0A]"

definition newline :: string where
  "newline = [CHR 0x0A]"

definition Version :: string where
  "Version = ''0.0''"

text \<open>\<open>swrite\<close> on a state of request and output side.\<close>

type_synonym provider = "HttpRequest \<times> WriteLoop"

definition p_swrite :: "string \<Rightarrow> provider \<Rightarrow> (provider, int) cpp" where
  "p_swrite s p = (case swrite s (snd p) of (r, w) \<Rightarrow> (r, (fst p, w)))"

definition p_write :: "string \<Rightarrow> provider \<Rightarrow> (provider, int) cpp" where
  "p_write s p = (case wl_write s (snd p) of (r, w) \<Rightarrow> (r, (fst p, w)))"

definition Set_StatusCode :: "HttpStatusCode \<Rightarrow> provider \<Rightarrow> provider" where
  "Set_StatusCode c p = ((fst p)\<lparr>rq_StatusCode := c\<rparr>, snd p)"

definition p_AddSend :: "int \<Rightarrow> provider \<Rightarrow> provider" where
  "p_AddSend n p = (fst p, AddSend n (snd p))"

definition p_AddSendFile :: "FileReader \<Rightarrow> provider \<Rightarrow> provider" where
  "p_AddSendFile fr p = (fst p, AddSendFile fr (snd p))"

text \<open>\<open>ret += f()\<close>.\<close>

definition plus_ret :: "int \<Rightarrow> (provider \<Rightarrow> (provider, int) cpp) \<Rightarrow> provider \<Rightarrow> (provider, int) cpp" where
  "plus_ret ret f p = bindc (f p) (\<lambda>r p. (Inr (ret + r), p))"

section \<open>The parts of a response\<close>

definition head_text :: "int \<Rightarrow> int \<Rightarrow> int \<Rightarrow> string" where
  "head_text ma mi T =
     ''HTTP/'' @ dec_string ma @ ''.'' @ dec_string mi @ '' '' @ dec_string T @ '' '' @
     StatusCode_to_String T @ line_end"

definition server_text :: string where
  "server_text = ''Server: MxcServer(Yuanmxc_Arch) '' @ Version @ line_end"

definition WriteHead :: "int \<Rightarrow> int \<Rightarrow> HttpStatusCode \<Rightarrow> provider \<Rightarrow> (provider, int) cpp" where
  "WriteHead ma mi code p =
     bindc (p_swrite (head_text ma mi (HttpStatusCode_value code)) p) (\<lambda>ret p.
     plus_ret ret (p_swrite server_text) p)"

definition WriteDate :: "string \<Rightarrow> provider \<Rightarrow> (provider, int) cpp" where
  "WriteDate date p = p_swrite date p"

text \<open>The formats that are used end with their only \<open>%s\<close>.\<close>

definition WriteItem :: "string \<Rightarrow> string \<Rightarrow> provider \<Rightarrow> (provider, int) cpp" where
  "WriteItem key va p = p_swrite (key @ va) p"

definition WriteConnection :: "provider \<Rightarrow> (provider, int) cpp" where
  "WriteConnection p =
     p_swrite (''Connection: '' @
       (if rq_Flag (fst p) = Keep_Alive then ''Keep-alive'' @ newline else ''Close'' @ newline)) p"

text \<open>The format of \<open>WriteCRLF\<close> is written with slashes.\<close>

definition WriteCRLF :: "provider \<Rightarrow> (provider, int) cpp" where
  "WriteCRLF p = p_swrite ''/r/n'' p"

definition RegularProvide_type :: "string \<Rightarrow> int \<Rightarrow> string \<Rightarrow> provider \<Rightarrow> (provider, int) cpp" where
  "RegularProvide_type date Content_Length Content_Type p =
     bindc (WriteHead (Version_Major (fst p)) (Version_Minor (fst p)) (rq_StatusCode (fst p)) p) (\<lambda>ret p.
     bindc (plus_ret ret (WriteDate date) p) (\<lambda>ret p.
     bindc (plus_ret ret WriteConnection p) (\<lambda>ret p.
     bindc (plus_ret ret (WriteItem ''Content-Type: '' Content_Type) p) (\<lambda>ret p.
     bindc (plus_ret ret (WriteItem (newline @ ''Content-Length: '') (dec_string Content_Length)) p) (\<lambda>ret p.
       plus_ret ret (WriteItem (newline @ ''Content-Language: '') ''en-US'') p)))))"

section \<open>The content type\<close>

definition defaultMIME :: string where
  "defaultMIME = ''text/html'' @ newline"

definition IsFilename :: "char \<Rightarrow> bool" where
  "IsFilename x \<longleftrightarrow>
     \<not> (x = CHR ''?'' \<or> x = CHR 0x5C \<or> x = CHR ''/'' \<or> x = CHR ''*'' \<or> x = CHR 0x22 \<or>
        x = CHR 0x27 \<or> x = CHR ''<'' \<or> x = CHR ''>'' \<or> x = CHR ''|'')"

text \<open>A \<open>std::string\<close> that is made from a null pointer throws \<open>std::logic_error\<close>.\<close>

definition MIME :: "string \<Rightarrow> cpp_error + string" where
  "MIME type =
     (let res = FindMIME_get type in if res = ''nullptr'' then Inl Logic_error else Inr res)"

text \<open>The scan runs backwards from \<open>Start\<close>; \<open>End\<close> moves to the first byte that ends a name.\<close>

fun adapt_scan :: "char list \<Rightarrow> nat \<Rightarrow> nat \<Rightarrow> nat \<times> nat" where
  "adapt_scan bs 0 End = (0, End)"
| "adapt_scan bs (Suc n) End =
     (if bs ! Suc n = CHR ''.'' then (Suc n, End)
      else adapt_scan bs n (if \<not> IsFilename (bs ! Suc n) then Suc n else End))"

definition AutoAdapt :: "char list \<Rightarrow> HttpRequest \<Rightarrow> cpp_error + string" where
  "AutoAdapt mem rq =
     (case bytes_at mem (ph_Header (rq_Uri rq)) of
        Inl e \<Rightarrow> Inl e
      | Inr bs \<Rightarrow>
          (let n = ph_length (rq_Uri rq) in
           if length bs \<le> n then Inl Bad_access
           else case adapt_scan bs n n of
                  (Start, End) \<Rightarrow>
                    if Start = 0 then Inr defaultMIME else MIME (slice bs Start (End - Start))))"

definition RegularProvide :: "char list \<Rightarrow> string \<Rightarrow> int \<Rightarrow> provider \<Rightarrow> (provider, int) cpp" where
  "RegularProvide mem date Content_Length p =
     (case AutoAdapt mem (fst p) of
        Inl e \<Rightarrow> (Inl e, p)
      | Inr type \<Rightarrow> RegularProvide_type date Content_Length type p)"

section \<open>An error page\<close>

definition error_page :: string where
  "error_page = ''<html><head><title>MxcServer/HTTP Error</title></head>''"

definition ProvideError :: "char list \<Rightarrow> string \<Rightarrow> provider \<Rightarrow> (provider, int) cpp" where
  "ProvideError mem date p =
     (let len = int (length error_page); p = Set_StatusCode HSCBadRequest p in
      bindc (RegularProvide mem date (len - 1) p) (\<lambda>ret p.
      bindc (plus_ret ret WriteCRLF p) (\<lambda>ret p.
      bindc (plus_ret ret (p_swrite error_page) p) (\<lambda>ret p. (Inr ret, p_AddSend ret p)))))"

section \<open>Files\<close>

text \<open>
  An opened file: the mode bits of \<open>fstat\<close> and the bytes. \<open>os_openat base path\<close> is
  \<open>openat\<close> relative to the descriptor that \<open>open\<close> gives for \<open>base\<close>.
\<close>

record os_file =
  st_mode :: "32 word"
  st_bytes :: "char list"

record os =
  os_open :: "string \<Rightarrow> os_file option"
  os_openat :: "string \<Rightarrow> string \<Rightarrow> os_file option"
  usable :: "nat \<Rightarrow> nat"
  fastcgi :: "string \<Rightarrow> string \<Rightarrow> cpp_error + string"

text \<open>\<open>S_IFDIR\<close>, \<open>S_IFCHR\<close>, \<open>S_IFBLK\<close>, \<open>S_IFIFO\<close>.\<close>

unbundle bit_operations_syntax

definition IsTextFile :: "os_file \<Rightarrow> bool" where
  "IsTextFile f \<longleftrightarrow>
     st_mode f AND 0x4000 \<noteq> 0 \<or> st_mode f AND 0x2000 \<noteq> 0 \<or>
     st_mode f AND 0x6000 \<noteq> 0 \<or> st_mode f AND 0x1000 \<noteq> 0"

text \<open>The bytes that a copy of \<open>n\<close> bytes reads from a view.\<close>

definition view_copy :: "char list \<Rightarrow> ParsedHeader \<Rightarrow> nat \<Rightarrow> cpp_error + string" where
  "view_copy mem ph n =
     (case bytes_at mem (ph_Header ph) of
        Inl e \<Rightarrow> Inl e
      | Inr bs \<Rightarrow> if length bs < n then Inl Bad_access else Inr (take n bs))"

definition open_target :: "os \<Rightarrow> string \<Rightarrow> string \<Rightarrow> os_file option" where
  "open_target s host uri =
     (if uri = ''/'' then os_open s ''../src/index.html'' else os_openat s host uri)"

text \<open>
  \<open>FileProvider\<close>: \<open>new char(n)\<close> allocates one \<open>char\<close>, into which the URI and a zero byte
  are copied. The value is the opened file, if it can be sent.
\<close>

definition FileProvider ::
  "os \<Rightarrow> char list \<Rightarrow> ((ParsedHeader \<times> ParsedHeader) list \<Rightarrow> (ParsedHeader \<times> ParsedHeader) list)
     \<Rightarrow> provider \<Rightarrow> (provider, FileReader option) cpp" where
  "FileProvider s mem order p =
     (let rq = fst p in
      if \<not> Request_good rq then (Inr None, Set_StatusCode HSCBadRequest p)
      else case Get_Value mem order rq (ParsedHeader_literal ''Host'') of
        Inl e \<Rightarrow> (Inl e, p)
      | Inr x \<Rightarrow>
          (case view_copy mem x (ph_length x + 1) of
             Inl e \<Rightarrow> (Inl e, p)
           | Inr str \<Rightarrow>
               (let host = take (ph_length x) str; y = rq_Uri rq in
                case view_copy mem y (ph_length y) of
                  Inl e \<Rightarrow> (Inl e, p)
                | Inr uri \<Rightarrow>
                    if usable s 1 < ph_length y + 1 then (Inl Bad_access, p)
                    else case open_target s host uri of
                           None \<Rightarrow> (Inr None, Set_StatusCode HSCForbidden p)
                         | Some f \<Rightarrow>
                             if IsTextFile f then (Inr None, Set_StatusCode HSCForbidden p)
                             else (Inr (Some (FileReader_open (st_bytes f))), Set_StatusCode HSCOK p))))"

section \<open>Answering a request\<close>

text \<open>
  The FastCGI branch. The zero byte behind the file name is stored at the length of the host.
\<close>

definition provide_post ::
  "os \<Rightarrow> char list \<Rightarrow> ((ParsedHeader \<times> ParsedHeader) list \<Rightarrow> (ParsedHeader \<times> ParsedHeader) list)
     \<Rightarrow> string \<Rightarrow> provider \<Rightarrow> (provider, unit) cpp" where
  "provide_post s mem order date p =
     (let rq = fst p in
      case Get_Value mem order rq (ParsedHeader_literal ''Host'') of
        Inl e \<Rightarrow> (Inl e, p)
      | Inr x \<Rightarrow>
          (case view_copy mem x (ph_length x + 1) of
             Inl e \<Rightarrow> (Inl e, p)
           | Inr str \<Rightarrow>
               (let Host = str[ph_length x := CHR 0x00]; y = rq_Uri rq in
                case view_copy mem y (ph_length y + 1) of
                  Inl e \<Rightarrow> (Inl e, p)
                | Inr name \<Rightarrow>
                    if length name < ph_length x then (Inl Bad_access, p)
                    else
                      let Filename = name[ph_length x := CHR 0x00] in
                      case fastcgi s (Host @ ''/'' @ Filename) ''hello world'' of
                        Inl e \<Rightarrow> (Inl e, p)
                      | Inr Content \<Rightarrow>
                          if \<not> Request_good rq
                          then bindc (ProvideError mem date (Set_StatusCode HSCBadRequest p)) (\<lambda>_ p. (Inr (), p))
                          else
                            bindc (RegularProvide mem date (int (length Content)) (Set_StatusCode HSCOK p)) (\<lambda>ret p.
                            bindc (plus_ret ret WriteCRLF p) (\<lambda>ret p.
                            bindc (plus_ret ret (p_write Content) p) (\<lambda>ret p.
                            bindc (plus_ret ret WriteCRLF p) (\<lambda>ret p.
                              (Inr (), p_AddSend ret p))))))))"

definition provide_file ::
  "char list \<Rightarrow> string \<Rightarrow> FileReader \<Rightarrow> provider \<Rightarrow> (provider, unit) cpp" where
  "provide_file mem date file p =
     bindc (RegularProvide mem date (file_length file) p) (\<lambda>ret p.
     bindc (plus_ret ret WriteCRLF p) (\<lambda>ret p.
       let p = p_AddSendFile file (p_AddSend ret p) in
       bindc (WriteCRLF p) (\<lambda>ret p. (Inr (), p_AddSend ret p))))"

definition provide ::
  "os \<Rightarrow> char list \<Rightarrow> ((ParsedHeader \<times> ParsedHeader) list \<Rightarrow> (ParsedHeader \<times> ParsedHeader) list)
     \<Rightarrow> string \<Rightarrow> provider \<Rightarrow> (provider, unit) cpp" where
  "provide s mem order date p =
     (if rq_Method (fst p) = HRPost then provide_post s mem order date p
      else
        bindc (FileProvider s mem order p) (\<lambda>file p.
          case file of
            Some f \<Rightarrow> provide_file mem date f p
          | None \<Rightarrow> bindc (ProvideError mem date p) (\<lambda>_ p. (Inr (), p))))"

end
