(* ===== verification/Write_Loop_Order.thy ===== *)
theory Write_Loop_Order
  imports Write_Loop
begin

text \<open>
  What the output side promises: the bytes reach the socket in the order in which the tasks
  were added. \<open>pending\<close> is the abstract value of a queue, the bytes that are still to be
  sent; \<open>stream\<close> is what the peer has and will get.
\<close>

section \<open>The bytes that are still to be sent\<close>

definition file_rest :: "FileReader \<Rightarrow> char list" where
  "file_rest fr = drop (nat (offest fr)) (file_bytes fr)"

definition file_ok :: "FileReader \<Rightarrow> bool" where
  "file_ok fr \<longleftrightarrow> file_length fr = int (length (file_bytes fr)) \<and> 0 \<le> offest fr \<and> offest fr \<le> file_length fr"

fun pending :: "char list \<Rightarrow> task list \<Rightarrow> char list" where
  "pending cs [] = []"
| "pending cs (Task_Send len # ts) = take (nat len) cs @ pending (drop (nat len) cs) ts"
| "pending cs (Task_Send_readable # ts) = cs @ pending [] ts"
| "pending cs (Task_SendFile fr # ts) = file_rest fr @ pending cs ts"

fun tasks_ok :: "char list \<Rightarrow> task list \<Rightarrow> bool" where
  "tasks_ok cs [] \<longleftrightarrow> True"
| "tasks_ok cs (Task_Send len # ts) \<longleftrightarrow>
     1 \<le> len \<and> nat len \<le> length cs \<and> tasks_ok (drop (nat len) cs) ts"
| "tasks_ok cs (Task_Send_readable # ts) \<longleftrightarrow> cs \<noteq> [] \<and> tasks_ok [] ts"
| "tasks_ok cs (Task_SendFile fr # ts) \<longleftrightarrow> file_ok fr \<and> tasks_ok cs ts"

definition wl_ok :: "WriteLoop \<Rightarrow> bool" where
  "wl_ok w \<longleftrightarrow> UB_wf (wl_Buffer w) \<and> tasks_ok (UB_content (wl_Buffer w)) (Que w)"

definition wl_pending :: "WriteLoop \<Rightarrow> char list" where
  "wl_pending w = pending (UB_content (wl_Buffer w)) (Que w)"

definition stream :: "Kernel \<times> WriteLoop \<Rightarrow> char list" where
  "stream s = wire (fst s) @ wl_pending (snd s)"

lemma file_ok_open [simp]: "file_ok (FileReader_open bs)" "file_rest (FileReader_open bs) = bs"
  by (simp_all add: file_ok_def file_rest_def FileReader_open_def)

section \<open>One \<open>Send\<close>\<close>

lemma slice_content:
  assumes "UB_wf ub" and "n \<le> length (UB_content ub)"
  shows "slice (Buffer ub) (UB_ReadPtr ub) n = take n (UB_content ub)"
    and "UB_ReadPtr ub + n \<le> length (Buffer ub)"
  using assms by (auto simp: UB_content_def slice_def UB_ReadPtr_def length_UB_content min_absorb1 UB_wf_def)

text \<open>The buffer after \<open>n\<close> of its bytes were sent.\<close>

definition wl_advance :: "nat \<Rightarrow> WriteLoop \<Rightarrow> WriteLoop" where
  "wl_advance n w = w\<lparr>wl_Buffer := (wl_Buffer w)\<lparr>Read_Spot := Read_Spot (wl_Buffer w) + n\<rparr>\<rparr>"

lemma wl_advance_simps [simp]: "Que (wl_advance n w) = Que w"
  "n \<le> length (UB_content (wl_Buffer w)) \<Longrightarrow> UB_wf (wl_Buffer w) \<Longrightarrow> UB_wf (wl_Buffer (wl_advance n w))"
  "n \<le> length (UB_content (wl_Buffer w)) \<Longrightarrow> UB_wf (wl_Buffer w) \<Longrightarrow>
     UB_content (wl_Buffer (wl_advance n w)) = drop n (UB_content (wl_Buffer w))"
  by (simp_all add: wl_advance_def UB_advance)

definition counted :: "int \<Rightarrow> WriteLoop \<Rightarrow> WriteLoop" where
  "counted n w = w\<lparr>throughout := throughout w + word_of_int n, interval := interval w + 1\<rparr>"

lemma counted_simps [simp]: "wl_Buffer (counted n w) = wl_Buffer w" "Que (counted n w) = Que w"
  by (simp_all add: counted_def)

lemma Send_loop_done: "len \<le> sent \<Longrightarrow> Send_loop len sent s = (Inr sent, s)"
  by (cases s) (simp add: Send_loop.simps)

lemma Send_loop_step:
  assumes wf: "UB_wf (wl_Buffer w)" and len: "nat len \<le> length (UB_content (wl_Buffer w))"
    and s: "0 \<le> sent" "sent < len"
  shows "Send_loop len sent (k, w) =
     (case kernel_send (take (nat (len - sent)) (UB_content (wl_Buffer w))) k of
        (ans, k) \<Rightarrow> if ans > 0 then Send_loop len (sent + ans) (k, counted (sent + ans) w)
                    else (Inr sent, (k, w)))"
proof -
  have "nat (len - sent) \<le> length (UB_content (wl_Buffer w))" using len s by simp
  note sl = slice_content [OF wf this]
  have "\<not> length (Buffer (wl_Buffer w)) < UB_ReadPtr (wl_Buffer w) + nat (len - sent)" using sl(2) by simp
  then show ?thesis
    using s by (subst Send_loop.simps) (simp add: sl(1) counted_def split: prod.split)
qed

text \<open>The kernel takes everything, a part and then nothing, or nothing.\<close>

lemma Send_loop_full:
  assumes "UB_wf (wl_Buffer w)" and "nat len \<le> length (UB_content (wl_Buffer w))" and "1 \<le> len"
    and "answers k = Sent n # as" and "nat len \<le> n"
  shows "Send_loop len 0 (k, w) =
     (Inr len, (k\<lparr>answers := as, wire := wire k @ take (nat len) (UB_content (wl_Buffer w))\<rparr>, counted len w))"
  using Send_loop_step [OF assms(1,2), of 0 k] assms(2-)
  by (simp add: kernel_send_def min_absorb2 min_absorb1 Send_loop_done)

lemma Send_loop_none:
  assumes "UB_wf (wl_Buffer w)" and "nat len \<le> length (UB_content (wl_Buffer w))" and "0 \<le> sent" "sent < len"
    and "answers k = []"
  shows "Send_loop len sent (k, w) = (Inr sent, (k\<lparr>errno := EWOULDBLOCK\<rparr>, w))"
  using Send_loop_step [OF assms(1-4), of k] assms(5) by (simp add: kernel_send_def)

lemma Send_loop_part:
  assumes "UB_wf (wl_Buffer w)" and "nat len \<le> length (UB_content (wl_Buffer w))"
    and "answers k = Sent n # as" and "0 < n" "n < nat len"
  shows "Send_loop len 0 (k, w) =
     Send_loop len (int n) (k\<lparr>answers := as, wire := wire k @ take n (UB_content (wl_Buffer w))\<rparr>, counted (int n) w)"
  using Send_loop_step [OF assms(1,2), of 0 k] assms(2-)
  by (simp add: kernel_send_def min_absorb1 take_take)

lemma WL_Send_after:
  assumes wf: "UB_wf (wl_Buffer w)" and len: "1 \<le> len" and n: "n \<le> length (UB_content (wl_Buffer w))"
    and loop: "Send_loop len 0 (k, w0) = (Inr (int n), (k', w))"
  shows "WL_Send len (k, w0) =
     (let w = wl_advance n w in
      if \<not> (errno k' = EPIPE \<or> errno k' = ECONNRESET) \<and> len - int n > 0
      then (Inr IMCOMPLETE, (k', InsertSend (len - int n) w)) else (Inr COMPLETE, (k', w)))"
  using len loop UB_skip_content [OF wf n] by (simp add: WL_Send_def wl_advance_def Let_def)

lemma WL_Send_full:
  assumes "UB_wf (wl_Buffer w)" and "nat len \<le> length (UB_content (wl_Buffer w))" and "1 \<le> len"
    and "answers k = Sent n # as" and "nat len \<le> n"
  shows "WL_Send len (k, w) =
     (Inr COMPLETE, (k\<lparr>answers := as, wire := wire k @ take (nat len) (UB_content (wl_Buffer w))\<rparr>,
        wl_advance (nat len) (counted len w)))"
  using WL_Send_after [of "counted len w" len "nat len" k w] Send_loop_full [OF assms] assms(1-3) by simp

lemma WL_Send_blocked:
  assumes "UB_wf (wl_Buffer w)" and "nat len \<le> length (UB_content (wl_Buffer w))" and "1 \<le> len"
    and "answers k = []"
  shows "WL_Send len (k, w) =
     (Inr IMCOMPLETE, (k\<lparr>errno := EWOULDBLOCK\<rparr>, InsertSend len (wl_advance 0 w)))"
  using WL_Send_after [of w len 0 k w] Send_loop_none [OF assms(1,2), of 0 k] assms by simp

lemma WL_Send_part:
  assumes "UB_wf (wl_Buffer w)" and "nat len \<le> length (UB_content (wl_Buffer w))"
    and "answers k = [Sent n]" and "0 < n" "n < nat len"
  shows "WL_Send len (k, w) =
     (Inr IMCOMPLETE, (k\<lparr>answers := [], wire := wire k @ take n (UB_content (wl_Buffer w)), errno := EWOULDBLOCK\<rparr>,
        InsertSend (len - int n) (wl_advance n (counted (int n) w))))"
proof -
  let ?k = "k\<lparr>answers := [], wire := wire k @ take n (UB_content (wl_Buffer w))\<rparr>"
  have "Send_loop len 0 (k, w) = (Inr (int n), (?k\<lparr>errno := EWOULDBLOCK\<rparr>, counted (int n) w))"
    using Send_loop_part [OF assms] Send_loop_none [of "counted (int n) w" len "int n" ?k] assms by simp
  then show ?thesis
    using WL_Send_after [of "counted (int n) w" len n k w] assms by (simp add: Let_def)
qed

section \<open>One task\<close>

lemma report_interval_simps [simp]:
  "wl_Buffer (report_interval w) = wl_Buffer w" "Que (report_interval w) = Que w"
  by (simp_all add: report_interval_def)

lemma wl_ok_cong: "wl_Buffer v = wl_Buffer w \<Longrightarrow> Que v = Que w \<Longrightarrow> wl_ok v = wl_ok w"
  by (simp add: wl_ok_def)

lemma wl_pending_cong: "wl_Buffer v = wl_Buffer w \<Longrightarrow> Que v = Que w \<Longrightarrow> wl_pending v = wl_pending w"
  by (simp add: wl_pending_def)

lemma file_send_full:
  assumes "file_ok fr" and "answers k = Sent n # as" and "length (file_rest fr) \<le> n"
  shows "\<exists>fr'. FileReader_SendFile fr k =
      (int (length (file_rest fr)), fr', k\<lparr>answers := as, wire := wire k @ file_rest fr\<rparr>) \<and> Send_End fr'"
proof -
  have sl: "slice (file_bytes fr) (nat (offest fr)) (nat (file_length fr - offest fr)) = file_rest fr"
    using assms(1) by (simp add: slice_def file_rest_def file_ok_def nat_diff_distrib)
  have "offest fr + int (length (file_rest fr)) = file_length fr"
    using assms(1) by (simp add: file_rest_def file_ok_def) arith
  then show ?thesis
    using assms(2,3) by (simp add: FileReader_SendFile_def sl kernel_send_def min_absorb2 Send_End_def)
qed

lemma file_send_part:
  assumes "file_ok fr" and "answers k = Sent n # as" and "n < length (file_rest fr)"
  shows "FileReader_SendFile fr k =
      (int n, fr\<lparr>offest := offest fr + int n\<rparr>, k\<lparr>answers := as, wire := wire k @ take n (file_rest fr)\<rparr>) \<and>
    \<not> Send_End (fr\<lparr>offest := offest fr + int n\<rparr>) \<and> file_ok (fr\<lparr>offest := offest fr + int n\<rparr>) \<and>
    file_rest (fr\<lparr>offest := offest fr + int n\<rparr>) = drop n (file_rest fr)"
proof -
  have sl: "slice (file_bytes fr) (nat (offest fr)) (nat (file_length fr - offest fr)) = file_rest fr"
    using assms(1) by (simp add: slice_def file_rest_def file_ok_def nat_diff_distrib)
  have len: "int (length (file_rest fr)) = file_length fr - offest fr"
    using assms(1) by (simp add: file_rest_def file_ok_def) arith
  have "drop (nat (offest fr + int n)) (file_bytes fr) = drop n (file_rest fr)"
    using assms(1) by (simp add: file_rest_def file_ok_def nat_add_distrib add.commute)
  moreover have "FileReader_SendFile fr k = (int n, fr\<lparr>offest := offest fr + int n\<rparr>,
      k\<lparr>answers := as, wire := wire k @ take n (file_rest fr)\<rparr>)"
    using assms(2,3) by (simp add: FileReader_SendFile_def sl kernel_send_def min_absorb1)
  moreover have "\<not> Send_End (fr\<lparr>offest := offest fr + int n\<rparr>)" "file_ok (fr\<lparr>offest := offest fr + int n\<rparr>)"
    using assms(1,3) len by (simp_all add: Send_End_def file_ok_def)
  ultimately show ?thesis by (simp add: file_rest_def)
qed

text \<open>A task whose bytes the kernel takes in one go.\<close>

lemma DoFirst_full:
  assumes ok: "wl_ok w" and que: "Que w = t # ts"
    and ans: "answers k = Sent n # as" "length (wl_pending w) \<le> n"
  obtains k' w' where "DoFirst (k, w) = (Inr COMPLETE, (k', w'))" "wl_ok w'" "Que w' = ts"
    "answers k' = as" "stream (k', w') = stream (k, w)" "length (wl_pending w') \<le> length (wl_pending w)"
proof -
  let ?w = "w\<lparr>Que := ts\<rparr>" and ?cs = "UB_content (wl_Buffer w)"
  have wf: "UB_wf (wl_Buffer w)" and tok: "tasks_ok ?cs (t # ts)"
    using ok by (simp_all add: wl_ok_def que)
  have run: "DoFirst (k, w) = run_task t (k, ?w)" by (simp add: DoFirst_def que)
  note result = that
  have send: thesis if t: "run_task t (k, ?w) = WL_Send len (k, ?w)" and len: "1 \<le> len" "nat len \<le> length ?cs"
      and pend: "pending ?cs (t # ts) = take (nat len) ?cs @ pending (drop (nat len) ?cs) ts"
      and tok': "tasks_ok (drop (nat len) ?cs) ts" for len
  proof -
    have "nat len \<le> n" using ans(2) pend len(2) by (simp add: wl_pending_def que)
    then have "WL_Send len (k, ?w) = (Inr COMPLETE,
        (k\<lparr>answers := as, wire := wire k @ take (nat len) ?cs\<rparr>, wl_advance (nat len) (counted len ?w)))"
      using WL_Send_full [of ?w len k n as] wf len ans(1) by simp
    then show thesis
      using result [of "k\<lparr>answers := as, wire := wire k @ take (nat len) ?cs\<rparr>"
          "wl_advance (nat len) (counted len ?w)"] run t wf len tok' arg_cong [OF pend, of length] pend
      by (simp add: wl_ok_def stream_def wl_pending_def que)
  qed
  show thesis
  proof (cases t)
    case (Task_Send len)
    then show ?thesis using send [of len] tok by simp
  next
    case Task_Send_readable
    then have "nat (int (length ?cs)) \<le> length ?cs" "1 \<le> int (length ?cs)" "tasks_ok [] ts"
      using tok by (auto simp: Suc_le_eq)
    then show ?thesis
      using send [of "int (length ?cs)"] Task_Send_readable wf by (simp add: UB_Readable_content)
  next
    case (Task_SendFile fr)
    then have "length (file_rest fr) \<le> n" using ans(2) by (simp add: wl_pending_def que)
    then obtain fr' where fr': "FileReader_SendFile fr k =
        (int (length (file_rest fr)), fr', k\<lparr>answers := as, wire := wire k @ file_rest fr\<rparr>)" "Send_End fr'"
      using file_send_full [of fr k n as] ans(1) tok Task_SendFile by auto
    then show ?thesis
      using result [of "k\<lparr>answers := as, wire := wire k @ file_rest fr\<rparr>" "?w\<lparr>interval := interval w + 1\<rparr>"]
        run wf tok Task_SendFile
      by (simp add: WL_SendFile_def Let_def wl_ok_def stream_def wl_pending_def que)
  qed
qed

lemma DoAll_unfold:
  "DoFirst (k, w) = (Inr c, (k', w')) \<Longrightarrow>
     DoAll (k, w) = (if c = COMPLETE then DoAll (k', report_interval w') else (Inr c, (k', report_interval w')))"
  by (simp add: DoAll.simps Let_def)

lemma DoAll_flush:
  assumes "wl_ok w" and "length (Que w) \<le> length (answers k)"
    and "\<forall>a \<in> set (answers k). \<exists>n. a = Sent n \<and> length (wl_pending w) \<le> n"
  shows "\<exists>k' w'. DoAll (k, w) = (Inr EMPTY, (k', w')) \<and> wire k' = stream (k, w) \<and> Que w' = [] \<and> wl_ok w'"
  using assms
proof (induction "Que w" arbitrary: k w)
  case Nil
  then have "DoFirst (k, w) = (Inr EMPTY, (k, w))" by (simp add: DoFirst_def split: list.split)
  then show ?case
    using Nil DoAll_unfold [of k w EMPTY k w] by (simp add: stream_def wl_pending_def wl_ok_def)
next
  case (Cons t ts)
  obtain n as where a: "answers k = Sent n # as" "length (wl_pending w) \<le> n"
    using Cons.prems(2,3) Cons.hyps(2) by (cases "answers k") auto
  obtain k1 w1 where s: "DoFirst (k, w) = (Inr COMPLETE, (k1, w1))" "wl_ok w1" "Que w1 = ts"
    "answers k1 = as" "stream (k1, w1) = stream (k, w)" "length (wl_pending w1) \<le> length (wl_pending w)"
    using DoFirst_full [OF Cons.prems(1) Cons.hyps(2) [symmetric] a] by metis
  let ?w1 = "report_interval w1"
  have eq: "wl_ok ?w1" "wl_pending ?w1 = wl_pending w1" "stream (k1, ?w1) = stream (k1, w1)"
    using s(2) by (simp_all add: wl_ok_def wl_pending_def stream_def)
  have "\<exists>k' w'. DoAll (k1, ?w1) = (Inr EMPTY, (k', w')) \<and> wire k' = stream (k1, ?w1) \<and> Que w' = [] \<and> wl_ok w'"
    using Cons.hyps(1) [of ?w1 k1] s(3,4,6) eq Cons.prems(2,3) Cons.hyps(2) [symmetric] a
    by fastforce
  then show ?case
    using DoAll_unfold [OF s(1)] s(5) eq(3) by simp
qed

section \<open>Write events\<close>

definition sends_only :: "task list \<Rightarrow> bool" where
  "sends_only ts \<longleftrightarrow> list_all (\<lambda>t. \<exists>len. t = Task_Send len) ts"

text \<open>A call of \<open>DoAll\<close> on a socket that accepts nothing.\<close>

lemma DoAll_blocked:
  assumes ok: "wl_ok w" and only: "sends_only (Que w)" and ans: "answers k = []"
  shows "\<exists>c k' w'. DoAll (k, w) = (Inr c, (k', w')) \<and> wire k' = wire k \<and> wl_ok w' \<and>
     Que w' = Que w \<and> wl_pending w' = wl_pending w"
proof (cases "Que w")
  case Nil
  then have "DoFirst (k, w) = (Inr EMPTY, (k, w))" by (simp add: DoFirst_def)
  then show ?thesis
    using DoAll_unfold [of k w EMPTY k w] ok by (simp add: wl_ok_def wl_pending_def)
next
  case (Cons t ts)
  then obtain len where t: "t = Task_Send len" using only by (auto simp: sends_only_def)
  have wf: "UB_wf (wl_Buffer w)" and len: "1 \<le> len" "nat len \<le> length (UB_content (wl_Buffer w))"
    using ok Cons t by (simp_all add: wl_ok_def)
  let ?w = "InsertSend len (wl_advance 0 (w\<lparr>Que := ts\<rparr>))"
  have "DoFirst (k, w) = (Inr IMCOMPLETE, (k\<lparr>errno := EWOULDBLOCK\<rparr>, ?w))"
    using WL_Send_blocked [of "w\<lparr>Que := ts\<rparr>" len k] wf len ans by (simp add: DoFirst_def Cons t)
  moreover have "wl_Buffer ?w = wl_Buffer w" "Que ?w = Que w"
    by (simp_all add: InsertSend_def wl_advance_def Cons t)
  ultimately show ?thesis
    using DoAll_unfold ok by (fastforce simp: wl_ok_def wl_pending_def)
qed

text \<open>A call on a socket that accepts up to \<open>m\<close> bytes once: nothing is lost or reordered.\<close>

lemma first_send_ok:
  assumes "wl_ok w" and "Que w = Task_Send len # ts"
  shows "UB_wf (wl_Buffer w)" "1 \<le> len" "nat len \<le> length (UB_content (wl_Buffer w))"
    "tasks_ok (drop (nat len) (UB_content (wl_Buffer w))) ts"
    "wl_pending w = take (nat len) (UB_content (wl_Buffer w)) @ pending (drop (nat len) (UB_content (wl_Buffer w))) ts"
  using assms by (simp_all add: wl_ok_def wl_pending_def)

lemma DoAll_event_full:
  assumes ok: "wl_ok w" and que: "Que w = Task_Send len # ts" and only: "sends_only ts" and ans: "answers k = [Sent m]" and fits: "nat len \<le> m"
  shows "\<exists>c k' w'. DoAll (k, w) = (Inr c, (k', w')) \<and> stream (k', w') = stream (k, w) \<and> wl_ok w' \<and>
     sends_only (Que w') \<and> length (wl_pending w') \<le> length (wl_pending w) - 1"
proof -
  note first = first_send_ok [OF ok que]
  let ?cs = "UB_content (wl_Buffer w)" and ?w = "w\<lparr>Que := ts\<rparr>"
  let ?k1 = "k\<lparr>answers := [], wire := wire k @ take (nat len) ?cs\<rparr>"
  let ?w1 = "report_interval (wl_advance (nat len) (counted len ?w))"
  have "DoFirst (k, w) = (Inr COMPLETE, (?k1, wl_advance (nat len) (counted len ?w)))"
    using WL_Send_full [of ?w len k m "[]"] first(1-3) ans fits by (simp add: DoFirst_def que)
  then have step: "DoAll (k, w) = DoAll (?k1, ?w1)" using DoAll_unfold by simp
  have w1: "wl_ok ?w1" "Que ?w1 = ts" "wl_pending ?w1 = pending (drop (nat len) ?cs) ts"
    using first(1-4) by (simp_all add: wl_ok_def wl_pending_def)
  obtain c k' w' where "DoAll (?k1, ?w1) = (Inr c, (k', w'))" "wire k' = wire ?k1" "wl_ok w'"
    "Que w' = Que ?w1" "wl_pending w' = wl_pending ?w1"
    using DoAll_blocked [OF w1(1), of ?k1] only w1(2) by auto
  then show ?thesis
    using step w1 first(2,3,5) only by (auto simp: stream_def)
qed

lemma DoAll_event_part:
  assumes ok: "wl_ok w" and que: "Que w = Task_Send len # ts" and only: "sends_only ts" and ans: "answers k = [Sent m]" and part: "0 < m" "m < nat len"
  shows "\<exists>k' w'. DoAll (k, w) = (Inr IMCOMPLETE, (k', w')) \<and> wire k' = wire k @ take m (wl_pending w) \<and>
     wl_pending w' = drop m (wl_pending w) \<and> wl_ok w' \<and> sends_only (Que w')"
proof -
  note first = first_send_ok [OF ok que]
  let ?cs = "UB_content (wl_Buffer w)" and ?w = "w\<lparr>Que := ts\<rparr>"
  let ?k1 = "k\<lparr>answers := [], wire := wire k @ take m ?cs, errno := EWOULDBLOCK\<rparr>"
  define w1 where "w1 = report_interval (InsertSend (len - int m) (wl_advance m (counted (int m) ?w)))"
  have "DoFirst (k, w) = (Inr IMCOMPLETE, (?k1, InsertSend (len - int m) (wl_advance m (counted (int m) ?w))))"
    using WL_Send_part [of ?w len k m] first(1-3) ans part by (simp add: DoFirst_def que)
  then have run: "DoAll (k, w) = (Inr IMCOMPLETE, (?k1, w1))" using DoAll_unfold by (simp add: w1_def)
  have n: "nat (len - int m) = nat len - m" using part by (simp add: nat_diff_distrib)
  have c1: "UB_content (wl_Buffer w1) = drop m ?cs" "UB_wf (wl_Buffer w1)" "Que w1 = Task_Send (len - int m) # ts"
    using first(1,3) part UB_advance [of "wl_Buffer w" m] by (simp_all add: w1_def InsertSend_def wl_advance_def)
  have d: "drop (nat len - m) (drop m ?cs) = drop (nat len) ?cs" using part by simp
  have "wl_pending w1 = take (nat len - m) (drop m ?cs) @ pending (drop (nat len) ?cs) ts"
    unfolding wl_pending_def c1 pending.simps n d ..
  then have "wl_pending w1 = drop m (wl_pending w)" unfolding first(5) using part first(3) by (simp add: drop_take)
  moreover have "take m ?cs = take m (wl_pending w)" unfolding first(5) using part first(3) by (simp add: min_absorb1)
  moreover have "wl_ok w1"
    unfolding wl_ok_def c1(1,3) tasks_ok.simps n d using c1(2) first(3,4) part by (simp add: diff_le_mono)
  moreover have "sends_only (Que w1)" unfolding c1(3) using only by (simp add: sends_only_def)
  ultimately show ?thesis using run by auto
qed

lemma DoAll_event:
  assumes ok: "wl_ok w" and only: "sends_only (Que w)" and ans: "answers k = [Sent m]" "0 < m"
  shows "\<exists>c k' w'. DoAll (k, w) = (Inr c, (k', w')) \<and> stream (k', w') = stream (k, w) \<and> wl_ok w' \<and>
     sends_only (Que w') \<and> length (wl_pending w') \<le> length (wl_pending w) - 1"
proof (cases "Que w")
  case Nil
  then have "DoFirst (k, w) = (Inr EMPTY, (k, w))" by (simp add: DoFirst_def)
  then show ?thesis
    using DoAll_unfold [of k w EMPTY k w] ok Nil by (simp add: wl_ok_def wl_pending_def stream_def sends_only_def)
next
  case (Cons t ts)
  then obtain len where t: "t = Task_Send len" and ts: "sends_only ts" using only by (auto simp: sends_only_def)
  show ?thesis
  proof (cases "nat len \<le> m")
    case True
    then show ?thesis using DoAll_event_full [OF ok _ ts ans(1)] Cons t by simp
  next
    case False
    then show ?thesis
      using DoAll_event_part [OF ok _ ts ans, of len] Cons t ans(2) by (fastforce simp: stream_def)
  qed
qed

text \<open>Several write events, each followed by the socket blocking again.\<close>

fun write_events :: "nat list \<Rightarrow> Kernel \<times> WriteLoop \<Rightarrow> (Kernel \<times> WriteLoop, COMPLETETYPE list) cpp" where
  "write_events [] s = (Inr [], s)"
| "write_events (m # ms) (k, w) =
     bindc (DoAll (k\<lparr>answers := [Sent m]\<rparr>, w)) (\<lambda>c s.
       bindc (write_events ms s) (\<lambda>cs s. (Inr (c # cs), s)))"

lemma write_events_stream:
  assumes "wl_ok w" and "sends_only (Que w)" and "list_all (\<lambda>m. 0 < m) ms"
  shows "\<exists>cs k' w'. write_events ms (k, w) = (Inr cs, (k', w')) \<and> stream (k', w') = stream (k, w) \<and>
     wl_ok w' \<and> length (wl_pending w') \<le> length (wl_pending w) - length ms"
  using assms
proof (induction ms arbitrary: k w)
  case (Cons m ms)
  obtain c k1 w1 where a: "DoAll (k\<lparr>answers := [Sent m]\<rparr>, w) = (Inr c, (k1, w1))"
    "stream (k1, w1) = stream (k\<lparr>answers := [Sent m]\<rparr>, w)" "wl_ok w1" "sends_only (Que w1)"
    "length (wl_pending w1) \<le> length (wl_pending w) - 1"
    using DoAll_event [OF Cons.prems(1,2), of "k\<lparr>answers := [Sent m]\<rparr>" m] Cons.prems(3) by auto
  then obtain cs k' w' where b: "write_events ms (k1, w1) = (Inr cs, (k', w'))" "stream (k', w') = stream (k1, w1)"
    "wl_ok w'" "length (wl_pending w') \<le> length (wl_pending w1) - length ms"
    using Cons.IH [of w1 k1] Cons.prems(3) by auto
  have "stream (k\<lparr>answers := [Sent m]\<rparr>, w) = stream (k, w)" by (simp add: stream_def)
  then show ?case using a b by auto
qed simp

section \<open>The properties\<close>

definition sample_loop :: WriteLoop where
  "sample_loop = \<lparr>wl_Buffer = \<lparr>Buffer = ''HEADtail'', Write_Spot = 8, Read_Spot = 0, Buffer_Size = 8\<rparr>,
     Que = [Task_Send 4, Task_SendFile (FileReader_open ''FILE''), Task_Send 4],
     throughout = 0, interval = 0, reports = []\<rparr>"

definition sample_kernel :: Kernel where
  "sample_kernel = \<lparr>answers = [], wire = [], errno = No_error\<rparr>"

lemma sample_loop_ok: "wl_ok sample_loop" "wl_pending sample_loop = ''HEADFILEtail''"
  by (simp_all add: wl_ok_def wl_pending_def sample_loop_def UB_wf_def UB_content_def slice_def)

text \<open>C5: When the socket accepts all it is offered, \<open>DoAll\<close> empties the queue and the peer
  receives exactly the pending bytes: the stretches of the buffer and the files, in the order in
  which the tasks were added.\<close>

theorem DoAll_delivers:
  assumes "wl_ok w" and "length (Que w) \<le> length (answers k)"
    and "\<forall>a \<in> set (answers k). \<exists>n. a = Sent n \<and> length (wl_pending w) \<le> n"
  shows "\<exists>k' w'. DoAll (k, w) = (Inr EMPTY, (k', w')) \<and> wire k' = wire k @ wl_pending w \<and>
     Que w' = [] \<and> wl_ok w'"
  using DoAll_flush [OF assms] by (simp add: stream_def)

theorem DoAll_delivers_witness:
  "\<exists>k' w'. DoAll (sample_kernel\<lparr>answers := [Sent 99, Sent 99, Sent 99]\<rparr>, sample_loop) = (Inr EMPTY, (k', w')) \<and>
     wire k' = ''HEADFILEtail''"
  using DoAll_delivers [OF sample_loop_ok(1), of "sample_kernel\<lparr>answers := [Sent 99, Sent 99, Sent 99]\<rparr>"]
  by (simp add: sample_loop_ok(2)) (auto simp: sample_loop_def sample_kernel_def)



text \<open>When the kernel accepts a stretch in two parts within one \<open>Send\<close>, the second part
  is read from the start of the stretch again: the peer gets the first bytes twice and never the
  last ones, and \<open>throughout\<close> counts the first part twice.\<close>

theorem Send_repeats_first_part:
  assumes wf: "UB_wf (wl_Buffer w)" and len: "nat len \<le> length (UB_content (wl_Buffer w))"
    and ans: "answers k = [Sent a, Sent b]" and ab: "0 < a" "a < nat len" "nat len - a \<le> b"
  shows "\<exists>k' w'. WL_Send len (k, w) = (Inr COMPLETE, (k', w')) \<and>
     wire k' = wire k @ take a (UB_content (wl_Buffer w)) @ take (nat len - a) (UB_content (wl_Buffer w)) \<and>
     UB_content (wl_Buffer w') = drop (nat len) (UB_content (wl_Buffer w)) \<and>
     throughout w' = throughout w + word_of_nat a + word_of_int len"
proof -
  let ?cs = "UB_content (wl_Buffer w)"
  let ?k1 = "k\<lparr>answers := [Sent b], wire := wire k @ take a ?cs\<rparr>"
  let ?w1 = "counted (int a) w"
  have nat1: "nat (len - int a) = nat len - a" "0 < nat len - a" using ab by (simp_all add: nat_diff_distrib)
  have step: "Send_loop len (int a) (?k1, ?w1) =
      (Inr len, (?k1\<lparr>answers := [], wire := wire k @ take a ?cs @ take (nat len - a) ?cs\<rparr>, counted len ?w1))"
  proof -
    have eq: "int (nat len - a) = len - int a" "0 < len - int a" using ab by linarith+
    have l: "min (length ?cs) (nat len - a) = nat len - a" "min b (nat len - a) = nat len - a" using len ab by simp_all
    have "kernel_send (take (nat (len - int a)) ?cs) ?k1 =
        (len - int a, ?k1\<lparr>answers := [], wire := wire k @ take a ?cs @ take (nat len - a) ?cs\<rparr>)"
      unfolding nat1(1) kernel_send_def using eq by (simp add: l Let_def)
    then show ?thesis
      using Send_loop_step [of ?w1 len "int a" ?k1] wf len ab eq(2) by (simp add: Send_loop_done)
  qed
  have "Send_loop len 0 (k, w) = Send_loop len (int a) (?k1, ?w1)"
    by (rule Send_loop_part [OF wf len ans ab(1,2)])
  then have "Send_loop len 0 (k, w) = (Inr (int (nat len)),
      (?k1\<lparr>answers := [], wire := wire k @ take a ?cs @ take (nat len - a) ?cs\<rparr>, counted len ?w1))"
    using step ab by simp
  from WL_Send_after [OF _ _ _ this] show ?thesis
    using wf len ab UB_advance(2) [OF wf len] by (simp add: wl_advance_def counted_def Let_def)
qed

theorem Send_repeats_first_part_witness:
  "\<exists>k' w'. WL_Send 8 (sample_kernel\<lparr>answers := [Sent 3, Sent 9]\<rparr>, sample_loop) = (Inr COMPLETE, (k', w')) \<and>
     wire k' = ''HEAHEADt''"
  using Send_repeats_first_part [of sample_loop 8 "sample_kernel\<lparr>answers := [Sent 3, Sent 9]\<rparr>" 3 9]
  by (auto simp: sample_loop_def sample_kernel_def UB_wf_def UB_content_def slice_def)

text \<open>A file that the socket takes in parts is not sent in one piece: \<open>InsertSendFile\<close>
  puts the rest behind the tasks that follow, so the bytes of these arrive in the middle of the
  file.\<close>

theorem partial_file_is_overtaken:
  assumes ok: "wl_ok w" and que: "Que w = [Task_SendFile fr, Task_Send len]"
    and ans: "answers k = [Sent m]" "0 < m" "m < length (file_rest fr)"
    and more: "length (wl_pending w) \<le> n"
  shows "\<exists>k1 w1 k' w'. DoAll (k, w) = (Inr IMCOMPLETE, (k1, w1)) \<and>
     DoAll (k1\<lparr>answers := [Sent n, Sent n]\<rparr>, w1) = (Inr EMPTY, (k', w')) \<and>
     wire k' = wire k @ take m (file_rest fr) @ take (nat len) (UB_content (wl_Buffer w)) @ drop m (file_rest fr)"
proof -
  let ?fr = "fr\<lparr>offest := offest fr + int m\<rparr>" and ?cs = "UB_content (wl_Buffer w)"
  let ?k1 = "k\<lparr>answers := [], wire := wire k @ take m (file_rest fr)\<rparr>"
  let ?w1 = "w\<lparr>Que := [Task_Send len, Task_SendFile ?fr], interval := interval w + 1\<rparr>"
  have fr: "file_ok fr" and tok: "tasks_ok ?cs [Task_Send len]" and wf: "UB_wf (wl_Buffer w)"
    using ok by (simp_all add: wl_ok_def que)
  note part = file_send_part [OF fr ans(1,3)]
  have "DoFirst (k, w) = (Inr IMCOMPLETE, (?k1, ?w1))"
    using part by (simp add: DoFirst_def que WL_SendFile_def InsertSendFile_def Let_def)
  then have first: "DoAll (k, w) = (Inr IMCOMPLETE, (?k1, report_interval ?w1))" using DoAll_unfold by simp
  have ok1: "wl_ok (report_interval ?w1)"
    and pend: "wl_pending (report_interval ?w1) = take (nat len) ?cs @ drop m (file_rest fr)"
    using part tok wf by (simp_all add: wl_ok_def wl_pending_def)
  have "length (wl_pending (report_interval ?w1)) \<le> n"
    using more pend by (simp add: wl_pending_def que)
  then obtain k' w' where "DoAll (?k1\<lparr>answers := [Sent n, Sent n]\<rparr>, report_interval ?w1) = (Inr EMPTY, (k', w'))"
    "wire k' = stream (?k1\<lparr>answers := [Sent n, Sent n]\<rparr>, report_interval ?w1)"
    using DoAll_flush [OF ok1, of "?k1\<lparr>answers := [Sent n, Sent n]\<rparr>"] by auto
  with first show ?thesis by (auto simp: stream_def pend)
qed

theorem partial_file_is_overtaken_witness:
  "\<exists>k1 w1 k' w'. DoAll (sample_kernel\<lparr>answers := [Sent 2]\<rparr>,
         sample_loop\<lparr>Que := [Task_SendFile (FileReader_open ''FILE''), Task_Send 4]\<rparr>) = (Inr IMCOMPLETE, (k1, w1)) \<and>
     DoAll (k1\<lparr>answers := [Sent 99, Sent 99]\<rparr>, w1) = (Inr EMPTY, (k', w')) \<and> wire k' = ''FIHEADLE''"
  using partial_file_is_overtaken [of "sample_loop\<lparr>Que := [Task_SendFile (FileReader_open ''FILE''), Task_Send 4]\<rparr>"
      "FileReader_open ''FILE''" 4 "sample_kernel\<lparr>answers := [Sent 2]\<rparr>" 2 99]
  by (simp add: sample_loop_def sample_kernel_def wl_ok_def UB_wf_def UB_content_def slice_def wl_pending_def)

section \<open>Formatted output\<close>

lemma UB_poke_facts:
  assumes wf: "UB_wf ub" and fits: "length bs \<le> UB_Writeable ub"
  shows "UB_wf (UB_poke ub bs)" "UB_content (UB_poke ub bs) = UB_content ub"
    "UB_Writeable (UB_poke ub bs) = UB_Writeable ub" "Buffer_Size (UB_poke ub bs) = Buffer_Size ub"
proof -
  have room: "Write_Spot ub + length bs \<le> length (Buffer ub)"
    using assms by (simp add: UB_Writeable_wf) (auto simp: UB_wf_def)
  then show "UB_wf (UB_poke ub bs)" using wf by (simp add: UB_poke_def UB_wf_def)
  show "UB_content (UB_poke ub bs) = UB_content ub"
    using room UB_wfD(1) [OF wf] by (simp add: UB_content_def UB_poke_def slice_blit_before)
  show "UB_Writeable (UB_poke ub bs) = UB_Writeable ub" "Buffer_Size (UB_poke ub bs) = Buffer_Size ub"
    by (simp_all add: UB_poke_def UB_Writeable_def)
qed

lemma UB_Write_count_prefix:
  assumes wf: "UB_wf ub" and fits: "length (bs @ cs) \<le> UB_Writeable ub"
  shows "\<exists>ub'. UB_Write_count (UB_poke ub (bs @ cs)) (int (length bs)) = (Inr (int (length bs)), ub') \<and>
     UB_wf ub' \<and> UB_content ub' = UB_content ub @ bs \<and> Buffer_Size ub' = Buffer_Size ub \<and>
     UB_Writeable ub \<le> UB_Writeable ub' + length bs"
proof -
  let ?u = "UB_poke ub (bs @ cs)"
  have "Write_Spot ub + length (bs @ cs) \<le> length (Buffer ub)"
    using assms by (simp add: UB_Writeable_wf) (auto simp: UB_wf_def)
  then have "UB_poke ?u bs = ?u" by (simp add: UB_poke_def blit_def)
  then show ?thesis
    using UB_Write_count_content [of ?u bs] UB_poke_facts [OF wf fits] fits by simp
qed

text \<open>A text that is shorter than the space behind the write spot.\<close>

lemma swrite_fits:
  assumes wf: "UB_wf (wl_Buffer w)" and fits: "length str < UB_Writeable (wl_Buffer w)"
  obtains ub' where "swrite str w = (Inr (int (length str)), w\<lparr>wl_Buffer := ub'\<rparr>)" "UB_wf ub'"
    "UB_content ub' = UB_content (wl_Buffer w) @ str" "Buffer_Size ub' = Buffer_Size (wl_Buffer w)"
    "UB_Writeable (wl_Buffer w) \<le> UB_Writeable ub' + length str"
proof -
  let ?ub = "wl_Buffer w"
  obtain ub' where ub': "UB_Write_count (UB_poke ?ub (str @ [CHR 0x00])) (int (length str)) = (Inr (int (length str)), ub')"
    "UB_wf ub'" "UB_content ub' = UB_content ?ub @ str" "Buffer_Size ub' = Buffer_Size ?ub"
    "UB_Writeable ?ub \<le> UB_Writeable ub' + length str"
    using UB_Write_count_prefix [OF wf, of str "[CHR 0x00]"] fits by auto
  have "UB_SWrite ?ub str = (UB_poke ?ub (str @ [CHR 0x00]), int (length str))"
    using fits by (simp add: UB_SWrite_def)
  then show thesis using that [of ub'] ub' by (simp add: swrite_def)
qed

text \<open>The three outcomes of formatted output: a text that is shorter than the space is
  appended; one that fills it exactly is appended with its last byte replaced by the zero byte of
  \<open>vsnprintf\<close>; a longer one throws \<open>out_of_range\<close> and leaves the content as it was.\<close>

theorem swrite_outcomes:
  assumes wf: "UB_wf (wl_Buffer w)" and len: "length str < 2 ^ 31"
  shows "fst (swrite str w) =
       (if length str \<le> UB_Writeable (wl_Buffer w) then Inr (int (length str)) else Inl Out_of_range) \<and>
     UB_content (wl_Buffer (snd (swrite str w))) = UB_content (wl_Buffer w) @
       (if length str < UB_Writeable (wl_Buffer w) then str else
        if length str = UB_Writeable (wl_Buffer w) \<and> str \<noteq> [] then butlast str @ [CHR 0x00] else [])"
proof -
  let ?ub = "wl_Buffer w" and ?W = "UB_Writeable (wl_Buffer w)"
  consider "length str < ?W" | "length str = ?W" "str = []" | "length str = ?W" "str \<noteq> []" | "?W < length str"
    by linarith
  then show ?thesis
  proof cases
    case 1
    obtain ub' where "swrite str w = (Inr (int (length str)), w\<lparr>wl_Buffer := ub'\<rparr>)"
      "UB_content ub' = UB_content ?ub @ str"
      using swrite_fits [OF wf 1] by metis
    then show ?thesis using 1 by simp
  next
    case 2
    then have "UB_SWrite ?ub str = (UB_poke ?ub [], 0)" by (simp add: UB_SWrite_def UB_poke_def blit_def)
    then show ?thesis
      using UB_Write_count_content [OF wf, of "[]"] 2 by (auto simp: swrite_def)
  next
    case 3
    let ?t = "butlast str @ [CHR 0x00]"
    have len: "length ?t = length str" using 3(2) by simp
    have "UB_SWrite ?ub str = (UB_poke ?ub ?t, int (length ?t))"
      using 3 len by (auto simp: UB_SWrite_def butlast_conv_take)
    then show ?thesis
      using UB_Write_count_content [OF wf, of ?t] 3 len by (auto simp: swrite_def)
  next
    case 4
    define u where "u = fst (UB_SWrite ?ub str)"
    have u: "UB_SWrite ?ub str = (u, int (length str))" "UB_content u = UB_content ?ub" "UB_Writeable u = ?W"
      using UB_poke_facts [OF wf, of "take (?W - 1) str @ [CHR 0x00]"] 4
      by (auto simp: u_def UB_SWrite_def min_absorb2)
    have "size_of_int (int (length str)) = length str"
      using len by (intro size_of_int_of_nat) (simp add: two64_def)
    then show ?thesis
      using 4 u by (simp add: swrite_def UB_Write_count_def)
  qed
qed

theorem swrite_outcomes_witness:
  "UB_content (wl_Buffer (snd (swrite ''abcd'' (WriteLoop_new 0 4)))) = ''abc'' @ [CHR 0x00]"
proof -
  have "UB_wf (wl_Buffer (WriteLoop_new 0 4))" "UB_Writeable (wl_Buffer (WriteLoop_new 0 4)) = 4"
    "UB_content (wl_Buffer (WriteLoop_new 0 4)) = []"
    by (simp_all add: WriteLoop_new_def UB_wf_def UserBuffer_new_def UB_Writeable_def UB_content_def)
  then show ?thesis using swrite_outcomes [of "WriteLoop_new 0 4" "''abcd''"] by simp
qed

end
