(* ===== verification/Socket_Read.thy ===== *)
theory Socket_Read
  imports User_Buffer
begin

text \<open>
  \<open>src/src/net/socket.h\<close> and \<open>socket.cc\<close>: the overflow buffer \<open>Extrabuf\<close> of a
  connection and the receive loop \<open>Socket::Read\<close>, which fills the user buffer first and the
  overflow buffer then. The answers of \<open>recv\<close> are a list, one element for each call.
\<close>

section \<open>The overflow buffer\<close>

record Extrabuf =
  extrabuf :: "char list option"
  ExtrabufPeek :: int
  eb_BufferSize :: int

definition Extrabuf_new :: Extrabuf where
  "Extrabuf_new = \<lparr>extrabuf = None, ExtrabufPeek = - 1, eb_BufferSize = 4048\<rparr>"

text \<open>\<open>init\<close> allocates 4048 zero bytes; it does not assign \<open>BufferSize\<close>.\<close>

definition EB_init :: "Extrabuf \<Rightarrow> Extrabuf" where
  "EB_init eb = eb\<lparr>extrabuf := Some (replicate 4048 (CHR 0x00)), ExtrabufPeek := 0\<rparr>"

definition EB_clear :: "Extrabuf \<Rightarrow> Extrabuf" where
  "EB_clear eb = eb\<lparr>ExtrabufPeek := - 1\<rparr>"

definition EB_Get_ptr :: "Extrabuf \<Rightarrow> int" where
  "EB_Get_ptr eb = ExtrabufPeek eb"

definition EB_Get_length :: "Extrabuf \<Rightarrow> int" where
  "EB_Get_length eb = ExtrabufPeek eb"

definition EB_Write :: "Extrabuf \<Rightarrow> int \<Rightarrow> Extrabuf" where
  "EB_Write eb spot = eb\<lparr>ExtrabufPeek := ExtrabufPeek eb + spot\<rparr>"

definition EB_WriteAble :: "Extrabuf \<Rightarrow> int" where
  "EB_WriteAble eb = eb_BufferSize eb - ExtrabufPeek eb"

definition EB_IsVaild :: "Extrabuf \<Rightarrow> bool" where
  "EB_IsVaild eb \<longleftrightarrow> ExtrabufPeek eb \<noteq> - 1"

definition highWaterMark :: int where
  "highWaterMark = 64 * 1024 * 1024"

definition EB_IsExecutehighWaterMark :: "Extrabuf \<Rightarrow> bool" where
  "EB_IsExecutehighWaterMark eb \<longleftrightarrow> EB_Get_length eb \<ge> highWaterMark"

text \<open>
  \<open>Reset\<close> doubles the block. It copies \<open>WriteAble()\<close> bytes over; the rest of the new
  block is what \<open>new char[]\<close> found there (\<open>uninit\<close>).
\<close>

definition EB_Reset :: "(nat \<Rightarrow> char) \<Rightarrow> Extrabuf \<Rightarrow> (Extrabuf, bool) cpp" where
  "EB_Reset uninit eb =
     (let vaildLength = size_of_int (EB_WriteAble eb);
          size = nat (eb_BufferSize eb) in
      case extrabuf eb of
        None \<Rightarrow> (Inl Null_deref, eb)
      | Some blk \<Rightarrow>
          if length blk < vaildLength \<or> size < vaildLength then (Inl Bad_access, eb)
          else
            (Inr True,
             eb\<lparr>extrabuf := Some (blit (map uninit [0..<size * 2]) 0 (slice blk 0 vaildLength)),
                eb_BufferSize := eb_BufferSize eb * 2\<rparr>))"

section \<open>The receive loop\<close>

text \<open>
  \<open>Received bs\<close> is a return value \<open>length bs\<close> (zero at the end of the stream); the
  others are -1 with \<open>EWOULDBLOCK\<close> or \<open>EAGAIN\<close>, with \<open>EINTR\<close>, or with another error.
\<close>

datatype recv_result = Received "char list" | Would_block | Interrupted | Failed

text \<open>\<open>StartBuffer\<close> points into one of the two blocks.\<close>

datatype recv_dest = Into_user nat | Into_extra int

text \<open>The store that \<open>recv\<close> makes through \<open>StartBuffer\<close>.\<close>

fun recv_store ::
  "recv_dest \<Rightarrow> char list \<Rightarrow> UserBuffer \<times> Extrabuf \<Rightarrow> (UserBuffer \<times> Extrabuf, unit) cpp" where
  "recv_store (Into_user p) bs (ub, eb) =
     (if p + length bs \<le> length (Buffer ub)
      then (Inr (), ub\<lparr>Buffer := blit (Buffer ub) p bs\<rparr>, eb)
      else (Inl Bad_access, ub, eb))"
| "recv_store (Into_extra p) bs (ub, eb) =
     (case extrabuf eb of
        None \<Rightarrow> (Inl Null_deref, ub, eb)
      | Some blk \<Rightarrow>
          if 0 \<le> p \<and> nat p + length bs \<le> length blk
          then (Inr (), ub, eb\<lparr>extrabuf := Some (blit blk (nat p) bs)\<rparr>)
          else (Inl Bad_access, ub, eb))"

text \<open>
  One received piece: the bookkeeping of the first two branches of the loop. The value is
  \<open>None\<close> to leave the loop (the high-water mark), or the next destination and length.
\<close>

definition recv_account ::
  "(nat \<Rightarrow> char) \<Rightarrow> int \<Rightarrow> int \<Rightarrow> UserBuffer \<times> Extrabuf
     \<Rightarrow> (UserBuffer \<times> Extrabuf, (recv_dest \<times> int) option) cpp" where
  "recv_account uninit ret len s =
     (case s of (ub, eb) \<Rightarrow>
       if \<not> EB_IsVaild eb then
         (case UB_Write_count ub ret of
            (Inl e, ub) \<Rightarrow> (Inl e, ub, eb)
          | (Inr _, ub) \<Rightarrow>
              if UB_Writeable ub = 0
              then let eb = EB_init eb in
                   (Inr (Some (Into_extra (EB_Get_ptr eb), EB_WriteAble eb)), ub, eb)
              else (Inr (Some (Into_user (UB_WritePtr ub), len - ret)), ub, eb))
       else
         let eb = EB_Write eb ret in
         if EB_WriteAble eb = 0
         then if EB_IsExecutehighWaterMark eb then (Inr None, ub, eb)
              else (case EB_Reset uninit eb of
                      (Inl e, eb) \<Rightarrow> (Inl e, ub, eb)
                    | (Inr _, eb) \<Rightarrow>
                        (Inr (Some (Into_extra (EB_Get_ptr eb), EB_WriteAble eb)), ub, eb))
         else (Inr (Some (Into_extra (EB_Get_ptr eb), len - ret)), ub, eb))"

text \<open>
  The loop. \<open>None\<close> is no complete run: the answers ran out while the loop was still calling
  \<open>recv\<close>, or an answer is longer than the length that was asked for.
\<close>

fun Socket_Read_loop ::
  "(nat \<Rightarrow> char) \<Rightarrow> recv_result list \<Rightarrow> recv_dest \<Rightarrow> int \<Rightarrow> int \<Rightarrow> UserBuffer \<times> Extrabuf
     \<Rightarrow> ((UserBuffer \<times> Extrabuf, int) cpp) option" where
  "Socket_Read_loop uninit [] dest len tot s = None"
| "Socket_Read_loop uninit (Received bs # ks) dest len tot s =
     (if length bs > size_of_int len then None
      else
        case recv_store dest bs s of
          (Inl e, s) \<Rightarrow> Some (Inl e, s)
        | (Inr _, s) \<Rightarrow>
            (case recv_account uninit (int (length bs)) len s of
               (Inl e, s) \<Rightarrow> Some (Inl e, s)
             | (Inr None, s) \<Rightarrow> Some (Inr (tot + int (length bs)), s)
             | (Inr (Some (dest, len)), s) \<Rightarrow>
                 Socket_Read_loop uninit ks dest len (tot + int (length bs)) s))"
| "Socket_Read_loop uninit (Would_block # ks) dest len tot s = Some (Inr tot, s)"
| "Socket_Read_loop uninit (Interrupted # ks) dest len tot s =
     Socket_Read_loop uninit ks dest len tot s"
| "Socket_Read_loop uninit (Failed # ks) dest len tot s = Some (Inr tot, s)"

text \<open>\<open>int Socket::Read(std::shared_ptr<UserBuffer> ptr, int length, int flag)\<close>.\<close>

definition Socket_Read ::
  "(nat \<Rightarrow> char) \<Rightarrow> recv_result list \<Rightarrow> int \<Rightarrow> UserBuffer \<times> Extrabuf
     \<Rightarrow> ((UserBuffer \<times> Extrabuf, int) cpp) option" where
  "Socket_Read uninit ks len s =
     (let room = UB_Writeable (fst s);
          len = (if len = - 1 \<or> size_of_int len > room then int room else len) in
      Socket_Read_loop uninit ks (Into_user (UB_WritePtr (fst s))) len 0 s)"

declare recv_store.simps [simp del]

section \<open>Receiving into the user buffer\<close>

lemma recv_step_user:
  assumes wf: "UB_wf ub" and inval: "\<not> EB_IsVaild eb" and fits: "length bs < UB_Writeable ub"
  obtains ub' where
    "recv_store (Into_user (UB_WritePtr ub)) bs (ub, eb) = (Inr (), UB_poke ub bs, eb)"
    "\<And>len. recv_account uninit (int (length bs)) len (UB_poke ub bs, eb)
       = (Inr (Some (Into_user (UB_WritePtr ub'), len - int (length bs))), ub', eb)"
    "UB_wf ub'" "UB_content ub' = UB_content ub @ bs"
    "UB_Writeable ub \<le> UB_Writeable ub' + length bs"
proof -
  obtain ub' where ub': "UB_Write_count (UB_poke ub bs) (int (length bs)) = (Inr (int (length bs)), ub')"
    "UB_wf ub'" "UB_content ub' = UB_content ub @ bs"
    "UB_Writeable ub \<le> UB_Writeable ub' + length bs"
    using UB_Write_count_content [OF wf, of bs] fits by auto
  have "Write_Spot ub + length bs \<le> length (Buffer ub)"
    using wf fits by (simp add: UB_Writeable_wf UB_wfD(3))
  then show thesis
    using inval ub' fits
    by (intro that [of ub']) (simp_all add: recv_store.simps recv_account_def UB_poke_def UB_WritePtr_def)
qed

lemma Socket_Read_loop_user:
  assumes "UB_wf ub" and "\<not> EB_IsVaild eb"
    and "sum_list (map length cs) < UB_Writeable ub"
    and "int (sum_list (map length cs)) \<le> len" and "len < int two64"
  shows "\<exists>ub'. Socket_Read_loop uninit (map Received cs @ [Would_block])
              (Into_user (UB_WritePtr ub)) len tot (ub, eb)
            = Some (Inr (tot + int (sum_list (map length cs))), (ub', eb)) \<and>
         UB_wf ub' \<and> UB_content ub' = UB_content ub @ concat cs"
  using assms
proof (induction cs arbitrary: ub len tot)
  case Nil
  then show ?case by simp
next
  case (Cons c cs)
  have c: "length c < UB_Writeable ub" and len: "int (length c) \<le> len"
    using Cons.prems(3,4) by auto
  obtain ub1 where ub1:
    "recv_store (Into_user (UB_WritePtr ub)) c (ub, eb) = (Inr (), UB_poke ub c, eb)"
    "\<And>len. recv_account uninit (int (length c)) len (UB_poke ub c, eb)
       = (Inr (Some (Into_user (UB_WritePtr ub1), len - int (length c))), ub1, eb)"
    "UB_wf ub1" "UB_content ub1 = UB_content ub @ c"
    "UB_Writeable ub \<le> UB_Writeable ub1 + length c"
    using recv_step_user [OF Cons.prems(1,2) c] by metis
  have "\<not> length c > size_of_int len"
    using len Cons.prems(5) by (simp add: size_of_int_small)
  then have step: "Socket_Read_loop uninit (map Received (c # cs) @ [Would_block])
        (Into_user (UB_WritePtr ub)) len tot (ub, eb)
      = Socket_Read_loop uninit (map Received cs @ [Would_block])
        (Into_user (UB_WritePtr ub1)) (len - int (length c)) (tot + int (length c)) (ub1, eb)"
    by (simp add: ub1(1,2))
  show ?case
    unfolding step
    using Cons.IH [OF ub1(3) Cons.prems(2), of "len - int (length c)" "tot + int (length c)"]
      Cons.prems ub1(4,5)
    by (auto simp: add.assoc)
qed

text \<open>
  An end of the stream (\<open>recv\<close> returning 0) matches none of the exits of the loop.
\<close>

lemma Socket_Read_loop_eof:
  assumes "UB_wf ub" and "\<not> EB_IsVaild eb" and "0 < UB_Writeable ub"
  shows "Socket_Read_loop uninit (replicate n (Received [])) (Into_user (UB_WritePtr ub)) len tot (ub, eb) = None"
  using assms
proof (induction n arbitrary: ub len tot)
  case 0
  then show ?case by simp
next
  case (Suc n)
  have "length ([] :: char list) < UB_Writeable ub" using Suc.prems(3) by simp
  then obtain ub1 where ub1:
    "recv_store (Into_user (UB_WritePtr ub)) [] (ub, eb) = (Inr (), UB_poke ub [], eb)"
    "\<And>len. recv_account uninit (int (length ([]::char list))) len (UB_poke ub [], eb)
       = (Inr (Some (Into_user (UB_WritePtr ub1), len - int (length ([]::char list)))), ub1, eb)"
    "UB_wf ub1" "UB_Writeable ub \<le> UB_Writeable ub1 + length ([]::char list)"
    using recv_step_user [OF Suc.prems(1,2)] by metis
  then show ?case
    using Suc.IH [OF ub1(3) Suc.prems(2)] Suc.prems(3) by simp
qed

section \<open>Receiving into the overflow buffer\<close>

text \<open>
  \<open>EB_ready eb n\<close>: the block is the 4048 bytes that \<open>init\<close> allocated, the recorded size
  agrees with it, and \<open>n\<close> bytes of it are used.
\<close>

definition EB_ready :: "Extrabuf \<Rightarrow> char list \<Rightarrow> bool" where
  "EB_ready eb bs \<longleftrightarrow>
     eb_BufferSize eb = 4048 \<and> ExtrabufPeek eb = int (length bs) \<and>
     (\<exists>blk. extrabuf eb = Some blk \<and> length blk = 4048 \<and> take (length bs) blk = bs)"

lemma EB_ready_init: "eb_BufferSize eb = 4048 \<Longrightarrow> EB_ready (EB_init eb) []"
  by (simp add: EB_ready_def EB_init_def)

lemma recv_step_extra:
  assumes ready: "EB_ready eb bs" and fits: "length bs + length c < 4048"
  obtains eb' where
    "recv_store (Into_extra (EB_Get_ptr eb)) c (ub, eb) = (Inr (), ub, eb')"
    "EB_ready (EB_Write eb' (int (length c))) (bs @ c)"
    "\<And>len. recv_account uninit (int (length c)) len (ub, eb')
       = (Inr (Some (Into_extra (EB_Get_ptr (EB_Write eb' (int (length c)))), len - int (length c))),
          ub, EB_Write eb' (int (length c)))"
proof -
  obtain blk where blk: "extrabuf eb = Some blk" "length blk = 4048" "take (length bs) blk = bs"
    "ExtrabufPeek eb = int (length bs)" "eb_BufferSize eb = 4048"
    using ready by (auto simp: EB_ready_def)
  define eb' where "eb' = eb\<lparr>extrabuf := Some (blit blk (length bs) c)\<rparr>"
  have "take (length bs + length c) (blit blk (length bs) c) = bs @ c"
    using blk(2,3) fits by (simp add: blit_def min_absorb1)
  moreover have "length (blit blk (length bs) c) = 4048"
    using blk(2) fits by simp
  ultimately have ready': "EB_ready (EB_Write eb' (int (length c))) (bs @ c)"
    using blk by (simp add: EB_ready_def EB_Write_def eb'_def)
  have "recv_store (Into_extra (EB_Get_ptr eb)) c (ub, eb) = (Inr (), ub, eb')"
    using blk fits by (simp add: recv_store.simps EB_Get_ptr_def eb'_def)
  moreover have "recv_account uninit (int (length c)) len (ub, eb')
       = (Inr (Some (Into_extra (EB_Get_ptr (EB_Write eb' (int (length c)))), len - int (length c))),
          ub, EB_Write eb' (int (length c)))" for len
    using blk fits
    by (simp add: recv_account_def Let_def EB_IsVaild_def EB_Write_def EB_WriteAble_def eb'_def)
  ultimately show thesis using ready' that by blast
qed

lemma Socket_Read_loop_extra:
  assumes "EB_ready eb bs" and "length bs + sum_list (map length cs) < 4048"
    and "int (sum_list (map length cs)) \<le> len" and "len < int two64"
  shows "\<exists>eb'. Socket_Read_loop uninit (map Received cs @ [Would_block])
              (Into_extra (EB_Get_ptr eb)) len tot (ub, eb)
            = Some (Inr (tot + int (sum_list (map length cs))), (ub, eb')) \<and>
         EB_ready eb' (bs @ concat cs)"
  using assms
proof (induction cs arbitrary: eb bs len tot)
  case Nil
  then show ?case by simp
next
  case (Cons c cs)
  have "length bs + length c < 4048" using Cons.prems(2) by simp
  then obtain eb1 where eb1:
    "recv_store (Into_extra (EB_Get_ptr eb)) c (ub, eb) = (Inr (), ub, eb1)"
    "EB_ready (EB_Write eb1 (int (length c))) (bs @ c)"
    "\<And>len. recv_account uninit (int (length c)) len (ub, eb1)
       = (Inr (Some (Into_extra (EB_Get_ptr (EB_Write eb1 (int (length c)))), len - int (length c))),
          ub, EB_Write eb1 (int (length c)))"
    using recv_step_extra [OF Cons.prems(1)] by metis
  have "\<not> length c > size_of_int len"
    using Cons.prems(3,4) by (simp add: size_of_int_small)
  then have step: "Socket_Read_loop uninit (map Received (c # cs) @ [Would_block])
        (Into_extra (EB_Get_ptr eb)) len tot (ub, eb)
      = Socket_Read_loop uninit (map Received cs @ [Would_block])
          (Into_extra (EB_Get_ptr (EB_Write eb1 (int (length c))))) (len - int (length c))
          (tot + int (length c)) (ub, EB_Write eb1 (int (length c)))"
    by (simp add: eb1(1,3))
  show ?case
    unfolding step
    using Cons.IH [OF eb1(2), of "len - int (length c)" "tot + int (length c)"] Cons.prems
    by (auto simp: add.assoc)
qed

text \<open>The piece that fills the user buffer switches to a fresh overflow buffer.\<close>

lemma recv_step_fill:
  assumes wf: "UB_wf ub" and low: "Read_Spot ub < Buffer_Size ub div 2"
    and inval: "\<not> EB_IsVaild eb" and fits: "length bs = UB_Writeable ub"
  obtains ub' where
    "recv_store (Into_user (UB_WritePtr ub)) bs (ub, eb) = (Inr (), UB_poke ub bs, eb)"
    "\<And>len. recv_account uninit (int (length bs)) len (UB_poke ub bs, eb)
       = (Inr (Some (Into_extra (EB_Get_ptr (EB_init eb)), EB_WriteAble (EB_init eb))), ub', EB_init eb)"
    "UB_wf ub'" "UB_content ub' = UB_content ub @ bs"
proof -
  have room: "Write_Spot ub + length bs = Buffer_Size ub"
    using wf fits UB_wfD(2) [OF wf] by (simp add: UB_Writeable_wf)
  have n: "size_of_int (int (length bs)) = length bs" "size_add (Write_Spot ub) (length bs) = Buffer_Size ub"
    using room wf by (auto simp: UB_wf_def two64_def size_add_def intro: size_of_int_of_nat)
  let ?u = "ub\<lparr>Buffer := blit (Buffer ub) (Write_Spot ub) bs, Write_Spot := Buffer_Size ub\<rparr>"
  have "UB_Write_count (UB_poke ub bs) (int (length bs)) = (Inr (int (length bs)), ?u)"
    using fits low n by (simp add: UB_Write_count_def UB_poke_def UB_Writeable_def UB_Move_Buffer_def)
  moreover have "UB_Writeable ?u = 0" by (simp add: UB_Writeable_def)
  moreover have "UB_wf ?u" "UB_content ?u = UB_content ub @ bs"
    using UB_append_wf [OF wf, of bs] fits room by auto
  ultimately show thesis
    using inval room wf
    by (intro that [of ?u]) (simp_all add: recv_store.simps recv_account_def UB_WritePtr_def UB_poke_def UB_wfD(3) Let_def)
qed

end
