(* ===== verification/Http_Parser.thy ===== *)
theory Http_Parser
  imports Http_Request Socket_Read
begin

text \<open>
  \<open>src/src/http/httpparser.h\<close> and \<open>httpparser.cc\<close>: the request parser, a state machine
  that peeks at one byte of the user buffer, acts on it and consumes it. The record holds the
  objects the parser refers to. A macro of the source is a definition here: \<open>to\<close> is
  \<open>If_Conversion\<close>, \<open>Set_Fault\<close> is itself, and \<open>flow\<close> tells whether the switch was
  left by \<open>break\<close> (the byte is consumed) or by \<open>continue\<close> (it is not).
\<close>

section \<open>The parser and its macros\<close>

record HttpParser =
  hp_Buffer :: UserBuffer
  hp_Result :: HttpParser_Content
  hp_Request :: HttpRequest
  hp_Extra :: Extrabuf

datatype flow = Break | Continue

definition upd_Result :: "(HttpParser_Content \<Rightarrow> HttpParser_Content) \<Rightarrow> HttpParser \<Rightarrow> HttpParser" where
  "upd_Result f p = p\<lparr>hp_Result := f (hp_Result p)\<rparr>"

definition to :: "HttpParserStatus \<Rightarrow> HttpParser \<Rightarrow> (HttpParser, flow) cpp" where
  "to nextstatus p = (Inr Break, upd_Result (\<lambda>r. r\<lparr>Status := nextstatus\<rparr>) p)"

definition Set_Fault :: "HttpParserFault \<Rightarrow> HttpParser \<Rightarrow> (HttpParser, flow) cpp" where
  "Set_Fault f p = (Inr Break, upd_Result (\<lambda>r. r\<lparr>Status := HPSGAMEOVER, Fault := f\<rparr>) p)"

definition hp_Read :: "int \<Rightarrow> HttpParser \<Rightarrow> (HttpParser, char list) cpp" where
  "hp_Read bytes p = (case UB_Read (hp_Buffer p) bytes of (r, ub) \<Rightarrow> (r, p\<lparr>hp_Buffer := ub\<rparr>))"

text \<open>
  The rest of a method name: \<open>Read\<close>, \<open>memcmp\<close>, \<open>C_If_Con_Exe\<close>, \<open>Set_Fault\<close>.
\<close>

definition method_rest ::
  "string \<Rightarrow> HttpRequestMethod \<Rightarrow> HttpParser \<Rightarrow> (HttpParser, flow) cpp" where
  "method_rest word m p =
     bindc (hp_Read (int (length word)) p) (\<lambda>Buf p.
       if Buf = word
       then (Inr Continue, upd_Result (\<lambda>r. r\<lparr>Status := HPSBetweenMU, Method := m\<rparr>) p)
       else Set_Fault HPFInvaildMethod p)"

text \<open>\<open>v *= 10; v += ch - '0';\<close> on an \<open>int\<close>.\<close>

definition push_digit :: "int \<Rightarrow> char \<Rightarrow> cpp_error + int" where
  "push_digit v ch =
     (let w = v * 10 + (int (char_code ch) - 48) in
      if int32_ok (v * 10) \<and> int32_ok w then Inr w else Inl Signed_overflow)"

definition ptr_of :: "nat option \<Rightarrow> cptr" where
  "ptr_of q = (case q of None \<Rightarrow> Null_ptr | Some n \<Rightarrow> In_buffer n)"

section \<open>Storing a header field\<close>

text \<open>
  The case \<open>HPSStore_Header\<close>. Its two special fields: an unknown \<open>Connection\<close> value
  leaves the switch with a fault; the loop over the digits of \<open>Content-Length\<close> is left by
  the \<open>break\<close> of \<open>Set_Fault\<close>, which leaves the loop only, so that the transition to
  \<open>HPSLF\<close> behind the loop is taken in any case.
\<close>

fun content_length_loop ::
  "char list \<Rightarrow> ParsedHeader \<Rightarrow> nat list \<Rightarrow> HttpParser \<Rightarrow> (HttpParser, unit) cpp" where
  "content_length_loop mem val [] p = (Inr (), p)"
| "content_length_loop mem val (i # is) p =
     (case PH_Peek mem val i of
        Inl e \<Rightarrow> (Inl e, p)
      | Inr c \<Rightarrow>
          if isdigit c then
            (case push_digit (Content_length (hp_Result p)) c of
               Inl e \<Rightarrow> (Inl e, p)
             | Inr v \<Rightarrow>
                 content_length_loop mem val is (upd_Result (\<lambda>r. r\<lparr>Content_length := v\<rparr>) p))
          else (Inr (), snd (Set_Fault HPFContentLength p)))"

definition check_content_length ::
  "char list \<Rightarrow> ParsedHeader \<Rightarrow> ParsedHeader \<Rightarrow> HttpParser \<Rightarrow> (HttpParser, unit) cpp" where
  "check_content_length mem hdr val p =
     (case ParsedHeaderIsEqual_str mem hdr (Literal ''Content-Length'') of
        Inl e \<Rightarrow> (Inl e, p)
      | Inr b \<Rightarrow> if b then content_length_loop mem val [0..<ph_length val] p else (Inr (), p))"

text \<open>The value is whether the switch is left here.\<close>

definition check_connection ::
  "char list \<Rightarrow> ParsedHeader \<Rightarrow> ParsedHeader \<Rightarrow> HttpParser \<Rightarrow> (HttpParser, bool) cpp" where
  "check_connection mem hdr val p =
     (case ParsedHeaderIsEqual_str mem hdr (Literal ''Connection'') of
        Inl e \<Rightarrow> (Inl e, p)
      | Inr False \<Rightarrow> (Inr False, p)
      | Inr True \<Rightarrow>
          (case ParsedHeaderIsEqual_str mem val (Literal ''Keep-Alive'') of
             Inl e \<Rightarrow> (Inl e, p)
           | Inr True \<Rightarrow> (Inr False, upd_Result (\<lambda>r. r\<lparr>Set_Ka := Keep_Alive\<rparr>) p)
           | Inr False \<Rightarrow>
               (case ParsedHeaderIsEqual_str mem val (Literal ''Close'') of
                  Inl e \<Rightarrow> (Inl e, p)
                | Inr True \<Rightarrow> (Inr False, upd_Result (\<lambda>r. r\<lparr>Set_Ka := Close\<rparr>) p)
                | Inr False \<Rightarrow> (Inr True, snd (Set_Fault HPFSetConnection p)))))"

definition store_header_state ::
  "(ParsedHeader \<Rightarrow> ParsedHeader \<Rightarrow> bool) \<Rightarrow> HttpParser \<Rightarrow> (HttpParser, flow) cpp" where
  "store_header_state visits p =
     (let mem = Buffer (hp_Buffer p);
          r = hp_Result p;
          hdr = ParsedHeader_make (ptr_of (Header r)) (Header_length r);
          val = ParsedHeader_make (ptr_of (Value r)) (Value_length r) in
      case Store_Header mem visits (hp_Request p) hdr val of
        Inl e \<Rightarrow> (Inl e, p)
      | Inr rq \<Rightarrow>
          (let p = upd_Result (\<lambda>r. r\<lparr>Header := None, Header_length := 1,
                                     Value := None, Value_length := 1\<rparr>)
                     (p\<lparr>hp_Request := rq\<rparr>) in
           bindc (check_connection mem hdr val p) (\<lambda>left p.
             if left then (Inr Break, p)
             else bindc (check_content_length mem hdr val p) (\<lambda>_ p. to HPSLF p))))"

section \<open>One iteration of the loop\<close>

text \<open>The switch: \<open>ch\<close> is \<open>User_Buffer_->Peek(0)\<close>.\<close>

definition parse_state ::
  "(ParsedHeader \<Rightarrow> ParsedHeader \<Rightarrow> bool) \<Rightarrow> char \<Rightarrow> HttpParser \<Rightarrow> (HttpParser, flow) cpp" where
  "parse_state visits ch p =
     (case Status (hp_Result p) of
        HPSOK \<Rightarrow>
          if ch = CHR ''G'' then to HPSGET p
          else if ch = CHR ''P'' then to HPSPOST p
          else if ch = CHR ''O'' then to HPSOPTION p
          else if ch = CHR ''H'' then to HPSHEAD p
          else if ch = CHR ''D'' then to HPSDELETE p
          else if ch = CHR '' '' then to HPSOK p
          else Set_Fault HPFInvaildMethod p
      | HPSOPTION \<Rightarrow> method_rest ''PTIONS'' HROptions p
      | HPSGET \<Rightarrow> method_rest ''ET'' HRGet p
      | HPSHEAD \<Rightarrow> method_rest ''EAD'' HRHead p
      | HPSDELETE \<Rightarrow> method_rest ''ELETE'' HRDELETE p
      | HPSPOST \<Rightarrow> method_rest ''OST'' HRPost p
      | HPSBetweenMU \<Rightarrow>
          if ch = CHR '' '' then to HPSUriStart p
          else Set_Fault HPFBetween_Method_URI_NoBlank p
      | HPSUriStart \<Rightarrow>
          if ch = CHR '' '' then to HPSUriStart p
          else if isuri ch
          then to HPSURIParser (upd_Result (\<lambda>r. r\<lparr>Uri := Some (UB_ReadPtr (hp_Buffer p))\<rparr>) p)
          else Set_Fault HPFInvaildUri p
      | HPSURIParser \<Rightarrow>
          if isuri ch
          then to HPSURIParser (upd_Result (\<lambda>r. r\<lparr>Uri_length := Uri_length r + 1\<rparr>) p)
          else if ch = CHR '' '' then to HPSUriEnd p
          else Set_Fault HPFInvaildUri p
      | HPSUriEnd \<Rightarrow>
          if ch = CHR '' '' then to HPSUriEnd p
          else
            bindc (hp_Read 5 p) (\<lambda>Buf p.
              if Buf = ''HTTP/''
              then (Inr Continue, upd_Result (\<lambda>r. r\<lparr>Status := HPSVersionMajor\<rparr>) p)
              else Set_Fault HPFInvaildVersion p)
      | HPSVersionMajor \<Rightarrow>
          if isdigit ch
          then (case push_digit (V_major (hp_Result p)) ch of
                  Inl e \<Rightarrow> (Inl e, p)
                | Inr v \<Rightarrow> to HPSVersionMajor (upd_Result (\<lambda>r. r\<lparr>V_major := v\<rparr>) p))
          else if ch = CHR ''.'' then to HPSVersionMinor p
          else Set_Fault HPFInvaildVersion p
      | HPSVersionMinor \<Rightarrow>
          if isdigit ch
          then (case push_digit (V_minor (hp_Result p)) ch of
                  Inl e \<Rightarrow> (Inl e, p)
                | Inr v \<Rightarrow> to HPSVersionMinor (upd_Result (\<lambda>r. r\<lparr>V_minor := v\<rparr>) p))
          else if ch = CHR 0x0D then to HPSVersionEnd p
          else Set_Fault HPFInvaildVersion p
      | HPSVersionEnd \<Rightarrow>
          if V_major (hp_Result p) \<noteq> 1 \<or> (V_minor (hp_Result p) \<noteq> 1 \<and> V_minor (hp_Result p) \<noteq> 0)
          then to HPSGAMEOVER (upd_Result (\<lambda>r. r\<lparr>Fault := HPFNoSupportVersion\<rparr>) p)
          else if ch = CHR 0x0A then to HPSLF p
          else Set_Fault HPFInvaildVersion p
      | HPSLF \<Rightarrow>
          if ch = CHR 0x0D then to HPSCRLFCR p
          else if isheader ch
          then to HPSHeader (upd_Result (\<lambda>r. r\<lparr>Header := Some (UB_ReadPtr (hp_Buffer p))\<rparr>) p)
          else Set_Fault HPFInvaildHeader p
      | HPSCRLFCR \<Rightarrow>
          if ch = CHR 0x0A
          then to HPSGAMEOVER (upd_Result (\<lambda>r. r\<lparr>Fault := HPFContent\<rparr>) p)
          else Set_Fault HPFCRLFCR p
      | HPSHeader \<Rightarrow>
          if isheader ch
          then to HPSHeader (upd_Result (\<lambda>r. r\<lparr>Header_length := Header_length r + 1\<rparr>) p)
          else if ch = CHR '':'' then to HPSColon p
          else Set_Fault HPFInvaildHeader p
      | HPSColon \<Rightarrow>
          if ch = CHR '' '' then to HPSColon p
          else if isvalue ch
          then to HPSHeader_Value (upd_Result (\<lambda>r. r\<lparr>Value := Some (UB_ReadPtr (hp_Buffer p))\<rparr>) p)
          else Set_Fault HPFInvaildHeader p
      | HPSHeader_Value \<Rightarrow>
          if isvalue ch
          then to HPSHeader_Value (upd_Result (\<lambda>r. r\<lparr>Value_length := Value_length r + 1\<rparr>) p)
          else if ch = CHR 0x0D then to HPSStore_Header p
          else Set_Fault HPFInvaildHeader_Value p
      | HPSStore_Header \<Rightarrow> store_header_state visits p
      | HPSGAMEOVER \<Rightarrow> (Inr Break, p))"

text \<open>
  The end of an iteration: consume the byte; when the user buffer is used up and the overflow
  buffer is valid, refill. The overflow buffer's position is advanced by \<open>length\<close> before
  its pointer is taken.
\<close>

definition refill :: "HttpParser \<Rightarrow> (HttpParser, unit) cpp" where
  "refill p =
     (let ub = UB_Clean (hp_Buffer p);
          eb = hp_Extra p;
          len = EB_Get_length eb;
          len = (if size_of_int len > UB_Length ub then int (UB_Length ub) else len);
          eb = EB_Write eb len;
          src = (case extrabuf eb of None \<Rightarrow> [] | Some blk \<Rightarrow> drop (nat (EB_Get_ptr eb)) blk) in
      case UB_Write ub src len of
        (Inl e, ub) \<Rightarrow> (Inl e, p\<lparr>hp_Buffer := ub, hp_Extra := eb\<rparr>)
      | (Inr _, ub) \<Rightarrow> (Inr (), p\<lparr>hp_Buffer := ub, hp_Extra := eb\<rparr>))"

definition parse_tail :: "HttpParser \<Rightarrow> (HttpParser, unit) cpp" where
  "parse_tail p =
     (case UB_skip (hp_Buffer p) 1 of
        (Inl e, ub) \<Rightarrow> (Inl e, p\<lparr>hp_Buffer := ub\<rparr>)
      | (Inr _, ub) \<Rightarrow>
          (let p = p\<lparr>hp_Buffer := ub\<rparr> in
           if UB_Readable ub = 0 \<and> EB_IsVaild (hp_Extra p) then refill p else (Inr (), p)))"

definition parse_step ::
  "(ParsedHeader \<Rightarrow> ParsedHeader \<Rightarrow> bool) \<Rightarrow> HttpParser \<Rightarrow> (HttpParser, unit) cpp" where
  "parse_step visits p =
     (case UB_Peek (hp_Buffer p) 0 of
        Inl e \<Rightarrow> (Inl e, p)
      | Inr ch \<Rightarrow>
          bindc (parse_state visits ch p) (\<lambda>flow p.
            case flow of Continue \<Rightarrow> (Inr (), p) | Break \<Rightarrow> parse_tail p))"

section \<open>The loop and the entry point\<close>

text \<open>\<open>None\<close> is a loop that does not end.\<close>

partial_function (option) Parsering ::
  "(ParsedHeader \<Rightarrow> ParsedHeader \<Rightarrow> bool) \<Rightarrow> HttpParser \<Rightarrow> ((HttpParser, unit) cpp) option" where
  "Parsering visits p =
     (if Status (hp_Result p) \<noteq> HPSGAMEOVER \<and> UB_Readable (hp_Buffer p) \<noteq> 0
      then (case parse_step visits p of
              (Inl e, p) \<Rightarrow> Some (Inl e, p)
            | (Inr _, p) \<Rightarrow> Parsering visits p)
      else Some (Inr (), p))"

definition Parser_able :: "HttpParser \<Rightarrow> bool" where
  "Parser_able p \<longleftrightarrow> UB_Readable (hp_Buffer p) \<ge> 16"

definition Finished :: "HttpParser \<Rightarrow> bool" where
  "Finished p \<longleftrightarrow> Fault (hp_Result p) = HPFContent"

definition Again_Parser :: "HttpParser \<Rightarrow> HttpParser" where
  "Again_Parser p = upd_Result HttpParser_Content_init p"

definition SetRequesting :: "HttpParser \<Rightarrow> HttpParser" where
  "SetRequesting p =
     (let r = hp_Result p;
          rq = (hp_Request p)\<lparr>Version_Major := V_major r, Version_Minor := V_minor r,
                  rq_Content_Length := size_of_int (Content_length r),
                  rq_Method := Method r, rq_Flag := Set_Ka r, rq_Fault := Fault r,
                  Request_Buffer_set := True\<rparr> in
      p\<lparr>hp_Request :=
          (case Uri r of
             None \<Rightarrow> rq
           | Some u \<Rightarrow> rq\<lparr>rq_Uri := ParsedHeader_make (In_buffer u) (Uri_length r)\<rparr>)\<rparr>)"

definition Starting_Parser ::
  "(ParsedHeader \<Rightarrow> ParsedHeader \<Rightarrow> bool) \<Rightarrow> HttpParser
     \<Rightarrow> ((HttpParser, HttpParserFault) cpp) option" where
  "Starting_Parser visits p =
     (let p = (if Parser_able p then p
               else upd_Result (\<lambda>r. r\<lparr>Fault := HPFToLittleMessage\<rparr>) p) in
      case Parsering visits p of
        None \<Rightarrow> None
      | Some (Inl e, p) \<Rightarrow> Some (Inl e, p)
      | Some (Inr _, p) \<Rightarrow>
          (let p = SetRequesting p in Some (Inr (Fault (hp_Result p)), p)))"

text \<open>\<open>clear\<close>; the overflow buffer is cleared by its owner, the socket.\<close>

definition HttpParser_clear :: "HttpParser \<Rightarrow> (HttpParser, unit) cpp" where
  "HttpParser_clear p =
     (let ub = UB_Clean (hp_Buffer p);
          r = HttpParser_Content_init (hp_Result p) in
      case HttpRequest_clear ub (hp_Request p) of
        (res, ub, rq) \<Rightarrow> (res, p\<lparr>hp_Buffer := ub, hp_Result := r, hp_Request := rq\<rparr>))"

end
