(* ===== verification/Http_Parser_Safety.thy ===== *)
theory Http_Parser_Safety
  imports Http_Parser
begin

text \<open>
  The parser on any input, with the overflow buffer unused: the invariant that ties its
  pointers to the bytes it has consumed, its preservation by every state, and from it that the
  loop ends, that only two errors can leave it, and what an accepted request looks like.
\<close>

section \<open>Spans of consumed bytes\<close>

text \<open>
  \<open>span P M q len pos\<close>: the pointer \<open>q\<close> with the length \<open>len\<close> covers bytes of the
  block \<open>M\<close> that satisfy \<open>P\<close> and end right before \<open>pos\<close>; \<open>spanned\<close>: they end at
  \<open>pos\<close> or earlier.
\<close>

definition span :: "(char \<Rightarrow> bool) \<Rightarrow> char list \<Rightarrow> nat option \<Rightarrow> int \<Rightarrow> nat \<Rightarrow> bool" where
  "span P M q len pos \<longleftrightarrow>
     (\<exists>u. q = Some u \<and> 1 \<le> len \<and> u + nat len = pos \<and> (\<forall>c \<in> set (slice M u (nat len)). P c))"

definition spanned :: "(char \<Rightarrow> bool) \<Rightarrow> char list \<Rightarrow> nat option \<Rightarrow> int \<Rightarrow> nat \<Rightarrow> bool" where
  "spanned P M q len pos \<longleftrightarrow> (\<exists>pos' \<le> pos. span P M q len pos')"

lemma span_start: "pos < length M \<Longrightarrow> P (M ! pos) \<Longrightarrow> span P M (Some pos) 1 (Suc pos)"
  using slice_Suc_right [of pos 0 M] by (simp add: span_def)

lemma span_extend:
  assumes "span P M q len pos" and "pos < length M" and "P (M ! pos)"
  shows "span P M q (len + 1) (Suc pos)"
proof -
  obtain u where u: "q = Some u" "1 \<le> len" "u + nat len = pos" "\<forall>c \<in> set (slice M u (nat len)). P c"
    using assms(1) by (auto simp: span_def)
  then have "slice M u (nat (len + 1)) = slice M u (nat len) @ [M ! pos]"
    using slice_Suc_right [of u "nat len" M] assms(2) by (simp add: nat_add_distrib)
  with u assms(3) show ?thesis by (auto simp: span_def)
qed

lemma span_spanned: "span P M q len pos \<Longrightarrow> pos \<le> pos' \<Longrightarrow> spanned P M q len pos'"
  by (auto simp: spanned_def)

lemma spanned_mono: "spanned P M q len pos \<Longrightarrow> pos \<le> pos' \<Longrightarrow> spanned P M q len pos'"
  by (meson le_trans spanned_def)

text \<open>The view that is made of a span.\<close>

lemma spanned_view:
  assumes "spanned P M q len pos" and "pos \<le> length M" and "length M < two64"
  shows "view_ok M (ParsedHeader_make (ptr_of q) len)"
    and "\<forall>c \<in> set (view_bytes M (ParsedHeader_make (ptr_of q) len)). P c"
    and "view_bytes M (ParsedHeader_make (ptr_of q) len) \<noteq> []"
proof -
  obtain u where u: "q = Some u" "1 \<le> len" "u + nat len \<le> pos" "\<forall>c \<in> set (slice M u (nat len)). P c"
    using assms(1) by (auto simp: spanned_def span_def)
  then have n: "size_of_int len = nat len" using assms(2,3) by (simp add: size_of_int_small)
  then have bytes: "view_bytes M (ParsedHeader_make (ptr_of q) len) = slice M u (nat len)"
    using u(1) by (simp add: view_bytes_slice [where p = u] ParsedHeader_make_def ptr_of_def)
  show "view_ok M (ParsedHeader_make (ptr_of q) len)"
    using u assms(2) n by (simp add: view_ok_def ParsedHeader_make_def ptr_of_def)
  show "\<forall>c \<in> set (view_bytes M (ParsedHeader_make (ptr_of q) len)). P c"
    using u(4) bytes by simp
  have "length (slice M u (nat len)) = nat len" using u assms(2) by simp
  with u(2) show "view_bytes M (ParsedHeader_make (ptr_of q) len) \<noteq> []"
    unfolding bytes by force
qed

section \<open>The invariant\<close>

definition field_ok :: "char list \<Rightarrow> ParsedHeader \<times> ParsedHeader \<Rightarrow> bool" where
  "field_ok M kv \<longleftrightarrow>
     view_ok M (fst kv) \<and> view_bytes M (fst kv) \<noteq> [] \<and> list_all isheader (view_bytes M (fst kv)) \<and>
     view_ok M (snd kv) \<and> view_bytes M (snd kv) \<noteq> [] \<and> list_all isvalue (view_bytes M (snd kv))"

definition uri_done :: "char list \<Rightarrow> nat \<Rightarrow> HttpParser_Content \<Rightarrow> bool" where
  "uri_done M pos r \<longleftrightarrow> Method r \<noteq> HRInit \<and> spanned isuri M (Uri r) (Uri_length r) pos"

definition line_done :: "char list \<Rightarrow> nat \<Rightarrow> HttpParser_Content \<Rightarrow> bool" where
  "line_done M pos r \<longleftrightarrow> uri_done M pos r \<and> V_major r = 1 \<and> (V_minor r = 0 \<or> V_minor r = 1)"

definition name_done :: "char list \<Rightarrow> nat \<Rightarrow> HttpParser_Content \<Rightarrow> bool" where
  "name_done M pos r \<longleftrightarrow> line_done M pos r \<and> spanned isheader M (Header r) (Header_length r) pos"

text \<open>What holds of the working record in each state, \<open>pos\<close> being the read spot.\<close>

definition status_inv :: "char list \<Rightarrow> nat \<Rightarrow> HttpParser_Content \<Rightarrow> bool" where
  "status_inv M pos r \<longleftrightarrow>
     (case Status r of
        HPSOK \<Rightarrow> Uri_length r = 1 \<and> Header_length r = 1 \<and> Value_length r = 1
      | HPSGET \<Rightarrow> Uri_length r = 1 \<and> Header_length r = 1 \<and> Value_length r = 1
      | HPSPOST \<Rightarrow> Uri_length r = 1 \<and> Header_length r = 1 \<and> Value_length r = 1
      | HPSOPTION \<Rightarrow> Uri_length r = 1 \<and> Header_length r = 1 \<and> Value_length r = 1
      | HPSHEAD \<Rightarrow> Uri_length r = 1 \<and> Header_length r = 1 \<and> Value_length r = 1
      | HPSDELETE \<Rightarrow> Uri_length r = 1 \<and> Header_length r = 1 \<and> Value_length r = 1
      | HPSBetweenMU \<Rightarrow> Method r \<noteq> HRInit \<and> Uri_length r = 1 \<and> Header_length r = 1 \<and> Value_length r = 1
      | HPSUriStart \<Rightarrow> Method r \<noteq> HRInit \<and> Uri_length r = 1 \<and> Header_length r = 1 \<and> Value_length r = 1
      | HPSURIParser \<Rightarrow> Method r \<noteq> HRInit \<and> span isuri M (Uri r) (Uri_length r) pos
          \<and> Header_length r = 1 \<and> Value_length r = 1
      | HPSUriEnd \<Rightarrow> uri_done M pos r \<and> Header_length r = 1 \<and> Value_length r = 1
      | HPSVersionMajor \<Rightarrow> uri_done M pos r \<and> Header_length r = 1 \<and> Value_length r = 1
      | HPSVersionMinor \<Rightarrow> uri_done M pos r \<and> Header_length r = 1 \<and> Value_length r = 1
      | HPSVersionEnd \<Rightarrow> uri_done M pos r \<and> Header_length r = 1 \<and> Value_length r = 1
      | HPSLF \<Rightarrow> line_done M pos r \<and> Header_length r = 1 \<and> Value_length r = 1
      | HPSCRLFCR \<Rightarrow> line_done M pos r
      | HPSHeader \<Rightarrow> line_done M pos r \<and> span isheader M (Header r) (Header_length r) pos
          \<and> Value_length r = 1
      | HPSColon \<Rightarrow> name_done M pos r \<and> Value_length r = 1
      | HPSHeader_Value \<Rightarrow> name_done M pos r \<and> span isvalue M (Value r) (Value_length r) pos
      | HPSStore_Header \<Rightarrow> name_done M pos r \<and> spanned isvalue M (Value r) (Value_length r) pos
      | HPSGAMEOVER \<Rightarrow> line_done M pos r)"

definition parser_inv :: "HttpParser \<Rightarrow> bool" where
  "parser_inv p \<longleftrightarrow>
     UB_wf (hp_Buffer p) \<and> \<not> EB_IsVaild (hp_Extra p) \<and>
     list_all (field_ok (Buffer (hp_Buffer p))) (Header_Value (hp_Request p)) \<and>
     (Status (hp_Result p) \<noteq> HPSGAMEOVER \<longrightarrow> Fault (hp_Result p) \<noteq> HPFContent) \<and>
     status_inv (Buffer (hp_Buffer p)) (Read_Spot (hp_Buffer p)) (hp_Result p)"

text \<open>A run that has been given up: the loop stops at once and reports a fault.\<close>

definition parser_failed :: "HttpParser \<Rightarrow> bool" where
  "parser_failed p \<longleftrightarrow> Status (hp_Result p) = HPSGAMEOVER \<and> Fault (hp_Result p) \<noteq> HPFContent"

section \<open>Consuming a byte\<close>

definition consume :: "HttpParser \<Rightarrow> HttpParser" where
  "consume p = p\<lparr>hp_Buffer := (hp_Buffer p)\<lparr>Read_Spot := size_add (Read_Spot (hp_Buffer p)) 1\<rparr>\<rparr>"

lemma parse_tail_consume: "\<not> EB_IsVaild (hp_Extra p) \<Longrightarrow> parse_tail p = (Inr (), consume p)"
  by (simp add: parse_tail_def UB_skip_def consume_def Let_def)

lemma consume_wf:
  assumes "UB_wf (hp_Buffer p)" and "UB_content (hp_Buffer p) \<noteq> []"
  shows "consume p = p\<lparr>hp_Buffer := (hp_Buffer p)\<lparr>Read_Spot := Suc (Read_Spot (hp_Buffer p))\<rparr>\<rparr>"
    and "UB_wf ((hp_Buffer p)\<lparr>Read_Spot := Suc (Read_Spot (hp_Buffer p))\<rparr>)"
    and "UB_content ((hp_Buffer p)\<lparr>Read_Spot := Suc (Read_Spot (hp_Buffer p))\<rparr>) = tl (UB_content (hp_Buffer p))"
proof -
  have n: "1 \<le> length (UB_content (hp_Buffer p))" using assms(2) by (cases "UB_content (hp_Buffer p)") auto
  show "consume p = p\<lparr>hp_Buffer := (hp_Buffer p)\<lparr>Read_Spot := Suc (Read_Spot (hp_Buffer p))\<rparr>\<rparr>"
    using size_add_Read_Spot [OF assms(1) n] by (simp add: consume_def)
  show "UB_wf ((hp_Buffer p)\<lparr>Read_Spot := Suc (Read_Spot (hp_Buffer p))\<rparr>)"
    and "UB_content ((hp_Buffer p)\<lparr>Read_Spot := Suc (Read_Spot (hp_Buffer p))\<rparr>) = tl (UB_content (hp_Buffer p))"
    using UB_advance [OF assms(1) n] by (simp_all add: drop_Suc)
qed

lemma content_Cons_nth:
  assumes "UB_wf ub" and "UB_content ub = c # cs"
  shows "Buffer ub ! Read_Spot ub = c" and "Read_Spot ub < length (Buffer ub)"
    and "Read_Spot ub < Write_Spot ub"
proof -
  have len: "0 < length (UB_content ub)" using assms(2) by simp
  show "Buffer ub ! Read_Spot ub = c"
    using UB_content_nth [OF assms(1) len] assms(2) by simp
  show "Read_Spot ub < Write_Spot ub" using len length_UB_content [OF assms(1)] by simp
  then show "Read_Spot ub < length (Buffer ub)" using assms(1) by (simp add: UB_wf_def)
qed

text \<open>A step while the overflow buffer is unused.\<close>

lemma parse_step_unfold:
  assumes "UB_wf (hp_Buffer p)" and "UB_content (hp_Buffer p) = c # cs"
  shows "parse_step visits p =
     bindc (parse_state visits c p) (\<lambda>flow p. case flow of Continue \<Rightarrow> (Inr (), p) | Break \<Rightarrow> parse_tail p)"
  using UB_Peek_content [OF assms(1), of 0] assms(2) by (simp add: parse_step_def)

section \<open>Every state keeps the invariant\<close>

text \<open>
  \<open>state_ok p out\<close>: what the switch may do from \<open>p\<close>. An error is a read past the end of a
  method or version name, or a number that overflows. After \<open>break\<close> the byte is still to be
  consumed, so the invariant is stated one position further.
\<close>

fun state_ok :: "HttpParser \<Rightarrow> (HttpParser, flow) cpp \<Rightarrow> bool" where
  "state_ok p (Inl e, p') \<longleftrightarrow> e = Out_of_range \<or> e = Signed_overflow"
| "state_ok p (Inr Break, p') \<longleftrightarrow>
     hp_Extra p' = hp_Extra p \<and>
     (parser_failed p' \<or>
      hp_Buffer p' = hp_Buffer p \<and>
      list_all (field_ok (Buffer (hp_Buffer p))) (Header_Value (hp_Request p')) \<and>
      (Status (hp_Result p') \<noteq> HPSGAMEOVER \<longrightarrow> Fault (hp_Result p') \<noteq> HPFContent) \<and>
      status_inv (Buffer (hp_Buffer p)) (Suc (Read_Spot (hp_Buffer p))) (hp_Result p'))"
| "state_ok p (Inr Continue, p') \<longleftrightarrow>
     parser_inv p' \<and>
     (\<exists>k. 0 < k \<and> k \<le> length (UB_content (hp_Buffer p)) \<and>
          hp_Buffer p' = (hp_Buffer p)\<lparr>Read_Spot := Read_Spot (hp_Buffer p) + k\<rparr>)"

lemma hp_Read_cases:
  assumes "UB_wf (hp_Buffer p)" and "n < 2147483648"
  shows "hp_Read (int n) p =
     (if n \<le> length (UB_content (hp_Buffer p))
      then (Inr (take n (UB_content (hp_Buffer p))),
            p\<lparr>hp_Buffer := (hp_Buffer p)\<lparr>Read_Spot := Read_Spot (hp_Buffer p) + n\<rparr>\<rparr>)
      else (Inl Out_of_range, p))"
  using UB_Read_content [OF assms(1)] UB_Read_short [OF assms(1) _ assms(2)]
  by (simp add: hp_Read_def)

lemma state_ok_fault:
  "f \<noteq> HPFContent \<Longrightarrow> hp_Extra p' = hp_Extra p \<Longrightarrow> state_ok p (Set_Fault f p')"
  by (simp add: Set_Fault_def upd_Result_def parser_failed_def)

lemma state_ok_word:
  assumes inv: "parser_inv p" and n: "0 < length word" "length word < 100"
    and f: "f \<noteq> HPFContent"
    and good: "\<And>pos. Read_Spot (hp_Buffer p) \<le> pos \<Longrightarrow>
       status_inv (Buffer (hp_Buffer p)) pos (g (hp_Result p))"
    and st: "Status (g (hp_Result p)) \<noteq> HPSGAMEOVER" "Fault (g (hp_Result p)) \<noteq> HPFContent"
  shows "state_ok p (bindc (hp_Read (int (length word)) p)
     (\<lambda>Buf p. if Buf = word then (Inr Continue, upd_Result g p) else Set_Fault f p))"
proof (cases "length word \<le> length (UB_content (hp_Buffer p))")
  case False
  then show ?thesis using inv n by (simp add: hp_Read_cases parser_inv_def)
next
  case True
  let ?p = "p\<lparr>hp_Buffer := (hp_Buffer p)\<lparr>Read_Spot := Read_Spot (hp_Buffer p) + length word\<rparr>\<rparr>"
  have read: "hp_Read (int (length word)) p = (Inr (take (length word) (UB_content (hp_Buffer p))), ?p)"
    using inv n True by (simp add: hp_Read_cases parser_inv_def)
  have "parser_inv (upd_Result g ?p)"
    using inv st good [of "Read_Spot (hp_Buffer p) + length word"] UB_advance(1) [OF _ True]
    by (simp add: parser_inv_def upd_Result_def)
  then have "state_ok p (Inr Continue, upd_Result g ?p)"
    using n True by (auto simp: upd_Result_def)
  moreover have "state_ok p (Set_Fault f ?p)"
    using f by (rule state_ok_fault) simp
  ultimately show ?thesis by (simp add: read)
qed

lemma method_rest_ok:
  assumes inv: "parser_inv p" and n: "0 < length word" "length word < 100"
    and st: "Status (hp_Result p) \<in> {HPSOPTION, HPSGET, HPSHEAD, HPSDELETE, HPSPOST}"
    and m: "m \<noteq> HRInit"
  shows "state_ok p (method_rest word m p)"
  unfolding method_rest_def
  by (rule state_ok_word [OF inv n]) (use inv st m in \<open>auto simp: parser_inv_def status_inv_def\<close>)

text \<open>The length loop changes nothing but the length, the state and the fault.\<close>

lemma content_length_loop_frame:
  assumes "view_ok mem val" and "\<forall>i \<in> set is. i < ph_length val"
    and "Fault (hp_Result p) \<noteq> HPFContent"
  shows "\<exists>r v s f. content_length_loop mem val is p =
       (r, upd_Result (\<lambda>c. c\<lparr>Content_length := v, Status := s, Fault := f\<rparr>) p) \<and>
       f \<noteq> HPFContent \<and> (r = Inr () \<or> r = Inl Signed_overflow)"
  using assms(2,3)
proof (induction "is" arbitrary: p)
  case Nil
  have "upd_Result (\<lambda>c. c\<lparr>Content_length := Content_length (hp_Result p),
      Status := Status (hp_Result p), Fault := Fault (hp_Result p)\<rparr>) p = p"
    by (simp add: upd_Result_def)
  with Nil show ?case by (metis content_length_loop.simps(1))
next
  case (Cons i "is")
  have id: "upd_Result (\<lambda>c. c\<lparr>Content_length := Content_length (hp_Result p),
      Status := Status (hp_Result p), Fault := Fault (hp_Result p)\<rparr>) p = p"
    by (simp add: upd_Result_def)
  have "ptr_ok mem (ph_Header val)" "i < length (view_base mem (ph_Header val))"
    using assms(1) Cons.prems(1) by (auto simp: view_ok_def)
  then obtain c where c: "PH_Peek mem val i = Inr c"
    using Cons.prems(1) by (simp add: PH_Peek_def bytes_at_ok)
  show ?case
  proof (cases "isdigit c")
    case False
    then have "content_length_loop mem val (i # is) p =
        (Inr (), upd_Result (\<lambda>c. c\<lparr>Content_length := Content_length (hp_Result p),
           Status := HPSGAMEOVER, Fault := HPFContentLength\<rparr>) p)"
      by (simp add: c Set_Fault_def upd_Result_def)
    then show ?thesis by blast
  next
    case digit: True
    show ?thesis
    proof (cases "push_digit (Content_length (hp_Result p)) c")
      case (Inl e)
      then have "e = Signed_overflow" by (auto simp: push_digit_def Let_def split: if_splits)
      with Inl digit have "content_length_loop mem val (i # is) p = (Inl Signed_overflow, p)"
        by (simp add: c)
      with id Cons.prems(2) show ?thesis by metis
    next
      case (Inr v)
      let ?p = "upd_Result (\<lambda>r. r\<lparr>Content_length := v\<rparr>) p"
      have "content_length_loop mem val (i # is) p = content_length_loop mem val is ?p"
        by (simp add: c digit Inr)
      moreover have "\<exists>r v' s f. content_length_loop mem val is ?p =
          (r, upd_Result (\<lambda>c. c\<lparr>Content_length := v', Status := s, Fault := f\<rparr>) ?p) \<and>
          f \<noteq> HPFContent \<and> (r = Inr () \<or> r = Inl Signed_overflow)"
        by (rule Cons.IH) (use Cons.prems in \<open>simp_all add: upd_Result_def\<close>)
      moreover have "upd_Result (\<lambda>c. c\<lparr>Content_length := v', Status := s, Fault := f\<rparr>) ?p =
          upd_Result (\<lambda>c. c\<lparr>Content_length := v', Status := s, Fault := f\<rparr>) p" for v' s f
        by (simp add: upd_Result_def)
      ultimately show ?thesis by auto
    qed
  qed
qed

text \<open>Likewise the \<open>Connection\<close> field changes the flag, or ends in a fault.\<close>

lemma check_connection_frame:
  assumes "view_ok mem hdr" and "view_ok mem val"
  shows "check_connection mem hdr val p =
     (if view_bytes mem hdr \<noteq> ''Connection'' then (Inr False, p)
      else if view_bytes mem val = ''Keep-Alive'' then (Inr False, upd_Result (\<lambda>r. r\<lparr>Set_Ka := Keep_Alive\<rparr>) p)
      else if view_bytes mem val = ''Close'' then (Inr False, upd_Result (\<lambda>r. r\<lparr>Set_Ka := Close\<rparr>) p)
      else (Inr True, snd (Set_Fault HPFSetConnection p)))"
  by (simp add: check_connection_def ParsedHeaderIsEqual_str_spec [OF assms(1)]
      ParsedHeaderIsEqual_str_spec [OF assms(2)])

lemma check_content_length_eq:
  assumes "view_ok mem hdr"
  shows "check_content_length mem hdr val p =
     (if view_bytes mem hdr = ''Content-Length'' then content_length_loop mem val [0..<ph_length val] p
      else (Inr (), p))"
  by (simp add: check_content_length_def ParsedHeaderIsEqual_str_spec [OF assms])

lemma field_ok_table_ok: "list_all (field_ok M) es \<Longrightarrow> table_ok M es"
proof (induction es)
  case (Cons e es)
  then show ?case
    by (cases e) (auto simp: field_ok_def list_all_iff isheader_range char_code_def)
qed simp

lemma Store_Header_ok:
  assumes "list_all (field_ok M) (Header_Value rq)" and "field_ok M (k, v)"
  shows "\<exists>es. Store_Header M visits rq k v = Inr (rq\<lparr>Header_Value := es\<rparr>) \<and> list_all (field_ok M) es"
proof -
  have "find_equal_key M visits k (Header_Value rq) = Inr True \<or>
        find_equal_key M visits k (Header_Value rq) = Inr False"
    using find_equal_key_spec [OF field_ok_table_ok [OF assms(1)]] assms(2) by (auto simp: field_ok_def)
  moreover have "rq\<lparr>Header_Value := Header_Value rq\<rparr> = rq" by simp
  ultimately show ?thesis using assms by (auto simp: Store_Header_def intro: exI [of _ "Header_Value rq"])
qed

lemma line_done_mono: "line_done M pos r \<Longrightarrow> pos \<le> pos' \<Longrightarrow> line_done M pos' r"
  by (auto simp: line_done_def uri_done_def intro: spanned_mono)

lemma done_upd [simp]:
  "uri_done M pos (r\<lparr>Status := s\<rparr>) = uri_done M pos r"
  "uri_done M pos (r\<lparr>Fault := f\<rparr>) = uri_done M pos r"
  "uri_done M pos (r\<lparr>V_major := v\<rparr>) = uri_done M pos r"
  "uri_done M pos (r\<lparr>V_minor := v\<rparr>) = uri_done M pos r"
  "line_done M pos (r\<lparr>Status := s\<rparr>) = line_done M pos r"
  "line_done M pos (r\<lparr>Fault := f\<rparr>) = line_done M pos r"
  "line_done M pos (r\<lparr>Header := h\<rparr>) = line_done M pos r"
  "line_done M pos (r\<lparr>Header_length := l\<rparr>) = line_done M pos r"
  "line_done M pos (r\<lparr>Value := h\<rparr>) = line_done M pos r"
  "line_done M pos (r\<lparr>Value_length := l\<rparr>) = line_done M pos r"
  "line_done M pos (r\<lparr>Content_length := l\<rparr>) = line_done M pos r"
  "line_done M pos (r\<lparr>Set_Ka := ka\<rparr>) = line_done M pos r"
  "name_done M pos (r\<lparr>Status := s\<rparr>) = name_done M pos r"
  "name_done M pos (r\<lparr>Value := h\<rparr>) = name_done M pos r"
  "name_done M pos (r\<lparr>Value_length := l\<rparr>) = name_done M pos r"
  by (simp_all add: uri_done_def line_done_def name_done_def)

text \<open>What checking a stored field may change: the length, the state and the fault, never to a fault of the content.\<close>

lemma check_content_length_frame:
  assumes "Fault (hp_Result q) \<noteq> HPFContent" and "field_ok M (hdr, val)"
  obtains res v s f where "check_content_length M hdr val q =
      (res, upd_Result (\<lambda>c. c\<lparr>Content_length := v, Status := s, Fault := f\<rparr>) q)"
    "f \<noteq> HPFContent" "res = Inr () \<or> res = Inl Signed_overflow"
proof (cases "view_bytes M hdr = ''Content-Length''")
  case True
  then show thesis
    using that content_length_loop_frame [of M val "[0..<ph_length val]" q] assms
    by (auto simp: check_content_length_eq field_ok_def)
next
  case False
  have "q = upd_Result (\<lambda>c. c\<lparr>Content_length := Content_length (hp_Result q), Status := Status (hp_Result q),
      Fault := Fault (hp_Result q)\<rparr>) q"
    by (simp add: upd_Result_def)
  then show thesis
    using that [where res = "Inr ()" and v = "Content_length (hp_Result q)" and s = "Status (hp_Result q)" and f = "Fault (hp_Result q)"] False assms
    by (simp add: check_content_length_eq field_ok_def)
qed

text \<open>The parser after the field was stored.\<close>

definition field_stored :: "(ParsedHeader \<times> ParsedHeader) list \<Rightarrow> HttpParser \<Rightarrow> HttpParser" where
  "field_stored es p = upd_Result (\<lambda>r. r\<lparr>Header := None, Header_length := 1, Value := None, Value_length := 1\<rparr>)
     (p\<lparr>hp_Request := (hp_Request p)\<lparr>Header_Value := es\<rparr>\<rparr>)"

lemma field_stored_finish:
  assumes inv: "parser_inv p" and st: "Status (hp_Result p) = HPSStore_Header"
    and ld: "line_done (Buffer (hp_Buffer p)) (Suc (Read_Spot (hp_Buffer p))) (hp_Result p)"
    and views: "field_ok (Buffer (hp_Buffer p)) (hdr, val)" and es: "list_all (field_ok (Buffer (hp_Buffer p))) es"
  shows "state_ok p (bindc (check_content_length (Buffer (hp_Buffer p)) hdr val (upd_Result (\<lambda>r. r\<lparr>Set_Ka := ka\<rparr>) (field_stored es p)))
    (\<lambda>_ p. to HPSLF p))" (is "state_ok p (bindc (check_content_length ?M hdr val ?q) _)")
proof -
  have fault: "Fault (hp_Result ?q) \<noteq> HPFContent"
    using inv st by (simp add: parser_inv_def field_stored_def upd_Result_def)
  obtain res v s f where res: "check_content_length ?M hdr val ?q =
      (res, upd_Result (\<lambda>c. c\<lparr>Content_length := v, Status := s, Fault := f\<rparr>) ?q)"
    "f \<noteq> HPFContent" "res = Inr () \<or> res = Inl Signed_overflow"
    by (rule check_content_length_frame [OF fault views])
  show ?thesis
    using res(3)
  proof
    assume "res = Inl Signed_overflow"
    then show ?thesis by (simp add: res(1))
  next
    assume ok: "res = Inr ()"
    have "bindc (check_content_length ?M hdr val ?q) (\<lambda>_ p. to HPSLF p) =
        to HPSLF (upd_Result (\<lambda>c. c\<lparr>Content_length := v, Status := s, Fault := f\<rparr>) ?q)"
      by (simp add: res(1) ok)
    then show ?thesis
      using es res(2) ld by (simp add: to_def upd_Result_def field_stored_def status_inv_def)
  qed
qed

lemma store_header_ok:
  assumes inv: "parser_inv p" and st: "Status (hp_Result p) = HPSStore_Header"
  shows "state_ok p (store_header_state visits p)"
proof -
  define M where "M = Buffer (hp_Buffer p)"
  define pos where "pos = Read_Spot (hp_Buffer p)"
  define r where "r = hp_Result p"
  define hdr where "hdr = ParsedHeader_make (ptr_of (Header r)) (Header_length r)"
  define val where "val = ParsedHeader_make (ptr_of (Value r)) (Value_length r)"
  have wf: "UB_wf (hp_Buffer p)" using inv by (simp add: parser_inv_def)
  then have pos: "pos \<le> length M" "length M < two64"
    unfolding M_def pos_def by (auto simp: UB_wf_def two64_def)
  have nd: "name_done M pos r" "spanned isvalue M (Value r) (Value_length r) pos"
    using inv st by (simp_all add: parser_inv_def status_inv_def M_def pos_def r_def)
  have views: "field_ok M (hdr, val)"
    using spanned_view [OF _ pos, of isheader "Header r" "Header_length r"]
      spanned_view [OF nd(2) pos] nd(1)
    by (simp add: field_ok_def name_done_def hdr_def val_def list_all_iff)
  obtain es where es: "Store_Header M visits (hp_Request p) hdr val = Inr ((hp_Request p)\<lparr>Header_Value := es\<rparr>)"
    "list_all (field_ok M) es"
    using Store_Header_ok [OF _ views] inv by (metis M_def parser_inv_def)
  define p1 where "p1 = field_stored es p"
  have run: "store_header_state visits p =
      bindc (check_connection M hdr val p1) (\<lambda>left p.
        if left then (Inr Break, p) else bindc (check_content_length M hdr val p) (\<lambda>_ p. to HPSLF p))"
    unfolding store_header_state_def Let_def M_def [symmetric] r_def [symmetric]
      hdr_def [symmetric] val_def [symmetric] es(1)
    by (simp add: p1_def field_stored_def)
  have "line_done M (Suc pos) r"
    using nd(1) by (auto simp: name_done_def intro: line_done_mono)
  then have finish: "state_ok p (bindc (check_content_length M hdr val (upd_Result (\<lambda>r. r\<lparr>Set_Ka := ka\<rparr>) p1)) (\<lambda>_ p. to HPSLF p))" for ka
    using field_stored_finish [OF inv st, of hdr val es] views es(2) by (simp add: M_def pos_def r_def p1_def)
  have same: "p1 = upd_Result (\<lambda>r. r\<lparr>Set_Ka := Set_Ka (hp_Result p1)\<rparr>) p1"
    by (simp add: upd_Result_def)
  have fail: "state_ok p (Inr Break, snd (Set_Fault HPFSetConnection p1))"
    by (simp add: Set_Fault_def upd_Result_def p1_def field_stored_def parser_failed_def)
  have "view_ok M hdr" "view_ok M val" using views by (simp_all add: field_ok_def)
  then show ?thesis
    using finish [of "Set_Ka (hp_Result p1)"] finish [of Keep_Alive] finish [of Close] fail same
    by (simp add: run check_connection_frame)
qed

text \<open>The states that only look at the byte, one lemma for the shape they share.\<close>

lemma state_ok_to:
  assumes "parser_inv p" and "st \<noteq> HPSGAMEOVER" and "Status (hp_Result p) \<noteq> HPSGAMEOVER"
    and "Fault (g (hp_Result p)) = Fault (hp_Result p)"
    and "status_inv (Buffer (hp_Buffer p)) (Suc (Read_Spot (hp_Buffer p))) ((g (hp_Result p))\<lparr>Status := st\<rparr>)"
  shows "state_ok p (to st (upd_Result g p))"
  using assms by (simp add: to_def upd_Result_def parser_inv_def)

lemma state_ok_to_id:
  assumes "parser_inv p" and "st \<noteq> HPSGAMEOVER" and "Status (hp_Result p) \<noteq> HPSGAMEOVER"
    and "status_inv (Buffer (hp_Buffer p)) (Suc (Read_Spot (hp_Buffer p))) ((hp_Result p)\<lparr>Status := st\<rparr>)"
  shows "state_ok p (to st p)"
  using assms by (simp add: to_def upd_Result_def parser_inv_def)

lemmas state_ok_rules = state_ok_to state_ok_to_id state_ok_fault

lemma uri_done_mono: "uri_done M pos r \<Longrightarrow> pos \<le> pos' \<Longrightarrow> uri_done M pos' r"
  by (auto simp: uri_done_def intro: spanned_mono)

lemma name_done_mono: "name_done M pos r \<Longrightarrow> pos \<le> pos' \<Longrightarrow> name_done M pos' r"
  by (auto simp: name_done_def intro: spanned_mono line_done_mono)

lemma parse_state_line_ok:
  assumes inv: "parser_inv p" and cs: "UB_content (hp_Buffer p) = c # cs"
    and st: "Status (hp_Result p) \<in> {HPSOK, HPSOPTION, HPSGET, HPSHEAD, HPSDELETE, HPSPOST,
       HPSBetweenMU, HPSUriStart, HPSURIParser, HPSUriEnd}"
  shows "state_ok p (parse_state visits c p)"
proof -
  define M where "M = Buffer (hp_Buffer p)"
  define pos where "pos = Read_Spot (hp_Buffer p)"
  define r where "r = hp_Result p"
  have wf: "UB_wf (hp_Buffer p)" using inv by (simp add: parser_inv_def)
  have c: "M ! pos = c" "pos < length M"
    using content_Cons_nth [OF wf cs] by (simp_all add: M_def pos_def)
  have si: "status_inv M pos r" using inv by (simp add: parser_inv_def M_def pos_def r_def)
  note defs = parse_state_def UB_ReadPtr_def M_def [symmetric] pos_def [symmetric] r_def [symmetric]
  show ?thesis
  proof (cases "Status r")
    case HPSURIParser
    then have m: "Method r \<noteq> HRInit" "span isuri M (Uri r) (Uri_length r) pos"
      "Header_length r = 1" "Value_length r = 1"
      using si by (simp_all add: status_inv_def)
    have "spanned isuri M (Uri r) (Uri_length r) (Suc pos)"
      using m(2) by (rule span_spanned) simp
    with m span_extend [OF m(2), of ] c HPSURIParser show ?thesis
      by (auto simp: defs status_inv_def uri_done_def intro!: state_ok_rules inv)
  next
    case HPSUriStart
    with si span_start [of pos M isuri] c show ?thesis
      by (auto simp: defs status_inv_def intro!: state_ok_rules inv)
  next
    case HPSUriEnd
    then have u: "uri_done M pos r" "Header_length r = 1" "Value_length r = 1"
      using si by (simp_all add: status_inv_def)
    have "state_ok p (bindc (hp_Read (int (length ''HTTP/'')) p) (\<lambda>Buf p.
        if Buf = ''HTTP/'' then (Inr Continue, upd_Result (\<lambda>r. r\<lparr>Status := HPSVersionMajor\<rparr>) p)
        else Set_Fault HPFInvaildVersion p))"
      using inv HPSUriEnd u
      by (intro state_ok_word) (auto simp: defs status_inv_def parser_inv_def intro: uri_done_mono)
    moreover have "uri_done M (Suc pos) r" using u(1) by (rule uri_done_mono) simp
    ultimately show ?thesis
      using HPSUriEnd u by (auto simp: defs status_inv_def intro!: state_ok_rules inv)
  qed (use st si in \<open>auto simp: defs status_inv_def intro!: state_ok_rules method_rest_ok inv\<close>)
qed

lemma parse_state_fields_ok:
  assumes inv: "parser_inv p" and cs: "UB_content (hp_Buffer p) = c # cs"
    and st: "Status (hp_Result p) \<in> {HPSVersionMajor, HPSVersionMinor, HPSVersionEnd, HPSLF,
       HPSCRLFCR, HPSHeader, HPSColon, HPSHeader_Value, HPSStore_Header}"
  shows "state_ok p (parse_state visits c p)"
proof -
  define M where "M = Buffer (hp_Buffer p)"
  define pos where "pos = Read_Spot (hp_Buffer p)"
  define r where "r = hp_Result p"
  have wf: "UB_wf (hp_Buffer p)" using inv by (simp add: parser_inv_def)
  have c: "M ! pos = c" "pos < length M"
    using content_Cons_nth [OF wf cs] by (simp_all add: M_def pos_def)
  have si: "status_inv M pos r" using inv by (simp add: parser_inv_def M_def pos_def r_def)
  note defs = parse_state_def UB_ReadPtr_def M_def [symmetric] pos_def [symmetric] r_def [symmetric]
  note mono = uri_done_mono [of M pos _ "Suc pos"] line_done_mono [of M pos _ "Suc pos"]
    name_done_mono [of M pos _ "Suc pos"] span_spanned [of _ M _ _ pos "Suc pos"]
  show ?thesis
  proof (cases "Status r")
    case HPSVersionMajor
    with si mono(1) [of r] show ?thesis
      by (auto simp: defs status_inv_def push_digit_def Let_def intro!: state_ok_rules inv)
  next
    case HPSVersionMinor
    with si mono(1) [of r] show ?thesis
      by (auto simp: defs status_inv_def push_digit_def Let_def intro!: state_ok_rules inv)
  next
    case HPSVersionEnd
    have "state_ok p (to HPSGAMEOVER (upd_Result (\<lambda>r. r\<lparr>Fault := HPFNoSupportVersion\<rparr>) p))"
      by (simp add: to_def upd_Result_def parser_failed_def)
    with HPSVersionEnd si mono(1) [of r] show ?thesis
      by (auto simp: defs status_inv_def line_done_def intro!: state_ok_rules inv)
  next
    case HPSLF
    with si mono(2) [of r] span_start [of pos M isheader] c show ?thesis
      by (auto simp: defs status_inv_def intro!: state_ok_rules inv)
  next
    case HPSCRLFCR
    then have "line_done M (Suc pos) r" using si mono(2) [of r] by (simp add: status_inv_def)
    then have "state_ok p (to HPSGAMEOVER (upd_Result (\<lambda>r. r\<lparr>Fault := HPFContent\<rparr>) p))"
      using inv by (simp add: to_def upd_Result_def parser_inv_def status_inv_def M_def pos_def r_def)
    with HPSCRLFCR show ?thesis
      by (auto simp: defs intro!: state_ok_rules inv)
  next
    case HPSHeader
    then have "span isheader M (Header r) (Header_length r) pos" "line_done M (Suc pos) r"
      "Value_length r = 1"
      using si mono(2) [of r] by (simp_all add: status_inv_def)
    with HPSHeader mono(4) [of isheader "Header r" "Header_length r"] c
      span_extend [of isheader M "Header r" "Header_length r" pos]
    show ?thesis
      by (auto simp: defs status_inv_def name_done_def intro!: state_ok_rules inv)
  next
    case HPSColon
    with si mono(3) [of r] span_start [of pos M isvalue] c show ?thesis
      by (auto simp: defs status_inv_def intro!: state_ok_rules inv)
  next
    case HPSHeader_Value
    then have "span isvalue M (Value r) (Value_length r) pos" "name_done M (Suc pos) r"
      using si mono(3) [of r] by (simp_all add: status_inv_def)
    with HPSHeader_Value mono(4) [of isvalue "Value r" "Value_length r"] c
      span_extend [of isvalue M "Value r" "Value_length r" pos]
    show ?thesis
      by (auto simp: defs status_inv_def intro!: state_ok_rules inv)
  next
    case HPSStore_Header
    then show ?thesis
      using store_header_ok [OF inv] by (simp add: defs)
  qed (use st in \<open>auto simp: r_def\<close>)
qed

lemma parse_state_ok:
  assumes "parser_inv p" and "UB_content (hp_Buffer p) = c # cs"
    and "Status (hp_Result p) \<noteq> HPSGAMEOVER"
  shows "state_ok p (parse_state visits c p)"
  using parse_state_line_ok [OF assms(1,2)] parse_state_fields_ok [OF assms(1,2)] assms(3)
  by (cases "Status (hp_Result p)") simp_all

section \<open>A whole step, and the whole loop\<close>

lemma parse_step_ok:
  assumes inv: "parser_inv p" and ne: "UB_content (hp_Buffer p) \<noteq> []"
    and st: "Status (hp_Result p) \<noteq> HPSGAMEOVER"
  shows "(\<exists>e p'. parse_step visits p = (Inl e, p') \<and> (e = Out_of_range \<or> e = Signed_overflow)) \<or>
     (\<exists>p'. parse_step visits p = (Inr (), p') \<and>
        (parser_failed p' \<or>
         parser_inv p' \<and> (\<exists>k. 0 < k \<and> k \<le> length (UB_content (hp_Buffer p)) \<and>
           hp_Buffer p' = (hp_Buffer p)\<lparr>Read_Spot := Read_Spot (hp_Buffer p) + k\<rparr>)))"
proof -
  obtain c cs where cs: "UB_content (hp_Buffer p) = c # cs" using ne by (cases "UB_content (hp_Buffer p)") auto
  have wf: "UB_wf (hp_Buffer p)" "\<not> EB_IsVaild (hp_Extra p)" using inv by (simp_all add: parser_inv_def)
  have step: "parse_step visits p = bindc (parse_state visits c p)
      (\<lambda>flow p. case flow of Continue \<Rightarrow> (Inr (), p) | Break \<Rightarrow> parse_tail p)"
    by (rule parse_step_unfold [OF wf(1) cs])
  obtain res p1 where out: "parse_state visits c p = (res, p1)" by force
  have ok: "state_ok p (res, p1)" using parse_state_ok [OF inv cs st, of visits] by (simp add: out)
  show ?thesis
  proof (cases res)
    case (Inl e)
    with ok show ?thesis by (auto simp: step out)
  next
    case (Inr fl)
    show ?thesis
    proof (cases fl)
      case Continue
      with Inr ok show ?thesis by (auto simp: step out)
    next
      case Break
      with Inr ok have ext: "hp_Extra p1 = hp_Extra p" by simp
      then have s: "parse_step visits p = (Inr (), consume p1)"
        using wf(2) Inr Break by (simp add: step out parse_tail_consume)
      have keep: "hp_Result (consume p1) = hp_Result p1" "hp_Request (consume p1) = hp_Request p1"
        "hp_Extra (consume p1) = hp_Extra p1"
        by (simp_all add: consume_def)
      show ?thesis
      proof (cases "parser_failed p1")
        case True
        then have "parser_failed (consume p1)" by (simp add: parser_failed_def keep)
        with s show ?thesis by blast
      next
        case False
        with ok Inr Break have buf: "hp_Buffer p1 = hp_Buffer p" by simp
        then have b: "hp_Buffer (consume p1) = (hp_Buffer p)\<lparr>Read_Spot := Read_Spot (hp_Buffer p) + 1\<rparr>"
          using consume_wf(1) [of p1] wf(1) ne by simp
        have "UB_wf (hp_Buffer (consume p1))"
          using UB_advance(1) [OF wf(1), of 1] cs by (simp add: b)
        then have "parser_inv (consume p1)"
          using ok Inr Break False wf(2) by (simp add: parser_inv_def keep b)
        moreover have "0 < (1::nat) \<and> 1 \<le> length (UB_content (hp_Buffer p))"
          using cs by simp
        ultimately show ?thesis using s b by blast
      qed
    qed
  qed
qed

text \<open>
  The loop ends, and ends in one of three ways: an error, a fault, or with the invariant
  (the request is complete, or the input is used up).
\<close>

lemma Parsering_stop:
  "Status (hp_Result p) = HPSGAMEOVER \<or> UB_Readable (hp_Buffer p) = 0 \<Longrightarrow>
     Parsering visits p = Some (Inr (), p)"
  by (subst Parsering.simps) auto

lemma Parsering_step:
  assumes "Status (hp_Result p) \<noteq> HPSGAMEOVER" and "UB_Readable (hp_Buffer p) \<noteq> 0"
  shows "Parsering visits p =
     (case parse_step visits p of (Inl e, p') \<Rightarrow> Some (Inl e, p') | (Inr _, p') \<Rightarrow> Parsering visits p')"
  using assms by (subst Parsering.simps) simp

lemma Parsering_total:
  assumes "parser_inv p"
  shows "\<exists>res p'. Parsering visits p = Some (res, p') \<and>
     (res = Inl Out_of_range \<or> res = Inl Signed_overflow \<or>
      res = Inr () \<and> (parser_failed p' \<or>
        parser_inv p' \<and> (Status (hp_Result p') = HPSGAMEOVER \<or> UB_content (hp_Buffer p') = [])))"
  using assms
proof (induction "length (UB_content (hp_Buffer p))" arbitrary: p rule: less_induct)
  case less
  have wf: "UB_wf (hp_Buffer p)" using less.prems by (simp add: parser_inv_def)
  show ?case
  proof (cases "Status (hp_Result p) = HPSGAMEOVER \<or> UB_content (hp_Buffer p) = []")
    case True
    with less.prems wf show ?thesis
      using Parsering_stop [of p visits] by (auto simp: UB_Readable_content)
  next
    case False
    then have run: "Parsering visits p = (case parse_step visits p of
        (Inl e, p') \<Rightarrow> Some (Inl e, p') | (Inr _, p') \<Rightarrow> Parsering visits p')"
      using wf by (intro Parsering_step) (simp_all add: UB_Readable_content)
    consider (err) e p' where "parse_step visits p = (Inl e, p')" "e = Out_of_range \<or> e = Signed_overflow"
      | (next_step) p' where "parse_step visits p = (Inr (), p')"
        "parser_failed p' \<or> parser_inv p' \<and> (\<exists>k. 0 < k \<and> k \<le> length (UB_content (hp_Buffer p)) \<and>
           hp_Buffer p' = (hp_Buffer p)\<lparr>Read_Spot := Read_Spot (hp_Buffer p) + k\<rparr>)"
      using parse_step_ok [OF less.prems, of visits] False by blast
    then show ?thesis
    proof cases
      case err
      then show ?thesis by (auto simp: run)
    next
      case p': (next_step p')
      show ?thesis
      proof (cases "parser_failed p'")
        case True
        then have "Parsering visits p' = Some (Inr (), p')"
          by (intro Parsering_stop) (simp add: parser_failed_def)
        with True p'(1) show ?thesis by (simp add: run)
      next
        case nf: False
        with p'(2) obtain k where k: "parser_inv p'" "0 < k" "k \<le> length (UB_content (hp_Buffer p))"
          "hp_Buffer p' = (hp_Buffer p)\<lparr>Read_Spot := Read_Spot (hp_Buffer p) + k\<rparr>"
          by blast
        then have "length (UB_content (hp_Buffer p')) < length (UB_content (hp_Buffer p))"
          using UB_advance(2) [OF wf k(3)] by simp
        from less.hyps [OF this k(1)] p'(1) show ?thesis by (simp add: run)
      qed
    qed
  qed
qed

end
