(* ===== verification/Http_Parser_Roundtrip.thy ===== *)
theory Http_Parser_Roundtrip
  imports Http_Parser_Safety
begin

text \<open>
  The parser on the text of a request: \<open>request_text\<close> prints a request, and parsing the
  printed bytes gives the request back. The lemmas run the parser over one syntactic unit after
  the other; \<open>conf\<close> is the parser whose read spot stands at \<open>pos\<close> and \<open>at_input\<close> says
  which bytes lie ahead of it.
\<close>

section \<open>Printing a request\<close>

record http_message =
  msg_method :: HttpRequestMethod
  msg_uri :: string
  msg_minor :: char
  msg_fields :: "(string \<times> string) list"

fun method_word :: "HttpRequestMethod \<Rightarrow> string" where
  "method_word HRGet = ''GET''"
| "method_word HRHead = ''HEAD''"
| "method_word HRDELETE = ''DELETE''"
| "method_word HRPost = ''POST''"
| "method_word HROptions = ''OPTIONS''"
| "method_word _ = []"

definition crlf :: string where
  "crlf = [CHR 0x0D, CHR 0x0A]"

definition field_text :: "string \<times> string \<Rightarrow> string" where
  "field_text f = fst f @ '': '' @ snd f @ crlf"

definition request_text :: "http_message \<Rightarrow> string" where
  "request_text msg =
     method_word (msg_method msg) @ '' '' @ msg_uri msg @ '' HTTP/1.'' @ [msg_minor msg] @ crlf @
     concat (map field_text (msg_fields msg)) @ crlf"

text \<open>The value of a digit string, as the parser computes it.\<close>

definition dec_val :: "int \<Rightarrow> string \<Rightarrow> int" where
  "dec_val v ds = foldl (\<lambda>v c. v * 10 + (int (char_code c) - 48)) v ds"

text \<open>
  What the parser makes of the value of \<open>Content-Length\<close>: the digits it starts with. Another
  character is recorded as a fault, and the loop over the digits ends there.
\<close>

definition length_value :: "string \<Rightarrow> int" where
  "length_value s = dec_val 0 (takeWhile isdigit s)"

definition field_fine :: "string \<times> string \<Rightarrow> bool" where
  "field_fine f \<longleftrightarrow>
     fst f \<noteq> [] \<and> list_all isheader (fst f) \<and>
     snd f \<noteq> [] \<and> list_all isvalue (snd f) \<and> hd (snd f) \<noteq> CHR '' '' \<and>
     (fst f = ''Connection'' \<longrightarrow> snd f = ''Keep-Alive'' \<or> snd f = ''Close'') \<and>
     (fst f = ''Content-Length'' \<longrightarrow> length_value (snd f) \<le> 2147483647)"

definition message_fine :: "http_message \<Rightarrow> bool" where
  "message_fine msg \<longleftrightarrow>
     method_word (msg_method msg) \<noteq> [] \<and>
     msg_uri msg \<noteq> [] \<and> list_all isuri (msg_uri msg) \<and>
     (msg_minor msg = CHR ''0'' \<or> msg_minor msg = CHR ''1'') \<and>
     list_all field_fine (msg_fields msg) \<and> distinct (map fst (msg_fields msg))"

section \<open>Configurations\<close>

definition conf :: "UserBuffer \<Rightarrow> Extrabuf \<Rightarrow> HttpParser_Content \<Rightarrow> HttpRequest \<Rightarrow> nat \<Rightarrow> HttpParser" where
  "conf ub eb r rq pos =
     \<lparr>hp_Buffer = ub\<lparr>Read_Spot := pos\<rparr>, hp_Result = r, hp_Request = rq, hp_Extra = eb\<rparr>"

definition at_input :: "UserBuffer \<Rightarrow> nat \<Rightarrow> string \<Rightarrow> bool" where
  "at_input ub pos cs \<longleftrightarrow>
     UB_wf (ub\<lparr>Read_Spot := pos\<rparr>) \<and> UB_content (ub\<lparr>Read_Spot := pos\<rparr>) = cs"

lemma conf_simps [simp]:
  "hp_Buffer (conf ub eb r rq pos) = ub\<lparr>Read_Spot := pos\<rparr>"
  "hp_Result (conf ub eb r rq pos) = r"
  "hp_Request (conf ub eb r rq pos) = rq"
  "hp_Extra (conf ub eb r rq pos) = eb"
  "upd_Result f (conf ub eb r rq pos) = conf ub eb (f r) rq pos"
  "(conf ub eb r rq pos)\<lparr>hp_Request := rq'\<rparr> = conf ub eb r rq' pos"
  "(conf ub eb r rq pos)\<lparr>hp_Buffer := ub\<lparr>Read_Spot := pos'\<rparr>\<rparr> = conf ub eb r rq pos'"
  by (simp_all add: conf_def upd_Result_def)

lemma at_input_append:
  assumes "at_input ub pos (xs @ ys)"
  shows "at_input ub (pos + length xs) ys" and "slice (Buffer ub) pos (length xs) = xs"
    and "pos + length xs \<le> length (Buffer ub)"
proof -
  have wf: "UB_wf (ub\<lparr>Read_Spot := pos\<rparr>)" and ct: "UB_content (ub\<lparr>Read_Spot := pos\<rparr>) = xs @ ys"
    using assms by (simp_all add: at_input_def)
  then have len: "length xs \<le> length (UB_content (ub\<lparr>Read_Spot := pos\<rparr>))" by simp
  show "at_input ub (pos + length xs) ys"
    using UB_advance [OF wf len] ct by (simp add: at_input_def)
  have "take (length xs) (UB_content (ub\<lparr>Read_Spot := pos\<rparr>)) = xs" using ct by simp
  then show "slice (Buffer ub) pos (length xs) = xs"
    using len length_UB_content [OF wf]
    by (simp add: UB_content_def slice_def min_absorb1)
  show "pos + length xs \<le> length (Buffer ub)"
    using len length_UB_content [OF wf] wf by (auto simp: UB_wf_def)
qed

lemma at_input_Cons:
  assumes "at_input ub pos (c # cs)"
  shows "at_input ub (Suc pos) cs"
  using at_input_append(1) [of ub pos "[c]" cs] assms by simp

lemma at_input_skip:
  "at_input ub pos (xs @ ys) \<Longrightarrow> length xs = n \<Longrightarrow> at_input ub (pos + n) ys"
  using at_input_append(1) by blast

text \<open>A byte, and a word.\<close>

lemma run_char:
  assumes inp: "at_input ub pos (c # cs)" and eb: "\<not> EB_IsVaild eb" and st: "Status r \<noteq> HPSGAMEOVER"
    and state: "parse_state visits c (conf ub eb r rq pos) = (Inr Break, conf ub eb r' rq' pos)"
  shows "Parsering visits (conf ub eb r rq pos) = Parsering visits (conf ub eb r' rq' (Suc pos))"
proof -
  have wf: "UB_wf (ub\<lparr>Read_Spot := pos\<rparr>)" and ct: "UB_content (ub\<lparr>Read_Spot := pos\<rparr>) = c # cs"
    using inp by (simp_all add: at_input_def)
  have "parse_step visits (conf ub eb r rq pos) = (Inr (), consume (conf ub eb r' rq' pos))"
    using parse_step_unfold [of "conf ub eb r rq pos" c cs visits] wf ct state eb
    by (simp add: parse_tail_consume)
  moreover have "consume (conf ub eb r' rq' pos) = conf ub eb r' rq' (Suc pos)"
    using consume_wf(1) [of "conf ub eb r' rq' pos"] wf ct by simp
  ultimately show ?thesis
    using st wf ct by (subst Parsering_step) (simp_all add: UB_Readable_content)
qed

lemma hp_Read_conf:
  assumes "at_input ub pos (w @ cs)" and "length w < 2147483648"
  shows "hp_Read (int (length w)) (conf ub eb r rq pos) = (Inr w, conf ub eb r rq (pos + length w))"
  using hp_Read_cases [of "conf ub eb r rq pos" "length w"] assms by (simp add: at_input_def)

lemma run_continue:
  assumes inp: "at_input ub pos (c # cs)" and st: "Status r \<noteq> HPSGAMEOVER"
    and state: "parse_state visits c (conf ub eb r rq pos) = (Inr Continue, p')"
  shows "Parsering visits (conf ub eb r rq pos) = Parsering visits p'"
proof -
  have wf: "UB_wf (ub\<lparr>Read_Spot := pos\<rparr>)" and ct: "UB_content (ub\<lparr>Read_Spot := pos\<rparr>) = c # cs"
    using inp by (simp_all add: at_input_def)
  then have "parse_step visits (conf ub eb r rq pos) = (Inr (), p')"
    using parse_step_unfold [of "conf ub eb r rq pos" c cs visits] state by simp
  then show ?thesis
    using st wf ct by (subst Parsering_step) (simp_all add: UB_Readable_content)
qed

lemma run_method_rest:
  assumes inp: "at_input ub pos (w @ cs)" and w: "w \<noteq> []" "length w < 100"
    and st: "Status r \<noteq> HPSGAMEOVER"
    and state: "\<And>c. parse_state visits c (conf ub eb r rq pos) = method_rest w m (conf ub eb r rq pos)"
  shows "Parsering visits (conf ub eb r rq pos) =
     Parsering visits (conf ub eb (r\<lparr>Status := HPSBetweenMU, Method := m\<rparr>) rq (pos + length w))"
proof -
  obtain c ws where w': "w = c # ws" using w(1) by (cases w) auto
  have "method_rest w m (conf ub eb r rq pos) =
      (Inr Continue, conf ub eb (r\<lparr>Status := HPSBetweenMU, Method := m\<rparr>) rq (pos + length w))"
    using hp_Read_conf [OF inp] w(2) by (simp add: method_rest_def)
  with inp w' st show ?thesis
    by (intro run_continue [where c = c and cs = "ws @ cs"]) (simp_all add: state)
qed

section \<open>The request line\<close>

lemma run_method:
  assumes inp: "at_input ub pos (method_word m @ cs)" and m: "method_word m \<noteq> []"
    and eb: "\<not> EB_IsVaild eb" and st: "Status r = HPSOK"
  shows "Parsering visits (conf ub eb r rq pos) =
     Parsering visits (conf ub eb (r\<lparr>Status := HPSBetweenMU, Method := m\<rparr>) rq (pos + length (method_word m)))"
proof -
  have first: "Parsering visits (conf ub eb r rq pos) =
      Parsering visits (conf ub eb (r\<lparr>Status := s\<rparr>) rq (Suc pos))"
    if "at_input ub pos (c # ws)" "(c, s) \<in> {(CHR ''G'', HPSGET), (CHR ''P'', HPSPOST),
        (CHR ''O'', HPSOPTION), (CHR ''H'', HPSHEAD), (CHR ''D'', HPSDELETE)}" for c s ws
    using that st by (intro run_char [OF that(1) eb]) (auto simp: parse_state_def to_def)
  have rest: "Parsering visits (conf ub eb (r\<lparr>Status := s\<rparr>) rq (Suc pos)) =
      Parsering visits (conf ub eb (r\<lparr>Status := HPSBetweenMU, Method := m\<rparr>) rq (Suc pos + length w))"
    if "at_input ub (Suc pos) (w @ cs)" "w \<noteq> []" "length w < 100" "s \<noteq> HPSGAMEOVER"
      "\<And>c p. Status (hp_Result p) = s \<Longrightarrow> parse_state visits c p = method_rest w m p" for s w
    using run_method_rest [OF that(1-3), of "r\<lparr>Status := s\<rparr>" visits eb rq m] that(4,5) by simp
  show ?thesis
  proof (cases m)
    case HRGet
    with inp at_input_Cons [of ub pos "CHR ''G''" "''ET'' @ cs"] show ?thesis
      using first [of "CHR ''G''" _ HPSGET] rest [of "''ET''" HPSGET] by (simp add: parse_state_def)
  next
    case HRHead
    with inp at_input_Cons [of ub pos "CHR ''H''" "''EAD'' @ cs"] show ?thesis
      using first [of "CHR ''H''" _ HPSHEAD] rest [of "''EAD''" HPSHEAD] by (simp add: parse_state_def)
  next
    case HRDELETE
    with inp at_input_Cons [of ub pos "CHR ''D''" "''ELETE'' @ cs"] show ?thesis
      using first [of "CHR ''D''" _ HPSDELETE] rest [of "''ELETE''" HPSDELETE] by (simp add: parse_state_def)
  next
    case HRPost
    with inp at_input_Cons [of ub pos "CHR ''P''" "''OST'' @ cs"] show ?thesis
      using first [of "CHR ''P''" _ HPSPOST] rest [of "''OST''" HPSPOST] by (simp add: parse_state_def)
  next
    case HROptions
    with inp at_input_Cons [of ub pos "CHR ''O''" "''PTIONS'' @ cs"] show ?thesis
      using first [of "CHR ''O''" _ HPSOPTION] rest [of "''PTIONS''" HPSOPTION] by (simp add: parse_state_def)
  qed (use m in auto)
qed

text \<open>A run of bytes of one class, in the three states that collect one.\<close>

lemma run_class:
  assumes "at_input ub pos (xs @ cs)" and "list_all P xs" and eb: "\<not> EB_IsVaild eb"
    and "Status r = s" and s: "s \<noteq> HPSGAMEOVER"
    and state: "\<And>c r pos. P c \<Longrightarrow> Status r = s \<Longrightarrow>
      parse_state visits c (conf ub eb r rq pos) = (Inr Break, conf ub eb (g r) rq pos)"
    and g: "\<And>r. Status r = s \<Longrightarrow> Status (g r) = s"
  shows "Parsering visits (conf ub eb r rq pos) =
     Parsering visits (conf ub eb ((g ^^ length xs) r) rq (pos + length xs))"
  using assms(1,2,4)
proof (induction xs arbitrary: pos r)
  case (Cons x xs)
  have inp: "at_input ub pos (x # xs @ cs)" using Cons.prems(1) by simp
  have "Parsering visits (conf ub eb r rq pos) = Parsering visits (conf ub eb (g r) rq (Suc pos))"
    using Cons.prems s by (intro run_char [OF inp eb] state) auto
  also have "\<dots> = Parsering visits (conf ub eb ((g ^^ length xs) (g r)) rq (Suc pos + length xs))"
    using Cons.prems at_input_Cons [OF inp] by (intro Cons.IH) (simp_all add: g)
  finally show ?case by (simp add: funpow_swap1)
qed simp

lemma run_uri:
  assumes "at_input ub pos (xs @ cs)" and "list_all isuri xs"
    and "\<not> EB_IsVaild eb" and "Status r = HPSURIParser"
  shows "Parsering visits (conf ub eb r rq pos) =
     Parsering visits (conf ub eb (r\<lparr>Uri_length := Uri_length r + int (length xs)\<rparr>) rq (pos + length xs))"
proof -
  let ?g = "\<lambda>r. r\<lparr>Uri_length := Uri_length r + 1\<rparr>"
  have "(?g ^^ n) r = r\<lparr>Uri_length := Uri_length r + int n\<rparr>" for n
    by (induction n) simp_all
  then show ?thesis
    using run_class [OF assms, of visits rq ?g] by (simp add: parse_state_def to_def)
qed

lemma run_name:
  assumes "at_input ub pos (xs @ cs)" and "list_all isheader xs"
    and "\<not> EB_IsVaild eb" and "Status r = HPSHeader"
  shows "Parsering visits (conf ub eb r rq pos) =
     Parsering visits (conf ub eb (r\<lparr>Header_length := Header_length r + int (length xs)\<rparr>) rq (pos + length xs))"
proof -
  let ?g = "\<lambda>r. r\<lparr>Header_length := Header_length r + 1\<rparr>"
  have "(?g ^^ n) r = r\<lparr>Header_length := Header_length r + int n\<rparr>" for n
    by (induction n) simp_all
  then show ?thesis
    using run_class [OF assms, of visits rq ?g] by (simp add: parse_state_def to_def)
qed

lemma run_value:
  assumes "at_input ub pos (xs @ cs)" and "list_all isvalue xs"
    and "\<not> EB_IsVaild eb" and "Status r = HPSHeader_Value"
  shows "Parsering visits (conf ub eb r rq pos) =
     Parsering visits (conf ub eb (r\<lparr>Value_length := Value_length r + int (length xs)\<rparr>) rq (pos + length xs))"
proof -
  let ?g = "\<lambda>r. r\<lparr>Value_length := Value_length r + 1\<rparr>"
  have "(?g ^^ n) r = r\<lparr>Value_length := Value_length r + int n\<rparr>" for n
    by (induction n) simp_all
  then show ?thesis
    using run_class [OF assms, of visits rq ?g] by (simp add: parse_state_def to_def)
qed

lemma run_digits_major:
  assumes inp: "at_input ub pos (''1.'' @ cs)" and eb: "\<not> EB_IsVaild eb"
    and st: "Status r = HPSVersionMajor" "V_major r = 0"
  shows "Parsering visits (conf ub eb r rq pos) =
     Parsering visits (conf ub eb (r\<lparr>V_major := 1, Status := HPSVersionMinor\<rparr>) rq (pos + 2))"
proof -
  have a: "at_input ub pos (CHR ''1'' # ''.'' @ cs)" using inp by simp
  have b: "at_input ub (Suc pos) (CHR ''.'' # cs)" using at_input_Cons [OF a] by simp
  have "Parsering visits (conf ub eb r rq pos) =
      Parsering visits (conf ub eb (r\<lparr>V_major := 1, Status := HPSVersionMajor\<rparr>) rq (Suc pos))"
    using st by (intro run_char [OF a eb])
      (simp_all add: parse_state_def to_def isdigit_def char_code_def push_digit_def int32_ok_def)
  also have "\<dots> = Parsering visits (conf ub eb (r\<lparr>V_major := 1, Status := HPSVersionMinor\<rparr>) rq (Suc (Suc pos)))"
    by (intro run_char [OF b eb]) (simp_all add: parse_state_def to_def)
  finally show ?thesis by simp
qed

definition minor_value :: "char \<Rightarrow> int" where
  "minor_value c = (if c = CHR ''1'' then 1 else 0)"

lemma run_minor:
  assumes inp: "at_input ub pos (d # crlf @ cs)" and eb: "\<not> EB_IsVaild eb"
    and d: "d = CHR ''0'' \<or> d = CHR ''1''"
    and st: "Status r = HPSVersionMinor" "V_minor r = 0" "V_major r = 1"
  shows "Parsering visits (conf ub eb r rq pos) =
     Parsering visits (conf ub eb (r\<lparr>V_minor := minor_value d, Status := HPSLF\<rparr>) rq (pos + 3))"
proof -
  have b: "at_input ub (Suc pos) (CHR 0x0D # CHR 0x0A # cs)"
    using at_input_Cons [OF inp] by (simp add: crlf_def)
  have c: "at_input ub (Suc (Suc pos)) (CHR 0x0A # cs)" using at_input_Cons [OF b] .
  have "Parsering visits (conf ub eb r rq pos) =
      Parsering visits (conf ub eb (r\<lparr>V_minor := minor_value d, Status := HPSVersionMinor\<rparr>) rq (Suc pos))"
    using st d by (intro run_char [OF inp eb])
      (auto simp: parse_state_def to_def isdigit_def char_code_def push_digit_def int32_ok_def minor_value_def)
  also have "\<dots> = Parsering visits (conf ub eb (r\<lparr>V_minor := minor_value d, Status := HPSVersionEnd\<rparr>) rq (Suc (Suc pos)))"
    by (intro run_char [OF b eb]) (simp_all add: parse_state_def to_def)
  also have "\<dots> = Parsering visits (conf ub eb (r\<lparr>V_minor := minor_value d, Status := HPSLF\<rparr>) rq (Suc (Suc (Suc pos))))"
    using st(3) by (intro run_char [OF c eb]) (simp_all add: parse_state_def to_def minor_value_def)
  finally show ?thesis by (simp add: numeral_3_eq_3)
qed

text \<open>From the blank after the method to the end of the request line.\<close>

lemma run_target:
  assumes inp: "at_input ub pos ('' '' @ uri @ '' HTTP/1.'' @ d # crlf @ cs)"
    and uri: "uri \<noteq> []" "list_all isuri uri" and eb: "\<not> EB_IsVaild eb"
    and d: "d = CHR ''0'' \<or> d = CHR ''1''"
    and st: "Status r = HPSBetweenMU" "V_minor r = 0" "V_major r = 0" "Uri_length r = 1"
  shows "Parsering visits (conf ub eb r rq pos) =
     Parsering visits (conf ub eb (r\<lparr>Uri := Some (pos + 1), Uri_length := int (length uri),
        V_major := 1, V_minor := minor_value d, Status := HPSLF\<rparr>) rq (pos + length uri + 12))"
proof -
  obtain u us where u: "uri = u # us" using uri(1) by (cases uri) auto
  define r1 where "r1 = r\<lparr>Uri := Some (pos + 1), Status := HPSURIParser\<rparr>"
  define r2 where "r2 = r1\<lparr>Uri_length := int (length uri), Status := HPSUriEnd\<rparr>"
  have i0: "at_input ub pos (CHR '' '' # uri @ '' HTTP/1.'' @ d # crlf @ cs)" using inp by simp
  have i1: "at_input ub (Suc pos) (u # us @ '' HTTP/1.'' @ d # crlf @ cs)"
    using at_input_Cons [OF i0] u by simp
  have i2: "at_input ub (Suc (Suc pos)) (us @ '' HTTP/1.'' @ d # crlf @ cs)"
    using at_input_Cons [OF i1] .
  have i3: "at_input ub (Suc (Suc pos) + length us) (CHR '' '' # ''HTTP/1.'' @ d # crlf @ cs)"
    using at_input_append(1) [OF i2] by simp
  have i4: "at_input ub (Suc (Suc (Suc pos) + length us)) (''HTTP/'' @ ''1.'' @ d # crlf @ cs)"
    using at_input_Cons [OF i3] by simp
  let ?n = "Suc (Suc (Suc pos) + length us)"
  have i5: "at_input ub (?n + 5) (''1.'' @ d # crlf @ cs)" by (rule at_input_skip [OF i4]) simp
  have i6: "at_input ub (?n + 5 + 2) (d # crlf @ cs)" by (rule at_input_skip [OF i5]) simp
  have "Parsering visits (conf ub eb r rq pos) =
      Parsering visits (conf ub eb (r\<lparr>Status := HPSUriStart\<rparr>) rq (Suc pos))"
    using st by (intro run_char [OF i0 eb]) (simp_all add: parse_state_def to_def)
  also have "\<dots> = Parsering visits (conf ub eb r1 rq (Suc (Suc pos)))"
    using uri(2) u by (intro run_char [OF i1 eb])
      (auto simp: parse_state_def to_def r1_def UB_ReadPtr_def)
  also have "\<dots> = Parsering visits (conf ub eb (r1\<lparr>Uri_length := int (length uri)\<rparr>) rq (Suc (Suc pos) + length us))"
    using uri(2) u st(4) by (subst run_uri [OF i2 _ eb]) (simp_all add: r1_def add.commute)
  also have "\<dots> = Parsering visits (conf ub eb r2 rq ?n)"
    by (intro run_char [OF i3 eb]) (simp_all add: parse_state_def to_def r1_def r2_def)
  also have "\<dots> = Parsering visits (conf ub eb (r2\<lparr>Status := HPSVersionMajor\<rparr>) rq (?n + 5))"
    using hp_Read_conf [OF i4] i4
    by (intro run_continue [where c = "CHR ''H''" and cs = "''TTP/1.'' @ d # crlf @ cs"])
      (simp_all add: parse_state_def r2_def)
  also have "\<dots> = Parsering visits (conf ub eb (r2\<lparr>V_major := 1, Status := HPSVersionMinor\<rparr>) rq (?n + 5 + 2))"
    using st by (subst run_digits_major [OF i5 eb]) (simp_all add: r2_def r1_def)
  also have "\<dots> = Parsering visits (conf ub eb (r2\<lparr>V_major := 1, V_minor := minor_value d, Status := HPSLF\<rparr>) rq (?n + 5 + 2 + 3))"
    using st by (subst run_minor [OF i6 eb d]) (simp_all add: r2_def r1_def)
  finally show ?thesis using u by (simp add: r2_def r1_def add.commute)
qed

section \<open>A header field\<close>

text \<open>What a field does to the working record.\<close>

definition field_effect :: "string \<times> string \<Rightarrow> HttpParser_Content \<Rightarrow> HttpParser_Content" where
  "field_effect f r =
     r\<lparr>Set_Ka := (if fst f = ''Connection''
                   then (if snd f = ''Keep-Alive'' then Keep_Alive else Close) else Set_Ka r),
       Content_length := (if fst f = ''Content-Length''
                          then dec_val (Content_length r) (takeWhile isdigit (snd f))
                          else Content_length r),
       Fault := (if fst f = ''Content-Length'' \<and> \<not> list_all isdigit (snd f)
                 then HPFContentLength else Fault r)\<rparr>"

lemma dec_val_Cons: "dec_val v (c # cs) = dec_val (v * 10 + (int (char_code c) - 48)) cs"
  by (simp add: dec_val_def)

lemma dec_val_ge:
  assumes "list_all isdigit ds" and "0 \<le> v"
  shows "v \<le> dec_val v ds"
  using assms
proof (induction ds arbitrary: v)
  case (Cons d ds)
  then have "0 \<le> int (char_code d) - 48" by (simp add: isdigit_def)
  then have "v * 10 + (int (char_code d) - 48) \<le> dec_val (v * 10 + (int (char_code d) - 48)) ds"
    using Cons.prems by (intro Cons.IH) auto
  with \<open>0 \<le> int (char_code d) - 48\<close> Cons.prems(2) show ?case by (simp add: dec_val_Cons)
qed (simp add: dec_val_def)

lemma PH_Peek_nth:
  assumes "view_ok mem ph" and "i < ph_length ph"
  shows "PH_Peek mem ph i = Inr (view_bytes mem ph ! i)"
  using assms by (simp add: PH_Peek_def bytes_at_ok view_ok_def view_bytes_def)

definition cl_fault :: "string \<Rightarrow> HttpParser_Content \<Rightarrow> HttpParser_Content" where
  "cl_fault ds r =
     (if list_all isdigit ds then r else r\<lparr>Status := HPSGAMEOVER, Fault := HPFContentLength\<rparr>)"

lemma content_length_loop_prefix:
  assumes ok: "view_ok mem val" and "drop i (view_bytes mem val) = ds"
    and "0 \<le> Content_length (hp_Result p)"
    and "dec_val (Content_length (hp_Result p)) (takeWhile isdigit ds) \<le> 2147483647"
    and "i \<le> ph_length val"
  shows "content_length_loop mem val [i..<ph_length val] p =
     (Inr (), upd_Result (\<lambda>r. cl_fault ds (r\<lparr>Content_length :=
        dec_val (Content_length (hp_Result p)) (takeWhile isdigit ds)\<rparr>)) p)"
  using assms(2-)
proof (induction ds arbitrary: i p)
  case Nil
  then have "length (view_bytes mem val) \<le> i" by simp
  then show ?case
    using ok Nil.prems(4) by (simp add: dec_val_def upd_Result_def cl_fault_def)
next
  case (Cons c ds)
  have i: "i < ph_length val" "view_bytes mem val ! i = c"
    using Cons.prems(1) ok by (metis drop_eq_Nil length_view_bytes linorder_not_le neq_Nil_conv)
      (use Cons.prems(1) in \<open>simp add: nth_via_drop\<close>)
  have dr: "drop (Suc i) (view_bytes mem val) = ds"
    using Cons.prems(1) by (metis drop_Suc list.sel(3) tl_drop)
  define v where "v = Content_length (hp_Result p)"
  define w where "w = v * 10 + (int (char_code c) - 48)"
  have upt: "[i..<ph_length val] = i # [Suc i..<ph_length val]" using i by (simp add: upt_conv_Cons)
  show ?case
  proof (cases "isdigit c")
    case False
    then show ?thesis
      using PH_Peek_nth [OF ok i(1)] i(2)
      by (simp add: upt dec_val_def cl_fault_def Set_Fault_def upd_Result_def)
  next
    case digit: True
    have v: "0 \<le> v" using Cons.prems(2) by (simp add: v_def)
    then have w: "0 \<le> w" "v * 10 \<le> w" using digit by (simp_all add: w_def isdigit_def)
    have top: "dec_val w (takeWhile isdigit ds) \<le> 2147483647"
      using Cons.prems(3) digit by (simp add: dec_val_Cons w_def v_def)
    have "list_all isdigit (takeWhile isdigit ds)" by (auto simp: list_all_iff dest: set_takeWhileD)
    then have "w \<le> 2147483647" using dec_val_ge [of "takeWhile isdigit ds" w] w(1) top by linarith
    then have push: "push_digit v c = Inr w"
      using w v by (simp add: push_digit_def w_def [symmetric] int32_ok_def)
    have "content_length_loop mem val [Suc i..<ph_length val] (upd_Result (\<lambda>r. r\<lparr>Content_length := w\<rparr>) p)
        = (Inr (), upd_Result (\<lambda>r. cl_fault ds (r\<lparr>Content_length := dec_val w (takeWhile isdigit ds)\<rparr>))
            (upd_Result (\<lambda>r. r\<lparr>Content_length := w\<rparr>) p))"
      using Cons.IH [of "Suc i" "upd_Result (\<lambda>r. r\<lparr>Content_length := w\<rparr>) p"] dr w top i
      by (simp add: upd_Result_def)
    then show ?thesis
      using digit push PH_Peek_nth [OF ok i(1)]
      by (simp add: upt i(2) dec_val_Cons v_def [symmetric] w_def [symmetric])
         (simp add: upd_Result_def cl_fault_def)
  qed
qed

text \<open>The view of a name or a value that was just consumed.\<close>

definition buf_view :: "nat \<Rightarrow> string \<Rightarrow> ParsedHeader" where
  "buf_view pos s = ParsedHeader_make (ptr_of (Some pos)) (int (length s))"

lemma buf_view_ok:
  assumes "slice M pos (length s) = s" and "pos + length s \<le> length M" and "length M < two64"
  shows "view_ok M (buf_view pos s)" and "view_bytes M (buf_view pos s) = s"
    and "ph_length (buf_view pos s) = length s"
proof -
  have n: "size_of_int (int (length s)) = length s" using assms by (intro size_of_int_of_nat) simp
  then show "ph_length (buf_view pos s) = length s" by (simp add: buf_view_def ParsedHeader_make_def)
  show "view_ok M (buf_view pos s)"
    using assms(2) n by (simp add: view_ok_def buf_view_def ParsedHeader_make_def ptr_of_def)
  show "view_bytes M (buf_view pos s) = s"
    using assms(1) n
    by (simp add: view_bytes_slice [where p = pos] buf_view_def ParsedHeader_make_def ptr_of_def)
qed

text \<open>The byte behind a view.\<close>

definition followed :: "char list \<Rightarrow> char \<Rightarrow> ParsedHeader \<Rightarrow> bool" where
  "followed M c ph \<longleftrightarrow> (\<exists>rest. view_base M (ph_Header ph) = view_bytes M ph @ c # rest)"

lemma buf_view_followed:
  assumes "at_input ub pos (s @ c # cs)"
  shows "followed (Buffer ub) c (buf_view pos s)"
proof -
  have wf: "UB_wf (ub\<lparr>Read_Spot := pos\<rparr>)" and ct: "take (Write_Spot ub - pos) (drop pos (Buffer ub)) = s @ c # cs"
    using assms by (simp_all add: at_input_def UB_content_def slice_def)
  have "drop pos (Buffer ub) = s @ c # cs @ drop (Write_Spot ub - pos) (drop pos (Buffer ub))"
    using append_take_drop_id [of "Write_Spot ub - pos" "drop pos (Buffer ub)"] unfolding ct by simp
  moreover have "length (Buffer ub) < two64" using wf by (auto simp: UB_wf_def two64_def)
  note buf_view_ok(2) [OF at_input_append(2) [OF assms] at_input_append(3) [OF assms] this]
  ultimately show ?thesis
    unfolding followed_def by (metis (no_types) buf_view_def ParsedHeader.select_convs(1) ParsedHeader_make_def
      ptr_of_def option.case(2) view_base.simps(2))
qed

lemma store_field:
  assumes fine: "field_fine f"
    and nv: "view_ok M (buf_view a (fst f))" "view_bytes M (buf_view a (fst f)) = fst f"
    and vv: "view_ok M (buf_view b (snd f))" "view_bytes M (buf_view b (snd f)) = snd f"
      "ph_length (buf_view b (snd f)) = length (snd f)"
    and tab: "table_ok M (Header_Value rq)" "fst f \<notin> set (table_names M (Header_Value rq))"
    and M: "M = Buffer ub"
    and r: "Header r = Some a" "Header_length r = int (length (fst f))"
      "Value r = Some b" "Value_length r = int (length (snd f))"
    and cl: "fst f = ''Content-Length'' \<longrightarrow> Content_length r = 0"
  shows "store_header_state visits (conf ub eb r rq pos) =
     (Inr Break, conf ub eb
        ((field_effect f r)\<lparr>Header := None, Header_length := 1, Value := None, Value_length := 1,
           Status := HPSLF\<rparr>)
        (rq\<lparr>Header_Value := Header_Value rq @ [(buf_view a (fst f), buf_view b (snd f))]\<rparr>) pos)"
proof -
  define hdr where "hdr = buf_view a (fst f)"
  define val where "val = buf_view b (snd f)"
  define r1 where "r1 = r\<lparr>Header := None, Header_length := 1, Value := None, Value_length := 1\<rparr>"
  define rq1 where "rq1 = rq\<lparr>Header_Value := Header_Value rq @ [(hdr, val)]\<rparr>"
  define r2 where "r2 = r1\<lparr>Set_Ka := Set_Ka (field_effect f r)\<rparr>"
  have views: "ParsedHeader_make (ptr_of (Header r)) (Header_length r) = hdr"
    "ParsedHeader_make (ptr_of (Value r)) (Value_length r) = val"
    by (simp_all add: r hdr_def val_def buf_view_def)
  have st: "Store_Header M visits rq hdr val = Inr rq1"
    using Store_Header_new [OF tab(1), of hdr] nv tab(2) by (simp add: hdr_def rq1_def)
  have conn: "check_connection M hdr val (conf ub eb r1 rq1 pos) = (Inr False, conf ub eb r2 rq1 pos)"
    using fine nv vv check_connection_frame [of M hdr val]
    by (auto simp: hdr_def val_def field_fine_def field_effect_def r2_def r1_def)
  define r3 where "r3 = r2\<lparr>Content_length := Content_length (field_effect f r)\<rparr>"
  define r4 where "r4 = (if fst f = ''Content-Length'' then cl_fault (snd f) r3 else r3)"
  have len: "check_content_length M hdr val (conf ub eb r2 rq1 pos) =
      (Inr (), conf ub eb r4 rq1 pos)"
  proof (cases "fst f = ''Content-Length''")
    case True
    then have "content_length_loop M val [0..<ph_length val] (conf ub eb r2 rq1 pos) =
        (Inr (), conf ub eb (cl_fault (snd f) (r2\<lparr>Content_length := length_value (snd f)\<rparr>)) rq1 pos)"
      using content_length_loop_prefix [of M val 0 "snd f" "conf ub eb r2 rq1 pos"] fine vv cl
      by (simp add: val_def field_fine_def r2_def r1_def length_value_def)
    with True nv cl show ?thesis
      by (simp add: check_content_length_eq hdr_def field_effect_def r3_def r4_def length_value_def)
  next
    case False
    with nv show ?thesis
      by (simp add: check_content_length_eq hdr_def field_effect_def r4_def r3_def r2_def r1_def)
  qed
  have "store_header_state visits (conf ub eb r rq pos) =
      bindc (check_connection M hdr val (conf ub eb r1 rq1 pos)) (\<lambda>left p.
        if left then (Inr Break, p)
        else bindc (check_content_length M hdr val p) (\<lambda>_ p. to HPSLF p))"
    by (simp add: store_header_state_def M [symmetric] views st r1_def)
  moreover have "r4\<lparr>Status := HPSLF\<rparr> = (field_effect f r)\<lparr>Header := None, Header_length := 1,
      Value := None, Value_length := 1, Status := HPSLF\<rparr>"
    by (rule HttpParser_Content.equality)
       (simp_all add: r4_def r3_def r2_def r1_def field_effect_def cl_fault_def)
  ultimately show ?thesis
    by (simp add: conn len to_def) (simp add: rq1_def hdr_def val_def)
qed

lemma run_field_name:
  assumes inp: "at_input ub pos (nm @ '': '' @ cs)" and nm: "nm \<noteq> []" "list_all isheader nm"
    and eb: "\<not> EB_IsVaild eb" and st: "Status r = HPSLF" "Header_length r = 1"
  shows "Parsering visits (conf ub eb r rq pos) =
     Parsering visits (conf ub eb (r\<lparr>Header := Some pos, Header_length := int (length nm), Status := HPSColon\<rparr>)
       rq (pos + length nm + 2))"
proof -
  obtain n ns where n: "nm = n # ns" "isheader n" "list_all isheader ns"
    using nm by (cases nm) auto
  have i0: "at_input ub pos (n # ns @ '': '' @ cs)" using inp n by simp
  have i1: "at_input ub (Suc pos) (ns @ '': '' @ cs)" by (rule at_input_Cons [OF i0])
  have i2: "at_input ub (pos + length nm) (CHR '':'' # '' '' @ cs)"
    using at_input_append(1) [OF i1] n(1) by simp
  have i3: "at_input ub (Suc (pos + length nm)) (CHR '' '' # cs)"
    using at_input_Cons [OF i2] by simp
  let ?r = "r\<lparr>Header := Some pos, Header_length := int (length nm), Status := HPSColon\<rparr>"
  have "Parsering visits (conf ub eb r rq pos) =
      Parsering visits (conf ub eb (r\<lparr>Header := Some pos, Status := HPSHeader\<rparr>) rq (Suc pos))"
    using st n(2) by (intro run_char [OF i0 eb]) (auto simp: parse_state_def to_def UB_ReadPtr_def)
  also have "\<dots> = Parsering visits (conf ub eb (r\<lparr>Header := Some pos, Status := HPSHeader,
      Header_length := int (length nm)\<rparr>) rq (pos + length nm))"
    using st n by (subst run_name [OF i1 n(3) eb]) (simp_all add: add.commute)
  also have "\<dots> = Parsering visits (conf ub eb ?r rq (Suc (pos + length nm)))"
    by (intro run_char [OF i2 eb]) (simp_all add: parse_state_def to_def)
  also have "\<dots> = Parsering visits (conf ub eb ?r rq (Suc (Suc (pos + length nm))))"
    by (intro run_char [OF i3 eb]) (simp_all add: parse_state_def to_def)
  finally show ?thesis by simp
qed

lemma run_field_value:
  assumes inp: "at_input ub pos (val @ CHR 0x0D # cs)" and val: "val \<noteq> []" "list_all isvalue val" "hd val \<noteq> CHR '' ''"
    and eb: "\<not> EB_IsVaild eb" and st: "Status r = HPSColon" "Value_length r = 1"
  shows "Parsering visits (conf ub eb r rq pos) =
     Parsering visits (conf ub eb (r\<lparr>Value := Some pos, Value_length := int (length val), Status := HPSStore_Header\<rparr>)
       rq (pos + length val + 1))"
proof -
  obtain v vs where v: "val = v # vs" "isvalue v" "list_all isvalue vs" "v \<noteq> CHR '' ''"
    using val by (cases val) auto
  have i0: "at_input ub pos (v # vs @ CHR 0x0D # cs)" using inp v by simp
  have i1: "at_input ub (Suc pos) (vs @ CHR 0x0D # cs)" by (rule at_input_Cons [OF i0])
  have i2: "at_input ub (pos + length val) (CHR 0x0D # cs)"
    using at_input_append(1) [OF i1] v(1) by simp
  have "Parsering visits (conf ub eb r rq pos) =
      Parsering visits (conf ub eb (r\<lparr>Value := Some pos, Status := HPSHeader_Value\<rparr>) rq (Suc pos))"
    using v st by (intro run_char [OF i0 eb]) (auto simp: parse_state_def to_def UB_ReadPtr_def)
  also have "\<dots> = Parsering visits (conf ub eb (r\<lparr>Value := Some pos, Status := HPSHeader_Value,
      Value_length := int (length val)\<rparr>) rq (pos + length val))"
    using st v by (subst run_value [OF i1 v(3) eb]) (simp_all add: add.commute)
  also have "\<dots> = Parsering visits (conf ub eb
      (r\<lparr>Value := Some pos, Value_length := int (length val), Status := HPSStore_Header\<rparr>) rq (Suc (pos + length val)))"
    by (intro run_char [OF i2 eb]) (simp_all add: parse_state_def to_def)
  finally show ?thesis by simp
qed

lemma run_field:
  assumes inp: "at_input ub pos (field_text f @ cs)" and fine: "field_fine f"
    and eb: "\<not> EB_IsVaild eb"
    and st: "Status r = HPSLF" "Header_length r = 1" "Value_length r = 1" "Header r = None" "Value r = None"
    and tab: "table_ok (Buffer ub) (Header_Value rq)"
      "fst f \<notin> set (table_names (Buffer ub) (Header_Value rq))"
    and cl: "fst f = ''Content-Length'' \<longrightarrow> Content_length r = 0"
  shows "Parsering visits (conf ub eb r rq pos) =
     Parsering visits (conf ub eb (field_effect f r)
       (rq\<lparr>Header_Value := Header_Value rq @
            [(buf_view pos (fst f), buf_view (pos + length (fst f) + 2) (snd f))]\<rparr>)
       (pos + length (field_text f)))"
proof -
  let ?b = "pos + length (fst f) + 2"
  have name: "at_input ub pos (fst f @ '': '' @ snd f @ crlf @ cs)"
    using inp by (simp add: field_text_def)
  have name': "at_input ub pos ((fst f @ '': '') @ snd f @ crlf @ cs)" using name by simp
  have val: "at_input ub ?b (snd f @ crlf @ cs)"
    using at_input_skip [OF name', of "length (fst f) + 2"] by simp
  have val': "at_input ub ?b (snd f @ CHR 0x0D # CHR 0x0A # cs)" using val by (simp add: crlf_def)
  have last: "at_input ub (?b + length (snd f) + 1) (CHR 0x0A # cs)"
    using at_input_Cons [OF at_input_append(1) [OF val']] by simp
  have lenM: "length (Buffer ub) < two64"
    using inp by (auto simp: at_input_def UB_wf_def two64_def)
  note nv = buf_view_ok [OF at_input_append(2) [OF name] at_input_append(3) [OF name] lenM]
  note vv = buf_view_ok [OF at_input_append(2) [OF val] at_input_append(3) [OF val] lenM]
  define r1 where "r1 = r\<lparr>Header := Some pos, Header_length := int (length (fst f)), Status := HPSColon\<rparr>"
  define r2 where "r2 = r1\<lparr>Value := Some ?b, Value_length := int (length (snd f)), Status := HPSStore_Header\<rparr>"
  have "Parsering visits (conf ub eb r rq pos) = Parsering visits (conf ub eb r1 rq ?b)"
    using st fine unfolding r1_def by (intro run_field_name [OF name _ _ eb]) (auto simp: field_fine_def)
  also have "\<dots> = Parsering visits (conf ub eb r2 rq (?b + length (snd f) + 1))"
    using st fine unfolding r2_def
    by (intro run_field_value [OF val' _ _ _ eb]) (auto simp: field_fine_def r1_def)
  also have "\<dots> = Parsering visits (conf ub eb
      ((field_effect f r2)\<lparr>Header := None, Header_length := 1, Value := None, Value_length := 1,
           Status := HPSLF\<rparr>)
      (rq\<lparr>Header_Value := Header_Value rq @ [(buf_view pos (fst f), buf_view ?b (snd f))]\<rparr>)
      (Suc (?b + length (snd f) + 1)))"
    using store_field [OF fine nv(1,2) vv tab refl, of r2 visits eb] cl
    by (intro run_char [OF last eb]) (simp_all add: parse_state_def r2_def r1_def)
  also have "(field_effect f r2)\<lparr>Header := None, Header_length := 1, Value := None, Value_length := 1,
           Status := HPSLF\<rparr> = field_effect f r"
    using st by (simp add: field_effect_def r2_def r1_def)
  finally show ?thesis by (simp add: field_text_def crlf_def add.assoc)
qed

section \<open>All fields, and the whole request\<close>

text \<open>Where the views of the fields lead that are printed from \<open>pos\<close> on.\<close>

fun field_views :: "nat \<Rightarrow> (string \<times> string) list \<Rightarrow> (ParsedHeader \<times> ParsedHeader) list" where
  "field_views pos [] = []"
| "field_views pos (f # fs) =
     (buf_view pos (fst f), buf_view (pos + length (fst f) + 2) (snd f)) #
     field_views (pos + length (field_text f)) fs"

definition show_table :: "char list \<Rightarrow> (ParsedHeader \<times> ParsedHeader) list \<Rightarrow> (string \<times> string) list" where
  "show_table M es = map (\<lambda>(k, v). (view_bytes M k, view_bytes M v)) es"

lemma field_views_fine:
  assumes "at_input ub pos (concat (map field_text fs) @ cs)" and "list_all field_fine fs"
  shows "list_all (field_ok (Buffer ub)) (field_views pos fs) \<and>
     show_table (Buffer ub) (field_views pos fs) = fs"
  using assms
proof (induction fs arbitrary: pos)
  case (Cons f fs)
  have inp: "at_input ub pos (field_text f @ concat (map field_text fs) @ cs)" using Cons.prems(1) by simp
  have name: "at_input ub pos (fst f @ '': '' @ snd f @ crlf @ concat (map field_text fs) @ cs)"
    using inp by (simp add: field_text_def)
  have name': "at_input ub pos ((fst f @ '': '') @ snd f @ crlf @ concat (map field_text fs) @ cs)"
    using name by simp
  have val: "at_input ub (pos + length (fst f) + 2) (snd f @ crlf @ concat (map field_text fs) @ cs)"
    using at_input_skip [OF name', of "length (fst f) + 2"] by simp
  have lenM: "length (Buffer ub) < two64"
    using inp by (auto simp: at_input_def UB_wf_def two64_def)
  note nv = buf_view_ok [OF at_input_append(2) [OF name] at_input_append(3) [OF name] lenM]
  note vv = buf_view_ok [OF at_input_append(2) [OF val] at_input_append(3) [OF val] lenM]
  have "at_input ub (pos + length (field_text f)) (concat (map field_text fs) @ cs)"
    by (rule at_input_append(1) [OF inp])
  then show ?case
    using nv vv Cons.IH Cons.prems(2) by (simp add: field_ok_def field_fine_def show_table_def)
qed (simp add: show_table_def)

lemma field_views_followed:
  assumes "at_input ub pos (concat (map field_text fs) @ cs)"
  shows "list_all (\<lambda>(k, v). followed (Buffer ub) (CHR 0x0D) v) (field_views pos fs)"
  using assms
proof (induction fs arbitrary: pos)
  case (Cons f fs)
  have inp: "at_input ub pos (field_text f @ concat (map field_text fs) @ cs)" using Cons.prems by simp
  then have "at_input ub pos ((fst f @ '': '') @ snd f @ CHR 0x0D # CHR 0x0A # concat (map field_text fs) @ cs)"
    by (simp add: field_text_def crlf_def)
  from buf_view_followed [OF at_input_skip [OF this, of "length (fst f) + 2"]]
  show ?case using Cons.IH [OF at_input_append(1) [OF inp]] by simp
qed simp

lemmas field_views_ok = field_views_fine [THEN conjunct1] field_views_fine [THEN conjunct2]

lemma table_names_field_views:
  assumes "at_input ub pos (concat (map field_text fs) @ cs)" and "list_all field_fine fs"
  shows "table_names (Buffer ub) (field_views pos fs) = map fst fs"
proof -
  have "table_names (Buffer ub) (field_views pos fs) = map fst (show_table (Buffer ub) (field_views pos fs))"
    by (simp add: table_names_def show_table_def case_prod_beta)
  then show ?thesis using field_views_ok(2) [OF assms] by simp
qed

lemma run_fields:
  assumes "at_input ub pos (concat (map field_text fs) @ cs)" and "list_all field_fine fs"
    and "distinct (map fst fs)" and eb: "\<not> EB_IsVaild eb"
    and "Status r = HPSLF" "Header_length r = 1" "Value_length r = 1" "Header r = None" "Value r = None"
    and "list_all (field_ok (Buffer ub)) (Header_Value rq)"
    and "set (table_names (Buffer ub) (Header_Value rq)) \<inter> set (map fst fs) = {}"
    and "''Content-Length'' \<in> set (map fst fs) \<longrightarrow> Content_length r = 0"
  shows "Parsering visits (conf ub eb r rq pos) =
     Parsering visits (conf ub eb (fold field_effect fs r)
       (rq\<lparr>Header_Value := Header_Value rq @ field_views pos fs\<rparr>)
       (pos + length (concat (map field_text fs))))"
  using assms(1-3,5-)
proof (induction fs arbitrary: pos r rq)
  case (Cons f fs)
  let ?rest = "concat (map field_text fs) @ cs"
  let ?kv = "(buf_view pos (fst f), buf_view (pos + length (fst f) + 2) (snd f))"
  let ?rq = "rq\<lparr>Header_Value := Header_Value rq @ [?kv]\<rparr>"
  have inp: "at_input ub pos (field_text f @ ?rest)" using Cons.prems(1) by simp
  have kv: "list_all (field_ok (Buffer ub)) [?kv]" "table_names (Buffer ub) [?kv] = [fst f]"
    using field_views_ok(1) [of ub pos "[f]" ?rest] table_names_field_views [of ub pos "[f]" ?rest]
      inp Cons.prems(2) by simp_all
  have "Parsering visits (conf ub eb r rq pos) =
      Parsering visits (conf ub eb (field_effect f r) ?rq (pos + length (field_text f)))"
    using Cons.prems by (intro run_field [OF inp _ eb]) (auto intro: field_ok_table_ok)
  also have "\<dots> = Parsering visits (conf ub eb (fold field_effect fs (field_effect f r))
      (?rq\<lparr>Header_Value := Header_Value ?rq @ field_views (pos + length (field_text f)) fs\<rparr>)
      (pos + length (field_text f) + length (concat (map field_text fs))))"
  proof (rule Cons.IH)
    show "at_input ub (pos + length (field_text f)) ?rest" by (rule at_input_append(1) [OF inp])
    show "set (table_names (Buffer ub) (Header_Value ?rq)) \<inter> set (map fst fs) = {}"
      using Cons.prems(3,10) kv(2) by (auto simp: table_names_def)
    show "''Content-Length'' \<in> set (map fst fs) \<longrightarrow> Content_length (field_effect f r) = 0"
    proof
      assume in_fs: "''Content-Length'' \<in> set (map fst fs)"
      with Cons.prems(3) have "fst f \<noteq> ''Content-Length''"
        by (metis distinct.simps(2) list.map(2))
      with in_fs Cons.prems(11) show "Content_length (field_effect f r) = 0" by (simp add: field_effect_def)
    qed
  qed (use Cons.prems kv(1) in \<open>simp_all add: field_effect_def\<close>)
  finally show ?case by (simp add: add.assoc)
qed simp

definition flag_of :: "HttpFlag \<Rightarrow> (string \<times> string) list \<Rightarrow> HttpFlag" where
  "flag_of ka fs = (case map_of fs ''Connection'' of
     None \<Rightarrow> ka | Some v \<Rightarrow> if v = ''Keep-Alive'' then Keep_Alive else Close)"

definition length_of :: "(string \<times> string) list \<Rightarrow> int" where
  "length_of fs = (case map_of fs ''Content-Length'' of None \<Rightarrow> 0 | Some v \<Rightarrow> length_value v)"

lemma fold_effect_frame:
  "\<exists>ka cl ft. fold field_effect fs r = r\<lparr>Set_Ka := ka, Content_length := cl, Fault := ft\<rparr>"
proof (induction fs arbitrary: r)
  case Nil
  have "r = r\<lparr>Set_Ka := Set_Ka r, Content_length := Content_length r, Fault := Fault r\<rparr>" by simp
  then show ?case by (metis fold_simps(1))
next
  case (Cons f fs)
  obtain ka cl ft where "fold field_effect fs (field_effect f r) =
      (field_effect f r)\<lparr>Set_Ka := ka, Content_length := cl, Fault := ft\<rparr>"
    using Cons.IH by blast
  then have "fold field_effect (f # fs) r = r\<lparr>Set_Ka := ka, Content_length := cl, Fault := ft\<rparr>"
    by (simp add: field_effect_def)
  then show ?case by blast
qed

lemma fold_effect_Set_Ka:
  "distinct (map fst fs) \<Longrightarrow> Set_Ka (fold field_effect fs r) = flag_of (Set_Ka r) fs"
proof (induction fs arbitrary: r)
  case (Cons f fs)
  have "map_of fs (fst f) = None" using Cons.prems by (simp add: map_of_eq_None_iff)
  then show ?case
    using Cons.IH [of "field_effect f r"] Cons.prems
    by (cases f) (auto simp: flag_of_def field_effect_def split: option.splits)
qed (simp add: flag_of_def)

lemma fold_effect_length:
  "distinct (map fst fs) \<Longrightarrow> Content_length (fold field_effect fs r) =
     (case map_of fs ''Content-Length'' of
        None \<Rightarrow> Content_length r
      | Some v \<Rightarrow> dec_val (Content_length r) (takeWhile isdigit v))"
proof (induction fs arbitrary: r)
  case (Cons f fs)
  have "map_of fs (fst f) = None" using Cons.prems by (simp add: map_of_eq_None_iff)
  then show ?case
    using Cons.IH [of "field_effect f r"] Cons.prems
    by (cases f) (auto simp: field_effect_def split: option.splits)
qed simp

text \<open>
  A parser at the start of a request, its input being \<open>cs\<close>. The fault may be one that an earlier call left, when
  it found too little input.
\<close>

definition blank_record :: "HttpParser_Content \<Rightarrow> bool" where
  "blank_record r \<longleftrightarrow> Fault r \<noteq> HPFContent \<and> (HttpParser_Content_init r)\<lparr>Fault := Fault r\<rparr> = r"

definition parser_at :: "HttpParser \<Rightarrow> string \<Rightarrow> bool" where
  "parser_at p cs \<longleftrightarrow>
     UB_wf (hp_Buffer p) \<and> UB_content (hp_Buffer p) = cs \<and> \<not> EB_IsVaild (hp_Extra p) \<and>
     blank_record (hp_Result p) \<and> Header_Value (hp_Request p) = []"

lemma parser_at_conf:
  assumes "parser_at p cs"
  obtains ub eb r rq pos where "p = conf ub eb r rq pos" "at_input ub pos cs" "\<not> EB_IsVaild eb"
    "blank_record r" "Header_Value rq = []"
  using assms
  by (intro that [of "hp_Buffer p" "hp_Extra p" "hp_Result p" "hp_Request p" "Read_Spot (hp_Buffer p)"])
     (simp_all add: conf_def parser_at_def at_input_def)

lemma run_end:
  assumes inp: "at_input ub pos (crlf @ cs)" and eb: "\<not> EB_IsVaild eb" and st: "Status r = HPSLF"
  shows "Parsering visits (conf ub eb r rq pos) =
     Some (Inr (), conf ub eb (r\<lparr>Fault := HPFContent, Status := HPSGAMEOVER\<rparr>) rq (pos + 2))"
proof -
  have i0: "at_input ub pos (CHR 0x0D # CHR 0x0A # cs)" using inp by (simp add: crlf_def)
  have i1: "at_input ub (Suc pos) (CHR 0x0A # cs)" by (rule at_input_Cons [OF i0])
  have "Parsering visits (conf ub eb r rq pos) = Parsering visits (conf ub eb (r\<lparr>Status := HPSCRLFCR\<rparr>) rq (Suc pos))"
    using st by (intro run_char [OF i0 eb]) (simp_all add: parse_state_def to_def)
  also have "\<dots> = Parsering visits (conf ub eb (r\<lparr>Fault := HPFContent, Status := HPSGAMEOVER\<rparr>) rq (Suc (Suc pos)))"
    by (intro run_char [OF i1 eb]) (simp_all add: parse_state_def to_def)
  finally show ?thesis by (simp add: Parsering_stop)
qed

text \<open>The loop on a printed request, in one equation.\<close>

lemma fold_effect_values:
  assumes "distinct (map fst fs)" and "Content_length r = 0"
  obtains ft where "fold field_effect fs r = r\<lparr>Set_Ka := flag_of (Set_Ka r) fs, Content_length := length_of fs, Fault := ft\<rparr>"
proof -
  obtain ka cl ft where f: "fold field_effect fs r = r\<lparr>Set_Ka := ka, Content_length := cl, Fault := ft\<rparr>"
    using fold_effect_frame [of fs r] by blast
  have "ka = flag_of (Set_Ka r) fs" "cl = length_of fs"
    using fold_effect_Set_Ka [OF assms(1), of r] fold_effect_length [OF assms(1), of r] assms(2)
    by (simp_all add: f length_of_def length_value_def cong: option.case_cong)
  then show thesis using that f by simp
qed

text \<open>Where the parts of a printed request begin.\<close>

lemma request_places:
  assumes "at_input ub pos (request_text msg @ rest)"
  defines "start \<equiv> pos + length (method_word (msg_method msg))"
  defines "line \<equiv> start + length (msg_uri msg) + 12"
  defines "tail \<equiv> concat (map field_text (msg_fields msg)) @ crlf @ rest"
  shows "at_input ub pos (method_word (msg_method msg) @ '' '' @ msg_uri msg @ '' HTTP/1.'' @ msg_minor msg # crlf @ tail)"
    and "at_input ub start ('' '' @ msg_uri msg @ '' HTTP/1.'' @ msg_minor msg # crlf @ tail)"
    and "at_input ub line tail" and "at_input ub (line + length (concat (map field_text (msg_fields msg)))) (crlf @ rest)"
    and "line + length (concat (map field_text (msg_fields msg))) + 2 = pos + length (request_text msg)"
proof -
  show i0: "at_input ub pos (method_word (msg_method msg) @ '' '' @ msg_uri msg @ '' HTTP/1.'' @ msg_minor msg # crlf @ tail)"
    using assms(1) by (simp add: request_text_def tail_def)
  show i1: "at_input ub start ('' '' @ msg_uri msg @ '' HTTP/1.'' @ msg_minor msg # crlf @ tail)"
    unfolding start_def by (rule at_input_append(1) [OF i0])
  then have "at_input ub start (('' '' @ msg_uri msg @ '' HTTP/1.'' @ msg_minor msg # crlf) @ tail)" by simp
  from at_input_skip [OF this, of "length (msg_uri msg) + 12"]
  show i2: "at_input ub line tail" by (simp add: line_def crlf_def add.assoc)
  show "at_input ub (line + length (concat (map field_text (msg_fields msg)))) (crlf @ rest)"
    by (rule at_input_append(1) [OF i2 [unfolded tail_def]])
  show "line + length (concat (map field_text (msg_fields msg))) + 2 = pos + length (request_text msg)"
    by (simp add: request_text_def crlf_def line_def start_def)
qed

lemma Parsering_request:
  assumes inp: "at_input ub pos (request_text msg @ rest)" and fine: "message_fine msg"
    and eb: "\<not> EB_IsVaild eb" and r: "Status r = HPSOK" "V_major r = 0" "V_minor r = 0" "Uri_length r = 1"
      "Header_length r = 1" "Value_length r = 1" "Header r = None" "Value r = None" "Content_length r = 0"
    and rq: "Header_Value rq = []"
  defines "n \<equiv> length (method_word (msg_method msg))"
  defines "line \<equiv> pos + n + length (msg_uri msg) + 12"
  defines "fs \<equiv> msg_fields msg"
  shows "Parsering visits (conf ub eb r rq pos) =
     Some (Inr (), conf ub eb
       (r\<lparr>Method := msg_method msg, Uri := Some (pos + n + 1), Uri_length := int (length (msg_uri msg)),
          V_major := 1, V_minor := minor_value (msg_minor msg), Set_Ka := flag_of (Set_Ka r) fs,
          Content_length := length_of fs, Fault := HPFContent, Status := HPSGAMEOVER\<rparr>)
       (rq\<lparr>Header_Value := field_views line fs\<rparr>) (pos + length (request_text msg)))"
proof -
  have m: "method_word (msg_method msg) \<noteq> []" "msg_uri msg \<noteq> []" "list_all isuri (msg_uri msg)"
    "msg_minor msg = CHR ''0'' \<or> msg_minor msg = CHR ''1''" "list_all field_fine fs" "distinct (map fst fs)"
    using fine by (simp_all add: message_fine_def fs_def)
  note places = request_places [OF inp, folded n_def, folded line_def, folded fs_def]
  define r1 where "r1 = r\<lparr>Status := HPSLF, Method := msg_method msg, Uri := Some (pos + n + 1),
      Uri_length := int (length (msg_uri msg)), V_major := 1, V_minor := minor_value (msg_minor msg)\<rparr>"
  define q where "q = line + length (concat (map field_text fs))"
  have q: "q + 2 = pos + length (request_text msg)" using places(5) by (simp add: q_def)
  have "Parsering visits (conf ub eb r rq pos) =
      Parsering visits (conf ub eb (r\<lparr>Status := HPSBetweenMU, Method := msg_method msg\<rparr>) rq (pos + n))"
    unfolding n_def by (rule run_method [OF places(1) m(1) eb r(1)])
  also have "\<dots> = Parsering visits (conf ub eb r1 rq line)"
  proof -
    let ?r0 = "r\<lparr>Status := HPSBetweenMU, Method := msg_method msg\<rparr>"
    have "?r0\<lparr>Uri := Some (pos + n + 1), Uri_length := int (length (msg_uri msg)), V_major := 1,
        V_minor := minor_value (msg_minor msg), Status := HPSLF\<rparr> = r1"
      by (rule HttpParser_Content.equality) (simp_all add: r1_def)
    then show ?thesis
      using run_target [OF places(2) m(2,3) eb m(4), where r = ?r0] r by (simp add: line_def)
  qed
  also have "\<dots> = Parsering visits (conf ub eb (fold field_effect fs r1)
      (rq\<lparr>Header_Value := Header_Value rq @ field_views line fs\<rparr>) q)"
    unfolding q_def
    using r rq m(5,6) by (intro run_fields [OF places(3) _ _ eb]) (simp_all add: r1_def table_names_def)
  also have "\<dots> = Parsering visits (conf ub eb (fold field_effect fs r1) (rq\<lparr>Header_Value := field_views line fs\<rparr>) q)"
    using rq by simp
  also have "\<dots> = Some (Inr (), conf ub eb ((fold field_effect fs r1)\<lparr>Fault := HPFContent, Status := HPSGAMEOVER\<rparr>)
      (rq\<lparr>Header_Value := field_views line fs\<rparr>) (q + 2))"
    using places(4) fold_effect_frame [of fs r1]
    by (intro run_end [where cs = rest, OF _ eb]) (auto simp: q_def r1_def)
  also have "(fold field_effect fs r1)\<lparr>Fault := HPFContent, Status := HPSGAMEOVER\<rparr> =
      r1\<lparr>Set_Ka := flag_of (Set_Ka r) fs, Content_length := length_of fs, Fault := HPFContent,
        Status := HPSGAMEOVER\<rparr>"
    by (rule fold_effect_values [OF m(6), of r1]) (use r in \<open>simp_all add: r1_def\<close>)
  also have "r1\<lparr>Set_Ka := flag_of (Set_Ka r) fs, Content_length := length_of fs, Fault := HPFContent,
      Status := HPSGAMEOVER\<rparr> = r\<lparr>Method := msg_method msg, Uri := Some (pos + n + 1),
      Uri_length := int (length (msg_uri msg)), V_major := 1, V_minor := minor_value (msg_minor msg),
      Set_Ka := flag_of (Set_Ka r) fs, Content_length := length_of fs, Fault := HPFContent,
      Status := HPSGAMEOVER\<rparr>"
    by (rule HttpParser_Content.equality) (simp_all add: r1_def)
  finally show ?thesis using q by simp
qed

end
