(* ===== verification/Http_Theorems.thy ===== *)
theory Http_Theorems
  imports Http_Parser_Roundtrip
begin

text \<open>
  The properties of the request side: the user buffer as a queue of bytes, receiving from the
  socket, and the parser as a whole. Each is stated on the definitions of the components; the
  witnesses evaluate them on small buffers.
\<close>

section \<open>Small buffers for the witnesses\<close>

definition buffer_with :: "string \<Rightarrow> UserBuffer" where
  "buffer_with s =
     \<lparr>Buffer = s, Write_Spot = length s, Read_Spot = 0, Buffer_Size = length s\<rparr>"

definition parser_with :: "string \<Rightarrow> HttpParser" where
  "parser_with s =
     \<lparr>hp_Buffer = buffer_with s, hp_Result = HttpParser_Content_new,
      hp_Request = HttpRequest_new
        \<lparr>Version_Major = 0, Version_Minor = 0, Content_Start = Null_ptr, rq_Content_Length = 0,
         rq_StatusCode = HSCOK, rq_Method = HRInit, rq_Flag = Keep_Alive, rq_Fault = HPFOK,
         rq_Uri = ParsedHeader_make Null_ptr 0, Request_Buffer_set = False, Header_Value = []\<rparr>,
      hp_Extra = Extrabuf_new\<rparr>"

lemma parser_with_at:
  assumes "even (length s)" and "length s < 2147483648"
  shows "parser_at (parser_with s) s"
  using assms
  by (simp add: parser_at_def blank_record_def parser_with_def buffer_with_def UB_wf_def UB_content_def
      EB_IsVaild_def Extrabuf_new_def HttpParser_Content_new_def HttpParser_Content_init_def HttpRequest_new_def)

lemma init_fields:
  assumes "blank_record r"
  shows "Status r = HPSOK" "V_major r = 0" "V_minor r = 0" "Uri_length r = 1" "Header_length r = 1"
    "Value_length r = 1" "Header r = None" "Value r = None" "Content_length r = 0" "Method r = HRInit"
    "Fault r \<noteq> HPFContent" "Uri r = None"
proof -
  have fault: "Fault r \<noteq> HPFContent" and eq: "(HttpParser_Content_init r)\<lparr>Fault := Fault r\<rparr> = r"
    using assms by (simp_all add: blank_record_def)
  show "Status r = HPSOK" "V_major r = 0" "V_minor r = 0" "Uri_length r = 1" "Header_length r = 1"
    "Value_length r = 1" "Header r = None" "Value r = None" "Content_length r = 0" "Method r = HRInit"
    "Fault r \<noteq> HPFContent" "Uri r = None"
    by (rule fault | subst eq [symmetric], simp add: HttpParser_Content_init_def)+
qed

lemma parser_at_inv:
  assumes "parser_at p cs" shows "parser_inv p"
  using assms init_fields [of "hp_Result p"] by (simp add: parser_at_def parser_inv_def status_inv_def)

lemma UserBuffer_new_simps [simp]:
  "Read_Spot (UserBuffer_new n) = 0" "Write_Spot (UserBuffer_new n) = 0"
  "Buffer_Size (UserBuffer_new n) = n" "UB_Writeable (UserBuffer_new n) = n"
  "UB_room (UserBuffer_new n) = n"
  by (simp_all add: UserBuffer_new_def UB_Writeable_def UB_room_def UB_content_def)

lemma Extrabuf_new_simps [simp]: "\<not> EB_IsVaild Extrabuf_new" "eb_BufferSize Extrabuf_new = 4048"
  by (simp_all add: EB_IsVaild_def Extrabuf_new_def)

section \<open>The parser\<close>

definition sample_message :: http_message where
  "sample_message =
     \<lparr>msg_method = HRGet, msg_uri = ''/a'', msg_minor = CHR ''1'',
      msg_fields = [(''Connection'', ''Close''), (''Content-Length'', ''12'')]\<rparr>"

lemma sample_message_fine: "message_fine sample_message"
  by code_simp

lemma even_sample: "even (length (request_text sample_message))"
  "length (request_text sample_message) < 2147483648"
  by (simp_all add: sample_message_def request_text_def crlf_def field_text_def)

text \<open>What the views into the buffer show that the parser makes of the target and the fields.\<close>

lemma request_views:
  assumes "at_input ub pos (request_text msg @ rest)" and "message_fine msg"
  defines "uri \<equiv> buf_view (pos + length (method_word (msg_method msg)) + 1) (msg_uri msg)"
    and "hdrs \<equiv> field_views (pos + length (method_word (msg_method msg)) + length (msg_uri msg) + 12) (msg_fields msg)"
  shows "view_ok (Buffer ub) uri" "view_bytes (Buffer ub) uri = msg_uri msg" "followed (Buffer ub) (CHR '' '') uri"
    "list_all (field_ok (Buffer ub)) hdrs" "show_table (Buffer ub) hdrs = msg_fields msg"
    "list_all (\<lambda>(k, v). followed (Buffer ub) (CHR 0x0D) v) hdrs"
proof -
  note places = request_places [OF assms(1)]
  have fields_fine: "list_all field_fine (msg_fields msg)" using assms(2) by (simp add: message_fine_def)
  have len: "length (Buffer ub) < two64" using assms(1) by (auto simp: at_input_def UB_wf_def two64_def)
  have at: "at_input ub (pos + length (method_word (msg_method msg)) + 1)
      (msg_uri msg @ CHR '' '' # ''HTTP/1.'' @ msg_minor msg # crlf @ concat (map field_text (msg_fields msg)) @ crlf @ rest)"
    using at_input_skip [of ub _ "'' ''" _ 1] places(2) by simp
  show "view_ok (Buffer ub) uri" "view_bytes (Buffer ub) uri = msg_uri msg"
    unfolding uri_def by (rule buf_view_ok [OF at_input_append(2) [OF at] at_input_append(3) [OF at] len])+
  show "followed (Buffer ub) (CHR '' '') uri" unfolding uri_def by (rule buf_view_followed [OF at])
  show "list_all (field_ok (Buffer ub)) hdrs" "show_table (Buffer ub) hdrs = msg_fields msg"
    unfolding hdrs_def using field_views_ok [OF places(3) fields_fine] by simp_all
  show "list_all (\<lambda>(k, v). followed (Buffer ub) (CHR 0x0D) v) hdrs"
    unfolding hdrs_def by (rule field_views_followed [OF places(3)])
qed

text \<open>The whole entry point on a printed request.\<close>

lemma Starting_Parser_conf:
  assumes at: "parser_at p (request_text msg @ rest)" and fine: "message_fine msg"
  shows "\<exists>p'. Starting_Parser visits p = Some (Inr HPFContent, p') \<and>
     UB_wf (hp_Buffer p') \<and> UB_content (hp_Buffer p') = rest \<and>
     rq_Method (hp_Request p') = msg_method msg \<and>
     view_bytes (Buffer (hp_Buffer p')) (rq_Uri (hp_Request p')) = msg_uri msg \<and>
     Version_Major (hp_Request p') = 1 \<and> Version_Minor (hp_Request p') = minor_value (msg_minor msg) \<and>
     list_all (field_ok (Buffer (hp_Buffer p'))) (Header_Value (hp_Request p')) \<and>
     show_table (Buffer (hp_Buffer p')) (Header_Value (hp_Request p')) = msg_fields msg \<and>
     rq_Content_Length (hp_Request p') = size_of_int (length_of (msg_fields msg)) \<and>
     rq_Flag (hp_Request p') = flag_of (Set_Ka (hp_Result p)) (msg_fields msg) \<and>
     Request_good (hp_Request p') \<and> Finished p' \<and> hp_Extra p' = hp_Extra p \<and>
     followed (Buffer (hp_Buffer p')) (CHR '' '') (rq_Uri (hp_Request p')) \<and>
     view_ok (Buffer (hp_Buffer p')) (rq_Uri (hp_Request p')) \<and>
     list_all (\<lambda>(k, v). followed (Buffer (hp_Buffer p')) (CHR 0x0D) v) (Header_Value (hp_Request p'))"
proof -
  obtain ub eb r rq pos where p: "p = conf ub eb r rq pos" and inp: "at_input ub pos (request_text msg @ rest)"
    and eb: "\<not> EB_IsVaild eb" and r: "blank_record r" and rq: "Header_Value rq = []"
    using parser_at_conf [OF at] by metis
  define r0 where "r0 = (if Parser_able p then r else r\<lparr>Fault := HPFToLittleMessage\<rparr>)"
  define n where "n = length (method_word (msg_method msg))"
  define line where "line = pos + n + length (msg_uri msg) + 12"
  let ?fs = "msg_fields msg"
  define r1 where "r1 = r0\<lparr>Method := msg_method msg, Uri := Some (pos + n + 1),
      Uri_length := int (length (msg_uri msg)), V_major := 1, V_minor := minor_value (msg_minor msg),
      Set_Ka := flag_of (Set_Ka r0) ?fs, Content_length := length_of ?fs, Fault := HPFContent,
      Status := HPSGAMEOVER\<rparr>"
  define q where "q = conf ub eb r1 (rq\<lparr>Header_Value := field_views line ?fs\<rparr>) (pos + length (request_text msg))"
  have "Set_Ka r0 = Set_Ka r" by (simp add: r0_def)
  have start: "(if Parser_able p then p else upd_Result (\<lambda>r. r\<lparr>Fault := HPFToLittleMessage\<rparr>) p) = conf ub eb r0 rq pos"
    by (simp add: r0_def p)
  have "Parsering visits (conf ub eb r0 rq pos) = Some (Inr (), q)"
    unfolding q_def r1_def line_def n_def
    by (rule Parsering_request [OF inp fine eb _ _ _ _ _ _ _ _ _ rq])
       (simp_all add: r0_def init_fields [OF r])
  then have run: "Starting_Parser visits p = Some (Inr HPFContent, SetRequesting q)"
    unfolding Starting_Parser_def start by (simp add: q_def r1_def SetRequesting_def Let_def)
  have at_end: "at_input ub (pos + length (request_text msg)) rest"
    by (rule at_input_append(1) [OF inp])
  note views = request_views [OF inp fine]
  have rq1: "hp_Request (SetRequesting q) =
      rq\<lparr>Version_Major := 1, Version_Minor := minor_value (msg_minor msg),
         rq_Content_Length := size_of_int (length_of ?fs), rq_Method := msg_method msg,
         rq_Flag := flag_of (Set_Ka r) ?fs, rq_Fault := HPFContent, Request_Buffer_set := True,
         rq_Uri := buf_view (pos + n + 1) (msg_uri msg),
         Header_Value := field_views line ?fs\<rparr>"
    by (rule HttpRequest.equality)
       (simp_all add: SetRequesting_def Let_def q_def r1_def buf_view_def ptr_of_def \<open>Set_Ka r0 = Set_Ka r\<close>)
  have buf: "hp_Buffer (SetRequesting q) = ub\<lparr>Read_Spot := pos + length (request_text msg)\<rparr>"
    "hp_Extra (SetRequesting q) = eb" "Finished (SetRequesting q)"
    by (simp_all add: SetRequesting_def Let_def q_def Finished_def r1_def)
  show ?thesis
    using run at_end views
    by (intro exI [of _ "SetRequesting q"]) (simp add: rq1 buf at_input_def Request_good_def p n_def line_def)
qed

text \<open>C3: Parsing the text of a request gives the request back: a method the server knows, a
  target, version 1.0 or 1.1 and any header fields with distinct names are recovered from
  their printed form, the parser reports \<open>HPFContent\<close>, and what follows the request stays
  in the buffer. Two effects are as the code has them: the flag is that of the \<open>Connection\<close>
  field or, without one, the flag left by the previous request; and the length is that of the
  leading digits of \<open>Content-Length\<close>, whatever follows them.\<close>

theorem Starting_Parser_request:
  assumes "parser_at p (request_text msg @ rest)" and "message_fine msg"
  shows "\<exists>p'. Starting_Parser visits p = Some (Inr HPFContent, p') \<and>
     UB_content (hp_Buffer p') = rest \<and>
     rq_Method (hp_Request p') = msg_method msg \<and>
     view_bytes (Buffer (hp_Buffer p')) (rq_Uri (hp_Request p')) = msg_uri msg \<and>
     Version_Major (hp_Request p') = 1 \<and> Version_Minor (hp_Request p') = minor_value (msg_minor msg) \<and>
     show_table (Buffer (hp_Buffer p')) (Header_Value (hp_Request p')) = msg_fields msg \<and>
     rq_Content_Length (hp_Request p') = size_of_int (length_of (msg_fields msg)) \<and>
     rq_Flag (hp_Request p') = flag_of (Set_Ka (hp_Result p)) (msg_fields msg) \<and>
     Request_good (hp_Request p')"
  using Starting_Parser_conf [OF assms, of visits] by blast

theorem Starting_Parser_request_witness:
  "\<exists>p'. Starting_Parser (\<lambda>_ _. True) (parser_with (request_text sample_message @ [])) = Some (Inr HPFContent, p') \<and>
     UB_content (hp_Buffer p') = [] \<and> rq_Method (hp_Request p') = HRGet \<and>
     view_bytes (Buffer (hp_Buffer p')) (rq_Uri (hp_Request p')) = ''/a'' \<and>
     rq_Flag (hp_Request p') = Close"
  using Starting_Parser_request [of "parser_with (request_text sample_message @ [])" sample_message "[]" "\<lambda>_ _. True"]
    parser_with_at [of "request_text sample_message @ []"] even_sample sample_message_fine
  by (auto simp: sample_message_def flag_of_def)

text \<open>Looking a field up by its name.\<close>

lemma Get_Value_show_table:
  assumes ok: "list_all (field_ok M) (Header_Value rq)" and tab: "show_table M (Header_Value rq) = fs"
    and dist: "distinct (map fst fs)" and f: "(k, v) \<in> set fs" and order: "set (order (Header_Value rq)) = set (Header_Value rq)"
  shows "\<exists>w. Get_Value M order rq (ParsedHeader_literal k) = Inr w \<and> view_bytes M w = v"
proof -
  have tok: "table_ok M (order (Header_Value rq))"
    using field_ok_table_ok [OF ok] order by (simp add: table_ok_def)
  obtain kv vv where e: "(kv, vv) \<in> set (Header_Value rq)" "view_bytes M kv = k" "view_bytes M vv = v"
    using f unfolding tab [symmetric] show_table_def by auto
  have "find_if_equal M (ParsedHeader_literal k) es = Inr vv \<or>
      (\<exists>w. find_if_equal M (ParsedHeader_literal k) es = Inr w \<and> view_bytes M w = v)"
    if "(kv, vv) \<in> set es" "set es \<subseteq> set (Header_Value rq)" "table_ok M es" for es
    using that
  proof (induction es)
    case (Cons x es)
    obtain a b where x: "x = (a, b)" by (cases x)
    have "(k, v) \<in> set fs" by (rule f)
    have ab: "(view_bytes M a, view_bytes M b) \<in> set fs"
      using Cons.prems(2) x unfolding tab [symmetric] show_table_def by force
    have "view_bytes M b = v" if "view_bytes M a = k"
      using ab f that dist by (metis eq_key_imp_eq_value)
    then show ?case
      using Cons x e(2) ParsedHeaderIsEqual_spec [of M a "ParsedHeader_literal k"]
      by (auto split: bool.splits)
  qed simp
  then show ?thesis using e order tok by (auto simp: Get_Value_def)
qed

text \<open>C10: After a request was parsed, \<open>Get_Value\<close> finds every header field of it by its
  name, in whatever order the table is searched.\<close>

theorem Get_Value_parsed:
  assumes "parser_at p (request_text msg @ rest)" and "message_fine msg"
    and "(k, v) \<in> set (msg_fields msg)" and "\<And>es. set (order es) = set es"
  shows "\<exists>p' w. Starting_Parser visits p = Some (Inr HPFContent, p') \<and>
     Get_Value (Buffer (hp_Buffer p')) order (hp_Request p') (ParsedHeader_literal k) = Inr w \<and>
     view_bytes (Buffer (hp_Buffer p')) w = v"
proof -
  obtain p' where p': "Starting_Parser visits p = Some (Inr HPFContent, p')"
    "list_all (field_ok (Buffer (hp_Buffer p'))) (Header_Value (hp_Request p'))"
    "show_table (Buffer (hp_Buffer p')) (Header_Value (hp_Request p')) = msg_fields msg"
    using Starting_Parser_conf [OF assms(1,2), of visits] by blast
  then show ?thesis
    using Get_Value_show_table [OF p'(2,3) _ assms(3), of order] assms(2,4)
    by (auto simp: message_fine_def)
qed

theorem Get_Value_parsed_witness:
  "\<exists>p' w. Starting_Parser (\<lambda>_ _. True) (parser_with (request_text sample_message @ [])) = Some (Inr HPFContent, p') \<and>
     Get_Value (Buffer (hp_Buffer p')) rev (hp_Request p') (ParsedHeader_literal ''Content-Length'') = Inr w \<and>
     view_bytes (Buffer (hp_Buffer p')) w = ''12''"
  using Get_Value_parsed [of "parser_with (request_text sample_message @ [])" sample_message "[]"
      "''Content-Length''" "''12''" rev "\<lambda>_ _. True"]
    parser_with_at [of "request_text sample_message @ []"] even_sample sample_message_fine
  by (simp add: sample_message_def)

text \<open>What an accepted request looks like.\<close>

definition request_accepted :: "HttpParser \<Rightarrow> bool" where
  "request_accepted p \<longleftrightarrow>
     (let M = Buffer (hp_Buffer p); rq = hp_Request p in
      rq_Method rq \<noteq> HRInit \<and> view_ok M (rq_Uri rq) \<and>
      view_bytes M (rq_Uri rq) \<noteq> [] \<and> list_all isuri (view_bytes M (rq_Uri rq)) \<and>
      Version_Major rq = 1 \<and> (Version_Minor rq = 0 \<or> Version_Minor rq = 1) \<and>
      list_all (field_ok M) (Header_Value rq))"

lemma SetRequesting_accepted:
  assumes inv: "parser_inv p" and st: "Status (hp_Result p) = HPSGAMEOVER"
  shows "request_accepted (SetRequesting p)"
proof -
  define M where "M = Buffer (hp_Buffer p)"
  have ld: "line_done M (Read_Spot (hp_Buffer p)) (hp_Result p)"
    using inv st by (simp add: parser_inv_def status_inv_def M_def)
  then have sp: "spanned isuri M (Uri (hp_Result p)) (Uri_length (hp_Result p)) (Read_Spot (hp_Buffer p))"
    by (simp add: line_done_def uri_done_def)
  then obtain u where u: "Uri (hp_Result p) = Some u"
    by (auto simp: spanned_def span_def)
  have "UB_wf (hp_Buffer p)" using inv by (simp add: parser_inv_def)
  then have "Read_Spot (hp_Buffer p) \<le> length M" "length M < two64"
    using UB_wfD(1-3,6) [of "hp_Buffer p"] by (auto simp: M_def)
  note v = spanned_view [OF sp this]
  show ?thesis
    using ld v inv
    by (simp add: request_accepted_def SetRequesting_def Let_def u M_def ptr_of_def line_done_def
        uri_done_def parser_inv_def list_all_iff)
qed

text \<open>C4: The parser is total and safe: from any state its invariant admits, on any input, the
  loop ends; the only exceptions are an \<open>out_of_range\<close> for a cut-off keyword and the
  overflow of a number; and when the result is \<open>HPFContent\<close> the request has a method, a
  non-empty target of URI characters, version 1.0 or 1.1, and a table whose names and values are
  non-empty and inside the buffer.\<close>

theorem Starting_Parser_total:
  assumes inv: "parser_inv p"
  shows "\<exists>res p'. Starting_Parser visits p = Some (res, p') \<and>
     (res = Inl Out_of_range \<or> res = Inl Signed_overflow \<or>
      (\<exists>f. res = Inr f \<and> f = rq_Fault (hp_Request p') \<and> (f \<noteq> HPFContent \<or> request_accepted p')))"
proof -
  define q where "q = (if Parser_able p then p else upd_Result (\<lambda>r. r\<lparr>Fault := HPFToLittleMessage\<rparr>) p)"
  have "parser_inv q"
    using inv by (simp add: q_def parser_inv_def upd_Result_def status_inv_def name_done_def
        split: HttpParserStatus.splits)
  then obtain res q' where run: "Parsering visits q = Some (res, q')"
    and res: "res = Inl Out_of_range \<or> res = Inl Signed_overflow \<or>
      res = Inr () \<and> (parser_failed q' \<or>
        parser_inv q' \<and> (Status (hp_Result q') = HPSGAMEOVER \<or> UB_content (hp_Buffer q') = []))"
    using Parsering_total by metis
  have fault: "Fault (hp_Result (SetRequesting q')) = Fault (hp_Result q')"
    "rq_Fault (hp_Request (SetRequesting q')) = Fault (hp_Result q')"
    by (simp_all add: SetRequesting_def Let_def split: option.splits)
  show ?thesis
  proof (cases res)
    case (Inl e)
    then show ?thesis
      using res run by (auto simp: Starting_Parser_def q_def [symmetric])
  next
    case (Inr u)
    then have "Fault (hp_Result q') \<noteq> HPFContent \<or> request_accepted (SetRequesting q')"
      using res SetRequesting_accepted [of q'] by (auto simp: parser_failed_def parser_inv_def)
    then show ?thesis
      using Inr run fault by (simp add: Starting_Parser_def q_def [symmetric] Let_def)
  qed
qed

theorem Starting_Parser_total_witness:
  "\<exists>res p'. Starting_Parser (\<lambda>_ _. True) (parser_with ''GET /index.htm'') = Some (res, p') \<and>
     (res = Inl Out_of_range \<or> res = Inl Signed_overflow \<or>
      (\<exists>f. res = Inr f \<and> f = rq_Fault (hp_Request p') \<and> (f \<noteq> HPFContent \<or> request_accepted p')))"
  by (rule Starting_Parser_total) (rule parser_at_inv, rule parser_with_at, simp_all)

text \<open>A \<open>Content-Length\<close> that is not a number does not stop the parser: the fault that
  the digit loop records only leaves the loop, so the request is accepted, with the length that
  the leading digits give.\<close>

theorem Content_Length_fault_swallowed:
  assumes "parser_at p (request_text msg @ rest)" and "message_fine msg"
    and "map_of (msg_fields msg) ''Content-Length'' = Some v" and "\<not> list_all isdigit v"
  shows "\<exists>p'. Starting_Parser visits p = Some (Inr HPFContent, p') \<and>
     rq_Content_Length (hp_Request p') = size_of_int (length_value v) \<and> Request_good (hp_Request p')"
  using Starting_Parser_conf [OF assms(1,2), of visits] assms(3) by (auto simp: length_of_def)

definition bad_length_message :: http_message where
  "bad_length_message =
     \<lparr>msg_method = HRPost, msg_uri = ''/a'', msg_minor = CHR ''1'',
      msg_fields = [(''Content-Length'', ''5x'')]\<rparr>"

theorem Content_Length_fault_swallowed_witness:
  "\<exists>p'. Starting_Parser (\<lambda>_ _. True) (parser_with (request_text bad_length_message @ [])) =
       Some (Inr HPFContent, p') \<and> rq_Content_Length (hp_Request p') = 5 \<and> Request_good (hp_Request p')"
proof -
  have "message_fine bad_length_message" by code_simp
  moreover have "parser_at (parser_with (request_text bad_length_message @ []))
      (request_text bad_length_message @ [])"
    by (rule parser_with_at)
       (simp_all add: bad_length_message_def request_text_def crlf_def field_text_def)
  moreover have "length_value ''5x'' = 5" "\<not> list_all isdigit ''5x''" by code_simp+
  ultimately show ?thesis
    using Content_Length_fault_swallowed [of "parser_with (request_text bad_length_message @ [])"
        bad_length_message "[]" "''5x''" "\<lambda>_ _. True"]
    by (simp add: bad_length_message_def)
qed

text \<open>After a keyword that does not match, the parser consumes one byte more than the
  keyword: when the keyword ended the input, the read spot passes the write spot and
  \<open>Readable\<close> wraps to the largest size.\<close>

theorem wrong_keyword_passes_end:
  assumes "UB_wf (hp_Buffer p)" and "\<not> EB_IsVaild (hp_Extra p)"
    and "Status (hp_Result p) = HPSGET" and "length (UB_content (hp_Buffer p)) = 2"
    and "UB_content (hp_Buffer p) \<noteq> ''ET''"
  shows "\<exists>p'. parse_step visits p = (Inr (), p') \<and> Fault (hp_Result p') = HPFInvaildMethod \<and>
     Read_Spot (hp_Buffer p') = Write_Spot (hp_Buffer p') + 1 \<and>
     UB_Readable (hp_Buffer p') = 2 ^ 64 - 1"
proof -
  obtain c d where cs: "UB_content (hp_Buffer p) = [c, d]"
    using assms(4) by (metis (no_types) One_nat_def Suc_1 length_0_conv length_Suc_conv)
  let ?ub = "(hp_Buffer p)\<lparr>Read_Spot := Read_Spot (hp_Buffer p) + 2\<rparr>"
  have w: "Read_Spot (hp_Buffer p) + 2 = Write_Spot (hp_Buffer p)"
    using assms(4) length_UB_content [OF assms(1)] by simp
  have lt: "Write_Spot (hp_Buffer p) + 1 < two64" using assms(1) by (auto simp: UB_wf_def two64_def)
  have rd: "hp_Read 2 p = (Inr [c, d], p\<lparr>hp_Buffer := ?ub\<rparr>)"
    using hp_Read_cases [OF assms(1), of 2] cs by simp
  have "parse_state visits c p = Set_Fault HPFInvaildMethod (p\<lparr>hp_Buffer := ?ub\<rparr>)"
    using assms(3,5) cs rd by (auto simp: parse_state_def method_rest_def)
  then have "parse_step visits p =
      (Inr (), consume (upd_Result (\<lambda>r. r\<lparr>Status := HPSGAMEOVER, Fault := HPFInvaildMethod\<rparr>) (p\<lparr>hp_Buffer := ?ub\<rparr>)))"
    using parse_step_unfold [OF assms(1) cs, of visits] assms(2)
    by (simp add: Set_Fault_def parse_tail_consume upd_Result_def)
  then show ?thesis
    using w lt by (simp add: consume_def upd_Result_def size_add_small UB_Readable_def size_sub_def)
      (simp add: two64_def)
qed

theorem wrong_keyword_passes_end_witness:
  "\<exists>p p'. parse_step (\<lambda>_ _. True) p = (Inr (), p') \<and> UB_content (hp_Buffer p) = ''EX'' \<and>
     UB_Readable (hp_Buffer p') = 2 ^ 64 - 1"
proof -
  let ?p = "upd_Result (\<lambda>r. r\<lparr>Status := HPSGET\<rparr>) (parser_with ''EX'')"
  have "UB_wf (hp_Buffer ?p)" "\<not> EB_IsVaild (hp_Extra ?p)" "UB_content (hp_Buffer ?p) = ''EX''"
    by (simp_all add: upd_Result_def parser_with_def buffer_with_def UB_wf_def EB_IsVaild_def
        Extrabuf_new_def UB_content_def slice_def)
  then show ?thesis
    using wrong_keyword_passes_end [of ?p "\<lambda>_ _. True"]
    by - (rule exI [of _ ?p], auto simp: upd_Result_def)
qed

section \<open>The user buffer\<close>

text \<open>The user buffer is a queue of bytes: pieces written into an empty buffer, as long as
  they fit, are read back in one piece, in order and without loss.\<close>

theorem UserBuffer_pieces:
  assumes "UB_wf ub" and "UB_content ub = []" and "sum_list (map length bss) \<le> UB_room ub"
  shows "\<exists>ub'. bindc (mapc (\<lambda>bs ub. UB_Write_string ub bs) bss ub)
       (\<lambda>_ ub. UB_Read ub (int (sum_list (map length bss)))) = (Inr (concat bss), ub') \<and>
     UB_content ub' = []"
  by (rule ub_string.put_all_get [OF assms])

theorem UserBuffer_pieces_witness:
  "\<exists>ub'. bindc (mapc (\<lambda>bs ub. UB_Write_string ub bs) [''ab'', ''c''] (UserBuffer_new 4))
       (\<lambda>_ ub. UB_Read ub 3) = (Inr ''abc'', ub') \<and> UB_content ub' = []"
  using UserBuffer_pieces [of "UserBuffer_new 4" "[''ab'', ''c'']"] UB_wf_new [of 4] by simp

text \<open>A write either appends all its bytes or throws \<open>out_of_range\<close> and leaves the
  content as it was; it succeeds exactly when the bytes fit into \<open>UB_room\<close>, the space behind
  the write spot or, once the read spot has passed the middle, all the free space.\<close>

theorem UserBuffer_write_all_or_nothing:
  assumes "UB_wf ub"
  shows "fst (UB_Write_string ub bs) =
       (if length bs \<le> UB_room ub then Inr (int (length bs)) else Inl Out_of_range) \<and>
     UB_wf (snd (UB_Write_string ub bs)) \<and>
     UB_content (snd (UB_Write_string ub bs)) =
       UB_content ub @ (if length bs \<le> UB_room ub then bs else [])"
  using UB_Write_string_fits [OF assms, of bs] UB_Write_string_full [OF assms, of bs] by fastforce

theorem UserBuffer_write_all_or_nothing_witness:
  "fst (UB_Write_string (UserBuffer_new 2) ''abc'') = Inl Out_of_range"
  using UserBuffer_write_all_or_nothing [of "UserBuffer_new 2" "''abc''"] UB_wf_new [of 2] by simp

section \<open>Receiving\<close>

text \<open>\<open>Socket::Read\<close> appends what the socket delivers, in order and whatever pieces it
  comes in, to the content of the user buffer, and returns the number of bytes.\<close>

theorem Socket_Read_appends:
  assumes wf: "UB_wf ub" and eb: "\<not> EB_IsVaild eb" and fits: "length (concat cs) < UB_Writeable ub"
  shows "\<exists>ub'. Socket_Read uninit (map Received cs @ [Would_block]) (- 1) (ub, eb)
       = Some (Inr (int (length (concat cs))), ub', eb) \<and>
     UB_wf ub' \<and> UB_content ub' = UB_content ub @ concat cs"
proof -
  have "UB_Writeable ub < two64" using wf by (auto simp: UB_Writeable_wf UB_wf_def two64_def)
  then show ?thesis
    using Socket_Read_loop_user [OF wf eb, of cs "int (UB_Writeable ub)" uninit 0] fits
    by (simp add: Socket_Read_def length_concat)
qed

theorem Socket_Read_appends_witness:
  "\<exists>ub'. Socket_Read (\<lambda>_. CHR 0x00) [Received ''ab'', Received ''c'', Would_block] (- 1) (UserBuffer_new 4, Extrabuf_new)
       = Some (Inr 3, ub', Extrabuf_new) \<and> UB_content ub' = ''abc''"
  using Socket_Read_appends [of "UserBuffer_new 4" Extrabuf_new "[''ab'', ''c'']" "\<lambda>_. CHR 0x00"] UB_wf_new [of 4] by auto

text \<open>When a piece fills the user buffer exactly, what follows goes to the overflow buffer,
  which then holds those bytes in order; nothing is lost as long as they are fewer than the
  4048 bytes of a fresh overflow buffer.\<close>

theorem Socket_Read_spills:
  assumes wf: "UB_wf ub" and low: "Read_Spot ub < Buffer_Size ub div 2" and eb: "\<not> EB_IsVaild eb"
    and size: "eb_BufferSize eb = 4048"
    and full: "length c = UB_Writeable ub" and fits: "length (concat cs) < 4048"
  shows "\<exists>ub' eb'. Socket_Read uninit (Received c # map Received cs @ [Would_block]) (- 1) (ub, eb)
       = Some (Inr (int (length c + length (concat cs))), ub', eb') \<and>
     UB_content ub' = UB_content ub @ c \<and> EB_ready eb' (concat cs)"
proof -
  have w: "UB_Writeable ub < two64" using wf by (auto simp: UB_Writeable_wf UB_wf_def two64_def)
  obtain u where u: "recv_store (Into_user (UB_WritePtr ub)) c (ub, eb) = (Inr (), UB_poke ub c, eb)"
    "\<And>len. recv_account uninit (int (length c)) len (UB_poke ub c, eb)
       = (Inr (Some (Into_extra (EB_Get_ptr (EB_init eb)), EB_WriteAble (EB_init eb))), u, EB_init eb)"
    "UB_content u = UB_content ub @ c"
    using recv_step_fill [OF wf low eb full] by metis
  have room: "EB_WriteAble (EB_init eb) = 4048" using size by (simp add: EB_WriteAble_def EB_init_def)
  obtain eb' where "Socket_Read_loop uninit (map Received cs @ [Would_block])
      (Into_extra (EB_Get_ptr (EB_init eb))) 4048 (int (length c)) (u, EB_init eb)
        = Some (Inr (int (length c) + int (sum_list (map length cs))), (u, eb'))" "EB_ready eb' (concat cs)"
    using Socket_Read_loop_extra [OF EB_ready_init [OF size], of cs 4048 uninit "int (length c)" u] fits
    by (auto simp: length_concat two64_def)
  then show ?thesis
    using u full w room
    by (auto simp: Socket_Read_def size_of_int_of_nat length_concat)
qed

theorem Socket_Read_spills_witness:
  "\<exists>ub' eb'. Socket_Read (\<lambda>_. CHR 0x00) [Received ''abcd'', Received ''ef'', Would_block] (- 1)
         (UserBuffer_new 4, Extrabuf_new) = Some (Inr 6, ub', eb') \<and>
     UB_content ub' = ''abcd'' \<and> EB_ready eb' ''ef''"
  using Socket_Read_spills [of "UserBuffer_new 4" Extrabuf_new "''abcd''" "[''ef'']" "\<lambda>_. CHR 0x00"] UB_wf_new [of 4] by simp

text \<open>A peer that closes the connection makes \<open>recv\<close> return 0 from then on, and no
  number of such answers ends the loop of \<open>Socket::Read\<close>: only -1 does.\<close>

theorem Socket_Read_end_of_stream:
  assumes "UB_wf ub" and "\<not> EB_IsVaild eb" and "0 < UB_Writeable ub"
  shows "Socket_Read uninit (replicate n (Received [])) len (ub, eb) = None"
  using Socket_Read_loop_eof [OF assms] by (simp add: Socket_Read_def Let_def)

theorem Socket_Read_end_of_stream_witness:
  "Socket_Read (\<lambda>_. CHR 0x00) (replicate 1000 (Received [])) (- 1) (UserBuffer_new 4, Extrabuf_new) = None"
  by (rule Socket_Read_end_of_stream) (simp_all add: UB_wf_new)

text \<open>Growing a full overflow buffer loses what it holds: \<open>Reset\<close> copies
  \<open>WriteAble()\<close> bytes, which is none when the buffer is full, so the new block does not
  depend on the old one.\<close>

theorem Extrabuf_Reset_loses_data:
  assumes "extrabuf eb = Some blk" and "ExtrabufPeek eb = eb_BufferSize eb" and "0 \<le> eb_BufferSize eb"
  shows "\<exists>eb'. EB_Reset uninit eb = (Inr True, eb') \<and>
     extrabuf eb' = Some (map uninit [0..<2 * nat (eb_BufferSize eb)]) \<and>
     ExtrabufPeek eb' = ExtrabufPeek eb \<and> eb_BufferSize eb' = 2 * eb_BufferSize eb"
  using assms by (simp add: EB_Reset_def EB_WriteAble_def blit_def mult.commute)

theorem Extrabuf_Reset_loses_data_witness:
  "\<exists>eb'. EB_Reset (\<lambda>_. CHR ''?'') \<lparr>extrabuf = Some ''data'', ExtrabufPeek = 4, eb_BufferSize = 4\<rparr>
       = (Inr True, eb') \<and> extrabuf eb' = Some ''????????''"
  using Extrabuf_Reset_loses_data [of "\<lparr>extrabuf = Some ''data'', ExtrabufPeek = 4, eb_BufferSize = 4\<rparr>"
      "''data''" "\<lambda>_. CHR ''?''"]
  by (auto simp: map_replicate_const numeral_eq_Suc)

text \<open>When the parser has used up the user buffer and takes over the overflow buffer, it
  copies from behind the received bytes: the position is moved by their number before the
  pointer is taken, so with \<open>n\<close> bytes in the overflow buffer the parser is given the \<open>n\<close>
  bytes from offset \<open>2 * n\<close> on.\<close>

theorem refill_skips_received_bytes:
  assumes wf: "UB_wf (hp_Buffer p)" and blk: "extrabuf (hp_Extra p) = Some blk"
    and n: "ExtrabufPeek (hp_Extra p) = int n" "n \<le> Buffer_Size (hp_Buffer p)" "3 * n \<le> length blk"
  shows "\<exists>p'. refill p = (Inr (), p') \<and> UB_content (hp_Buffer p') = slice blk (2 * n) n"
proof -
  define ub where "ub = UB_Clean (hp_Buffer p)"
  have ub: "UB_wf ub" "UB_content ub = []" "UB_Writeable ub = Buffer_Size (hp_Buffer p)"
    "UB_Length ub = Buffer_Size (hp_Buffer p)"
    using wf by (simp_all add: ub_def) (simp_all add: UB_Writeable_def UB_Clean_def UB_Length_def)
  have lt: "n < two64" using n(2) UB_wfD(6) [OF wf] by simp
  let ?src = "drop (2 * n) blk"
  have len: "length (take n ?src) = n" using n(3) by simp
  obtain v where v: "UB_append ub (take n ?src) n = (Inr (), v)" "UB_wf v"
    "UB_content v = UB_content ub @ take n ?src"
    using UB_append_fits [OF ub(1), of "take n ?src"] ub(3) n(2) len by metis
  have "UB_append ub ?src n = UB_append ub (take n ?src) n"
    using n(3) by (auto simp: UB_append_def)
  then have "UB_Write ub ?src (int n) = (Inr (int n), v)"
    using v(1) ub(3) n(2) lt by (simp add: UB_Write_def size_of_int_of_nat)
  moreover have "nat (EB_Get_ptr (EB_Write (hp_Extra p) (int n))) = 2 * n"
    "extrabuf (EB_Write (hp_Extra p) (int n)) = Some blk"
    using n(1) blk by (simp_all add: EB_Get_ptr_def EB_Write_def)
  moreover have "EB_Get_length (hp_Extra p) = int n" "\<not> size_of_int (int n) > UB_Length ub"
    using n(1,2) lt ub(4) by (simp_all add: EB_Get_length_def size_of_int_of_nat)
  ultimately have "refill p = (Inr (), p\<lparr>hp_Buffer := v, hp_Extra := EB_Write (hp_Extra p) (int n)\<rparr>)"
    by (simp add: refill_def Let_def ub_def)
  then show ?thesis using v(3) ub(2) by (simp add: slice_def)
qed

theorem refill_skips_received_bytes_witness:
  "\<exists>p'. refill ((parser_with ''ab'')\<lparr>hp_Extra := \<lparr>extrabuf = Some ''XY...zz.'', ExtrabufPeek = 2, eb_BufferSize = 8\<rparr>\<rparr>)
       = (Inr (), p') \<and> UB_content (hp_Buffer p') = ''.z''"
  using refill_skips_received_bytes [of "(parser_with ''ab'')\<lparr>hp_Extra :=
      \<lparr>extrabuf = Some ''XY...zz.'', ExtrabufPeek = 2, eb_BufferSize = 8\<rparr>\<rparr>" "''XY...zz.''" 2]
  by (simp add: parser_with_def buffer_with_def UB_wf_def slice_def)

end
