(* ===== verification/Provider_Response.thy ===== *)
theory Provider_Response
  imports Provider Write_Loop_Order Http_Theorems
begin

text \<open>
  What the responses are: the text that each part appends to the output buffer, the tasks that are
  queued, and what a peer receives. A text sink is the interface between the parts of a response
  and the buffer they are written to.
\<close>

section \<open>A sink for text\<close>

text \<open>
  \<open>put\<close> appends a text that is shorter than the space and returns its length; everything else
  of the state, \<open>frame\<close>, stays as it is.
\<close>

locale text_sink =
  fixes ok :: "'s \<Rightarrow> bool"
    and content :: "'s \<Rightarrow> string"
    and space :: "'s \<Rightarrow> nat"
    and frame :: "'s \<Rightarrow> 'f"
    and put :: "string \<Rightarrow> 's \<Rightarrow> ('s, int) cpp"
  assumes put_text: "ok s \<Longrightarrow> length str < space s \<Longrightarrow>
      \<exists>s'. put str s = (Inr (int (length str)), s') \<and> ok s' \<and> content s' = content s @ str \<and>
           space s \<le> space s' + length str \<and> frame s' = frame s"
begin

text \<open>\<open>says ret str f\<close>: the operation appends \<open>str\<close> and returns \<open>ret\<close> plus its length.\<close>

definition says :: "'f \<Rightarrow> int \<Rightarrow> string \<Rightarrow> ('s \<Rightarrow> ('s, int) cpp) \<Rightarrow> bool" where
  "says fr ret str f \<longleftrightarrow>
     (\<forall>s. ok s \<longrightarrow> frame s = fr \<longrightarrow> length str < space s \<longrightarrow>
        (\<exists>s'. f s = (Inr (ret + int (length str)), s') \<and> ok s' \<and> content s' = content s @ str \<and>
              space s \<le> space s' + length str \<and> frame s' = frame s))"

lemma says_put: "says fr 0 str (put str)"
  unfolding says_def add_0_left using put_text by blast

lemma says_plus:
  assumes "says fr 0 str f"
  shows "says fr ret str (\<lambda>s. bindc (f s) (\<lambda>r s. (Inr (ret + r), s)))"
  unfolding says_def
proof (intro allI impI)
  fix s
  assume "ok s" "frame s = fr" "length str < space s"
  then obtain s' where "f s = (Inr (int (length str)), s')" "ok s'" "content s' = content s @ str"
    "space s \<le> space s' + length str" "frame s' = frame s"
    using assms by (auto simp: says_def)
  then show "\<exists>s'. bindc (f s) (\<lambda>r s. (Inr (ret + r), s)) = (Inr (ret + int (length str)), s') \<and> ok s' \<and>
      content s' = content s @ str \<and> space s \<le> space s' + length str \<and> frame s' = frame s"
    by simp
qed

lemma says_bind:
  assumes f: "says fr ret str f" and g: "says fr (ret + int (length str)) str' (g (ret + int (length str)))"
  shows "says fr ret (str @ str') (\<lambda>s. bindc (f s) g)"
  unfolding says_def
proof (intro allI impI)
  fix s
  assume s: "ok s" "frame s = fr" "length (str @ str') < space s"
  then obtain s1 where s1: "f s = (Inr (ret + int (length str)), s1)" "ok s1" "content s1 = content s @ str"
    "space s \<le> space s1 + length str" "frame s1 = frame s"
    using f unfolding says_def by fastforce
  have "frame s1 = fr" "length str' < space s1" using s s1 by simp_all
  then obtain s2 where "g (ret + int (length str)) s1 = (Inr (ret + int (length str) + int (length str')), s2)"
    "ok s2" "content s2 = content s1 @ str'" "space s1 \<le> space s2 + length str'" "frame s2 = frame s1"
    using g s1(2) unfolding says_def by fastforce
  then show "\<exists>s'. bindc (f s) g = (Inr (ret + int (length (str @ str'))), s') \<and> ok s' \<and>
      content s' = content s @ str @ str' \<and> space s \<le> space s' + length (str @ str') \<and> frame s' = frame s"
    using s1 by auto
qed

lemma says_cong: "says fr ret str g \<Longrightarrow> (\<And>s. frame s = fr \<Longrightarrow> f s = g s) \<Longrightarrow> says fr ret str f"
  by (simp add: says_def)

lemma saysD:
  assumes "says (frame s) ret str f" and "ok s" and "length str < space s"
  obtains s' where "f s = (Inr (ret + int (length str)), s')" "ok s'" "content s' = content s @ str"
    "space s \<le> space s' + length str" "frame s' = frame s"
  using assms unfolding says_def by blast

end

text \<open>The output buffer of a connection is such a sink.\<close>

definition p_ok :: "provider \<Rightarrow> bool" where
  "p_ok p \<longleftrightarrow> UB_wf (wl_Buffer (snd p))"

definition p_content :: "provider \<Rightarrow> string" where
  "p_content p = UB_content (wl_Buffer (snd p))"

definition p_space :: "provider \<Rightarrow> nat" where
  "p_space p = UB_Writeable (wl_Buffer (snd p))"

definition p_frame :: "provider \<Rightarrow> HttpRequest \<times> task list" where
  "p_frame p = (fst p, Que (snd p))"

lemma p_swrite_text:
  assumes "p_ok p" and "length str < p_space p"
  shows "\<exists>p'. p_swrite str p = (Inr (int (length str)), p') \<and> p_ok p' \<and> p_content p' = p_content p @ str \<and>
     p_space p \<le> p_space p' + length str \<and> p_frame p' = p_frame p"
proof -
  obtain ub' where "swrite str (snd p) = (Inr (int (length str)), (snd p)\<lparr>wl_Buffer := ub'\<rparr>)" "UB_wf ub'"
    "UB_content ub' = UB_content (wl_Buffer (snd p)) @ str"
    "UB_Writeable (wl_Buffer (snd p)) \<le> UB_Writeable ub' + length str"
    using swrite_fits [of "snd p" str] assms unfolding p_ok_def p_space_def by metis
  then show ?thesis by (simp add: p_swrite_def p_ok_def p_content_def p_space_def p_frame_def)
qed

interpretation out: text_sink p_ok p_content p_space p_frame p_swrite
  by unfold_locales (rule p_swrite_text)

section \<open>The head of a response\<close>

definition connection_text :: "HttpFlag \<Rightarrow> string" where
  "connection_text flag = ''Connection: '' @ (if flag = Keep_Alive then ''Keep-alive'' else ''Close'') @ newline"

definition response_head ::
  "HttpStatusCode \<Rightarrow> int \<Rightarrow> int \<Rightarrow> HttpFlag \<Rightarrow> string \<Rightarrow> int \<Rightarrow> string \<Rightarrow> string" where
  "response_head code ma mi flag date n type =
     (head_text ma mi (HttpStatusCode_value code) @ server_text) @
     date @ connection_text flag @ (''Content-Type: '' @ type) @
     ((newline @ ''Content-Length: '') @ dec_string n) @ ((newline @ ''Content-Language: '') @ ''en-US'')"

lemma plus_ret_says: "out.says fr 0 str f \<Longrightarrow> out.says fr ret str (plus_ret ret f)"
  using out.says_plus [of fr str f ret] by (simp add: plus_ret_def [abs_def])

lemma WriteConnection_says: "out.says (rq, q) 0 (connection_text (rq_Flag rq)) WriteConnection"
  using p_swrite_text [of _ "connection_text (rq_Flag rq)"]
  by (auto simp: out.says_def WriteConnection_def connection_text_def p_frame_def)

lemma WriteItem_says: "out.says fr 0 (key @ va) (WriteItem key va)"
  using out.says_put [of fr "key @ va"] by (simp add: WriteItem_def [abs_def])

lemma WriteDate_says: "out.says fr 0 date (WriteDate date)"
  using out.says_put [of fr date] by (simp add: WriteDate_def [abs_def])

lemma WriteCRLF_says: "out.says fr 0 ''/r/n'' WriteCRLF"
  using out.says_put [of fr "''/r/n''"] by (simp add: WriteCRLF_def [abs_def])

lemma WriteHead_says:
  "out.says fr 0 (head_text ma mi (HttpStatusCode_value code) @ server_text) (WriteHead ma mi code)"
  unfolding WriteHead_def [abs_def]
  by (rule out.says_bind, rule out.says_put, simp, rule plus_ret_says, rule out.says_put)

lemmas part_says = plus_ret_says WriteConnection_says WriteItem_says WriteDate_says WriteCRLF_says out.says_put

lemma RegularProvide_type_says:
  "out.says (rq, q) 0 (response_head (rq_StatusCode rq) (Version_Major rq) (Version_Minor rq) (rq_Flag rq) date n type) (RegularProvide_type date n type)"
proof (rule out.says_cong)
  let ?g = "\<lambda>p. bindc (WriteHead (Version_Major rq) (Version_Minor rq) (rq_StatusCode rq) p) (\<lambda>ret p.
     bindc (plus_ret ret (WriteDate date) p) (\<lambda>ret p.
     bindc (plus_ret ret WriteConnection p) (\<lambda>ret p.
     bindc (plus_ret ret (WriteItem ''Content-Type: '' type) p) (\<lambda>ret p.
     bindc (plus_ret ret (WriteItem (newline @ ''Content-Length: '') (dec_string n)) p) (\<lambda>ret p.
       plus_ret ret (WriteItem (newline @ ''Content-Language: '') ''en-US'') p)))))"
  show "RegularProvide_type date n type p = ?g p" if "p_frame p = (rq, q)" for p
    using that by (simp add: RegularProvide_type_def p_frame_def)
  show "out.says (rq, q) 0 (response_head (rq_StatusCode rq) (Version_Major rq) (Version_Minor rq) (rq_Flag rq) date n type) ?g"
    unfolding response_head_def
    by (rule out.says_bind, rule WriteHead_says)
      (rule out.says_bind, rule plus_ret_says, rule WriteDate_says, rule out.says_bind, rule plus_ret_says,
       rule WriteConnection_says, rule out.says_bind, rule plus_ret_says, rule WriteItem_says,
       rule out.says_bind, rule plus_ret_says, rule WriteItem_says, rule plus_ret_says, rule WriteItem_says)
qed

lemma RegularProvide_says:
  assumes "AutoAdapt mem rq = Inr type"
  shows "out.says (rq, q) 0 (response_head (rq_StatusCode rq) (Version_Major rq) (Version_Minor rq) (rq_Flag rq) date n type) (RegularProvide mem date n)"
  by (rule out.says_cong [OF RegularProvide_type_says [where type = type and n = n and date = date]])
    (use assms in \<open>simp add: RegularProvide_def p_frame_def\<close>)

lemma head_crlf_says:
  assumes "AutoAdapt mem rq = Inr type"
  shows "out.says (rq, q) 0 (response_head (rq_StatusCode rq) (Version_Major rq) (Version_Minor rq) (rq_Flag rq) date n type @ ''/r/n'')
     (\<lambda>p. bindc (RegularProvide mem date n p) (\<lambda>ret. plus_ret ret WriteCRLF))"
  by (rule out.says_bind, rule RegularProvide_says [OF assms], rule plus_ret_says, rule WriteCRLF_says)

lemma head_crlf_code:
  assumes "AutoAdapt mem rq = Inr type" and "rq_StatusCode rq = code" and "Version_Major rq = ma"
    and "Version_Minor rq = mi" and "rq_Flag rq = flag"
  shows "out.says (rq, q) 0 (response_head code ma mi flag date n type @ ''/r/n'')
     (\<lambda>p. bindc (RegularProvide mem date n p) (\<lambda>ret. plus_ret ret WriteCRLF))"
  using head_crlf_says [OF assms(1)] assms(2-) by simp

lemma AutoAdapt_StatusCode [simp]: "AutoAdapt mem (rq\<lparr>rq_StatusCode := c\<rparr>) = AutoAdapt mem rq"
  by (simp add: AutoAdapt_def cong: sum.case_cong)

section \<open>The content type of a target\<close>

text \<open>From the last dot on, and the type: that of the suffix up to the first byte that ends a name.\<close>

definition dot_suffix :: "string \<Rightarrow> string" where
  "dot_suffix s = CHR ''.'' # rev (takeWhile (\<lambda>c. c \<noteq> CHR ''.'') (rev s))"

definition uri_type :: "string \<Rightarrow> cpp_error + string" where
  "uri_type uri =
     (if CHR ''.'' \<in> set (tl uri) then MIME (takeWhile IsFilename (dot_suffix (tl uri)))
      else Inr defaultMIME)"

lemma dot_suffix_append: "CHR ''.'' \<notin> set ys \<Longrightarrow> dot_suffix (xs @ CHR ''.'' # ys) = CHR ''.'' # ys"
  by (simp add: dot_suffix_def takeWhile_append [where xs = "rev ys"])

lemma slice_Cons: "i < length xs \<Longrightarrow> slice xs i (Suc n) = xs ! i # slice xs (Suc i) n"
  by (simp add: slice_def Cons_nth_drop_Suc [symmetric])

lemma adapt_scan_spec:
  assumes "k < N" and "N \<le> length bs" and "Suc k \<le> End" and "End \<le> N"
    and "takeWhile IsFilename (slice bs (Suc k) (N - Suc k)) = slice bs (Suc k) (End - Suc k)"
    and "CHR ''.'' \<notin> set (slice bs (Suc k) (N - Suc k))"
  shows "case adapt_scan bs k End of (S, E) \<Rightarrow>
     if CHR ''.'' \<in> set (slice bs 1 k)
     then S \<noteq> 0 \<and> slice bs S (E - S) = takeWhile IsFilename (dot_suffix (slice bs 1 (N - 1)))
     else S = 0"
  using assms
proof (induction bs k End rule: adapt_scan.induct)
  case (2 bs n End)
  have rest: "slice bs (Suc n) (N - Suc n) = bs ! Suc n # slice bs (Suc (Suc n)) (N - Suc (Suc n))"
    using "2.prems" slice_Cons [of "Suc n" bs "N - Suc (Suc n)"] by (simp add: Suc_diff_Suc)
  have upto: "slice bs 1 (Suc n) = slice bs 1 n @ [bs ! Suc n]"
    using slice_Suc_right [of 1 n bs] "2.prems" by simp
  show ?case
  proof (cases "bs ! Suc n = CHR ''.''")
    case True
    have "slice bs 1 (N - 1) = slice bs 1 n @ slice bs (Suc n) (N - Suc n)"
      using slice_append_adjacent [of bs 1 n "N - Suc n"] "2.prems" by simp
    then have "dot_suffix (slice bs 1 (N - 1)) = CHR ''.'' # slice bs (Suc (Suc n)) (N - Suc (Suc n))"
      using rest True "2.prems"(6) by (simp add: dot_suffix_append)
    moreover have "slice bs (Suc n) (End - Suc n) = bs ! Suc n # slice bs (Suc (Suc n)) (End - Suc (Suc n))"
      using "2.prems" slice_Cons [of "Suc n" bs "End - Suc (Suc n)"] by (simp add: Suc_diff_Suc)
    moreover have "IsFilename (CHR ''.'')" by (simp add: IsFilename_def)
    ultimately show ?thesis using True upto "2.prems"(5) by simp
  next
    case False
    let ?E = "if \<not> IsFilename (bs ! Suc n) then Suc n else End"
    have "slice bs (Suc n) (End - Suc n) = bs ! Suc n # slice bs (Suc (Suc n)) (End - Suc (Suc n))"
      using "2.prems" slice_Cons [of "Suc n" bs "End - Suc (Suc n)"] by (simp add: Suc_diff_Suc)
    then have "takeWhile IsFilename (slice bs (Suc n) (N - Suc n)) = slice bs (Suc n) (?E - Suc n)"
      using rest "2.prems"(5) by simp
    then show ?thesis
      using "2.IH" [OF False] "2.prems" False rest upto by (auto split: prod.splits if_splits)
  qed
qed simp

lemma AutoAdapt_type:
  assumes ok: "view_ok mem (rq_Uri rq)" and uri: "view_bytes mem (rq_Uri rq) = uri" "uri \<noteq> []"
    and foll: "followed mem c (rq_Uri rq)" "c \<noteq> CHR ''.''"
  shows "AutoAdapt mem rq = uri_type uri"
proof -
  let ?n = "ph_length (rq_Uri rq)"
  obtain rest where bs: "view_base mem (ph_Header (rq_Uri rq)) = uri @ c # rest"
    using foll uri by (auto simp: followed_def)
  have n: "?n = length uri" using length_view_bytes [OF ok] uri by simp
  obtain m where m: "?n = Suc m" using uri(2) n by (cases uri) auto
  let ?bs = "uri @ c # rest"
  have at: "?bs ! Suc m = c" using m n by (metis nth_append_length)
  have first: "adapt_scan ?bs ?n ?n = adapt_scan ?bs m ?n"
    using at foll(2) by (simp add: m)
  have tl: "slice ?bs 1 (?n - 1) = tl uri" "slice ?bs 1 m = tl uri"
    using n m uri(2) by (cases uri; simp add: slice_def)+
  obtain S E where SE: "adapt_scan ?bs m ?n = (S, E)" by force
  have "if CHR ''.'' \<in> set (tl uri)
      then S \<noteq> 0 \<and> slice ?bs S (E - S) = takeWhile IsFilename (dot_suffix (tl uri)) else S = 0"
    using adapt_scan_spec [of m ?n ?bs ?n] n m unfolding SE tl by simp
  then show ?thesis
    using SE first n ok
    by (auto simp: AutoAdapt_def uri_type_def bytes_at_ok view_ok_def bs split: if_splits)
qed

section \<open>Whole responses\<close>

text \<open>An output side with nothing to send.\<close>

definition wl_idle :: "WriteLoop \<Rightarrow> bool" where
  "wl_idle w \<longleftrightarrow> UB_wf (wl_Buffer w) \<and> UB_content (wl_Buffer w) = [] \<and> Que w = []"

definition error_response :: "int \<Rightarrow> int \<Rightarrow> HttpFlag \<Rightarrow> string \<Rightarrow> string \<Rightarrow> string" where
  "error_response ma mi flag date type =
     response_head HSCBadRequest ma mi flag date (int (length error_page) - 1) type @
     ''/r/n'' @ error_page"

definition file_response :: "int \<Rightarrow> int \<Rightarrow> HttpFlag \<Rightarrow> string \<Rightarrow> string \<Rightarrow> char list \<Rightarrow> string" where
  "file_response ma mi flag date type bs =
     response_head HSCOK ma mi flag date (int (length bs)) type @ ''/r/n'' @ bs @ ''/r/n''"

lemma ProvideError_runs:
  assumes type: "AutoAdapt mem rq = Inr type" and idle: "wl_idle w"
    and fits: "length (error_response (Version_Major rq) (Version_Minor rq) (rq_Flag rq) date type) < UB_Writeable (wl_Buffer w)"
  shows "\<exists>ret w'. ProvideError mem date (rq, w) = (Inr ret, rq\<lparr>rq_StatusCode := HSCBadRequest\<rparr>, w') \<and>
     ret = int (length (error_response (Version_Major rq) (Version_Minor rq) (rq_Flag rq) date type)) \<and> wl_ok w' \<and>
     Que w' = [Task_Send ret] \<and> wl_pending w' = error_response (Version_Major rq) (Version_Minor rq) (rq_Flag rq) date type"
proof -
  let ?rq = "rq\<lparr>rq_StatusCode := HSCBadRequest\<rparr>" and ?n = "int (length error_page) - 1"
  let ?f = "\<lambda>p. bindc (bindc (RegularProvide mem date ?n p) (\<lambda>ret. plus_ret ret WriteCRLF))
      (\<lambda>ret. plus_ret ret (p_swrite error_page))"
  have type': "AutoAdapt mem ?rq = Inr type" using type by simp
  have fr: "p_frame (?rq, w) = (?rq, Que w)" by (simp add: p_frame_def)
  have says: "out.says (p_frame (?rq, w)) 0 ((response_head HSCBadRequest (Version_Major rq) (Version_Minor rq) (rq_Flag rq) date ?n type @ ''/r/n'') @ error_page) ?f"
    unfolding fr by (rule out.says_bind, rule head_crlf_code [OF type'], simp, simp, simp, simp, rule plus_ret_says, rule out.says_put)
  have whole: "(response_head HSCBadRequest (Version_Major rq) (Version_Minor rq) (rq_Flag rq) date ?n type @ ''/r/n'') @ error_page = error_response (Version_Major rq) (Version_Minor rq) (rq_Flag rq) date type"
    by (simp add: error_response_def)
  note says = says [unfolded whole]
  have ok: "p_ok (?rq, w)" "length (error_response (Version_Major rq) (Version_Minor rq) (rq_Flag rq) date type) < p_space (?rq, w)"
    using idle fits by (simp_all add: p_ok_def p_space_def wl_idle_def)
  obtain p' where p': "?f (?rq, w) = (Inr (0 + int (length (error_response (Version_Major rq) (Version_Minor rq) (rq_Flag rq) date type))), p')" "p_ok p'"
    "p_content p' = p_content (?rq, w) @ error_response (Version_Major rq) (Version_Minor rq) (rq_Flag rq) date type" "p_frame p' = p_frame (?rq, w)"
    by (rule out.saysD [OF says ok])
  obtain w' where w': "p' = (?rq, w')" "Que w' = []" using p'(4) idle by (cases p') (simp add: p_frame_def wl_idle_def)
  have run: "ProvideError mem date (rq, w) = bindc (?f (?rq, w)) (\<lambda>ret p. (Inr ret, p_AddSend ret p))"
    by (simp add: ProvideError_def Let_def Set_StatusCode_def bindc_assoc)
  show ?thesis
    using p'(2,3) idle unfolding run p'(1) w'(1)
    by (simp add: p_AddSend_def AddSend_def w'(2) wl_ok_def wl_pending_def p_ok_def p_content_def wl_idle_def
        error_response_def)
qed

lemma provide_file_runs:
  assumes type: "AutoAdapt mem rq = Inr type" and code: "rq_StatusCode rq = HSCOK" and idle: "wl_idle w"
    and fits: "length (response_head HSCOK (Version_Major rq) (Version_Minor rq) (rq_Flag rq) date (int (length bs)) type) + 8 < UB_Writeable (wl_Buffer w)"
  shows "\<exists>n w'. provide_file mem date (FileReader_open bs) (rq, w) = (Inr (), rq, w') \<and> wl_ok w' \<and>
     Que w' = [Task_Send n, Task_SendFile (FileReader_open bs), Task_Send 4] \<and>
     wl_pending w' = file_response (Version_Major rq) (Version_Minor rq) (rq_Flag rq) date type bs"
proof -
  let ?head = "response_head HSCOK (Version_Major rq) (Version_Minor rq) (rq_Flag rq) date (int (length bs)) type"
  let ?f = "\<lambda>p. bindc (RegularProvide mem date (int (length bs)) p) (\<lambda>ret. plus_ret ret WriteCRLF)"
  have says: "out.says (p_frame (rq, w)) 0 (?head @ ''/r/n'') ?f"
    using head_crlf_says [OF type, of "Que w"] by (simp add: p_frame_def [of "(rq, w)"] code)
  have ok: "p_ok (rq, w)" "length (?head @ ''/r/n'') < p_space (rq, w)"
    using idle fits by (simp_all add: p_ok_def p_space_def wl_idle_def)
  obtain p1 where p1: "?f (rq, w) = (Inr (0 + int (length (?head @ ''/r/n''))), p1)" "p_ok p1"
    "p_content p1 = p_content (rq, w) @ ?head @ ''/r/n''" "p_frame p1 = p_frame (rq, w)"
    "p_space (rq, w) \<le> p_space p1 + length (?head @ ''/r/n'')"
    by (rule out.saysD [OF says ok])
  obtain w1 where w1: "p1 = (rq, w1)" "Que w1 = []" using p1(4) idle by (cases p1) (simp add: p_frame_def wl_idle_def)
  let ?n = "int (length (?head @ ''/r/n''))"
  let ?p2 = "p_AddSendFile (FileReader_open bs) (p_AddSend ?n p1)"
  have p2: "p_ok ?p2" "length ''/r/n'' < p_space ?p2" "p_content ?p2 = p_content p1"
    "p_frame ?p2 = (rq, [Task_Send ?n, Task_SendFile (FileReader_open bs)])"
    using p1 fits w1 by (simp_all add: p_AddSend_def AddSend_def p_AddSendFile_def AddSendFile_def p_ok_def
        p_space_def p_content_def p_frame_def)
  obtain p3 where p3: "WriteCRLF ?p2 = (Inr (0 + int (length ''/r/n'')), p3)" "p_ok p3"
    "p_content p3 = p_content ?p2 @ ''/r/n''" "p_frame p3 = p_frame ?p2"
    by (rule out.saysD [OF WriteCRLF_says p2(1,2)])
  obtain w3 where w3: "p3 = (rq, w3)" "Que w3 = [Task_Send ?n, Task_SendFile (FileReader_open bs)]"
    using p3(4) p2(4) by (cases p3) (simp add: p_frame_def)
  have run: "provide_file mem date (FileReader_open bs) (rq, w) =
      bindc (?f (rq, w)) (\<lambda>ret p. bindc (WriteCRLF (p_AddSendFile (FileReader_open bs) (p_AddSend ret p)))
        (\<lambda>ret p. (Inr (), p_AddSend ret p)))"
    by (simp add: provide_file_def FileReader_open_def bindc_assoc Let_def)
  have content: "UB_content (wl_Buffer w3) = (?head @ ''/r/n'') @ ''/r/n''" "UB_wf (wl_Buffer w3)"
    using p3(2,3) p2(3) p1(3) idle w3(1) w1(1) by (simp_all add: p_content_def p_ok_def wl_idle_def)
  have four: "nat (4 + int k) = 4 + k" for k by arith
  show ?thesis
    unfolding run p1(1) bindc_simps add_0_left p3(1) w3(1)
    by (simp add: four p_AddSend_def AddSend_def w3(2) wl_ok_def wl_pending_def content file_response_def)
qed

section \<open>Which file is served\<close>

lemma view_copy_view: "view_ok mem ph \<Longrightarrow> view_copy mem ph (ph_length ph) = Inr (view_bytes mem ph)"
  by (auto simp: view_copy_def view_ok_def bytes_at_ok view_bytes_def)

lemma view_copy_followed:
  assumes "view_ok mem ph" and "followed mem c ph"
  shows "view_copy mem ph (ph_length ph + 1) = Inr (view_bytes mem ph @ [c])"
proof -
  obtain rest where "view_base mem (ph_Header ph) = view_bytes mem ph @ c # rest"
    using assms(2) by (auto simp: followed_def)
  then show ?thesis
    using assms(1) length_view_bytes [OF assms(1)] by (simp add: view_copy_def view_ok_def bytes_at_ok)
qed

text \<open>The bytes that are sent for a host and a target, if there are any.\<close>

definition served_file :: "os \<Rightarrow> string \<Rightarrow> string \<Rightarrow> char list option" where
  "served_file s host uri =
     (case open_target s host uri of
        None \<Rightarrow> None
      | Some f \<Rightarrow> if IsTextFile f then None else Some (st_bytes f))"

text \<open>A request whose host and target can be read.\<close>

definition request_names ::
  "char list \<Rightarrow> ((ParsedHeader \<times> ParsedHeader) list \<Rightarrow> (ParsedHeader \<times> ParsedHeader) list)
     \<Rightarrow> HttpRequest \<Rightarrow> string \<Rightarrow> string \<Rightarrow> bool" where
  "request_names mem order rq host uri \<longleftrightarrow>
     Request_good rq \<and> view_ok mem (rq_Uri rq) \<and> view_bytes mem (rq_Uri rq) = uri \<and> uri \<noteq> [] \<and>
     followed mem (CHR '' '') (rq_Uri rq) \<and>
     (\<exists>x c. Get_Value mem order rq (ParsedHeader_literal ''Host'') = Inr x \<and> view_ok mem x \<and>
        view_bytes mem x = host \<and> followed mem c x)"

lemma request_names_type: "request_names mem order rq host uri \<Longrightarrow> AutoAdapt mem rq = uri_type uri"
  by (rule AutoAdapt_type [where c = "CHR '' ''"]) (simp_all add: request_names_def)

lemma FileProvider_served:
  assumes names: "request_names mem order rq host uri" and room: "length uri < usable s 1"
  shows "FileProvider s mem order (rq, w) =
     (case served_file s host uri of
        None \<Rightarrow> (Inr None, rq\<lparr>rq_StatusCode := HSCForbidden\<rparr>, w)
      | Some bs \<Rightarrow> (Inr (Some (FileReader_open bs)), rq\<lparr>rq_StatusCode := HSCOK\<rparr>, w))"
proof -
  obtain x c where x: "Get_Value mem order rq (ParsedHeader_literal ''Host'') = Inr x" "view_ok mem x"
    "view_bytes mem x = host" "followed mem c x"
    and rq: "Request_good rq" "view_ok mem (rq_Uri rq)" "view_bytes mem (rq_Uri rq) = uri"
    using names by (auto simp: request_names_def)
  have len: "ph_length (rq_Uri rq) = length uri" "ph_length x = length host"
    using length_view_bytes [OF rq(2)] length_view_bytes [OF x(2)] rq(3) x(3) by simp_all
  show ?thesis
    using rq view_copy_view [OF rq(2)] view_copy_followed [OF x(2,4)] x room
    by (auto simp: FileProvider_def len served_file_def Set_StatusCode_def split: option.split)
qed

lemma FileProvider_overflow:
  assumes names: "request_names mem order rq host uri" and room: "usable s 1 \<le> length uri"
  shows "FileProvider s mem order (rq, w) = (Inl Bad_access, rq, w)"
proof -
  obtain x c where x: "Get_Value mem order rq (ParsedHeader_literal ''Host'') = Inr x" "view_ok mem x"
    "view_bytes mem x = host" "followed mem c x"
    and rq: "Request_good rq" "view_ok mem (rq_Uri rq)" "view_bytes mem (rq_Uri rq) = uri"
    using names by (auto simp: request_names_def)
  have len: "ph_length (rq_Uri rq) = length uri" "ph_length x = length host"
    using length_view_bytes [OF rq(2)] length_view_bytes [OF x(2)] rq(3) x(3) by simp_all
  show ?thesis
    using rq view_copy_view [OF rq(2)] view_copy_followed [OF x(2,4)] x room
    by (simp add: FileProvider_def len)
qed

text \<open>The answer to a request that is not a \<open>POST\<close>.\<close>

lemma request_names_StatusCode [simp]:
  "request_names mem order (rq\<lparr>rq_StatusCode := c\<rparr>) host uri = request_names mem order rq host uri"
  by (simp add: request_names_def Get_Value_def Request_good_def)

lemma provide_served:
  assumes names: "request_names mem order rq host uri" and room: "length uri < usable s 1"
    and get: "rq_Method rq \<noteq> HRPost" and srv: "served_file s host uri = Some bs"
    and type: "uri_type uri = Inr type" and idle: "wl_idle w"
    and fits: "length (response_head HSCOK (Version_Major rq) (Version_Minor rq) (rq_Flag rq) date (int (length bs)) type) + 8
                 < UB_Writeable (wl_Buffer w)"
  shows "\<exists>n w'. provide s mem order date (rq, w) = (Inr (), rq\<lparr>rq_StatusCode := HSCOK\<rparr>, w') \<and> wl_ok w' \<and>
     Que w' = [Task_Send n, Task_SendFile (FileReader_open bs), Task_Send 4] \<and>
     wl_pending w' = file_response (Version_Major rq) (Version_Minor rq) (rq_Flag rq) date type bs"
proof -
  have "AutoAdapt mem (rq\<lparr>rq_StatusCode := HSCOK\<rparr>) = Inr type"
    using request_names_type [OF names] type by simp
  from provide_file_runs [OF this _ idle, of date bs] fits show ?thesis
    using FileProvider_served [OF names room] srv get by (auto simp: provide_def)
qed

lemma provide_refused:
  assumes names: "request_names mem order rq host uri" and room: "length uri < usable s 1"
    and get: "rq_Method rq \<noteq> HRPost" and srv: "served_file s host uri = None"
    and type: "uri_type uri = Inr type" and idle: "wl_idle w"
    and fits: "length (error_response (Version_Major rq) (Version_Minor rq) (rq_Flag rq) date type) < UB_Writeable (wl_Buffer w)"
  shows "\<exists>n w'. provide s mem order date (rq, w) = (Inr (), rq\<lparr>rq_StatusCode := HSCBadRequest\<rparr>, w') \<and>
     wl_ok w' \<and> Que w' = [Task_Send n] \<and> wl_pending w' = error_response (Version_Major rq) (Version_Minor rq) (rq_Flag rq) date type"
proof -
  let ?rq = "rq\<lparr>rq_StatusCode := HSCForbidden\<rparr>"
  have "AutoAdapt mem ?rq = Inr type" using request_names_type [OF names] type by simp
  moreover have "error_response (Version_Major ?rq) (Version_Minor ?rq) (rq_Flag ?rq) date type = error_response (Version_Major rq) (Version_Minor rq) (rq_Flag rq) date type"
    by (simp add: error_response_def)
  ultimately show ?thesis
    using ProvideError_runs [of mem ?rq type w date] idle fits FileProvider_served [OF names room] srv get
    by (auto simp: provide_def)
qed
end
