(* ===== verification/Member.thy ===== *)
theory Member
  imports Provider_Response
begin

text \<open>
  \<open>src/src/server/member.h\<close> and \<open>member.cc\<close>: a connection, which ties the receive loop,
  the parser, the provider and the output side together. The parser's record holds the user buffer,
  the request and the socket's overflow buffer. What the environment decides is a record: fresh
  memory, the hash table's searches and its iteration order, the operating system, the date line.
\<close>

section \<open>The connection\<close>

record platform =
  pf_uninit :: "nat \<Rightarrow> char"
  pf_visits :: "ParsedHeader \<Rightarrow> ParsedHeader \<Rightarrow> bool"
  pf_order :: "(ParsedHeader \<times> ParsedHeader) list \<Rightarrow> (ParsedHeader \<times> ParsedHeader) list"
  pf_os :: os
  pf_date :: string

record Member =
  mb_Parser :: HttpParser
  mb_Write_Loop :: WriteLoop
  WriteComplete :: bool
  Have_Close :: bool

text \<open>
  The constructor with a descriptor: \<open>Init\<close> makes the objects. The scalars of the request and
  \<open>interval\<close> are not assigned.
\<close>

definition Member_Init :: "HttpRequest \<Rightarrow> 32 word \<Rightarrow> Member" where
  "Member_Init junk_rq junk_interval =
     \<lparr>mb_Parser = \<lparr>hp_Buffer = UserBuffer_new 4048, hp_Result = HttpParser_Content_new,
        hp_Request = HttpRequest_new junk_rq, hp_Extra = Extrabuf_new\<rparr>,
      mb_Write_Loop = WriteLoop_new junk_interval 4048, WriteComplete = False, Have_Close = True\<rparr>"

text \<open>
  The constructor with a socket runs \<open>Init\<close> before it takes the socket over, when
  \<open>Socket_Ptr\<close> is still null.
\<close>

definition Member_of_socket :: "cpp_error + Member" where
  "Member_of_socket = Inl Null_deref"

text \<open>\<open>Socket::clear\<close> and \<open>Socket::Close\<close>; \<open>rv\<close> is what \<open>::close\<close> returns.\<close>

definition Socket_clear :: "Member \<Rightarrow> Member" where
  "Socket_clear m = m\<lparr>mb_Parser := (mb_Parser m)\<lparr>hp_Extra := EB_clear (hp_Extra (mb_Parser m))\<rparr>, Have_Close := True\<rparr>"

definition InitiativeClose :: "int \<Rightarrow> Member \<Rightarrow> int \<times> Member" where
  "InitiativeClose rv m = (rv, if rv \<noteq> - 1 then m\<lparr>Have_Close := False\<rparr> else m)"

section \<open>Handlers\<close>

text \<open>The answers of \<open>recv\<close> are \<open>ks\<close>. \<open>None\<close> is a call that does not return.\<close>

definition receive :: "platform \<Rightarrow> recv_result list \<Rightarrow> HttpParser \<Rightarrow> ((HttpParser, int) cpp) option" where
  "receive pf ks p =
     (case Socket_Read (pf_uninit pf) ks (- 1) (hp_Buffer p, hp_Extra p) of
        None \<Rightarrow> None
      | Some (r, ub, eb) \<Rightarrow> Some (r, p\<lparr>hp_Buffer := ub, hp_Extra := eb\<rparr>))"

definition Content_Provide :: "platform \<Rightarrow> Kernel \<times> Member \<Rightarrow> (Kernel \<times> Member, unit) cpp" where
  "Content_Provide pf s =
     (case s of (k, m) \<Rightarrow>
        (let p = mb_Parser m in
         case provide (pf_os pf) (Buffer (hp_Buffer p)) (pf_order pf) (pf_date pf)
                (hp_Request p, mb_Write_Loop m) of
           (r, rq, w) \<Rightarrow> (r, k, m\<lparr>mb_Parser := p\<lparr>hp_Request := rq\<rparr>, mb_Write_Loop := w\<rparr>)))"

definition Write_all :: "Kernel \<times> Member \<Rightarrow> (Kernel \<times> Member, COMPLETETYPE) cpp" where
  "Write_all s =
     (case s of (k, m) \<Rightarrow>
        (case DoAll (k, mb_Write_Loop m) of (r, k, w) \<Rightarrow> (r, k, m\<lparr>mb_Write_Loop := w\<rparr>)))"

definition DoRead :: "platform \<Rightarrow> recv_result list \<Rightarrow> Kernel \<times> Member \<Rightarrow> ((Kernel \<times> Member, unit) cpp) option" where
  "DoRead pf ks s =
     (case s of (k, m) \<Rightarrow>
        (case receive pf ks (mb_Parser m) of
           None \<Rightarrow> None
         | Some (Inl e, p) \<Rightarrow> Some (Inl e, k, m\<lparr>mb_Parser := p\<rparr>)
         | Some (Inr _, p) \<Rightarrow>
             (let p = (if Finished p then Again_Parser p else p) in
              case Starting_Parser (pf_visits pf) p of
                None \<Rightarrow> None
              | Some (Inl e, p) \<Rightarrow> Some (Inl e, k, m\<lparr>mb_Parser := p\<rparr>)
              | Some (Inr _, p) \<Rightarrow>
                  (let s = (k, m\<lparr>mb_Parser := p\<rparr>) in
                   Some (bindc (if Finished p then Content_Provide pf s else (Inr (), s)) (\<lambda>_ s.
                         bindc (Write_all s) (\<lambda>c (k, m).
                           (Inr (), k, if c \<noteq> IMCOMPLETE then m\<lparr>WriteComplete := True\<rparr> else m))))))))"

definition DoWrite :: "Kernel \<times> Member \<Rightarrow> (Kernel \<times> Member, unit) cpp" where
  "DoWrite s = bindc (Write_all s) (\<lambda>c (k, m). (Inr (), k, m\<lparr>WriteComplete := c \<noteq> IMCOMPLETE\<rparr>))"

text \<open>\<open>clear\<close>, for a descriptor that is used again. The output side is not reached after an error.\<close>

definition Member_clear :: "Member \<Rightarrow> (Member, unit) cpp" where
  "Member_clear m =
     (let m = m\<lparr>WriteComplete := False\<rparr>;
          p = mb_Parser m;
          m = Socket_clear (m\<lparr>mb_Parser := p\<lparr>hp_Buffer := UB_Clean (hp_Buffer p)\<rparr>\<rparr>);
          p = mb_Parser m in
      case HttpRequest_clear (hp_Buffer p) (hp_Request p) of
        (Inl e, ub, rq) \<Rightarrow> (Inl e, m\<lparr>mb_Parser := p\<lparr>hp_Buffer := ub, hp_Request := rq\<rparr>\<rparr>)
      | (Inr _, ub, rq) \<Rightarrow>
          (case HttpParser_clear (p\<lparr>hp_Buffer := ub, hp_Request := rq\<rparr>) of
             (Inl e, p) \<Rightarrow> (Inl e, m\<lparr>mb_Parser := p\<rparr>)
           | (Inr _, p) \<Rightarrow> (Inr (), m\<lparr>mb_Parser := p, mb_Write_Loop := WriteLoop_clear (mb_Write_Loop m)\<rparr>)))"

definition CloseAble :: "Member \<Rightarrow> bool" where
  "CloseAble m \<longleftrightarrow>
     (let p = mb_Parser m; rq = hp_Request p in
      Finished p \<and> ((Version_Major rq = 1 \<and> Version_Minor rq = 0) \<or> rq_Flag rq \<noteq> Keep_Alive))"

section \<open>A connection that waits for a request\<close>

definition member_ready :: "Member \<Rightarrow> bool" where
  "member_ready m \<longleftrightarrow> parser_at (mb_Parser m) [] \<and> wl_idle (mb_Write_Loop m)"

lemma member_ready_Init: "member_ready (Member_Init junk i)"
  using UB_wf_new [of 4048]
  by (simp add: member_ready_def Member_Init_def parser_at_def wl_idle_def WriteLoop_new_def
      HttpRequest_new_def HttpParser_Content_new_def HttpParser_Content_init_def UserBuffer_new_def UB_content_def blank_record_def)

lemma member_ready_clear:
  assumes block: "UB_block (hp_Buffer (mb_Parser m))" "UB_block (wl_Buffer (mb_Write_Loop m))"
    and set: "Request_Buffer_set (hp_Request (mb_Parser m))"
  shows "\<exists>m'. Member_clear m = (Inr (), m') \<and> member_ready m' \<and> \<not> WriteComplete m' \<and>
     Set_Ka (hp_Result (mb_Parser m')) = Set_Ka (hp_Result (mb_Parser m)) \<and>
     Buffer_Size (hp_Buffer (mb_Parser m')) = Buffer_Size (hp_Buffer (mb_Parser m)) \<and>
     UB_Writeable (hp_Buffer (mb_Parser m')) = Buffer_Size (hp_Buffer (mb_Parser m)) \<and>
     UB_Writeable (wl_Buffer (mb_Write_Loop m')) = Buffer_Size (wl_Buffer (mb_Write_Loop m))"
  using set UB_block_Clean [OF block(1)] UB_block_Clean [OF block(2)]
  by (auto simp: Member_clear_def Socket_clear_def HttpRequest_clear_def HttpParser_clear_def Let_def
      member_ready_def parser_at_def wl_idle_def WriteLoop_clear_def EB_IsVaild_def EB_clear_def
      HttpParser_Content_init_def blank_record_def UB_Writeable_def) (simp_all add: UB_Clean_def)


section \<open>Receiving and parsing a request\<close>

lemma receive_pieces:
  assumes wf: "UB_wf (hp_Buffer p)" and eb: "\<not> EB_IsVaild (hp_Extra p)"
    and fits: "length (concat cs) < UB_Writeable (hp_Buffer p)"
  shows "\<exists>ub. receive pf (map Received cs @ [Would_block]) p =
       Some (Inr (int (length (concat cs))), p\<lparr>hp_Buffer := ub\<rparr>) \<and>
     UB_wf ub \<and> UB_content ub = UB_content (hp_Buffer p) @ concat cs"
proof -
  have "UB_Writeable (hp_Buffer p) < two64" using wf by (auto simp: UB_Writeable_wf UB_wf_def two64_def)
  then show ?thesis
    using Socket_Read_loop_user [OF wf eb, of cs "int (UB_Writeable (hp_Buffer p))" "pf_uninit pf" 0] fits
    by (auto simp: receive_def Socket_Read_def length_concat)
qed

text \<open>The state in which the provider is called.\<close>

definition request_arrived :: "http_message \<Rightarrow> HttpFlag \<Rightarrow> HttpParser \<Rightarrow> bool" where
  "request_arrived msg ka p \<longleftrightarrow>
     Finished p \<and> UB_wf (hp_Buffer p) \<and> UB_content (hp_Buffer p) = [] \<and> Request_good (hp_Request p) \<and>
     rq_Method (hp_Request p) = msg_method msg \<and>
     Version_Major (hp_Request p) = 1 \<and> Version_Minor (hp_Request p) = minor_value (msg_minor msg) \<and>
     rq_Flag (hp_Request p) = flag_of ka (msg_fields msg) \<and>
     view_ok (Buffer (hp_Buffer p)) (rq_Uri (hp_Request p)) \<and>
     view_bytes (Buffer (hp_Buffer p)) (rq_Uri (hp_Request p)) = msg_uri msg \<and>
     followed (Buffer (hp_Buffer p)) (CHR '' '') (rq_Uri (hp_Request p)) \<and>
     list_all (field_ok (Buffer (hp_Buffer p))) (Header_Value (hp_Request p)) \<and>
     list_all (\<lambda>(k, v). followed (Buffer (hp_Buffer p)) (CHR 0x0D) v) (Header_Value (hp_Request p)) \<and>
     show_table (Buffer (hp_Buffer p)) (Header_Value (hp_Request p)) = msg_fields msg"

lemma ready_request_arrives:
  assumes ready: "member_ready m" and fine: "message_fine msg" and pieces: "concat cs = request_text msg"
    and fits: "length (request_text msg) < UB_Writeable (hp_Buffer (mb_Parser m))"
  shows "\<exists>n p1 p. receive pf (map Received cs @ [Would_block]) (mb_Parser m) = Some (Inr n, p1) \<and>
     \<not> Finished p1 \<and> Starting_Parser (pf_visits pf) p1 = Some (Inr HPFContent, p) \<and>
     request_arrived msg (Set_Ka (hp_Result (mb_Parser m))) p"
proof -
  let ?p = "mb_Parser m"
  have at: "parser_at ?p []" using ready by (simp add: member_ready_def)
  have p: "UB_wf (hp_Buffer ?p)" "\<not> EB_IsVaild (hp_Extra ?p)" "UB_content (hp_Buffer ?p) = []"
    "blank_record (hp_Result ?p)" "Header_Value (hp_Request ?p) = []"
    using at by (simp_all add: parser_at_def)
  obtain ub where ub: "receive pf (map Received cs @ [Would_block]) ?p =
      Some (Inr (int (length (concat cs))), ?p\<lparr>hp_Buffer := ub\<rparr>)" "UB_wf ub" "UB_content ub = request_text msg @ []"
    using receive_pieces [OF p(1,2), of cs pf] fits p(3) pieces by auto
  have at1: "parser_at (?p\<lparr>hp_Buffer := ub\<rparr>) (request_text msg @ [])"
    using ub p unfolding parser_at_def by simp
  obtain q where q: "Starting_Parser (pf_visits pf) (?p\<lparr>hp_Buffer := ub\<rparr>) = Some (Inr HPFContent, q)"
    "request_arrived msg (Set_Ka (hp_Result ?p)) q"
    using Starting_Parser_conf [OF at1 fine, of "pf_visits pf"] by (auto simp: request_arrived_def)
  have "\<not> Finished (?p\<lparr>hp_Buffer := ub\<rparr>)"
    using init_fields(11) [OF p(4)] by (simp add: Finished_def)
  then show ?thesis using ub(1) q by blast
qed

lemma find_if_equal_in:
  assumes "list_all (field_ok M) es" and "view_bytes M h \<in> view_bytes M ` fst ` set es" and "view_ok M h"
  shows "\<exists>k v. (k, v) \<in> set es \<and> find_if_equal M h es = Inr v \<and> view_bytes M k = view_bytes M h"
  using assms(1,2)
proof (induction es)
  case (Cons e es)
  obtain k v where e: "e = (k, v)" by (cases e)
  have "ParsedHeaderIsEqual M k h = Inr (view_bytes M k = view_bytes M h)"
    using ParsedHeaderIsEqual_spec [OF _ assms(3)] Cons.prems(1) e by (simp add: field_ok_def)
  then show ?case
    using Cons e by (cases "view_bytes M k = view_bytes M h") auto
qed simp

lemma arrived_names:
  assumes arr: "request_arrived msg ka p" and fine: "message_fine msg"
    and host: "(''Host'', host) \<in> set (msg_fields msg)" and order: "\<And>es. set (order es) = set es"
  shows "request_names (Buffer (hp_Buffer p)) order (hp_Request p) host (msg_uri msg)"
proof -
  let ?M = "Buffer (hp_Buffer p)" and ?es = "order (Header_Value (hp_Request p))"
  have ok: "list_all (field_ok ?M) ?es" "list_all (\<lambda>(k, v). followed ?M (CHR 0x0D) v) ?es"
    using arr order [of "Header_Value (hp_Request p)"] by (auto simp: request_arrived_def list_all_iff)
  have tab: "show_table ?M (Header_Value (hp_Request p)) = msg_fields msg"
    using arr by (simp add: request_arrived_def)
  have tab': "(view_bytes ?M k, view_bytes ?M v) \<in> set (msg_fields msg)" if "(k, v) \<in> set ?es" for k v
    using that order unfolding tab [symmetric] show_table_def by force
  have "''Host'' \<in> view_bytes ?M ` fst ` set ?es"
    using host order [of "Header_Value (hp_Request p)"] unfolding tab [symmetric] show_table_def by force
  then obtain k v where kv: "(k, v) \<in> set ?es" "view_bytes ?M k = ''Host''"
    "find_if_equal ?M (ParsedHeader_literal ''Host'') ?es = Inr v"
    using find_if_equal_in [OF ok(1), of "ParsedHeader_literal ''Host''"] by auto
  have "view_bytes ?M v = host"
    using tab' [OF kv(1)] kv(2) host fine by (auto simp: message_fine_def dest: eq_key_imp_eq_value)
  then show ?thesis
    using kv ok arr fine
    by (auto simp: request_names_def Get_Value_def request_arrived_def message_fine_def list_all_iff field_ok_def)
qed

section \<open>Answering\<close>

lemma DoRead_arrived:
  assumes "receive pf ks (mb_Parser m) = Some (Inr n, p1)" and "\<not> Finished p1"
    and "Starting_Parser (pf_visits pf) p1 = Some (Inr f, p)" and "Finished p"
    and "provide (pf_os pf) (Buffer (hp_Buffer p)) (pf_order pf) (pf_date pf) (hp_Request p, mb_Write_Loop m) = (Inr (), rq, w)"
    and "DoAll (k, w) = (Inr EMPTY, k', w')"
  shows "DoRead pf ks (k, m) = Some (Inr (), k',
     m\<lparr>mb_Parser := p\<lparr>hp_Request := rq\<rparr>, mb_Write_Loop := w', WriteComplete := True\<rparr>)"
  using assms by (simp add: DoRead_def Content_Provide_def Write_all_def)

text \<open>
  An environment that serves \<open>bs\<close> for a request, with the type \<open>type\<close>: the \<open>Host\<close>
  field names the directory, the name fits the block of \<open>new char(n)\<close>, the iteration order is
  one of the whole table.
\<close>

definition names_file :: "platform \<Rightarrow> http_message \<Rightarrow> char list option \<Rightarrow> string \<Rightarrow> bool" where
  "names_file pf msg file type \<longleftrightarrow>
     (\<exists>host. (''Host'', host) \<in> set (msg_fields msg) \<and> served_file (pf_os pf) host (msg_uri msg) = file) \<and>
     length (msg_uri msg) < usable (pf_os pf) 1 \<and> uri_type (msg_uri msg) = Inr type \<and>
     (\<forall>es. set (pf_order pf es) = set es)"

lemma arrived_CloseAble:
  assumes "request_arrived msg ka p" and "message_fine msg"
  shows "CloseAble (m\<lparr>mb_Parser := p\<lparr>hp_Request := hp_Request p\<lparr>rq_StatusCode := c\<rparr>\<rparr>, mb_Write_Loop := w, WriteComplete := b\<rparr>)
     \<longleftrightarrow> msg_minor msg = CHR ''0'' \<or> flag_of ka (msg_fields msg) \<noteq> Keep_Alive"
  using assms by (auto simp: request_arrived_def CloseAble_def Let_def Finished_def message_fine_def minor_value_def)

lemma answers_accept:
  assumes "wl_ok w" and "length (Que w) \<le> length (answers k)"
    and "\<forall>a \<in> set (answers k). \<exists>n. a = Sent n \<and> length (wl_pending w) \<le> n"
  obtains k' w' where "DoAll (k, w) = (Inr EMPTY, k', w')" "wire k' = wire k @ wl_pending w"
    "Que w' = []" "wl_ok w'"
  using DoAll_flush [OF assms] by (auto simp: stream_def)

lemma DoRead_answers:
  assumes ready: "member_ready m" and fine: "message_fine msg" and pieces: "concat cs = request_text msg"
    and fits: "length (request_text msg) < UB_Writeable (hp_Buffer (mb_Parser m))"
    and answer: "\<And>p. request_arrived msg (Set_Ka (hp_Result (mb_Parser m))) p \<Longrightarrow>
        \<exists>w. provide (pf_os pf) (Buffer (hp_Buffer p)) (pf_order pf) (pf_date pf) (hp_Request p, mb_Write_Loop m)
             = (Inr (), (hp_Request p)\<lparr>rq_StatusCode := c\<rparr>, w) \<and> wl_ok w \<and>
           length (Que w) \<le> length (answers k) \<and> wl_pending w = resp"
    and peer: "\<forall>a \<in> set (answers k). \<exists>n. a = Sent n \<and> length resp \<le> n"
  shows "\<exists>k' m'. DoRead pf (map Received cs @ [Would_block]) (k, m) = Some (Inr (), k', m') \<and>
     wire k' = wire k @ resp \<and> WriteComplete m' \<and> rq_StatusCode (hp_Request (mb_Parser m')) = c \<and>
     (CloseAble m' \<longleftrightarrow>
        msg_minor msg = CHR ''0'' \<or> flag_of (Set_Ka (hp_Result (mb_Parser m))) (msg_fields msg) \<noteq> Keep_Alive)"
proof -
  obtain n p1 p where p: "receive pf (map Received cs @ [Would_block]) (mb_Parser m) = Some (Inr n, p1)"
    "\<not> Finished p1" "Starting_Parser (pf_visits pf) p1 = Some (Inr HPFContent, p)"
    "request_arrived msg (Set_Ka (hp_Result (mb_Parser m))) p"
    using ready_request_arrives [OF ready fine pieces fits] by metis
  obtain w where w: "provide (pf_os pf) (Buffer (hp_Buffer p)) (pf_order pf) (pf_date pf) (hp_Request p, mb_Write_Loop m)
      = (Inr (), (hp_Request p)\<lparr>rq_StatusCode := c\<rparr>, w)" "wl_ok w" "length (Que w) \<le> length (answers k)"
    "wl_pending w = resp"
    using answer [OF p(4)] by metis
  obtain k' w' where "DoAll (k, w) = (Inr EMPTY, k', w')" "wire k' = wire k @ wl_pending w"
    by (rule answers_accept [OF w(2,3)]) (use peer w(4) in auto)
  moreover have "Finished p" using p(4) by (simp add: request_arrived_def)
  ultimately show ?thesis
    using DoRead_arrived [OF p(1-3) _ w(1), of k k' w'] arrived_CloseAble [OF p(4) fine] w(4) by auto
qed

lemma arrived_request:
  assumes "request_arrived msg ka p" and "message_fine msg" and "names_file pf msg served type"
  obtains host where "request_names (Buffer (hp_Buffer p)) (pf_order pf) (hp_Request p) host (msg_uri msg)"
    "served_file (pf_os pf) host (msg_uri msg) = served"
    "length (msg_uri msg) < usable (pf_os pf) 1" "uri_type (msg_uri msg) = Inr type"
    "rq_Method (hp_Request p) = msg_method msg" "Version_Major (hp_Request p) = 1"
    "Version_Minor (hp_Request p) = minor_value (msg_minor msg)" "rq_Flag (hp_Request p) = flag_of ka (msg_fields msg)"
proof -
  obtain host where h: "(''Host'', host) \<in> set (msg_fields msg)" "served_file (pf_os pf) host (msg_uri msg) = served"
    "\<And>es. set (pf_order pf es) = set es"
    using assms(3) by (auto simp: names_file_def)
  show thesis
    by (rule that [OF arrived_names [OF assms(1,2) h(1,3)] h(2)])
      (use assms(1,3) in \<open>simp_all add: request_arrived_def names_file_def\<close>)
qed

lemma DoRead_serves:
  assumes ready: "member_ready m" and fine: "message_fine msg" and get: "msg_method msg \<noteq> HRPost"
    and pieces: "concat cs = request_text msg"
    and fits: "length (request_text msg) < UB_Writeable (hp_Buffer (mb_Parser m))"
    and names: "names_file pf msg (Some bs) type"
    and flag: "flag = flag_of (Set_Ka (hp_Result (mb_Parser m))) (msg_fields msg)"
    and room: "length (response_head HSCOK 1 (minor_value (msg_minor msg)) flag (pf_date pf) (int (length bs)) type) + 8
                 < UB_Writeable (wl_Buffer (mb_Write_Loop m))"
    and peer: "3 \<le> length (answers k)" "\<forall>a \<in> set (answers k). \<exists>n. a = Sent n \<and>
                 length (file_response 1 (minor_value (msg_minor msg)) flag (pf_date pf) type bs) \<le> n"
  shows "\<exists>k' m'. DoRead pf (map Received cs @ [Would_block]) (k, m) = Some (Inr (), k', m') \<and>
     wire k' = wire k @ file_response 1 (minor_value (msg_minor msg)) flag (pf_date pf) type bs \<and>
     WriteComplete m' \<and> rq_StatusCode (hp_Request (mb_Parser m')) = HSCOK \<and>
     (CloseAble m' \<longleftrightarrow> msg_minor msg = CHR ''0'' \<or> flag \<noteq> Keep_Alive)"
  unfolding flag
proof (rule DoRead_answers [OF ready fine pieces fits _ peer(2) [unfolded flag]])
  fix p
  assume arr: "request_arrived msg (Set_Ka (hp_Result (mb_Parser m))) p"
  obtain host where h: "request_names (Buffer (hp_Buffer p)) (pf_order pf) (hp_Request p) host (msg_uri msg)"
    "served_file (pf_os pf) host (msg_uri msg) = Some bs"
    "length (msg_uri msg) < usable (pf_os pf) 1" "uri_type (msg_uri msg) = Inr type"
    and rq: "rq_Method (hp_Request p) = msg_method msg" "Version_Major (hp_Request p) = 1"
    "Version_Minor (hp_Request p) = minor_value (msg_minor msg)" "rq_Flag (hp_Request p) = flag"
    using arrived_request [OF arr fine names] flag by metis
  have idle: "wl_idle (mb_Write_Loop m)" using ready by (simp add: member_ready_def)
  show "\<exists>w. provide (pf_os pf) (Buffer (hp_Buffer p)) (pf_order pf) (pf_date pf) (hp_Request p, mb_Write_Loop m)
       = (Inr (), (hp_Request p)\<lparr>rq_StatusCode := HSCOK\<rparr>, w) \<and> wl_ok w \<and> length (Que w) \<le> length (answers k) \<and>
     wl_pending w = file_response 1 (minor_value (msg_minor msg))
       (flag_of (Set_Ka (hp_Result (mb_Parser m))) (msg_fields msg)) (pf_date pf) type bs"
    using provide_served [OF h(1,3) _ h(2,4) idle, of "pf_date pf"] room rq get peer(1) unfolding flag [symmetric] by fastforce
qed

lemma DoRead_refuses:
  assumes ready: "member_ready m" and fine: "message_fine msg" and get: "msg_method msg \<noteq> HRPost"
    and pieces: "concat cs = request_text msg"
    and fits: "length (request_text msg) < UB_Writeable (hp_Buffer (mb_Parser m))"
    and names: "names_file pf msg None type"
    and flag: "flag = flag_of (Set_Ka (hp_Result (mb_Parser m))) (msg_fields msg)"
    and room: "length (error_response 1 (minor_value (msg_minor msg)) flag (pf_date pf) type)
                 < UB_Writeable (wl_Buffer (mb_Write_Loop m))"
    and peer: "1 \<le> length (answers k)" "\<forall>a \<in> set (answers k). \<exists>n. a = Sent n \<and>
                 length (error_response 1 (minor_value (msg_minor msg)) flag (pf_date pf) type) \<le> n"
  shows "\<exists>k' m'. DoRead pf (map Received cs @ [Would_block]) (k, m) = Some (Inr (), k', m') \<and>
     wire k' = wire k @ error_response 1 (minor_value (msg_minor msg)) flag (pf_date pf) type \<and>
     WriteComplete m' \<and> rq_StatusCode (hp_Request (mb_Parser m')) = HSCBadRequest \<and>
     (CloseAble m' \<longleftrightarrow> msg_minor msg = CHR ''0'' \<or> flag \<noteq> Keep_Alive)"
  unfolding flag
proof (rule DoRead_answers [OF ready fine pieces fits _ peer(2) [unfolded flag]])
  fix p
  assume arr: "request_arrived msg (Set_Ka (hp_Result (mb_Parser m))) p"
  obtain host where h: "request_names (Buffer (hp_Buffer p)) (pf_order pf) (hp_Request p) host (msg_uri msg)"
    "served_file (pf_os pf) host (msg_uri msg) = None"
    "length (msg_uri msg) < usable (pf_os pf) 1" "uri_type (msg_uri msg) = Inr type"
    and rq: "rq_Method (hp_Request p) = msg_method msg" "Version_Major (hp_Request p) = 1"
    "Version_Minor (hp_Request p) = minor_value (msg_minor msg)" "rq_Flag (hp_Request p) = flag"
    using arrived_request [OF arr fine names] flag by metis
  have idle: "wl_idle (mb_Write_Loop m)" using ready by (simp add: member_ready_def)
  show "\<exists>w. provide (pf_os pf) (Buffer (hp_Buffer p)) (pf_order pf) (pf_date pf) (hp_Request p, mb_Write_Loop m)
       = (Inr (), (hp_Request p)\<lparr>rq_StatusCode := HSCBadRequest\<rparr>, w) \<and> wl_ok w \<and>
     length (Que w) \<le> length (answers k) \<and>
     wl_pending w = error_response 1 (minor_value (msg_minor msg))
       (flag_of (Set_Ka (hp_Result (mb_Parser m))) (msg_fields msg)) (pf_date pf) type"
    using provide_refused [OF h(1,3) _ h(2,4) idle, of "pf_date pf"] room rq get peer(1) unfolding flag [symmetric] by fastforce
qed
end
