(* ===== verification/Timing_Wheel.thy ===== *)
theory Timing_Wheel
  imports Prelude "HOL-Library.Multiset"
begin

text \<open>
  \<open>src/src/tool/timing_wheel.h\<close> and \<open>timing_wheel.cc\<close>: timers in a wheel of 256 slots and four
  wheels of 64 slots for longer times. A list node is a pair of its address, a number that is not
  used twice, and its content; an iterator is such an address, and \<open>mp\<close> maps a descriptor to one.
  A callback is a value \<open>'f\<close>; what its call does is a parameter.
\<close>

section \<open>The state\<close>

unbundle bit_operations_syntax

record 'f timernode =
  time_solt :: "16 word"
  time_wheel :: "8 word"
  tn_fd :: int
  tn_fun :: 'f
  expire :: "32 word"

type_synonym 'f slot = "(nat \<times> 'f timernode) list"

record 'f TimerWheel =
  mp :: "int \<rightharpoonup> nat"
  currenttime :: "32 word"
  tvroot :: "'f slot list"
  tv :: "'f slot list list"
  next_node :: nat

definition TimerWheel_new :: "'f TimerWheel" where
  "TimerWheel_new =
     \<lparr>mp = Map.empty, currenttime = 0, tvroot = replicate 256 [], tv = replicate 4 (replicate 64 []), next_node = 0\<rparr>"

section \<open>The macros\<close>

text \<open>\<open>NTH_INDEX\<close> is used on an \<open>int\<close> and on a \<open>uint32_t\<close>; the mask removes what the two shifts differ in.\<close>

definition FIRST_INDEX :: "32 word \<Rightarrow> nat" where
  "FIRST_INDEX v = unat (v AND 255)"

definition NTH_INDEX :: "32 word \<Rightarrow> nat \<Rightarrow> nat" where
  "NTH_INDEX v n = unat (drop_bit (8 + n * 6) v AND 63)"

section \<open>Adding a timer\<close>

text \<open>The node as it is made; the member \<open>time_wheel\<close> is set later (\<open>junk\<close> until then).\<close>

definition timernode_new :: "8 word \<Rightarrow> int \<Rightarrow> 32 word \<Rightarrow> 'f \<Rightarrow> 'f timernode" where
  "timernode_new junk fd ex f =
     \<lparr>time_solt = of_nat (FIRST_INDEX ex), time_wheel = junk, tn_fd = fd, tn_fun = f, expire = ex\<rparr>"

text \<open>
  The wheel for a long time: the first of the four whose range the distance is below. The pointer
  has been moved into the list when \<open>Set_Wheel\<close> is called through it.
\<close>

fun add_level ::
  "nat list \<Rightarrow> 32 word \<Rightarrow> 32 word \<Rightarrow> 'f timernode \<Rightarrow> 'f TimerWheel \<Rightarrow> ('f TimerWheel, unit) cpp" where
  "add_level [] idx ex n w = (Inr (), w)"
| "add_level (i # is) idx ex n w =
     (if unat idx < 2 ^ (8 + (i + 1) * 6)
      then
        let j = NTH_INDEX ex i; a = next_node w in
        (Inl Null_deref,
         w\<lparr>tv := (tv w)[i := (tv w ! i)[j := tv w ! i ! j @ [(a, n)]]], mp := (mp w)(tn_fd n \<mapsto> a), next_node := a + 1\<rparr>)
      else add_level is idx ex n w)"

definition TW_Add_at :: "8 word \<Rightarrow> int \<Rightarrow> 32 word \<Rightarrow> 'f \<Rightarrow> 'f TimerWheel \<Rightarrow> ('f TimerWheel, unit) cpp" where
  "TW_Add_at junk fd ex f w =
     (if fd \<in> dom (mp w) then (Inl Invalid_argument, w)
      else
        let idx = ex - currenttime w; n = timernode_new junk fd ex f in
        if idx < 256
        then
          let s = FIRST_INDEX ex; a = next_node w in
          (Inr (),
           w\<lparr>tvroot := (tvroot w)[s := tvroot w ! s @ [(a, n\<lparr>time_wheel := 0\<rparr>)]], mp := (mp w)(fd \<mapsto> a),
             next_node := a + 1\<rparr>)
        else add_level [0, 1, 2, 3] idx ex n w)"

text \<open>\<open>currenttime + ticks\<close> is computed in \<open>uint32_t\<close>, kept in an \<open>int\<close> and converted back.\<close>

definition TW_Add :: "8 word \<Rightarrow> int \<Rightarrow> 'f \<Rightarrow> int \<Rightarrow> 'f TimerWheel \<Rightarrow> ('f TimerWheel, unit) cpp" where
  "TW_Add junk fd f ticks w =
     (if ticks < 0 then (Inl Invalid_argument, w)
      else TW_Add_at junk fd (currenttime w + word_of_int ticks) f w)"

section \<open>One tick\<close>

text \<open>
  The timers of a slot of a higher wheel are added again, with the distance taken the wrong way
  round. A timer's descriptor is in \<open>mp\<close> for ever, so the first of them throws.
\<close>

fun cascade_slot :: "8 word \<Rightarrow> 'f slot \<Rightarrow> 'f TimerWheel \<Rightarrow> ('f TimerWheel, unit) cpp" where
  "cascade_slot junk [] w = (Inr (), w)"
| "cascade_slot junk ((a, n) # ns) w =
     bindc (TW_Add junk (tn_fd n) (tn_fun n) (sint (currenttime w - expire n)) w) (\<lambda>_ w. cascade_slot junk ns w)"

fun cascade :: "8 word \<Rightarrow> nat list \<Rightarrow> 'f TimerWheel \<Rightarrow> ('f TimerWheel, unit) cpp" where
  "cascade junk [] w = (Inr (), w)"
| "cascade junk (i # is) w =
     (let idx = NTH_INDEX (currenttime w) i in
      bindc (cascade_slot junk (tv w ! i ! idx) w) (\<lambda>_ w.
        let w = w\<lparr>tv := (tv w)[i := (tv w ! i)[idx := []]]\<rparr> in
        if idx = 0 then cascade junk is w else (Inr (), w)))"

text \<open>The calls of a slot's callbacks, up to the first that throws.\<close>

fun fire :: "('f \<Rightarrow> int \<Rightarrow> cpp_error option) \<Rightarrow> 'f slot \<Rightarrow> cpp_error option \<times> (int \<times> 'f) list" where
  "fire call [] = (None, [])"
| "fire call ((a, n) # ns) =
     (case call (tn_fun n) (tn_fd n) of
        Some e \<Rightarrow> (Some e, [(tn_fd n, tn_fun n)])
      | None \<Rightarrow> (case fire call ns of (r, cs) \<Rightarrow> (r, (tn_fd n, tn_fun n) # cs)))"

text \<open>The value is the list of the calls.\<close>

definition TW_Tick ::
  "8 word \<Rightarrow> ('f \<Rightarrow> int \<Rightarrow> cpp_error option) \<Rightarrow> 'f TimerWheel \<Rightarrow> ('f TimerWheel, (int \<times> 'f) list) cpp" where
  "TW_Tick junk call w =
     (let w = w\<lparr>currenttime := currenttime w + 1\<rparr>; index = FIRST_INDEX (currenttime w) in
      bindc (if index = 0 then cascade junk [0, 1, 2, 3] w else (Inr (), w)) (\<lambda>_ w.
        case fire call (tvroot w ! index) of
          (Some e, cs) \<Rightarrow> (Inl e, w)
        | (None, cs) \<Rightarrow> (Inr cs, w\<lparr>tvroot := (tvroot w)[index := []]\<rparr>)))"

section \<open>Moving a timer\<close>

text \<open>\<open>mp[fd]\<close> makes a null iterator for a descriptor it does not know; following one that leads to no node is undefined.\<close>

definition find_node :: "nat \<Rightarrow> 'f TimerWheel \<Rightarrow> 'f timernode option" where
  "find_node a w = map_of (concat (tvroot w) @ concat (concat (tv w))) a"

definition erase_node :: "nat \<Rightarrow> 'f slot list \<Rightarrow> nat \<Rightarrow> ('f slot list) option" where
  "erase_node a slots j =
     (if j < length slots \<and> a \<in> fst ` set (slots ! j)
      then Some (slots[j := filter (\<lambda>(b, n). b \<noteq> a) (slots ! j)]) else None)"

text \<open>Behind the second \<open>TW_Add\<close> the members \<open>time_solt\<close> and \<open>time_wheel\<close> are used in each other's place.\<close>

definition TW_Update :: "8 word \<Rightarrow> int \<Rightarrow> 'f TimerWheel \<Rightarrow> ('f TimerWheel, unit) cpp" where
  "TW_Update junk fd w =
     (case mp w fd of
        None \<Rightarrow> (Inl Bad_access, w)
      | Some a \<Rightarrow>
          (case find_node a w of
             None \<Rightarrow> (Inl Bad_access, w)
           | Some n \<Rightarrow>
               bindc (TW_Add junk fd (tn_fun n) 2 w) (\<lambda>_ w.
                 case mp w fd of
                   None \<Rightarrow> (Inl Bad_access, w)
                 | Some b \<Rightarrow>
                     (case find_node b w of
                        None \<Rightarrow> (Inl Bad_access, w)
                      | Some m \<Rightarrow>
                          (let solt = unat (time_solt m); wheel = unat (time_wheel m) in
                           if solt = 0 then
                             (case erase_node b (tvroot w) wheel of
                                None \<Rightarrow> (Inl Bad_access, w) | Some r \<Rightarrow> (Inr (), w\<lparr>tvroot := r\<rparr>))
                           else if 4 < solt then (Inl Bad_access, w)
                           else
                             (case erase_node b (tv w ! (solt - 1)) wheel of
                                None \<Rightarrow> (Inl Bad_access, w) | Some l \<Rightarrow> (Inr (), w\<lparr>tv := (tv w)[solt - 1 := l]\<rparr>)))))))"


section \<open>The timers that are waiting\<close>

lemma FIRST_INDEX_mod: "FIRST_INDEX v = unat v mod 256"
proof -
  have "v AND 255 = take_bit 8 v" by (simp add: take_bit_eq_mask mask_eq_exp_minus_1)
  then show ?thesis by (simp add: FIRST_INDEX_def unsigned_take_bit_eq take_bit_eq_mod unat_mod)
qed

text \<open>After how many ticks a node is reached: a distance of zero takes a whole turn.\<close>

definition delay :: "32 word \<Rightarrow> 'f timernode \<Rightarrow> nat" where
  "delay now n = (let d = (FIRST_INDEX (expire n) + 256 - FIRST_INDEX now) mod 256 in if d = 0 then 256 else d)"

definition timers :: "'f TimerWheel \<Rightarrow> (int \<times> 'f \<times> nat) multiset" where
  "timers w = mset (map (\<lambda>(a, n). (tn_fd n, tn_fun n, delay (currenttime w) n)) (concat (tvroot w)))"

text \<open>The state as long as no distance of 256 ticks or more was asked for.\<close>

definition wheel_inv :: "'f TimerWheel \<Rightarrow> bool" where
  "wheel_inv w \<longleftrightarrow>
     length (tvroot w) = 256 \<and> tv w = replicate 4 (replicate 64 []) \<and>
     (\<forall>s < 256. \<forall>(a, n) \<in> set (tvroot w ! s). FIRST_INDEX (expire n) = s \<and> tn_fd n \<in> dom (mp w))"

lemma wheel_inv_new: "wheel_inv TimerWheel_new"
  by (simp add: wheel_inv_def TimerWheel_new_def)

text \<open>What a tick does to a set of timers with their delays.\<close>

definition tick_spec :: "(int \<times> 'f \<times> nat) multiset \<Rightarrow> (int \<times> 'f) multiset \<times> (int \<times> 'f \<times> nat) multiset" where
  "tick_spec T =
     (image_mset (\<lambda>(fd, f, d). (fd, f)) (filter_mset (\<lambda>(fd, f, d). d = 1) T),
      image_mset (\<lambda>(fd, f, d). (fd, f, d - 1)) (filter_mset (\<lambda>(fd, f, d). d \<noteq> 1) T))"

lemma delay_bounds: "0 < delay now n" "delay now n \<le> 256"
  by (auto simp: delay_def Let_def)

lemma FIRST_INDEX_Suc: "FIRST_INDEX (now + 1) = (FIRST_INDEX now + 1) mod 256"
proof -
  have "unat (now + 1) mod 256 = (unat now + 1) mod 2 ^ 32 mod 256"
    by (simp add: unat_word_ariths)
  also have "\<dots> = (unat now + 1) mod 256" by (simp add: mod_mod_cancel)
  finally show ?thesis by (simp add: FIRST_INDEX_mod mod_simps)
qed

lemma FIRST_INDEX_less: "FIRST_INDEX v < 256"
  by (simp add: FIRST_INDEX_mod)

lemma turn_distance:
  assumes "s < (256 :: nat)" and "c < 256"
  shows "(let d = (s + 256 - c) mod 256 in if d = 0 then 256 else d) = (if s \<le> c then s + 256 - c else s - c)"
proof (cases "s = c")
  case False
  then have "(s + 256 - c) mod 256 = (if s \<le> c then s + 256 - c else s - c)" using assms by (simp add: mod_if)
  then show ?thesis using assms False by simp
qed simp

lemma delay_tick:
  "delay now n = 1 \<longleftrightarrow> FIRST_INDEX (expire n) = FIRST_INDEX (now + 1)"
  "delay now n \<noteq> 1 \<Longrightarrow> delay (now + 1) n = delay now n - 1"
proof -
  define s c where "s = FIRST_INDEX (expire n)" and "c = FIRST_INDEX now"
  define c1 where "c1 = (c + 1) mod 256"
  have sc: "s < 256" "c < 256" unfolding s_def c_def by (rule FIRST_INDEX_less)+
  have sc1: "FIRST_INDEX (now + 1) = c1" unfolding c1_def c_def by (rule FIRST_INDEX_Suc)
  have sc2: "c1 < 256" "c1 = (if c = 255 then 0 else c + 1)"
    unfolding c1_def using sc(2) by (simp_all split: if_splits)
  note sc = sc sc1 sc2
  have d: "delay now n = (if s \<le> c then s + 256 - c else s - c)"
    "delay (now + 1) n = (if s \<le> c1 then s + 256 - c1 else s - c1)"
    using turn_distance sc by (simp_all add: delay_def s_def [symmetric] c_def [symmetric])
  show "delay now n = 1 \<longleftrightarrow> FIRST_INDEX (expire n) = FIRST_INDEX (now + 1)"
    unfolding d sc(3) s_def [symmetric] using sc(1,2,5) by (simp split: if_splits; linarith?)
  show "delay (now + 1) n = delay now n - 1" if "delay now n \<noteq> 1"
    using that sc(1,2,5) unfolding d by (simp split: if_splits; linarith?)
qed

section \<open>Refinement\<close>

lemma wheel_slots:
  assumes "length xs = 256" and "i < 256"
  shows "concat xs = concat (take i xs) @ xs ! i @ concat (drop (Suc i) xs)"
    and "concat (xs[i := y]) = concat (take i xs) @ y @ concat (drop (Suc i) xs)"
proof -
  have "concat (take i xs @ xs ! i # drop (Suc i) xs) = concat (take i xs) @ xs ! i @ concat (drop (Suc i) xs)" by simp
  then show "concat xs = concat (take i xs) @ xs ! i @ concat (drop (Suc i) xs)"
    using id_take_nth_drop [of i xs] assms by simp
  show "concat (xs[i := y]) = concat (take i xs) @ y @ concat (drop (Suc i) xs)"
    using upd_conv_take_nth_drop [of i xs y] assms by simp
qed

lemma other_slot:
  assumes "x \<in> set (concat (take i xs) @ concat (drop (Suc i) xs))"
  shows "\<exists>s. s < length xs \<and> s \<noteq> i \<and> x \<in> set (xs ! s)"
proof -
  consider ys where "ys \<in> set (take i xs)" "x \<in> set ys" | ys where "ys \<in> set (drop (Suc i) xs)" "x \<in> set ys"
    using assms by auto
  then show ?thesis
  proof cases
    case 1
    then obtain k where "k < length (take i xs)" "take i xs ! k = ys" by (metis in_set_conv_nth)
    then show ?thesis using 1 by (intro exI [of _ k]) simp
  next
    case 2
    then obtain k where "k < length (drop (Suc i) xs)" "drop (Suc i) xs ! k = ys" by (metis in_set_conv_nth)
    then show ?thesis using 2 by (intro exI [of _ "Suc i + k"]) simp
  qed
qed

lemma cascade_empty:
  assumes "tv w = replicate 4 (replicate 64 [])" and "list_all (\<lambda>i. i < 4) is"
  shows "cascade junk is w = (Inr (), w)"
  using assms(2)
proof (induction "is")
  case (Cons i "is")
  have "NTH_INDEX (currenttime w) i < 64"
  proof -
    have "unat (drop_bit (8 + i * 6) (currenttime w) AND 63) \<le> unat (63 :: 32 word)"
      by (metis word_and_le1 word_le_nat_alt)
    then show ?thesis by (simp add: NTH_INDEX_def)
  qed
  moreover have "(tv w ! i)[j := []] = tv w ! i" if "j < 64" for j
    using Cons.prems assms(1) that by (simp add: list_update_same_conv)
  moreover have "w\<lparr>tv := (tv w)[i := tv w ! i]\<rparr> = w" by simp
  moreover have "tv w ! i ! j = []" if "j < 64" for j using Cons.prems assms(1) that by simp
  ultimately show ?case
    using Cons unfolding cascade.simps Let_def by (simp del: list_update_id)
qed simp

lemma fire_all: "(\<And>f fd. call f fd = None) \<Longrightarrow> fire call ns = (None, map (\<lambda>(a, n). (tn_fd n, tn_fun n)) ns)"
  by (induction ns) auto

lemma filter_map_all: "(\<And>x. x \<in> set xs \<Longrightarrow> P (f x)) \<Longrightarrow> filter_mset P (mset (map f xs)) = mset (map f xs)"
  by (induction xs) auto

lemma filter_map_none: "(\<And>x. x \<in> set xs \<Longrightarrow> \<not> P (f x)) \<Longrightarrow> filter_mset P (mset (map f xs)) = {#}"
  by (induction xs) auto

lemma TW_Tick_ok:
  assumes inv: "wheel_inv w" and call: "\<And>f fd. call f fd = None"
  shows "\<exists>cs w'. TW_Tick junk call w = (Inr cs, w') \<and> wheel_inv w' \<and> mp w' = mp w \<and>
     (mset cs, timers w') = tick_spec (timers w)"
proof -
  let ?now = "currenttime w"
  let ?i = "FIRST_INDEX (?now + 1)"
  let ?out = "\<lambda>(a :: nat, n). (tn_fd n, tn_fun n)" and ?abs = "\<lambda>t (a :: nat, n). (tn_fd n, tn_fun n, delay t n)"
  let ?slot = "tvroot w ! ?i" and ?rest = "concat (take ?i (tvroot w)) @ concat (drop (Suc ?i) (tvroot w))"
  have len: "length (tvroot w) = 256" and tv: "tv w = replicate 4 (replicate 64 [])" using inv by (simp_all add: wheel_inv_def)
  have i: "?i < 256" by (rule FIRST_INDEX_less)
  let ?w = "w\<lparr>currenttime := ?now + 1, tvroot := (tvroot w)[?i := []]\<rparr>"
  have run: "TW_Tick junk call w = (Inr (map ?out ?slot), ?w)"
    using cascade_empty [of "w\<lparr>currenttime := ?now + 1\<rparr>" "[0, 1, 2, 3]" junk] tv fire_all [of call, OF call]
    by (simp add: TW_Tick_def Let_def)
  have at: "FIRST_INDEX (expire n) = s" if "(a, n) \<in> set (tvroot w ! s)" "s < 256" for a n s
    using inv that by (fastforce simp: wheel_inv_def)
  have slot: "delay ?now n = 1" if "(a, n) \<in> set ?slot" for a n
    using delay_tick(1) at [OF that i] by metis
  have rest: "delay ?now n \<noteq> 1" if mem: "(a, n) \<in> set ?rest" for a n
  proof -
    obtain s where "s < 256" "s \<noteq> ?i" "(a, n) \<in> set (tvroot w ! s)"
      using other_slot [OF mem] len by metis
    then show ?thesis using delay_tick(1) at by metis
  qed
  have dec: "delay ?now n - 1 = delay (?now + 1) n" if "(a, n) \<in> set ?rest" for a n
    using rest [OF that] delay_tick(2) by metis
  have ms: "timers w = mset (map (?abs ?now) ?slot) + mset (map (?abs ?now) ?rest)"
    "timers ?w = mset (map (?abs (?now + 1)) ?rest)"
    using wheel_slots [OF len i] by (simp_all add: timers_def)
  have p1: "filter_mset (\<lambda>(fd, f, d). d = 1) (mset (map (?abs ?now) ?slot)) = mset (map (?abs ?now) ?slot)"
    by (rule filter_map_all) (use slot in \<open>auto simp del: One_nat_def\<close>)
  have p2: "filter_mset (\<lambda>(fd, f, d). d \<noteq> 1) (mset (map (?abs ?now) ?rest)) = mset (map (?abs ?now) ?rest)"
    by (rule filter_map_all) (use rest in \<open>auto simp del: One_nat_def\<close>)
  have p3: "filter_mset (\<lambda>(fd, f, d). d \<noteq> 1) (mset (map (?abs ?now) ?slot)) = {#}"
    by (rule filter_map_none) (use slot in \<open>auto simp del: One_nat_def\<close>)
  have p4: "filter_mset (\<lambda>(fd, f, d). d = 1) (mset (map (?abs ?now) ?rest)) = {#}"
    by (rule filter_map_none) (use rest in \<open>auto simp del: One_nat_def\<close>)
  have f1: "filter_mset (\<lambda>(fd, f, d). d = 1) (timers w) = mset (map (?abs ?now) ?slot)"
    "filter_mset (\<lambda>(fd, f, d). d \<noteq> 1) (timers w) = mset (map (?abs ?now) ?rest)"
    unfolding ms(1) filter_union_mset p1 p2 p3 p4 by simp_all
  have "wheel_inv ?w"
    using inv i by (auto simp: wheel_inv_def nth_list_update)
  moreover have "(mset (map ?out ?slot), timers ?w) = tick_spec (timers w)"
  proof -
    have "image_mset (\<lambda>(fd, f, d). (fd, f, d - 1)) (mset (map (?abs ?now) ?rest)) = timers ?w"
      unfolding ms(2) mset_map image_mset.compositionality
      by (rule image_mset_cong) (use dec in \<open>auto simp: comp_def simp del: One_nat_def\<close>)
    moreover have "image_mset (\<lambda>(fd, f, d). (fd, f)) (mset (map (?abs ?now) ?slot)) = mset (map ?out ?slot)"
      unfolding mset_map image_mset.compositionality by (rule image_mset_cong) auto
    ultimately show ?thesis unfolding tick_spec_def f1 by simp
  qed
  ultimately show ?thesis unfolding run by auto
qed


lemma unat_small: "0 \<le> t \<Longrightarrow> t < 256 \<Longrightarrow> unat (word_of_int t :: 32 word) = nat t"
  by (simp add: unsigned_of_int take_bit_int_eq_self)

lemma FIRST_INDEX_add: "0 \<le> t \<Longrightarrow> t < 256 \<Longrightarrow> FIRST_INDEX (now + word_of_int t) = (FIRST_INDEX now + nat t) mod 256"
proof -
  assume t: "0 \<le> t" "t < 256"
  have "unat (word_of_int t :: 32 word) = nat t" using t by (rule unat_small)
  then have "unat (now + word_of_int t) mod 256 = (unat now + nat t) mod 2 ^ 32 mod 256"
    by (simp add: unat_word_ariths)
  also have "\<dots> = (unat now + nat t) mod 256" by (simp add: mod_mod_cancel)
  finally show ?thesis by (simp add: FIRST_INDEX_mod mod_simps)
qed

lemma TW_Add_ok:
  assumes inv: "wheel_inv w" and new: "fd \<notin> dom (mp w)" and t: "0 \<le> t" "t < 256"
  shows "\<exists>w'. TW_Add junk fd f t w = (Inr (), w') \<and> wheel_inv w' \<and> dom (mp w') = insert fd (dom (mp w)) \<and>
     timers w' = add_mset (fd, f, if t = 0 then 256 else nat t) (timers w)"
proof -
  let ?now = "currenttime w" and ?ex = "currenttime w + word_of_int t"
  let ?s = "FIRST_INDEX ?ex" and ?n = "(timernode_new junk fd ?ex f)\<lparr>time_wheel := 0\<rparr>"
  let ?w = "w\<lparr>tvroot := (tvroot w)[?s := tvroot w ! ?s @ [(next_node w, ?n)]], mp := (mp w)(fd \<mapsto> next_node w),
      next_node := next_node w + 1\<rparr>"
  let ?abs = "\<lambda>(a :: nat, n). (tn_fd n, tn_fun n, delay ?now n)"
  have len: "length (tvroot w) = 256" using inv by (simp add: wheel_inv_def)
  have s: "?s < 256" by (rule FIRST_INDEX_less)
  have "unat (word_of_int t :: 32 word) = nat t" using t by (rule unat_small)
  then have "?ex - ?now < 256" using t by (simp add: word_less_nat_alt)
  then have run: "TW_Add junk fd f t w = (Inr (), ?w)"
    using t new by (simp add: TW_Add_def TW_Add_at_def Let_def)
  have "delay ?now ?n = (if t = 0 then 256 else nat t)"
  proof -
    define c where "c = FIRST_INDEX ?now"
    have c: "c < 256" unfolding c_def by (rule FIRST_INDEX_less)
    have "((c + nat t) mod 256 + 256 - c) mod 256 = nat t"
    proof (cases "c + nat t < 256")
      case True
      then show ?thesis using t by simp
    next
      case False
      then have "(c + nat t) mod 256 = c + nat t - 256" using c t by (simp add: mod_if)
      then show ?thesis using False c t by simp
    qed
    then show ?thesis
      using t by (auto simp: delay_def timernode_new_def FIRST_INDEX_add c_def [symmetric] Let_def)
  qed
  then have abs: "?abs (next_node w, ?n) = (fd, f, if t = 0 then 256 else nat t)"
    by (simp add: timernode_new_def)
  have "timers ?w = add_mset (?abs (next_node w, ?n)) (timers w)"
    using wheel_slots [OF len s] by (simp add: timers_def)
  moreover have "wheel_inv ?w"
    using inv s by (auto simp: wheel_inv_def nth_list_update timernode_new_def)
  ultimately show ?thesis unfolding run abs by auto
qed

lemma timers_known:
  assumes "wheel_inv w" and "(fd, f, d) \<in># timers w"
  shows "fd \<in> dom (mp w)"
proof -
  obtain a n xs where "(a, n) \<in> set xs" "xs \<in> set (tvroot w)" "fd = tn_fd n"
    using assms(2) by (auto simp: timers_def)
  then obtain s where "s < 256" "(a, n) \<in> set (tvroot w ! s)"
    using assms(1) by (auto simp: wheel_inv_def in_set_conv_nth)
  then show ?thesis using assms(1) \<open>fd = tn_fd n\<close> by (fastforce simp: wheel_inv_def)
qed

section \<open>Many ticks\<close>

fun tick_times :: "8 word \<Rightarrow> ('f \<Rightarrow> int \<Rightarrow> cpp_error option) \<Rightarrow> nat \<Rightarrow> 'f TimerWheel \<Rightarrow> ('f TimerWheel, (int \<times> 'f) list list) cpp" where
  "tick_times junk call 0 w = (Inr [], w)"
| "tick_times junk call (Suc n) w =
     bindc (TW_Tick junk call w) (\<lambda>cs w. bindc (tick_times junk call n w) (\<lambda>css w. (Inr (cs # css), w)))"

lemma tick_spec_timer:
  assumes "(fired, T') = tick_spec T"
  shows "(fd, f) \<in># fired \<longleftrightarrow> (fd, f, 1) \<in># T"
    and "(fd, f, d) \<in># T' \<longleftrightarrow> (\<exists>e. (fd, f, e) \<in># T \<and> e \<noteq> 1 \<and> d = e - 1)"
proof -
  have F: "set_mset fired = (\<lambda>(fd, f, d). (fd, f)) ` {x \<in> set_mset T. case x of (fd, f, d) \<Rightarrow> d = 1}"
    and T': "set_mset T' = (\<lambda>(fd, f, d). (fd, f, d - 1)) ` {x \<in> set_mset T. case x of (fd, f, d) \<Rightarrow> d \<noteq> 1}"
    using assms unfolding tick_spec_def prod.inject by (simp_all only: set_image_mset set_mset_filter)
  show "(fd, f) \<in># fired \<longleftrightarrow> (fd, f, 1) \<in># T"
  proof
    assume "(fd, f) \<in># fired"
    then obtain x where "x \<in># T" "case x of (fd, f, d) \<Rightarrow> d = 1" "(fd, f) = (case x of (fd, f, d) \<Rightarrow> (fd, f))"
      unfolding F by blast
    then show "(fd, f, 1) \<in># T" by (cases x) auto
  next
    assume "(fd, f, 1) \<in># T"
    then show "(fd, f) \<in># fired" unfolding F by (intro image_eqI [of _ _ "(fd, f, 1)"]) simp_all
  qed
  show "(fd, f, d) \<in># T' \<longleftrightarrow> (\<exists>e. (fd, f, e) \<in># T \<and> e \<noteq> 1 \<and> d = e - 1)"
  proof
    assume "(fd, f, d) \<in># T'"
    then obtain x where "x \<in># T" "case x of (fd, f, d) \<Rightarrow> d \<noteq> 1" "(fd, f, d) = (case x of (fd, f, d) \<Rightarrow> (fd, f, d - 1))"
      unfolding T' by blast
    then show "\<exists>e. (fd, f, e) \<in># T \<and> e \<noteq> 1 \<and> d = e - 1" by (cases x) auto
  next
    assume "\<exists>e. (fd, f, e) \<in># T \<and> e \<noteq> 1 \<and> d = e - 1"
    then obtain e where e: "(fd, f, e) \<in># T" "e \<noteq> 1" "d = e - 1" by blast
    show "(fd, f, d) \<in># T'" unfolding T' by (rule image_eqI [of _ _ "(fd, f, e)"]) (use e in simp_all)
  qed
qed

lemma tick_times_fires:
  assumes "wheel_inv w" and "\<And>f fd. call f fd = None" and "(fd, f, t) \<in># timers w"
    and "\<forall>g d. (fd, g, d) \<in># timers w \<longrightarrow> d = t" and "0 < t"
  shows "\<exists>css w'. tick_times junk call t w = (Inr css, w') \<and> length css = t \<and> (fd, f) \<in> set (last css) \<and>
     (\<forall>cs \<in> set (butlast css). fd \<notin> fst ` set cs) \<and> wheel_inv w' \<and> mp w' = mp w"
  using assms(1,3-5)
proof (induction t arbitrary: w)
  case (Suc t)
  obtain cs w1 where w1: "TW_Tick junk call w = (Inr cs, w1)" "wheel_inv w1" "mp w1 = mp w"
    "(mset cs, timers w1) = tick_spec (timers w)"
    using TW_Tick_ok [where junk = junk and call = call, OF Suc.prems(1) assms(2)] by (elim exE conjE)
  note tick = tick_spec_timer [OF w1(4), unfolded set_mset_mset]
  show ?case
  proof (cases "t = 0")
    case True
    then have "(fd, f) \<in> set cs" using tick(1) Suc.prems(2) by simp
    then show ?thesis using w1 True by simp
  next
    case False
    have "fd \<notin> fst ` set cs" using tick(1) Suc.prems(3) False by fastforce
    moreover obtain css w' where "tick_times junk call t w1 = (Inr css, w')" "length css = t" "(fd, f) \<in> set (last css)"
      "\<forall>cs \<in> set (butlast css). fd \<notin> fst ` set cs" "wheel_inv w'" "mp w' = mp w1"
    proof -
      have here: "(fd, f, t) \<in># timers w1" using tick(2) Suc.prems(2) False by fastforce
      have only: "\<forall>g d. (fd, g, d) \<in># timers w1 \<longrightarrow> d = t" using tick(2) Suc.prems(3) by fastforce
      have "0 < t" using False by simp
      from Suc.IH [OF w1(2) here only this] show thesis by (elim exE conjE) (rule that)
    qed
    moreover have "css \<noteq> []" using calculation(3) False by auto
    ultimately show ?thesis using w1(1,3) by simp
  qed
qed simp

section \<open>Descriptors are never given back\<close>

lemma add_level_mp:
  assumes "list_all (\<lambda>i. i < 4) is" and "3 \<in> set is"
  shows "\<exists>w'. add_level is idx ex n w = (Inl Null_deref, w') \<and> mp w' = (mp w)(tn_fd n \<mapsto> next_node w)"
  using assms
proof (induction "is")
  case (Cons i "is")
  then show ?case
  proof (cases "unat idx < 2 ^ (8 + (i + 1) * 6)")
    case True
    then show ?thesis by (simp add: Let_def fun_upd_def)
  next
    case False
    have "unat idx < 2 ^ 32" using unsigned_less [of idx] by simp
    then have "i \<noteq> 3" using False by (intro notI) simp
    moreover have "add_level (i # is) idx ex n w = add_level is idx ex n w" using False by simp
    ultimately show ?thesis using Cons by simp
  qed
qed simp

lemma TW_Add_again: "fd \<in> dom (mp w) \<Longrightarrow> TW_Add junk fd f t w = (Inl Invalid_argument, w)"
  by (simp add: TW_Add_def TW_Add_at_def)

lemma TW_Add_mp: "dom (mp w) \<subseteq> dom (mp (snd (TW_Add junk fd f t w)))"
proof -
  obtain w' where "add_level [0, 1, 2, 3] (currenttime w + word_of_int t - currenttime w) (currenttime w + word_of_int t)
      (timernode_new junk fd (currenttime w + word_of_int t) f) w = (Inl Null_deref, w')"
    "mp w' = (mp w)(fd \<mapsto> next_node w)"
    using add_level_mp [of "[0, 1, 2, 3]"] by (fastforce simp: timernode_new_def)
  then show ?thesis by (auto simp: TW_Add_def TW_Add_at_def Let_def)
qed

lemma snd_bindc_mono:
  assumes "dom (mp w) \<subseteq> dom (mp (snd m))" and "\<And>x w'. dom (mp w') \<subseteq> dom (mp (snd (k x w')))"
  shows "dom (mp w) \<subseteq> dom (mp (snd (bindc m k)))"
proof (cases m)
  case (Pair r s)
  show ?thesis
  proof (cases r)
    case (Inr a)
    then show ?thesis using subset_trans [OF assms(1)] assms(2) [of s a] Pair by simp
  qed (use assms(1) Pair in simp)
qed

lemma cascade_slot_mp: "dom (mp w) \<subseteq> dom (mp (snd (cascade_slot junk ns w)))"
proof (induction ns arbitrary: w)
  case (Cons an ns)
  show ?case
    by (cases an, simp only: cascade_slot.simps) (intro snd_bindc_mono TW_Add_mp Cons.IH)
qed simp

lemma cascade_mp: "dom (mp w) \<subseteq> dom (mp (snd (cascade junk is w)))"
proof (induction "is" arbitrary: w)
  case (Cons i "is")
  show ?case unfolding cascade.simps Let_def
  proof (rule snd_bindc_mono [OF cascade_slot_mp])
    fix x :: unit and w' :: "'a TimerWheel"
    let ?w = "w'\<lparr>tv := (tv w')[i := (tv w' ! i)[NTH_INDEX (currenttime w) i := []]]\<rparr>"
    show "dom (mp w') \<subseteq> dom (mp (snd (if NTH_INDEX (currenttime w) i = 0 then cascade junk is ?w else (Inr (), ?w))))"
      by (cases "NTH_INDEX (currenttime w) i = 0") (use Cons.IH [of ?w] in \<open>simp_all only: if_True if_False\<close>, simp_all)
  qed
qed simp

lemma TW_Tick_mp: "dom (mp w) \<subseteq> dom (mp (snd (TW_Tick junk call w)))"
proof -
  let ?w = "w\<lparr>currenttime := currenttime w + 1\<rparr>"
  have "dom (mp ?w) \<subseteq> dom (mp (snd (TW_Tick junk call w)))"
    unfolding TW_Tick_def Let_def
  proof (rule snd_bindc_mono)
    show "dom (mp ?w) \<subseteq> dom (mp (snd (if FIRST_INDEX (currenttime ?w) = 0 then cascade junk [0, 1, 2, 3] ?w else (Inr (), ?w))))"
      by (cases "FIRST_INDEX (currenttime ?w) = 0") (use cascade_mp [of ?w] in \<open>simp_all only: simp_thms if_True if_False snd_conv subset_refl\<close>)
  qed (simp split: prod.split option.split)
  then show ?thesis by simp
qed

lemma tick_times_mp: "dom (mp w) \<subseteq> dom (mp (snd (tick_times junk call n w)))"
proof (induction n arbitrary: w)
  case (Suc n)
  show ?case unfolding tick_times.simps
    by (intro snd_bindc_mono TW_Tick_mp Suc.IH) simp
qed simp

section \<open>Properties\<close>

text \<open>C16: while no distance of 256 ticks or more was asked for and no callback throws, a tick of the wheel
  implements the abstract tick on the multiset of waiting timers: the timers whose delay is one are called,
  each as often as it is in the multiset, and every other timer waits one tick less.\<close>

theorem TW_Tick_refines:
  assumes "wheel_inv w" and "\<And>f fd. call f fd = None"
  shows "\<exists>cs w'. TW_Tick junk call w = (Inr cs, w') \<and> wheel_inv w' \<and> mp w' = mp w \<and>
     (mset cs, timers w') = tick_spec (timers w)"
  using assms by (rule TW_Tick_ok)

theorem TW_Tick_refines_witness:
  "\<exists>w. TW_Add 0 7 ''remove'' 1 TimerWheel_new = (Inr (), w) \<and>
     (\<exists>cs w'. TW_Tick 0 (\<lambda>f fd. None) w = (Inr cs, w') \<and> mset cs = {#(7, ''remove'')#} \<and> timers w' = {#})"
proof -
  have "(7 :: int) \<notin> dom (mp TimerWheel_new)" "(0 :: int) \<le> 1" "(1 :: int) < 256" by (simp_all add: TimerWheel_new_def)
  from TW_Add_ok [where junk = 0 and f = "''remove''", OF wheel_inv_new this] obtain w where
    w: "TW_Add 0 7 ''remove'' 1 TimerWheel_new = (Inr (), w)" "wheel_inv w"
    "timers w = {#(7, ''remove'', 1)#}" by (auto simp: timers_def TimerWheel_new_def)
  then show ?thesis
    using TW_Tick_refines [OF w(2), of "\<lambda>f fd. None" 0] by (auto simp: tick_spec_def)
qed

text \<open>C17: a timer that is added for a descriptor of which there was none before, with a distance of \<open>t\<close>
  ticks (more than none and less than 256), is called at the \<open>t\<close>-th tick and at none before it,
  whatever the other timers of the wheel are.\<close>

theorem timer_fires_on_time:
  assumes "wheel_inv w" and "fd \<notin> dom (mp w)" and "0 < t" and "t < 256" and "\<And>f fd. call f fd = None"
  shows "\<exists>w1 css w2. TW_Add junk fd f (int t) w = (Inr (), w1) \<and> tick_times junk call t w1 = (Inr css, w2) \<and>
     length css = t \<and> (fd, f) \<in> set (last css) \<and> (\<forall>cs \<in> set (butlast css). fd \<notin> fst ` set cs)"
proof -
  have "0 \<le> int t" "int t < 256" using assms(4) by simp_all
  from TW_Add_ok [where junk = junk and f = f, OF assms(1,2) this]
  obtain w1 where w1: "TW_Add junk fd f (int t) w = (Inr (), w1)" "wheel_inv w1"
    "timers w1 = add_mset (fd, f, if int t = 0 then 256 else nat (int t)) (timers w)" by (elim exE conjE)
  have here: "(fd, f, t) \<in># timers w1" using w1(3) assms(3) by simp
  have only: "\<forall>g d. (fd, g, d) \<in># timers w1 \<longrightarrow> d = t"
    using w1(3) timers_known [OF assms(1)] assms(2,3) by fastforce
  from tick_times_fires [where junk = junk and call = call, OF w1(2) assms(5) here only assms(3)] w1(1)
  show ?thesis by (elim exE conjE) (intro exI conjI)
qed

theorem timer_fires_on_time_witness:
  "\<exists>w1 css w2. TW_Add 0 7 ''remove'' (int 2) TimerWheel_new = (Inr (), w1) \<and>
     tick_times 0 (\<lambda>f fd. None) 2 w1 = (Inr css, w2) \<and>
     length css = 2 \<and> (7, ''remove'') \<in> set (last css) \<and> (\<forall>cs \<in> set (butlast css). 7 \<notin> fst ` set cs)"
  by (rule timer_fires_on_time [OF wheel_inv_new]) (simp_all add: TimerWheel_new_def)

text \<open>the entry of a descriptor in \<open>mp\<close> stays after its timer was called: \<open>TW_Update\<close> returns for no
  descriptor and in no state, and changes nothing, and a second timer for a descriptor is refused in whatever state a
  number of ticks leaves the wheel.\<close>

theorem descriptor_is_used_up:
  "(\<exists>e. TW_Update junk fd w = (Inl e, w)) \<and>
   (fd \<in> dom (mp w) \<longrightarrow>
     TW_Add junk fd f t (snd (tick_times junk call n w)) = (Inl Invalid_argument, snd (tick_times junk call n w)))"
proof
  show "\<exists>e. TW_Update junk fd w = (Inl e, w)"
    by (cases "mp w fd") (auto simp: TW_Update_def TW_Add_again domI split: option.split)
  show "fd \<in> dom (mp w) \<longrightarrow>
     TW_Add junk fd f t (snd (tick_times junk call n w)) = (Inl Invalid_argument, snd (tick_times junk call n w))"
    by (rule impI, rule TW_Add_again, rule subsetD [OF tick_times_mp])
qed

theorem descriptor_is_used_up_witness:
  "(\<exists>e. TW_Update 0 7 (snd (TW_Add 0 7 ''remove'' 2 TimerWheel_new)) = (Inl e, snd (TW_Add 0 7 ''remove'' 2 TimerWheel_new))) \<and>
   fst (TW_Add 0 7 ''close'' 2 (snd (tick_times 0 (\<lambda>f fd. None) 3 (snd (TW_Add 0 7 ''remove'' 2 TimerWheel_new))))) = Inl Invalid_argument"
proof -
  let ?w = "snd (TW_Add 0 7 ''remove'' 2 TimerWheel_new)"
  have "7 \<in> dom (mp ?w)" by (simp add: TW_Add_def TW_Add_at_def TimerWheel_new_def Let_def)
  then show ?thesis
    using descriptor_is_used_up [of 0 7 ?w "''close''" 2 "\<lambda>f fd. None" 3] by simp
qed

end
