(* ===== verification/Epoll.thy ===== *)
theory Epoll
  imports Prelude
begin

text \<open>
  \<open>src/src/net/epoll.h\<close>, \<open>epoll_event.h\<close> and \<open>epoll_event_result.h\<close>: the masks a
  descriptor is registered with, the array that \<open>epoll_wait\<close> fills and the access to it. The
  kernel keeps the registrations: what the program sees of a call is its arguments, which are
  recorded in order; no caller looks at the value of \<open>epoll_ctl\<close>.
\<close>

unbundle bit_operations_syntax

section \<open>Masks\<close>

type_synonym EpollEventType = "32 word"

definition EETCOULDREAD :: EpollEventType where "EETCOULDREAD = 0x001"
definition EETPRI :: EpollEventType where "EETPRI = 0x002"
definition EETCOULDWRITE :: EpollEventType where "EETCOULDWRITE = 0x004"
definition EETERRNO :: EpollEventType where "EETERRNO = 0x008"
definition EETHUP :: EpollEventType where "EETHUP = 0x010"
definition EETRDHUP :: EpollEventType where "EETRDHUP = 0x2000"
definition EETEXCLUSIVE :: EpollEventType where "EETEXCLUSIVE = 0x10000000"
definition EETWAKEUP :: EpollEventType where "EETWAKEUP = 0x20000000"
definition EETONLYONE :: EpollEventType where "EETONLYONE = 0x40000000"
definition EETEDGETRIGGER :: EpollEventType where "EETEDGETRIGGER = 0x80000000"

definition EpollTypeBase :: EpollEventType where
  "EpollTypeBase = (EETEDGETRIGGER OR EETONLYONE OR EETRDHUP)"

definition EpollCanRead :: EpollEventType where
  "EpollCanRead = (EpollTypeBase OR EETCOULDREAD)"

definition EpollCanWite :: EpollEventType where
  "EpollCanWite = (EpollTypeBase OR EETCOULDWRITE)"

definition EpollRW :: EpollEventType where
  "EpollRW = (EpollTypeBase OR EETCOULDWRITE OR EETCOULDREAD)"

definition EpollOnlyRead :: EpollEventType where
  "EpollOnlyRead = EETCOULDREAD"

lemmas mask_defs =
  EETCOULDREAD_def EETPRI_def EETCOULDWRITE_def EETERRNO_def EETHUP_def EETRDHUP_def EETEXCLUSIVE_def
  EETWAKEUP_def EETONLYONE_def EETEDGETRIGGER_def EpollTypeBase_def EpollCanRead_def EpollCanWite_def
  EpollRW_def EpollOnlyRead_def

section \<open>Events\<close>

record EpollEvent =
  events :: EpollEventType
  Return_fd :: int

definition EpollEvent_new :: EpollEvent where
  "EpollEvent_new = \<lparr>events = 0, Return_fd = 0\<rparr>"

definition EpollEvent_of_fd :: "int \<Rightarrow> EpollEvent" where
  "EpollEvent_of_fd fd = \<lparr>events = EpollRW, Return_fd = fd\<rparr>"

definition EpollEvent_of :: "int \<Rightarrow> EpollEventType \<Rightarrow> EpollEvent" where
  "EpollEvent_of fd EET = \<lparr>events = EET, Return_fd = fd\<rparr>"

definition check :: "EpollEvent \<Rightarrow> EpollEventType \<Rightarrow> bool" where
  "check e EET \<longleftrightarrow> events e AND EET \<noteq> 0"

fun check_all :: "EpollEvent \<Rightarrow> EpollEventType list \<Rightarrow> bool" where
  "check_all e [] = True"
| "check_all e (T # Ts) = (if events e AND T = 0 then False else check_all e Ts)"

section \<open>System calls\<close>

text \<open>
  The calls that change what the kernel watches, in order. \<open>Delivered\<close> marks the moment at
  which \<open>epoll_wait\<close> reports the event of a descriptor.
\<close>

datatype sys_call =
    Epoll_add int EpollEventType
  | Epoll_mod int EpollEventType
  | Epoll_del int
  | Close_fd int
  | Delivered int

definition Epoll_Add :: "EpollEvent \<Rightarrow> sys_call list \<Rightarrow> sys_call list" where
  "Epoll_Add e cs = cs @ [Epoll_add (Return_fd e) (events e)]"

definition Epoll_Modify :: "EpollEvent \<Rightarrow> sys_call list \<Rightarrow> sys_call list" where
  "Epoll_Modify e cs = cs @ [Epoll_mod (Return_fd e) (events e)]"

definition Epoll_Remove :: "EpollEvent \<Rightarrow> sys_call list \<Rightarrow> sys_call list" where
  "Epoll_Remove e cs = cs @ [Epoll_del (Return_fd e)]"

text \<open>
  What the kernel watches a descriptor for after the calls, by the documentation of \<open>epoll_ctl\<close>
  and \<open>epoll\<close>: a registration exists from an \<open>ADD\<close> to a \<open>DEL\<close> or the close of the
  descriptor, a second \<open>ADD\<close> and a \<open>MOD\<close> or \<open>DEL\<close> without a registration change
  nothing, and after an event is reported for a one-shot registration it is disabled, with mask 0,
  until the next \<open>MOD\<close>.
\<close>

fun watched_step :: "sys_call \<Rightarrow> (int \<rightharpoonup> EpollEventType) \<Rightarrow> (int \<rightharpoonup> EpollEventType)" where
  "watched_step (Epoll_add fd m) W = (if W fd = None then W(fd \<mapsto> m) else W)"
| "watched_step (Epoll_mod fd m) W = (if W fd = None then W else W(fd \<mapsto> m))"
| "watched_step (Epoll_del fd) W = W(fd := None)"
| "watched_step (Close_fd fd) W = W(fd := None)"
| "watched_step (Delivered fd) W =
     (case W fd of None \<Rightarrow> W | Some m \<Rightarrow> if m AND EETONLYONE \<noteq> 0 then W(fd \<mapsto> 0) else W)"

definition watched :: "sys_call list \<Rightarrow> int \<rightharpoonup> EpollEventType" where
  "watched cs = fold watched_step cs Map.empty"

lemma watched_append: "watched (cs @ ds) = fold watched_step ds (watched cs)"
  by (simp add: watched_def)

section \<open>The array of results\<close>

record EpollEvent_Result =
  er_array :: "EpollEvent list"
  Available_length :: nat
  All_length :: nat

definition EpollEvent_Result_new :: "nat \<Rightarrow> EpollEvent_Result" where
  "EpollEvent_Result_new len =
     \<lparr>er_array = replicate len EpollEvent_new, Available_length = 0, All_length = len\<rparr>"

text \<open>\<open>operator[]\<close> and \<open>at\<close>: the test admits the index behind the last one.\<close>

definition er_at :: "nat \<Rightarrow> EpollEvent_Result \<Rightarrow> cpp_error + EpollEvent" where
  "er_at i r =
     (if i > Available_length r then Inl Out_of_range
      else if i < length (er_array r) then Inr (er_array r ! i) else Inl Bad_access)"

text \<open>\<open>epoll_wait\<close> fails with -1 or overwrites a beginning of the array; the length is a \<open>size_t\<close>.\<close>

datatype wait_answer = Wait_failed | Ready "EpollEvent list"

definition Epoll_Wait :: "wait_answer \<Rightarrow> EpollEvent_Result \<Rightarrow> EpollEvent_Result" where
  "Epoll_Wait a r =
     (case a of
        Wait_failed \<Rightarrow> r\<lparr>Available_length := two64 - 1\<rparr>
      | Ready es \<Rightarrow> r\<lparr>er_array := blit (er_array r) 0 es, Available_length := length es\<rparr>)"

definition ready_ok :: "EpollEvent_Result \<Rightarrow> wait_answer \<Rightarrow> bool" where
  "ready_ok r a \<longleftrightarrow>
     (case a of Wait_failed \<Rightarrow> True | Ready es \<Rightarrow> length es \<le> All_length r \<and> length es < two64)"

lemma Epoll_Wait_at:
  assumes "length es \<le> length (er_array r)" and "i < length es"
  shows "er_at i (Epoll_Wait (Ready es) r) = Inr (es ! i)"
  using assms by (simp add: er_at_def Epoll_Wait_def blit_def nth_append)

text \<open>The masks that the handlers test.\<close>

lemma mask_checks:
  "events e = EETCOULDREAD \<Longrightarrow> check e EETCOULDREAD \<and> \<not> check e EETRDHUP \<and> \<not> check e EETCOULDWRITE"
  "events e = EETCOULDWRITE \<Longrightarrow> check e EETCOULDWRITE \<and> \<not> check e EETRDHUP \<and> \<not> check e EETCOULDREAD"
  "events e AND EETRDHUP \<noteq> 0 \<Longrightarrow> check e EETRDHUP"
  by (simp_all add: check_def EETCOULDREAD_def EETRDHUP_def EETCOULDWRITE_def)

lemma one_shot_masks:
  "EpollCanRead AND EETONLYONE \<noteq> 0" "EpollCanWite AND EETONLYONE \<noteq> 0" "EpollRW AND EETONLYONE \<noteq> 0"
  "EpollOnlyRead AND EETONLYONE = 0" "EpollCanRead \<noteq> 0" "EpollCanWite \<noteq> 0"
  by (simp_all add: mask_defs)

end
