(* ===== verification/Manger.thy ===== *)
theory Manger
  imports Member Timing_Wheel Epoll
begin

text \<open>
  \<open>src/src/server/manger.h\<close> and \<open>manger.cc\<close>: the connections of a worker thread, by
  descriptor. An operation works on what the environment keeps (the calls so far, what each peer
  will take, the values of \<open>::close\<close>) and on the manager.
\<close>

datatype timer_fun = Bind_Remove

record Manger =
  Fd_To_Member :: "int \<rightharpoonup> Member"
  Timer_Wheel :: "timer_fun TimerWheel"

record world =
  sys_calls :: "sys_call list"
  kernels :: "int \<Rightarrow> Kernel"
  close_value :: "int \<Rightarrow> int"

type_synonym reactor = "world \<times> Manger"

definition Manger_new :: Manger where
  "Manger_new = \<lparr>Fd_To_Member = Map.empty, Timer_Wheel = TimerWheel_new\<rparr>"

section \<open>System calls of the manager\<close>

definition m_add :: "EpollEvent \<Rightarrow> reactor \<Rightarrow> reactor" where
  "m_add e s = (case s of (w, m) \<Rightarrow> (w\<lparr>sys_calls := Epoll_Add e (sys_calls w)\<rparr>, m))"

definition m_modify :: "EpollEvent \<Rightarrow> reactor \<Rightarrow> reactor" where
  "m_modify e s = (case s of (w, m) \<Rightarrow> (w\<lparr>sys_calls := Epoll_Modify e (sys_calls w)\<rparr>, m))"

definition m_remove :: "EpollEvent \<Rightarrow> reactor \<Rightarrow> reactor" where
  "m_remove e s = (case s of (w, m) \<Rightarrow> (w\<lparr>sys_calls := Epoll_Remove e (sys_calls w)\<rparr>, m))"

text \<open>\<open>InitiativeClose\<close> of a member of the table, with the value of \<open>::close\<close>.\<close>

definition m_close :: "int \<Rightarrow> Member \<Rightarrow> reactor \<Rightarrow> int \<times> reactor" where
  "m_close fd mb s =
     (case s of (w, m) \<Rightarrow>
        (case InitiativeClose (close_value w fd) mb of
           (rv, mb) \<Rightarrow>
             (rv, w\<lparr>sys_calls := sys_calls w @ [Close_fd fd]\<rparr>, m\<lparr>Fd_To_Member := (Fd_To_Member m)(fd \<mapsto> mb)\<rparr>)))"

section \<open>Operations\<close>

definition Exist :: "int \<Rightarrow> Manger \<Rightarrow> bool" where
  "Exist fd m = (case Fd_To_Member m fd of None \<Rightarrow> False | Some _ \<Rightarrow> True)"

text \<open>
  Registering a descriptor: a new connection, or the one that had the descriptor before, cleared.
  The members that the constructor does not assign are \<open>junk\<close>.
\<close>

definition Opera_Member ::
  "HttpRequest \<times> 32 word \<Rightarrow> int \<Rightarrow> EpollEventType \<Rightarrow> reactor \<Rightarrow> (reactor, int) cpp" where
  "Opera_Member junk fd EE s =
     (case s of (w, m) \<Rightarrow>
        (case Fd_To_Member m fd of
           None \<Rightarrow>
             (Inr fd, m_add (EpollEvent_of fd EE)
                (w, m\<lparr>Fd_To_Member := (Fd_To_Member m)(fd \<mapsto> Member_Init (fst junk) (snd junk))\<rparr>))
         | Some mb \<Rightarrow>
             (case Member_clear mb of
                (Inl e, mb) \<Rightarrow> (Inl e, w, m\<lparr>Fd_To_Member := (Fd_To_Member m)(fd \<mapsto> mb)\<rparr>)
              | (Inr _, mb) \<Rightarrow>
                  (Inr fd, m_add (EpollEvent_of fd EE)
                     (w, m\<lparr>Fd_To_Member := (Fd_To_Member m)(fd \<mapsto> mb)\<rparr>)))))"

text \<open>
  The overloads that take over a connection: \<open>emplace\<close> leaves an entry that is there and
  destroys the new one, whose destructor closes the descriptor, a second time when the first call fails.
\<close>

definition Opera_Member_ptr :: "int \<Rightarrow> Member \<Rightarrow> EpollEventType \<Rightarrow> reactor \<Rightarrow> (reactor, int) cpp" where
  "Opera_Member_ptr fd mb EE s =
     (case s of (w, m) \<Rightarrow>
        (Inr fd, m_add (EpollEvent_of fd EE)
           (case Fd_To_Member m fd of
              None \<Rightarrow> (w, m\<lparr>Fd_To_Member := (Fd_To_Member m)(fd \<mapsto> mb)\<rparr>)
            | Some _ \<Rightarrow>
                (w\<lparr>sys_calls := sys_calls w @
                     (if close_value w fd = - 1 \<and> fd \<noteq> - 1 \<and> Have_Close mb then [Close_fd fd, Close_fd fd] else [Close_fd fd])\<rparr>, m))))"

definition Remove :: "int \<Rightarrow> reactor \<Rightarrow> (reactor, int) cpp" where
  "Remove fd s =
     (case Fd_To_Member (snd s) fd of
        None \<Rightarrow> (Inl Invalid_argument, s)
      | Some mb \<Rightarrow> (case m_close fd mb (m_remove (EpollEvent_of fd EpollTypeBase) s) of (rv, s) \<Rightarrow> (Inr rv, s)))"

text \<open>The values of \<open>Update\<close> and \<open>UpdateWrite\<close> are those of \<open>epoll_ctl\<close>, which no caller reads.\<close>

definition Update :: "int \<Rightarrow> reactor \<Rightarrow> (reactor, unit) cpp" where
  "Update fd s =
     (if Exist fd (snd s) then (Inr (), m_modify (EpollEvent_of fd EpollCanRead) s) else (Inl Invalid_argument, s))"

definition UpdateWrite :: "int \<Rightarrow> reactor \<Rightarrow> (reactor, unit) cpp" where
  "UpdateWrite fd s =
     (if Exist fd (snd s) then (Inr (), m_modify (EpollEvent_of fd EpollCanWite) s) else (Inl Invalid_argument, s))"

definition JudgeToClose :: "int \<Rightarrow> reactor \<Rightarrow> (reactor, int) cpp" where
  "JudgeToClose fd s =
     (case Fd_To_Member (snd s) fd of
        None \<Rightarrow> (Inl Invalid_argument, s)
      | Some mb \<Rightarrow>
          if \<not> WriteComplete mb then bindc (UpdateWrite fd s) (\<lambda>_ s. (Inr 0, s))
          else if CloseAble mb then (Inr 0, snd (m_close fd mb (m_remove (EpollEvent_of_fd fd) s)))
          else bindc (Update fd s) (\<lambda>_ s. (Inr 0, s)))"

text \<open>A handler of the connection, put back into the table.\<close>

definition m_put :: "int \<Rightarrow> world \<Rightarrow> Manger \<Rightarrow> (Kernel \<times> Member, unit) cpp \<Rightarrow> (reactor, unit) cpp" where
  "m_put fd w m res =
     (case res of (r, k, mb) \<Rightarrow>
        (r, w\<lparr>kernels := (kernels w)(fd := k)\<rparr>, m\<lparr>Fd_To_Member := (Fd_To_Member m)(fd \<mapsto> mb)\<rparr>))"

definition Reading :: "platform \<Rightarrow> recv_result list \<Rightarrow> int \<Rightarrow> reactor \<Rightarrow> ((reactor, unit) cpp) option" where
  "Reading pf ks fd s =
     (case s of (w, m) \<Rightarrow>
        (case Fd_To_Member m fd of
           None \<Rightarrow> Some (Inl Invalid_argument, s)
         | Some mb \<Rightarrow> map_option (m_put fd w m) (DoRead pf ks (kernels w fd, mb))))"

definition Writing :: "int \<Rightarrow> reactor \<Rightarrow> (reactor, unit) cpp" where
  "Writing fd s =
     (case s of (w, m) \<Rightarrow>
        (case Fd_To_Member m fd of
           None \<Rightarrow> (Inl Invalid_argument, s)
         | Some mb \<Rightarrow> m_put fd w m (DoWrite (kernels w fd, mb))))"

definition InsertTimeWheel :: "8 word \<Rightarrow> int \<Rightarrow> Manger \<Rightarrow> (Manger, unit) cpp" where
  "InsertTimeWheel junk fd m =
     (case (if Exist fd m then TW_Update junk fd (Timer_Wheel m) else TW_Add junk fd Bind_Remove 2 (Timer_Wheel m)) of
        (r, t) \<Rightarrow> (r, m\<lparr>Timer_Wheel := t\<rparr>))"

section \<open>What an operation leaves alone\<close>

lemma Exist_dom: "Exist fd m \<longleftrightarrow> fd \<in> dom (Fd_To_Member m)"
  by (auto simp: Exist_def split: option.split)

lemmas reactor_defs =
  m_add_def m_modify_def m_remove_def m_close_def m_put_def Epoll_Add_def Epoll_Modify_def Epoll_Remove_def
  EpollEvent_of_def EpollEvent_of_fd_def InitiativeClose_def

lemma m_put_calls [simp]:
  "sys_calls (fst (snd (m_put fd w m res))) = sys_calls w"
  "fst (m_put fd w m res) = fst res"
  "dom (Fd_To_Member (snd (snd (m_put fd w m res)))) = insert fd (dom (Fd_To_Member m))"
  by (auto simp: m_put_def split: prod.split)

lemma Reading_keeps:
  assumes "Reading pf ks fd (w, m) = Some (r, w', m')"
  shows "sys_calls w' = sys_calls w" "dom (Fd_To_Member m') = dom (Fd_To_Member m)"
proof -
  have "sys_calls w' = sys_calls w \<and> dom (Fd_To_Member m') = dom (Fd_To_Member m)"
  proof (cases "Fd_To_Member m fd")
    case (Some mb)
    then obtain res where "m_put fd w m res = (r, w', m')" using assms by (auto simp: Reading_def)
    then show ?thesis
      using m_put_calls(1,3) [of fd w m res] Some by (metis domI fst_conv insert_absorb snd_conv)
  qed (use assms in \<open>simp add: Reading_def\<close>)
  then show "sys_calls w' = sys_calls w" "dom (Fd_To_Member m') = dom (Fd_To_Member m)" by simp_all
qed

lemma Writing_keeps:
  assumes "Writing fd (w, m) = (r, w', m')"
  shows "sys_calls w' = sys_calls w" "dom (Fd_To_Member m') = dom (Fd_To_Member m)"
proof -
  have "sys_calls w' = sys_calls w \<and> dom (Fd_To_Member m') = dom (Fd_To_Member m)"
  proof (cases "Fd_To_Member m fd")
    case (Some mb)
    then show ?thesis
      using assms m_put_calls(1,3) [of fd w m "DoWrite (kernels w fd, mb)"]
      by (simp add: Writing_def) (metis domI fst_conv insert_absorb snd_conv)
  qed (use assms in \<open>simp add: Writing_def\<close>)
  then show "sys_calls w' = sys_calls w" "dom (Fd_To_Member m') = dom (Fd_To_Member m)" by simp_all
qed

text \<open>The calls of \<open>JudgeToClose\<close>: the descriptor is armed again, or closed.\<close>

definition judge_calls :: "int \<Rightarrow> Member \<Rightarrow> sys_call list" where
  "judge_calls fd mb =
     (if \<not> WriteComplete mb then [Epoll_mod fd EpollCanWite]
      else if CloseAble mb then [Epoll_del fd, Close_fd fd]
      else [Epoll_mod fd EpollCanRead])"

lemma JudgeToClose_runs:
  assumes "Fd_To_Member m fd = Some mb"
  shows "\<exists>w' m'. JudgeToClose fd (w, m) = (Inr 0, w', m') \<and> sys_calls w' = sys_calls w @ judge_calls fd mb \<and>
     dom (Fd_To_Member m') = dom (Fd_To_Member m) \<and> kernels w' = kernels w"
  using assms
  by (auto simp: JudgeToClose_def judge_calls_def UpdateWrite_def Update_def Exist_def reactor_defs)

lemma Remove_runs:
  assumes "Fd_To_Member m fd = Some mb"
  shows "\<exists>rv w' m'. Remove fd (w, m) = (Inr rv, w', m') \<and> sys_calls w' = sys_calls w @ [Epoll_del fd, Close_fd fd] \<and>
     dom (Fd_To_Member m') = dom (Fd_To_Member m) \<and> kernels w' = kernels w"
  using assms by (auto simp: Remove_def reactor_defs)

end
