(* ===== verification/Event_Loop.thy ===== *)
theory Event_Loop
  imports Manger
begin

text \<open>
  \<open>src/src/server/channel.h\<close> and \<open>channel.cc\<close>: the loop of a worker thread. The kernel's
  answers are inputs: what \<open>epoll_wait\<close> reports, and for each event what \<open>recv\<close> answers
  and what the read of the eventfd gives (0 when it fails, as \<open>Temp\<close> is left alone then).
\<close>

section \<open>The handler of an event\<close>

record channel =
  ptr_que :: "int list"
  ch_eventfd :: int
  ch_Manger :: Manger

type_synonym worker = "world \<times> channel"

record event_input =
  ei_recv :: "recv_result list"
  ei_count :: nat

definition channel_new :: "int \<Rightarrow> channel" where
  "channel_new fd = \<lparr>ptr_que = [], ch_eventfd = fd, ch_Manger = Manger_new\<rparr>"

definition on_manger :: "(reactor \<Rightarrow> (reactor, 'a) cpp) \<Rightarrow> worker \<Rightarrow> (worker, 'a) cpp" where
  "on_manger f s = (case s of (w, c) \<Rightarrow> (case f (w, ch_Manger c) of (r, w, m) \<Rightarrow> (r, w, c\<lparr>ch_Manger := m\<rparr>)))"

text \<open>The loop \<open>while (Temp--)\<close>: the descriptor is popped when it is registered.\<close>

fun register_new :: "(int \<Rightarrow> HttpRequest \<times> 32 word) \<Rightarrow> nat \<Rightarrow> worker \<Rightarrow> (worker, unit) cpp" where
  "register_new junk 0 s = (Inr (), s)"
| "register_new junk (Suc Temp) s =
     (case ptr_que (snd s) of
        [] \<Rightarrow> (Inl Assertion_failed, s)
      | fd # _ \<Rightarrow>
          bindc (on_manger (Opera_Member (junk fd) fd EpollCanRead) s) (\<lambda>_ (w, c).
            register_new junk Temp (w, c\<lparr>ptr_que := tl (ptr_que c)\<rparr>)))"

definition handle_eventfd :: "(int \<Rightarrow> HttpRequest \<times> 32 word) \<Rightarrow> nat \<Rightarrow> worker \<Rightarrow> (worker, unit) cpp" where
  "handle_eventfd junk Temp s =
     bindc (register_new junk Temp s) (\<lambda>_ (w, c).
       (Inr (), w\<lparr>sys_calls := Epoll_Modify (EpollEvent_of (ch_eventfd c) EpollCanRead) (sys_calls w)\<rparr>, c))"

definition handle_event ::
  "(int \<Rightarrow> HttpRequest \<times> 32 word) \<Rightarrow> platform \<Rightarrow> event_input \<Rightarrow> EpollEvent \<Rightarrow> worker \<Rightarrow> ((worker, unit) cpp) option" where
  "handle_event junk pf inp ev s =
     (let fd = Return_fd ev in
      if fd = ch_eventfd (snd s) then Some (handle_eventfd junk (ei_count inp) s)
      else if check ev EETRDHUP then Some (bindc (on_manger (Remove fd) s) (\<lambda>_ s. (Inr (), s)))
      else if check ev EETCOULDREAD then
        (case Reading pf (ei_recv inp) fd (fst s, ch_Manger (snd s)) of
           None \<Rightarrow> None
         | Some (r, w, m) \<Rightarrow>
             Some (bindc (r, w, (snd s)\<lparr>ch_Manger := m\<rparr>) (\<lambda>_ s.
                   bindc (on_manger (JudgeToClose fd) s) (\<lambda>_ s. (Inr (), s)))))
      else if check ev EETCOULDWRITE then
        Some (bindc (on_manger (Writing fd) s) (\<lambda>_ s.
              bindc (on_manger (JudgeToClose fd) s) (\<lambda>_ s. (Inr (), s))))
      else Some (Inr (), s))"

section \<open>The loop over the results\<close>

function for_events ::
  "(int \<Rightarrow> HttpRequest \<times> 32 word) \<Rightarrow> platform \<Rightarrow> (nat \<Rightarrow> event_input) \<Rightarrow> nat \<Rightarrow> EpollEvent_Result \<Rightarrow> worker
    \<Rightarrow> ((worker, unit) cpp) option" where
  "for_events junk pf ins i r s =
     (if \<not> i < Available_length r then Some (Inr (), s)
      else
        case er_at i r of
          Inl e \<Rightarrow> Some (Inl e, s)
        | Inr ev \<Rightarrow>
            (case handle_event junk pf (ins i) ev s of
               None \<Rightarrow> None
             | Some (Inl e, s) \<Rightarrow> Some (Inl e, s)
             | Some (Inr _, s) \<Rightarrow> for_events junk pf ins (i + 1) r s))"
  by pat_completeness auto

termination
  by (relation "measure (\<lambda>(junk, pf, ins, i, r, s). length (er_array r) - i)")
    (auto simp: er_at_def split: if_splits)

declare for_events.simps [simp del]

text \<open>
  One turn of the loop: the kernel reports events, they are handled, and an exception is caught,
  after which the loop starts again with a new array. Undefined behaviour is not caught.
\<close>

definition deliver :: "wait_answer \<Rightarrow> worker \<Rightarrow> worker" where
  "deliver a s =
     (case s of (w, c) \<Rightarrow>
        (w\<lparr>sys_calls := sys_calls w @ (case a of Wait_failed \<Rightarrow> [] | Ready es \<Rightarrow> map (\<lambda>e. Delivered (Return_fd e)) es)\<rparr>, c))"

definition EventResult_Number :: nat where
  "EventResult_Number = 8096"

definition looping_turn ::
  "(int \<Rightarrow> HttpRequest \<times> 32 word) \<Rightarrow> platform \<Rightarrow> (nat \<Rightarrow> event_input) \<Rightarrow> wait_answer \<Rightarrow> EpollEvent_Result \<times> worker
    \<Rightarrow> ((worker, EpollEvent_Result) cpp) option" where
  "looping_turn junk pf ins a rs =
     (case rs of (r, s) \<Rightarrow>
        let r = Epoll_Wait a r in
        case for_events junk pf ins 0 r (deliver a s) of
          None \<Rightarrow> None
        | Some (Inr _, s) \<Rightarrow> Some (Inr r, s)
        | Some (Inl e, s) \<Rightarrow>
            Some (if thrown e then Inr (EpollEvent_Result_new EventResult_Number) else Inl e, s))"

definition looping_start :: "int \<Rightarrow> world \<Rightarrow> EpollEvent_Result \<times> worker" where
  "looping_start fd w =
     (EpollEvent_Result_new EventResult_Number,
      w\<lparr>sys_calls := Epoll_Add (EpollEvent_of fd EpollCanRead) (sys_calls w)\<rparr>, channel_new fd)"

section \<open>The calls of a handler\<close>

text \<open>A socket event that is handled: only calls for its own descriptor, and no call when it throws.\<close>

definition ev_handled :: "EpollEvent \<Rightarrow> bool" where
  "ev_handled ev \<longleftrightarrow> check ev EETRDHUP \<or> check ev EETCOULDREAD \<or> check ev EETCOULDWRITE"

definition closing_calls :: "int \<Rightarrow> sys_call list set" where
  "closing_calls fd = {[Epoll_mod fd EpollCanWite], [Epoll_mod fd EpollCanRead], [Epoll_del fd, Close_fd fd]}"

lemma judge_calls_closing: "judge_calls fd mb \<in> closing_calls fd"
  by (simp add: judge_calls_def closing_calls_def)

lemma Judge_on_manger:
  assumes "fd \<in> dom (Fd_To_Member (ch_Manger c))"
  shows "\<exists>w' c' cs. on_manger (JudgeToClose fd) (w, c) = (Inr 0, w', c') \<and> sys_calls w' = sys_calls w @ cs \<and>
     cs \<in> closing_calls fd \<and> dom (Fd_To_Member (ch_Manger c')) = dom (Fd_To_Member (ch_Manger c)) \<and>
     ch_eventfd c' = ch_eventfd c \<and> ptr_que c' = ptr_que c"
proof -
  obtain mb where mb: "Fd_To_Member (ch_Manger c) fd = Some mb" using assms by auto
  obtain w' m' where "JudgeToClose fd (w, ch_Manger c) = (Inr 0, w', m')" "sys_calls w' = sys_calls w @ judge_calls fd mb"
    "dom (Fd_To_Member m') = dom (Fd_To_Member (ch_Manger c))"
    using JudgeToClose_runs [of "ch_Manger c" fd mb w, OF mb] by blast
  then show ?thesis using judge_calls_closing [of fd mb] by (auto simp: on_manger_def)
qed

lemma Remove_on_manger:
  assumes "fd \<in> dom (Fd_To_Member (ch_Manger c))"
  shows "\<exists>rv w' c'. on_manger (Remove fd) (w, c) = (Inr rv, w', c') \<and>
     sys_calls w' = sys_calls w @ [Epoll_del fd, Close_fd fd] \<and>
     dom (Fd_To_Member (ch_Manger c')) = dom (Fd_To_Member (ch_Manger c)) \<and>
     ch_eventfd c' = ch_eventfd c \<and> ptr_que c' = ptr_que c"
proof -
  obtain mb where mb: "Fd_To_Member (ch_Manger c) fd = Some mb" using assms by auto
  from Remove_runs [of "ch_Manger c" fd mb w, OF mb] show ?thesis by (auto simp: on_manger_def)
qed

lemma missing_member:
  assumes "fd \<notin> dom (Fd_To_Member m)"
  shows "Reading pf ks fd (w, m) = Some (Inl Invalid_argument, w, m)"
    "Writing fd (w, m) = (Inl Invalid_argument, w, m)" "Remove fd (w, m) = (Inl Invalid_argument, w, m)"
  using assms by (auto simp: Reading_def Writing_def Remove_def split: option.split)

text \<open>The outcome of the handler of a socket: an error without a call, or one of the three call sequences.\<close>

definition socket_outcome :: "int \<Rightarrow> worker \<Rightarrow> (worker, unit) cpp \<Rightarrow> bool" where
  "socket_outcome fd s res \<longleftrightarrow>
     (case res of (r, w', c') \<Rightarrow>
        dom (Fd_To_Member (ch_Manger c')) = dom (Fd_To_Member (ch_Manger (snd s))) \<and>
        ch_eventfd c' = ch_eventfd (snd s) \<and> ptr_que c' = ptr_que (snd s) \<and>
        (case r of
           Inl e \<Rightarrow> sys_calls w' = sys_calls (fst s)
         | Inr _ \<Rightarrow> \<exists>cs \<in> closing_calls fd. sys_calls w' = sys_calls (fst s) @ cs))"

lemma judged_outcome:
  assumes "sys_calls w1 = sys_calls w" "dom (Fd_To_Member m1) = dom (Fd_To_Member (ch_Manger c))"
  shows "socket_outcome fd (w, c)
     (bindc (r, w1, c\<lparr>ch_Manger := m1\<rparr>) (\<lambda>_ s. bindc (on_manger (JudgeToClose fd) s) (\<lambda>_ s. (Inr (), s))))"
proof (cases r)
  case (Inl e)
  then show ?thesis using assms by (simp add: socket_outcome_def)
next
  case (Inr x)
  show ?thesis
  proof (cases "fd \<in> dom (Fd_To_Member m1)")
    case True
    then have "fd \<in> dom (Fd_To_Member (ch_Manger (c\<lparr>ch_Manger := m1\<rparr>)))" by simp
    from Judge_on_manger [OF this, of w1] show ?thesis
      using Inr assms(1,2) by (elim exE conjE) (simp add: socket_outcome_def)
  next
    case False
    then have "JudgeToClose fd (w1, m1) = (Inl Invalid_argument, w1, m1)" by (auto simp: JudgeToClose_def split: option.split)
    then show ?thesis using Inr assms(1,2) by (simp add: socket_outcome_def on_manger_def)
  qed
qed

lemma handle_socket:
  assumes "Return_fd ev \<noteq> ch_eventfd c" and "ev_handled ev" and "handle_event junk pf inp ev (w, c) = Some res"
  shows "socket_outcome (Return_fd ev) (w, c) res"
proof -
  let ?fd = "Return_fd ev"
  show ?thesis
  proof (cases "check ev EETRDHUP")
    case True
    then have res: "res = bindc (on_manger (Remove ?fd) (w, c)) (\<lambda>_ s. (Inr (), s))"
      using assms(1,3) by (simp add: handle_event_def Let_def)
    show ?thesis
    proof (cases "?fd \<in> dom (Fd_To_Member (ch_Manger c))")
      case True
      from Remove_on_manger [OF this, of w] show ?thesis
        unfolding res by (elim exE conjE) (simp add: socket_outcome_def closing_calls_def)
    next
      case False
      then show ?thesis unfolding res by (simp add: on_manger_def missing_member socket_outcome_def)
    qed
  next
    case False
    note hup = this
    show ?thesis
    proof (cases "check ev EETCOULDREAD")
      case True
      then obtain r w1 m1 where rd: "Reading pf (ei_recv inp) ?fd (w, ch_Manger c) = Some (r, w1, m1)"
        using assms(1,3) hup by (auto simp: handle_event_def Let_def split: option.splits prod.splits)
      then have res: "res = bindc (r, w1, c\<lparr>ch_Manger := m1\<rparr>) (\<lambda>_ s. bindc (on_manger (JudgeToClose ?fd) s) (\<lambda>_ s. (Inr (), s)))"
        using assms(1,3) hup True by (simp add: handle_event_def Let_def)
      show ?thesis unfolding res using Reading_keeps [OF rd] by (intro judged_outcome) auto
    next
      case False
      then have "check ev EETCOULDWRITE" using assms(2) hup by (simp add: ev_handled_def)
      moreover obtain r w1 m1 where wr: "Writing ?fd (w, ch_Manger c) = (r, w1, m1)"
        by (cases "Writing ?fd (w, ch_Manger c)") auto
      ultimately have res: "res = bindc (r, w1, c\<lparr>ch_Manger := m1\<rparr>) (\<lambda>_ s. bindc (on_manger (JudgeToClose ?fd) s) (\<lambda>_ s. (Inr (), s)))"
        using assms(1,3) hup False by (simp add: handle_event_def Let_def on_manger_def)
      show ?thesis unfolding res using Writing_keeps [OF wr] by (intro judged_outcome) auto
    qed
  qed
qed

section \<open>What is watched after a batch\<close>

definition rearmed :: "EpollEventType option \<Rightarrow> bool" where
  "rearmed m \<longleftrightarrow> m \<in> {None, Some EpollCanRead, Some EpollCanWite}"

lemma closing_calls_watched:
  assumes "cs \<in> closing_calls fd" and "watched cs0 fd \<noteq> None"
  shows "rearmed (watched (cs0 @ cs) fd)" and "fd' \<noteq> fd \<Longrightarrow> watched (cs0 @ cs) fd' = watched cs0 fd'"
  using assms by (auto simp: closing_calls_def watched_append rearmed_def)

lemma delivered_watched:
  "fold watched_step (map (\<lambda>e. Delivered (Return_fd e)) es) W fd =
     (case W fd of
        Some m \<Rightarrow> if fd \<in> Return_fd ` set es \<and> m AND EETONLYONE \<noteq> 0 then Some 0 else Some m
      | None \<Rightarrow> None)"
proof (induction es arbitrary: W)
  case (Cons e es)
  show ?case
    by (cases "W fd"; cases "W (Return_fd e)")
      (auto simp: Cons.IH split: option.splits if_splits)
qed (simp split: option.split)

text \<open>The events of a batch, all of sockets that are registered for one event.\<close>

definition batch_ok :: "EpollEvent list \<Rightarrow> worker \<Rightarrow> bool" where
  "batch_ok es s \<longleftrightarrow>
     distinct (map Return_fd es) \<and>
     (\<forall>e \<in> set es. ev_handled e \<and> Return_fd e \<noteq> ch_eventfd (snd s) \<and>
        (\<exists>m. watched (sys_calls (fst s)) (Return_fd e) = Some m \<and> m AND EETONLYONE \<noteq> 0))"

text \<open>After the first \<open>k\<close> events were handled, from the \<open>i\<close>-th on.\<close>

definition batch_done :: "EpollEvent list \<Rightarrow> nat \<Rightarrow> nat \<Rightarrow> sys_call list \<Rightarrow> sys_call list \<Rightarrow> bool" where
  "batch_done es i k cs cs' \<longleftrightarrow>
     i \<le> k \<and> k \<le> length es \<and> (\<forall>j \<in> {i..<k}. rearmed (watched cs' (Return_fd (es ! j)))) \<and>
     (\<forall>fd. fd \<notin> (\<lambda>j. Return_fd (es ! j)) ` {i..<k} \<longrightarrow> watched cs' fd = watched cs fd)"

lemma batch_done_start: "i \<le> length es \<Longrightarrow> batch_done es i i cs cs"
  by (simp add: batch_done_def del: One_nat_def)

lemma batch_done_step:
  assumes later: "batch_done es (Suc i) k cs1 cs'" and i: "i < length es" and dist: "distinct (map Return_fd es)"
    and now: "rearmed (watched cs1 (Return_fd (es ! i)))"
      "\<And>fd. fd \<noteq> Return_fd (es ! i) \<Longrightarrow> watched cs1 fd = watched cs fd"
  shows "batch_done es i k cs cs'"
proof -
  have k: "Suc i \<le> k" "k \<le> length es" and all: "\<forall>j \<in> {Suc i..<k}. rearmed (watched cs' (Return_fd (es ! j)))"
    and same: "\<And>fd. fd \<notin> (\<lambda>j. Return_fd (es ! j)) ` {Suc i..<k} \<Longrightarrow> watched cs' fd = watched cs1 fd"
    using later by (simp_all add: batch_done_def)
  have range: "{i..<k} = insert i {Suc i..<k}" using k by auto
  have "Return_fd (es ! i) \<noteq> Return_fd (es ! j)" if "j \<in> {Suc i..<k}" for j
    using nth_eq_iff_index_eq [OF dist, of i j] that i k by simp
  then have "Return_fd (es ! i) \<notin> (\<lambda>j. Return_fd (es ! j)) ` {Suc i..<k}" by blast
  then have "rearmed (watched cs' (Return_fd (es ! i)))" using same now(1) by simp
  then show ?thesis using k all same now(2) unfolding batch_done_def range by simp
qed

lemma for_events_batch:
  assumes "for_events junk pf ins i r (w, c) = Some (res, w', c')"
    and "Available_length r = length es" and "\<And>j. j < length es \<Longrightarrow> er_at j r = Inr (es ! j)"
    and "i \<le> length es" and "distinct (map Return_fd es)"
    and "\<And>e. e \<in> set es \<Longrightarrow> ev_handled e \<and> Return_fd e \<noteq> ch_eventfd c"
    and "\<And>j. i \<le> j \<Longrightarrow> j < length es \<Longrightarrow> watched (sys_calls w) (Return_fd (es ! j)) \<noteq> None"
  shows "\<exists>k. batch_done es i k (sys_calls w) (sys_calls w') \<and> (case res of Inl e \<Rightarrow> k < length es | Inr _ \<Rightarrow> k = length es)"
  using assms
proof (induction junk pf ins i r "(w, c)" arbitrary: w c rule: for_events.induct)
  case (1 junk pf ins i r)
  show ?case
  proof (cases "i < length es")
    case False
    then have "res = Inr ()" "w' = w" using "1.prems"(1,2) by (simp_all add: for_events.simps [of _ _ _ i])
    then show ?thesis using batch_done_start [of i es "sys_calls w"] "1.prems"(4) False by auto
  next
    case True
    let ?ev = "es ! i"
    have ev: "er_at i r = Inr ?ev" "ev_handled ?ev" "Return_fd ?ev \<noteq> ch_eventfd c"
      using "1.prems"(3,6) True by simp_all
    obtain rr w1 c1 where h: "handle_event junk pf (ins i) ?ev (w, c) = Some (rr, w1, c1)"
      using "1.prems"(1,2) ev(1) True
      by (auto simp: for_events.simps [of _ _ _ i] split: option.splits)
    have out: "socket_outcome (Return_fd ?ev) (w, c) (rr, w1, c1)"
      using handle_socket [OF ev(3,2) h] .
    show ?thesis
    proof (cases rr)
      case (Inl e)
      then have "res = Inl e" "w' = w1"
        using "1.prems"(1,2) ev(1) True h by (simp_all add: for_events.simps [of _ _ _ i])
      then show ?thesis
        using out Inl True batch_done_start [of i es] by (auto simp: socket_outcome_def)
    next
      case (Inr u)
      then obtain cs where cs: "cs \<in> closing_calls (Return_fd ?ev)" "sys_calls w1 = sys_calls w @ cs"
        "ch_eventfd c1 = ch_eventfd c"
        using out by (auto simp: socket_outcome_def)
      have rest: "for_events junk pf ins (i + 1) r (w1, c1) = Some (res, w', c')"
        using "1.prems"(1,2) ev(1) True h Inr by (simp add: for_events.simps [of _ _ _ i])
      note now = closing_calls_watched [OF cs(1) "1.prems"(7) [OF le_refl True], folded cs(2)]
      have ne: "watched (sys_calls w1) (Return_fd (es ! j)) \<noteq> None" if "i + 1 \<le> j" "j < length es" for j
      proof -
        have "Return_fd (es ! j) \<noteq> Return_fd ?ev"
          using nth_eq_iff_index_eq [OF "1.prems"(5), of j i] that True by simp
        then show ?thesis using now(2) "1.prems"(7) that by simp
      qed
      have "\<exists>k. batch_done es (i + 1) k (sys_calls w1) (sys_calls w') \<and>
          (case res of Inl e \<Rightarrow> k < length es | Inr _ \<Rightarrow> k = length es)"
        by (rule "1.hyps" [OF _ ev(1) h refl Inr rest])
          (use "1.prems" True Inr cs(3) ne in \<open>simp_all\<close>)
      then show ?thesis
        using batch_done_step [OF _ True "1.prems"(5) now] by auto
    qed
  qed
qed

lemma deliver_simps:
  "deliver (Ready es) (w, c) = (w\<lparr>sys_calls := sys_calls w @ map (\<lambda>e. Delivered (Return_fd e)) es\<rparr>, c)"
  "deliver Wait_failed (w, c) = (w, c)"
  by (simp_all add: deliver_def)

lemma delivered_batch:
  assumes "batch_ok es (w, c)"
  shows "e \<in> set es \<Longrightarrow> watched (sys_calls (fst (deliver (Ready es) (w, c)))) (Return_fd e) = Some 0"
    and "fd \<notin> Return_fd ` set es \<Longrightarrow> watched (sys_calls (fst (deliver (Ready es) (w, c)))) fd = watched (sys_calls w) fd"
  using assms by (auto simp: deliver_simps watched_append delivered_watched batch_ok_def split: option.split)

lemma batch_outcome:
  assumes "batch_ok es (w, c)" and "length es \<le> length (er_array r)"
    and "for_events junk pf ins 0 (Epoll_Wait (Ready es) r) (deliver (Ready es) (w, c)) = Some (res, w', c')"
  shows "\<exists>k. (case res of Inl e \<Rightarrow> k < length es | Inr _ \<Rightarrow> k = length es) \<and>
     (\<forall>j < k. rearmed (watched (sys_calls w') (Return_fd (es ! j)))) \<and>
     (\<forall>j. k \<le> j \<and> j < length es \<longrightarrow> watched (sys_calls w') (Return_fd (es ! j)) = Some 0) \<and>
     (\<forall>fd. fd \<notin> Return_fd ` set es \<longrightarrow> watched (sys_calls w') fd = watched (sys_calls w) fd)"
proof -
  let ?w = "w\<lparr>sys_calls := sys_calls w @ map (\<lambda>e. Delivered (Return_fd e)) es\<rparr>"
  have calls: "sys_calls ?w = sys_calls (fst (deliver (Ready es) (w, c)))" by (simp add: deliver_simps)
  have dist: "distinct (map Return_fd es)" using assms(1) by (simp add: batch_ok_def)
  obtain k where k: "batch_done es 0 k (sys_calls ?w) (sys_calls w')"
    "case res of Inl e \<Rightarrow> k < length es | Inr _ \<Rightarrow> k = length es"
  proof -
    have "\<exists>k. batch_done es 0 k (sys_calls ?w) (sys_calls w') \<and>
        (case res of Inl e \<Rightarrow> k < length es | Inr _ \<Rightarrow> k = length es)"
    proof (rule for_events_batch [OF assms(3) [unfolded deliver_simps]])
      show "er_at j (Epoll_Wait (Ready es) r) = Inr (es ! j)" if "j < length es" for j
        using Epoll_Wait_at [OF assms(2) that] .
      show "watched (sys_calls ?w) (Return_fd (es ! j)) \<noteq> None" if "j < length es" for j
        using delivered_batch(1) [OF assms(1) nth_mem [OF that]] unfolding calls by simp
      show "ev_handled e \<and> Return_fd e \<noteq> ch_eventfd c" if "e \<in> set es" for e
        using assms(1) that by (simp add: batch_ok_def)
    qed (simp_all add: Epoll_Wait_def dist)
    then show thesis using that by blast
  qed
  have late: "watched (sys_calls w') (Return_fd (es ! j)) = Some 0" if "k \<le> j" "j < length es" for j
  proof -
    have "Return_fd (es ! j) \<noteq> Return_fd (es ! i)" if "i < k" for i
      using nth_eq_iff_index_eq [OF dist, of j i] that \<open>k \<le> j\<close> \<open>j < length es\<close> by simp
    then have "Return_fd (es ! j) \<notin> (\<lambda>j. Return_fd (es ! j)) ` {0..<k}" by (simp add: image_iff)
    then show ?thesis
      using k(1) delivered_batch(1) [OF assms(1) nth_mem [OF that(2)]] by (simp add: batch_done_def calls)
  qed
  have other: "watched (sys_calls w') fd = watched (sys_calls w) fd" if "fd \<notin> Return_fd ` set es" for fd
  proof -
    have "fd \<notin> (\<lambda>j. Return_fd (es ! j)) ` {0..<k}" using that k(1) by (auto simp: batch_done_def)
    then show ?thesis using k(1) delivered_batch(2) [OF assms(1) that] by (simp add: batch_done_def calls)
  qed
  show ?thesis using k late other by (auto simp: batch_done_def)
qed

text \<open>A failed \<open>epoll_wait\<close>: the length is the largest \<open>size_t\<close>.\<close>

lemma for_events_long:
  assumes "length (er_array r) < Available_length r" and "i \<le> length (er_array r)"
  shows "for_events junk pf ins i r s \<noteq> Some (Inr (), s')"
  using assms
proof (induction junk pf ins i r s rule: for_events.induct)
  case (1 junk pf ins i r s)
  then show ?case
    by (auto simp: for_events.simps [of junk pf ins i r s] er_at_def split: option.splits prod.splits sum.splits)
qed

lemma for_events_blank:
  assumes "er_array r = replicate n EpollEvent_new" and "n < Available_length r" and "ch_eventfd (snd s) \<noteq> 0" and "i \<le> n"
  shows "for_events junk pf ins i r s = Some (Inl Bad_access, s)"
  using assms(4)
proof (induction "n - i" arbitrary: i)
  case 0
  then show ?case using assms(1,2) by (simp add: for_events.simps [of _ _ _ i] er_at_def)
next
  case (Suc d)
  have "handle_event junk pf (ins i) EpollEvent_new s = Some (Inr (), s)"
    using assms(3) by (simp add: handle_event_def EpollEvent_new_def check_def Let_def)
  moreover have "er_at i r = Inr EpollEvent_new" "i < Available_length r" using assms(1,2) Suc.hyps(2) by (simp_all add: er_at_def)
  moreover have "for_events junk pf ins (i + 1) r s = Some (Inl Bad_access, s)" using Suc by simp
  ultimately show ?case by (simp add: for_events.simps [of _ _ _ i])
qed

section \<open>Properties\<close>

text \<open>C19: When a batch of socket events was handled without an exception, every connection of the batch is
  registered for its next event again, for reading or for writing, or it is closed and not registered any more; no other
  registration changed. (\<open>epoll_wait\<close> had disabled the one-shot registrations of the batch.)\<close>

theorem handled_batch_rearms:
  assumes "batch_ok es (w, c)" and "length es \<le> length (er_array r)"
    and "for_events junk pf ins 0 (Epoll_Wait (Ready es) r) (deliver (Ready es) (w, c)) = Some (Inr (), w', c')"
  shows "(\<forall>e \<in> set es. rearmed (watched (sys_calls w') (Return_fd e))) \<and>
     (\<forall>fd. fd \<notin> Return_fd ` set es \<longrightarrow> watched (sys_calls w') fd = watched (sys_calls w) fd)"
  using batch_outcome [OF assms] by (auto simp: in_set_conv_nth)

definition sample_world :: world where
  "sample_world = \<lparr>sys_calls = [Epoll_add 5 EpollCanRead],
     kernels = \<lambda>fd. \<lparr>answers = [], wire = [], errno = EWOULDBLOCK\<rparr>, close_value = \<lambda>fd. 0\<rparr>"

definition sample_channel :: "(int \<rightharpoonup> Member) \<Rightarrow> channel" where
  "sample_channel ms = (channel_new 4)\<lparr>ch_Manger := Manger_new\<lparr>Fd_To_Member := ms\<rparr>\<rparr>"

lemma sample_batch: "batch_ok [EpollEvent_of 5 EETRDHUP] (sample_world, sample_channel ms)"
    "batch_ok [EpollEvent_of 5 EETCOULDREAD] (sample_world, sample_channel ms)"
  using one_shot_masks(1)
  by (auto simp: batch_ok_def ev_handled_def check_def EpollEvent_of_def sample_channel_def channel_new_def
      sample_world_def watched_def EETRDHUP_def EETCOULDREAD_def)

theorem handled_batch_rearms_witness:
  "\<forall>junk pf ins mb. \<exists>w' c'. for_events junk pf ins 0 (Epoll_Wait (Ready [EpollEvent_of 5 EETRDHUP]) (EpollEvent_Result_new 2))
      (deliver (Ready [EpollEvent_of 5 EETRDHUP]) (sample_world, sample_channel [5 \<mapsto> mb])) = Some (Inr (), w', c') \<and>
     rearmed (watched (sys_calls w') 5)"
proof (intro allI)
  fix junk pf ins mb
  let ?r = "Epoll_Wait (Ready [EpollEvent_of 5 EETRDHUP]) (EpollEvent_Result_new 2)"
  have "\<exists>w' c'. for_events junk pf ins 0 ?r (deliver (Ready [EpollEvent_of 5 EETRDHUP]) (sample_world, sample_channel [5 \<mapsto> mb]))
      = Some (Inr (), w', c')"
    by (simp add: for_events.simps [of _ _ _ 0] for_events.simps [of _ _ _ "Suc 0"] Epoll_Wait_def EpollEvent_Result_new_def
        er_at_def blit_def handle_event_def deliver_simps EpollEvent_of_def check_def EETRDHUP_def sample_channel_def channel_new_def
        on_manger_def Remove_def Manger_new_def m_remove_def m_close_def InitiativeClose_def Let_def)
  then obtain w' c' where run: "for_events junk pf ins 0 ?r
      (deliver (Ready [EpollEvent_of 5 EETRDHUP]) (sample_world, sample_channel [5 \<mapsto> mb])) = Some (Inr (), w', c')" by blast
  show "\<exists>w' c'. for_events junk pf ins 0 ?r
      (deliver (Ready [EpollEvent_of 5 EETRDHUP]) (sample_world, sample_channel [5 \<mapsto> mb])) = Some (Inr (), w', c') \<and>
     rearmed (watched (sys_calls w') 5)"
    using run handled_batch_rearms [OF sample_batch(1) _ run]
    by (auto simp: EpollEvent_Result_new_def EpollEvent_of_def)
qed

text \<open>When the handler of an event of a batch throws, the loop goes on with a new array: the events from that one
  on are handled by nobody, and the registrations of their connections stay disabled.\<close>

theorem exception_drops_batch:
  assumes "batch_ok es (w, c)" and "length es \<le> length (er_array r)"
    and "for_events junk pf ins 0 (Epoll_Wait (Ready es) r) (deliver (Ready es) (w, c)) = Some (Inl e, w', c')" and "thrown e"
  shows "looping_turn junk pf ins (Ready es) (r, w, c) = Some (Inr (EpollEvent_Result_new EventResult_Number), w', c') \<and>
     (\<exists>k < length es. (\<forall>j < k. rearmed (watched (sys_calls w') (Return_fd (es ! j)))) \<and>
        (\<forall>j. k \<le> j \<and> j < length es \<longrightarrow> watched (sys_calls w') (Return_fd (es ! j)) = Some 0))"
  using batch_outcome [OF assms(1-3)] assms(3,4) by (auto simp: looping_turn_def Let_def)

theorem exception_drops_batch_witness:
  "\<forall>junk pf ins. \<exists>w' c'.
     looping_turn junk pf ins (Ready [EpollEvent_of 5 EETCOULDREAD]) (EpollEvent_Result_new 2, sample_world, sample_channel Map.empty)
       = Some (Inr (EpollEvent_Result_new EventResult_Number), w', c') \<and> watched (sys_calls w') 5 = Some 0"
proof (intro allI)
  fix junk pf ins
  let ?e = "EpollEvent_of 5 EETCOULDREAD" and ?c = "sample_channel Map.empty"
  obtain w' where run: "for_events junk pf ins 0 (Epoll_Wait (Ready [?e]) (EpollEvent_Result_new 2)) (deliver (Ready [?e]) (sample_world, ?c))
      = Some (Inl Invalid_argument, w', ?c)"
    by (simp add: for_events.simps [of _ _ _ 0] Epoll_Wait_def EpollEvent_Result_new_def er_at_def blit_def handle_event_def
        deliver_simps EpollEvent_of_def check_def EETRDHUP_def EETCOULDREAD_def sample_channel_def channel_new_def
        Reading_def Manger_new_def Let_def)
  show "\<exists>w' c'. looping_turn junk pf ins (Ready [?e]) (EpollEvent_Result_new 2, sample_world, ?c)
       = Some (Inr (EpollEvent_Result_new EventResult_Number), w', c') \<and> watched (sys_calls w') 5 = Some 0"
    using exception_drops_batch [OF sample_batch(2) _ run]
    by (auto simp: thrown_def EpollEvent_Result_new_def EpollEvent_of_def)
qed

text \<open>The worker's loop does not look for the value -1 of \<open>epoll_wait\<close>: after an interrupted call
  the loop over the results never comes to its end, and in a worker that had no events yet it handles the empty entries and
  then reads behind the array.\<close>

theorem interrupted_wait_overruns:
  assumes "length (er_array r) < two64 - 1"
  shows "for_events junk pf ins 0 (Epoll_Wait Wait_failed r) s \<noteq> Some (Inr (), s') \<and>
     (fd \<noteq> 0 \<longrightarrow> (\<exists>s. looping_turn junk pf ins Wait_failed (looping_start fd w) = Some (Inl Bad_access, s)))"
proof
  show "for_events junk pf ins 0 (Epoll_Wait Wait_failed r) s \<noteq> Some (Inr (), s')"
    using assms by (intro for_events_long) (simp_all add: Epoll_Wait_def)
  show "fd \<noteq> 0 \<longrightarrow> (\<exists>s. looping_turn junk pf ins Wait_failed (looping_start fd w) = Some (Inl Bad_access, s))"
  proof
    assume "fd \<noteq> 0"
    then have "for_events junk pf ins 0 (Epoll_Wait Wait_failed (EpollEvent_Result_new EventResult_Number)) (w', channel_new fd)
        = Some (Inl Bad_access, w', channel_new fd)" for w'
      by (intro for_events_blank [of _ EventResult_Number])
        (simp_all add: Epoll_Wait_def EpollEvent_Result_new_def EventResult_Number_def two64_def channel_new_def)
    then show "\<exists>s. looping_turn junk pf ins Wait_failed (looping_start fd w) = Some (Inl Bad_access, s)"
      by (simp add: looping_turn_def looping_start_def deliver_simps thrown_def)
  qed
qed

theorem interrupted_wait_overruns_witness:
  "\<forall>junk pf ins. \<exists>s. looping_turn junk pf ins Wait_failed (looping_start 4 sample_world) = Some (Inl Bad_access, s)"
proof (intro allI)
  fix junk pf ins
  have "length (er_array (EpollEvent_Result_new 2)) < two64 - 1" by (simp add: EpollEvent_Result_new_def two64_def)
  from interrupted_wait_overruns [OF this, of junk pf ins _ _ 4 sample_world]
  show "\<exists>s. looping_turn junk pf ins Wait_failed (looping_start 4 sample_world) = Some (Inl Bad_access, s)" by simp
qed

end
