(* ===== verification/Member_Theorems.thy ===== *)
theory Member_Theorems
  imports Member "HOL-Library.Sublist"
begin

text \<open>
  The properties of a connection as a whole: the answer to a request, the target that is opened,
  what happens after a fault, and what a descriptor that is used again finds.
\<close>

section \<open>The table of header fields over several requests\<close>

lemma request_upd [simp]: "hp_Request (upd_Result f p) = hp_Request p"
  by (simp add: upd_Result_def)

lemma request_hp_Read: "hp_Request (snd (hp_Read n p)) = hp_Request p"
  by (simp add: hp_Read_def split: prod.split)

lemma request_bindc:
  assumes "hp_Request (snd m) = rq" and "\<And>a p. hp_Request p = rq \<Longrightarrow> hp_Request (snd (f a p)) = rq"
  shows "hp_Request (snd (bindc m f)) = rq"
  using assms by (cases m; cases "fst m") (auto simp: bindc_def)

lemma request_content_length: "hp_Request (snd (content_length_loop mem val is p)) = hp_Request p"
  by (induction mem val "is" p rule: content_length_loop.induct) (simp_all add: Set_Fault_def split: sum.split)

lemma request_checks:
  "hp_Request (snd (check_connection mem h v p)) = hp_Request p"
  "hp_Request (snd (check_content_length mem h v p)) = hp_Request p"
  by (auto simp: check_connection_def check_content_length_def Set_Fault_def request_content_length
      split: sum.split bool.split)

lemma table_store_header:
  "prefix (Header_Value (hp_Request p)) (Header_Value (hp_Request (snd (store_header_state visits p))))"
proof -
  let ?r = "hp_Result p" and ?mem = "Buffer (hp_Buffer p)"
  let ?h = "ParsedHeader_make (ptr_of (Header ?r)) (Header_length ?r)"
    and ?v = "ParsedHeader_make (ptr_of (Value ?r)) (Value_length ?r)"
  show ?thesis
  proof (cases "Store_Header ?mem visits (hp_Request p) ?h ?v")
    case (Inl e)
    then show ?thesis by (simp add: store_header_state_def Let_def)
  next
    case (Inr rq)
    then have rq: "prefix (Header_Value (hp_Request p)) (Header_Value rq)"
      by (auto simp: Store_Header_def split: sum.splits if_splits)
    have "hp_Request (snd (store_header_state visits p)) = rq"
      unfolding store_header_state_def Let_def Inr sum.case
      by (rule request_bindc, simp add: request_checks, auto intro!: request_bindc simp: request_checks to_def)
    then show ?thesis using rq by simp
  qed
qed

lemma table_method_rest: "hp_Request (snd (method_rest word m p)) = hp_Request p"
  unfolding method_rest_def
  by (rule request_bindc) (simp_all add: request_hp_Read Set_Fault_def)

lemma table_parse_state:
  "prefix (Header_Value (hp_Request p)) (Header_Value (hp_Request (snd (parse_state visits c p))))"
proof (cases "Status (hp_Result p) = HPSStore_Header")
  case True
  then show ?thesis using table_store_header by (simp add: parse_state_def)
next
  case False
  have "hp_Request (snd (bindc (hp_Read 5 p) (\<lambda>Buf p. if Buf = ''HTTP/''
      then (Inr Continue, upd_Result (\<lambda>r. r\<lparr>Status := HPSVersionMajor\<rparr>) p) else Set_Fault HPFInvaildVersion p)))
      = hp_Request p"
    by (rule request_bindc) (simp_all add: request_hp_Read Set_Fault_def)
  with False have "hp_Request (snd (parse_state visits c p)) = hp_Request p"
    by (cases "Status (hp_Result p)")
       (auto simp: parse_state_def to_def Set_Fault_def table_method_rest split: sum.split)
  then show ?thesis by simp
qed

lemma table_parse_step:
  "prefix (Header_Value (hp_Request p)) (Header_Value (hp_Request (snd (parse_step visits p))))"
proof (cases "UB_Peek (hp_Buffer p) 0")
  case (Inr ch)
  obtain res q where out: "parse_state visits ch p = (res, q)" by force
  have tail: "hp_Request (snd (parse_tail q)) = hp_Request q"
    by (auto simp: parse_tail_def refill_def Let_def split: prod.split sum.split)
  show ?thesis
    using table_parse_state [of p visits ch] tail
    by (simp add: parse_step_def Inr out bindc_def split: sum.split flow.split)
qed (simp add: parse_step_def)

lemma table_Parsering:
  assumes "Parsering visits p = Some out"
  shows "prefix (Header_Value (hp_Request p)) (Header_Value (hp_Request (snd out)))"
  using assms
proof (rule Parsering.raw_induct [where P = "\<lambda>visits p out.
    prefix (Header_Value (hp_Request p)) (Header_Value (hp_Request (snd out)))", rotated])
  fix rec visits p and out :: "(HttpParser, unit) cpp"
  assume rec: "\<And>visits p out. rec visits p = Some out \<Longrightarrow>
      prefix (Header_Value (hp_Request p)) (Header_Value (hp_Request (snd out)))"
    and body: "(if Status (hp_Result p) \<noteq> HPSGAMEOVER \<and> UB_Readable (hp_Buffer p) \<noteq> 0
      then case parse_step visits p of (Inl e, p) \<Rightarrow> Some (Inl e, p) | (Inr x, p) \<Rightarrow> rec visits p
      else Some (Inr (), p)) = Some out"
  obtain r q where s: "parse_step visits p = (r, q)" by force
  have "prefix (Header_Value (hp_Request p)) (Header_Value (hp_Request q))"
    using table_parse_step [of p visits] by (simp add: s)
  then show "prefix (Header_Value (hp_Request p)) (Header_Value (hp_Request (snd out)))"
    using rec [of visits q out] body unfolding s by (cases r) (auto split: if_splits intro: prefix_order.trans)
qed

lemma request_bindc_provider:
  assumes "Header_Value (fst (snd m)) = es"
    and "\<And>a p. Header_Value (fst p) = es \<Longrightarrow> Header_Value (fst (snd (f a p))) = es"
  shows "Header_Value (fst (snd (bindc m f))) = es"
  using assms by (cases m; cases "fst m") (auto simp: bindc_def)

lemma table_writes [simp]:
  "fst (snd (p_swrite str p)) = fst p" "fst (snd (p_write str p)) = fst p"
  "Header_Value (fst (Set_StatusCode c p)) = Header_Value (fst p)"
  "fst (p_AddSend n p) = fst p" "fst (p_AddSendFile fr p) = fst p"
  by (simp_all add: p_swrite_def p_write_def Set_StatusCode_def p_AddSend_def p_AddSendFile_def split: prod.split)

lemma table_plus_ret:
  "Header_Value (fst (snd (f p))) = Header_Value (fst p) \<Longrightarrow>
     Header_Value (fst (snd (plus_ret ret f p))) = Header_Value (fst p)"
  unfolding plus_ret_def by (rule request_bindc_provider) simp_all

lemma table_parts [simp]:
  "fst (snd (WriteDate date p)) = fst p" "fst (snd (WriteItem key va p)) = fst p"
  "fst (snd (WriteConnection p)) = fst p" "fst (snd (WriteCRLF p)) = fst p"
  "Header_Value (fst (snd (WriteHead ma mi code p))) = Header_Value (fst p)"
  by (simp_all add: WriteDate_def WriteItem_def WriteConnection_def WriteCRLF_def)
    (simp add: WriteHead_def request_bindc_provider table_plus_ret)

lemma table_RegularProvide: "Header_Value (fst (snd (RegularProvide mem date n p))) = Header_Value (fst p)"
  unfolding RegularProvide_def RegularProvide_type_def
  by (auto intro!: request_bindc_provider simp: table_plus_ret split: sum.split)

lemma table_ProvideError: "Header_Value (fst (snd (ProvideError mem date p))) = Header_Value (fst p)"
  unfolding ProvideError_def Let_def
  by (auto intro!: request_bindc_provider simp: table_plus_ret table_RegularProvide)

lemma table_provide: "Header_Value (fst (snd (provide s mem order date p))) = Header_Value (fst p)"
proof -
  have post: "Header_Value (fst (snd (provide_post s mem order date p))) = Header_Value (fst p)"
    unfolding provide_post_def Let_def
    by (auto intro!: request_bindc_provider simp: table_plus_ret table_RegularProvide table_ProvideError split: sum.split)
  have served: "Header_Value (fst (snd (FileProvider s mem order p))) = Header_Value (fst p)"
    unfolding FileProvider_def Let_def by (auto split: sum.split option.split)
  have one: "Header_Value (fst (snd (provide_file mem date f q))) = Header_Value (fst q)" for f q
    unfolding provide_file_def Let_def
    by (auto intro!: request_bindc_provider simp: table_plus_ret table_RegularProvide)
  show ?thesis
    unfolding provide_def using post served
    by (auto intro!: request_bindc_provider simp: one table_ProvideError split: option.split)
qed

lemma table_Starting_Parser:
  assumes "Starting_Parser visits p = Some out"
  shows "prefix (Header_Value (hp_Request p)) (Header_Value (hp_Request (snd out)))"
proof -
  let ?p = "if Parser_able p then p else upd_Result (\<lambda>r. r\<lparr>Fault := HPFToLittleMessage\<rparr>) p"
  have "Header_Value (hp_Request (SetRequesting q)) = Header_Value (hp_Request q)" for q
    by (simp add: SetRequesting_def Let_def split: option.split)
  then show ?thesis
    using table_Parsering [of visits ?p] assms
    by (auto simp: Starting_Parser_def Let_def split: option.splits sum.splits prod.splits if_splits)
qed

text \<open>A connection that is kept alive never forgets a header field: whatever it receives, and
  whatever the outcome, the table of header fields after \<open>DoRead\<close> starts with the table before.
  \<open>Again_Parser\<close> resets the parser's working record only, so the fields of an earlier request,
  whose views lead into memory that is written again, are searched together with those of the next.\<close>

theorem header_table_only_grows:
  assumes "DoRead pf ks (k, m) = Some (r, k', m')"
  shows "prefix (Header_Value (hp_Request (mb_Parser m))) (Header_Value (hp_Request (mb_Parser m')))"
proof -
  obtain res p1 where rcv: "receive pf ks (mb_Parser m) = Some (res, p1)"
    using assms by (cases "receive pf ks (mb_Parser m)") (auto simp: DoRead_def)
  then have p1: "hp_Request p1 = hp_Request (mb_Parser m)"
    by (auto simp: receive_def split: option.splits)
  let ?p = "if Finished p1 then Again_Parser p1 else p1"
  show ?thesis
  proof (cases res)
    case (Inl e)
    then show ?thesis using assms rcv p1 by (auto simp: DoRead_def)
  next
    case (Inr n)
    then obtain out q where st: "Starting_Parser (pf_visits pf) ?p = Some (out, q)"
      using assms rcv by (cases "Starting_Parser (pf_visits pf) ?p") (auto simp: DoRead_def Let_def)
    have pre: "prefix (Header_Value (hp_Request (mb_Parser m))) (Header_Value (hp_Request q))"
      using table_Starting_Parser [OF st] p1 by (simp add: Again_Parser_def split: if_splits)
    have "Header_Value (hp_Request (mb_Parser m')) = Header_Value (hp_Request q)"
      using assms rcv st Inr table_provide [of "pf_os pf" "Buffer (hp_Buffer q)" "pf_order pf" "pf_date pf" "(hp_Request q, mb_Write_Loop m)"]
      by (auto simp: DoRead_def Let_def Content_Provide_def Write_all_def bindc_def split: sum.splits prod.splits if_splits)
    with pre show ?thesis by simp
  qed
qed


section \<open>A small environment for the witnesses\<close>

definition sample_os :: os where
  "sample_os =
     \<lparr>os_open = (\<lambda>path. if path = ''../src/index.html'' then Some \<lparr>st_mode = 0x81A4, st_bytes = ''hello''\<rparr>
                 else if path = ''/etc/passwd'' then Some \<lparr>st_mode = 0x81A4, st_bytes = ''root''\<rparr> else None),
      os_openat = (\<lambda>base path. if path = ''/etc/passwd'' then Some \<lparr>st_mode = 0x81A4, st_bytes = ''root''\<rparr> else None),
      usable = (\<lambda>n. 24), fastcgi = (\<lambda>script input. Inr ''page'')\<rparr>"

definition sample_platform :: platform where
  "sample_platform =
     \<lparr>pf_uninit = (\<lambda>_. CHR 0x00), pf_visits = (\<lambda>_ _. True), pf_order = rev, pf_os = sample_os,
      pf_date = ''Date: now'' @ line_end\<rparr>"

definition sample_request :: "string \<Rightarrow> http_message" where
  "sample_request uri = \<lparr>msg_method = HRGet, msg_uri = uri, msg_minor = CHR ''1'', msg_fields = [(''Host'', ''h'')]\<rparr>"

definition sample_member :: Member where
  "sample_member = Member_Init (hp_Request (parser_with [])) 0"

lemma sample_member_ready: "member_ready sample_member" "UB_Writeable (hp_Buffer (mb_Parser sample_member)) = 4048"
  "UB_Writeable (wl_Buffer (mb_Write_Loop sample_member)) = 4048" "Set_Ka (hp_Result (mb_Parser sample_member)) = Keep_Alive"
  by (simp_all add: sample_member_def member_ready_Init)
    (simp_all add: Member_Init_def WriteLoop_new_def HttpParser_Content_new_def)

lemma sample_request_fine: "message_fine (sample_request ''/'')" "message_fine (sample_request ''/none'')"
  "length (request_text (sample_request ''/'')) < 4048" "length (request_text (sample_request ''/none'')) < 4048"
  by code_simp+

lemma sample_file: "names_file sample_platform (sample_request ''/'') (Some ''hello'') defaultMIME"
  "names_file sample_platform (sample_request ''/none'') None defaultMIME"
  by (simp_all add: names_file_def sample_platform_def sample_request_def sample_os_def served_file_def
      open_target_def IsTextFile_def uri_type_def)

lemma sample_heads:
  "length (response_head HSCOK 1 1 Keep_Alive (pf_date sample_platform) 5 defaultMIME) < 300"
  "length (error_response 1 1 Keep_Alive (pf_date sample_platform) defaultMIME) < 400"
  by code_simp+


section \<open>After a fault\<close>

lemma SetRequesting_keeps [simp]:
  "hp_Result (SetRequesting p) = hp_Result p" "hp_Buffer (SetRequesting p) = hp_Buffer p"
  "hp_Extra (SetRequesting p) = hp_Extra p" "Header_Value (hp_Request (SetRequesting p)) = Header_Value (hp_Request p)"
  by (simp_all add: SetRequesting_def Let_def split: option.split)

lemma Starting_Parser_stopped:
  assumes stop: "Status (hp_Result p) = HPSGAMEOVER \<or> UB_Readable (hp_Buffer p) = 0" and nf: "\<not> Finished p"
  shows "\<exists>f q. Starting_Parser visits p = Some (Inr f, q) \<and> \<not> Finished q \<and>
     Status (hp_Result q) = Status (hp_Result p) \<and> hp_Buffer q = hp_Buffer p \<and> hp_Extra q = hp_Extra p \<and>
     Header_Value (hp_Request q) = Header_Value (hp_Request p)"
proof -
  define q where "q = (if Parser_able p then p else upd_Result (\<lambda>r. r\<lparr>Fault := HPFToLittleMessage\<rparr>) p)"
  have q: "Status (hp_Result q) = Status (hp_Result p)" "hp_Buffer q = hp_Buffer p" "hp_Extra q = hp_Extra p"
    "hp_Request q = hp_Request p" "\<not> Finished q"
    using nf by (simp_all add: q_def upd_Result_def Finished_def)
  then have "Parsering visits q = Some (Inr (), q)" using stop by (intro Parsering_stop) simp
  then have "Starting_Parser visits p = Some (Inr (Fault (hp_Result q)), SetRequesting q)"
    by (simp add: Starting_Parser_def Let_def q_def [symmetric])
  then show ?thesis using q by (simp add: Finished_def)
qed

lemma DoRead_nothing:
  assumes rcv: "receive pf ks (mb_Parser m) = Some (Inr n, p)" and nf: "\<not> Finished p" and que: "Que (mb_Write_Loop m) = []"
    and stop: "Status (hp_Result p) = HPSGAMEOVER \<or> UB_Readable (hp_Buffer p) = 0"
  shows "\<exists>m'. DoRead pf ks (k, m) = Some (Inr (), k, m') \<and> WriteComplete m' \<and> Que (mb_Write_Loop m') = [] \<and>
     \<not> Finished (mb_Parser m') \<and> Status (hp_Result (mb_Parser m')) = Status (hp_Result p) \<and>
     hp_Buffer (mb_Parser m') = hp_Buffer p \<and> hp_Extra (mb_Parser m') = hp_Extra p \<and>
     Header_Value (hp_Request (mb_Parser m')) = Header_Value (hp_Request p)"
proof -
  obtain f q where q: "Starting_Parser (pf_visits pf) p = Some (Inr f, q)" "\<not> Finished q"
    "Status (hp_Result q) = Status (hp_Result p)" "hp_Buffer q = hp_Buffer p" "hp_Extra q = hp_Extra p"
    "Header_Value (hp_Request q) = Header_Value (hp_Request p)"
    using Starting_Parser_stopped [OF stop nf] by metis
  have "DoFirst (k, mb_Write_Loop m) = (Inr EMPTY, k, mb_Write_Loop m)" using que by (simp add: DoFirst_def)
  then have "DoAll (k, mb_Write_Loop m) = (Inr EMPTY, k, report_interval (mb_Write_Loop m))"
    using DoAll_unfold by simp
  then show ?thesis
    using rcv nf q que by (simp add: DoRead_def Write_all_def)
qed

text \<open>A request that was found wrong is never answered and its connection is never given up:
  when the parser has stopped with a fault, whatever arrives later is put into the buffer and not
  looked at, nothing is sent, the state stays as it was, and \<open>CloseAble\<close> is false.\<close>

theorem failed_parse_is_final:
  assumes "Status (hp_Result (mb_Parser m)) = HPSGAMEOVER" and "\<not> Finished (mb_Parser m)"
    and "Que (mb_Write_Loop m) = []" and "UB_wf (hp_Buffer (mb_Parser m))" and "\<not> EB_IsVaild (hp_Extra (mb_Parser m))"
    and "length (concat cs) < UB_Writeable (hp_Buffer (mb_Parser m))"
  shows "\<exists>m'. DoRead pf (map Received cs @ [Would_block]) (k, m) = Some (Inr (), k, m') \<and>
     Status (hp_Result (mb_Parser m')) = HPSGAMEOVER \<and> \<not> Finished (mb_Parser m') \<and>
     Que (mb_Write_Loop m') = [] \<and> UB_wf (hp_Buffer (mb_Parser m')) \<and> \<not> EB_IsVaild (hp_Extra (mb_Parser m')) \<and>
     UB_content (hp_Buffer (mb_Parser m')) = UB_content (hp_Buffer (mb_Parser m)) @ concat cs \<and> \<not> CloseAble m'"
proof -
  obtain ub where ub: "receive pf (map Received cs @ [Would_block]) (mb_Parser m) =
      Some (Inr (int (length (concat cs))), (mb_Parser m)\<lparr>hp_Buffer := ub\<rparr>)"
    "UB_wf ub" "UB_content ub = UB_content (hp_Buffer (mb_Parser m)) @ concat cs"
    using receive_pieces [OF assms(4-6)] by blast
  obtain m' where "DoRead pf (map Received cs @ [Would_block]) (k, m) = Some (Inr (), k, m')"
    "Que (mb_Write_Loop m') = []" "\<not> Finished (mb_Parser m')" "Status (hp_Result (mb_Parser m')) = HPSGAMEOVER"
    "hp_Buffer (mb_Parser m') = ub" "hp_Extra (mb_Parser m') = hp_Extra (mb_Parser m)"
    using DoRead_nothing [OF ub(1), of k] assms by (auto simp: Finished_def)
  then show ?thesis using ub assms(5) by (auto simp: CloseAble_def)
qed

theorem failed_parse_is_final_witness:
  "\<exists>m'. DoRead sample_platform [Received ''GET / HTTP/1.1'', Would_block] (sample_kernel,
       sample_member\<lparr>mb_Parser := upd_Result (\<lambda>r. r\<lparr>Status := HPSGAMEOVER, Fault := HPFInvaildMethod\<rparr>) (mb_Parser sample_member)\<rparr>)
     = Some (Inr (), sample_kernel, m') \<and> \<not> CloseAble m'"
proof -
  let ?m = "sample_member\<lparr>mb_Parser := upd_Result (\<lambda>r. r\<lparr>Status := HPSGAMEOVER, Fault := HPFInvaildMethod\<rparr>) (mb_Parser sample_member)\<rparr>"
  have "parser_at (mb_Parser sample_member) []" "wl_idle (mb_Write_Loop sample_member)"
    using sample_member_ready(1) by (simp_all add: member_ready_def)
  then show ?thesis
    using failed_parse_is_final [of ?m "[''GET / HTTP/1.1'']" sample_platform sample_kernel] sample_member_ready(2)
    by (auto simp: upd_Result_def Finished_def parser_at_def wl_idle_def)
qed

theorem header_table_only_grows_witness:
  "\<exists>m'. DoRead sample_platform [Would_block] (sample_kernel, sample_member\<lparr>mb_Parser := (mb_Parser sample_member)
       \<lparr>hp_Request := (hp_Request (mb_Parser sample_member))\<lparr>Header_Value := [(ParsedHeader_literal ''Host'', ParsedHeader_literal ''old'')]\<rparr>\<rparr>\<rparr>)
     = Some (Inr (), sample_kernel, m') \<and>
     prefix [(ParsedHeader_literal ''Host'', ParsedHeader_literal ''old'')] (Header_Value (hp_Request (mb_Parser m')))"
proof -
  let ?es = "[(ParsedHeader_literal ''Host'', ParsedHeader_literal ''old'')]"
  let ?p = "(mb_Parser sample_member)\<lparr>hp_Request := (hp_Request (mb_Parser sample_member))\<lparr>Header_Value := ?es\<rparr>\<rparr>"
  let ?m = "sample_member\<lparr>mb_Parser := ?p\<rparr>"
  have at: "parser_at (mb_Parser sample_member) []" "Que (mb_Write_Loop sample_member) = []"
    using sample_member_ready(1) by (simp_all add: member_ready_def wl_idle_def)
  have rcv: "receive sample_platform [Would_block] (mb_Parser ?m) = Some (Inr 0, ?p)"
    by (simp add: receive_def Socket_Read_def)
  have "\<not> Finished ?p" "UB_Readable (hp_Buffer ?p) = 0"
    using at(1) init_fields(11) [of "hp_Result (mb_Parser sample_member)"]
    by (simp_all add: parser_at_def Finished_def UB_Readable_content)
  then obtain m' where "DoRead sample_platform [Would_block] (sample_kernel, ?m) = Some (Inr (), sample_kernel, m')"
    using DoRead_nothing [OF rcv, of sample_kernel] at(2) by auto
  then show ?thesis
    using header_table_only_grows [of sample_platform "[Would_block]" sample_kernel ?m "Inr ()" sample_kernel m'] by simp
qed

section \<open>Answers\<close>

text \<open>C2: A request is answered, end to end: on a connection that waits, a request in any pieces that is no POST and fits the buffer, whose
  peer takes what it is offered and whose
  \<open>Host\<close> and target name a regular file makes \<open>DoRead\<close> send the peer one complete
  response, the head with the file's size and type, the file and the two slashed line ends, in this
  order and nothing else; the connection may then be closed exactly for version 1.0 or without
  keep-alive.\<close>

theorem request_is_answered:
  assumes "member_ready m" and "message_fine msg" and "msg_method msg \<noteq> HRPost" and "concat cs = request_text msg"
    and "length (request_text msg) < UB_Writeable (hp_Buffer (mb_Parser m))"
    and "names_file pf msg (Some bs) type"
    and "flag = flag_of (Set_Ka (hp_Result (mb_Parser m))) (msg_fields msg)"
    and "length (response_head HSCOK 1 (minor_value (msg_minor msg)) flag (pf_date pf) (int (length bs)) type) + 8
           < UB_Writeable (wl_Buffer (mb_Write_Loop m))"
    and "3 \<le> length (answers k)" and "\<forall>a \<in> set (answers k). \<exists>n. a = Sent n \<and>
           length (file_response 1 (minor_value (msg_minor msg)) flag (pf_date pf) type bs) \<le> n"
  shows "\<exists>k' m'. DoRead pf (map Received cs @ [Would_block]) (k, m) = Some (Inr (), k', m') \<and>
     wire k' = wire k @ file_response 1 (minor_value (msg_minor msg)) flag (pf_date pf) type bs \<and>
     WriteComplete m' \<and> (CloseAble m' \<longleftrightarrow> msg_minor msg = CHR ''0'' \<or> flag \<noteq> Keep_Alive)"
  using DoRead_serves [OF assms] by blast

theorem request_is_answered_witness:
  "\<exists>k' m'. DoRead sample_platform (map Received [request_text (sample_request ''/'')] @ [Would_block])
       (sample_kernel\<lparr>answers := replicate 3 (Sent 999)\<rparr>, sample_member) = Some (Inr (), k', m') \<and>
     wire k' = file_response 1 1 Keep_Alive (pf_date sample_platform) defaultMIME ''hello'' \<and> \<not> CloseAble m'"
proof -
  let ?msg = "sample_request ''/''"
  have msg: "msg_method ?msg \<noteq> HRPost" "minor_value (msg_minor ?msg) = 1" "flag_of Keep_Alive (msg_fields ?msg) = Keep_Alive"
    "msg_minor ?msg \<noteq> CHR ''0''"
    by (simp_all add: sample_request_def minor_value_def flag_of_def)
  have len: "length (file_response 1 1 Keep_Alive (pf_date sample_platform) defaultMIME ''hello'') \<le> 999"
    using sample_heads(1) by (simp add: file_response_def)
  show ?thesis
    using request_is_answered [OF sample_member_ready(1) sample_request_fine(1) msg(1) _ _ sample_file(1) refl,
        of "[request_text ?msg]" "sample_kernel\<lparr>answers := replicate 3 (Sent 999)\<rparr>"]
      sample_member_ready sample_request_fine(3) sample_heads(1) len msg
    by (auto simp: sample_kernel_def)
qed

text \<open>C12: A request for a file that does not exist, or is a directory or a device, is answered with
  the error page under the status 400: the 403 that \<open>FileProvider\<close> sets is overwritten.\<close>

theorem missing_file_is_bad_request:
  assumes "member_ready m" and "message_fine msg" and "msg_method msg \<noteq> HRPost" and "concat cs = request_text msg"
    and "length (request_text msg) < UB_Writeable (hp_Buffer (mb_Parser m))"
    and "names_file pf msg None type"
    and "flag = flag_of (Set_Ka (hp_Result (mb_Parser m))) (msg_fields msg)"
    and "length (error_response 1 (minor_value (msg_minor msg)) flag (pf_date pf) type)
           < UB_Writeable (wl_Buffer (mb_Write_Loop m))"
    and "1 \<le> length (answers k)" and "\<forall>a \<in> set (answers k). \<exists>n. a = Sent n \<and>
           length (error_response 1 (minor_value (msg_minor msg)) flag (pf_date pf) type) \<le> n"
  shows "\<exists>k' m'. DoRead pf (map Received cs @ [Would_block]) (k, m) = Some (Inr (), k', m') \<and>
     wire k' = wire k @ error_response 1 (minor_value (msg_minor msg)) flag (pf_date pf) type \<and>
     rq_StatusCode (hp_Request (mb_Parser m')) = HSCBadRequest \<and> WriteComplete m'"
  using DoRead_refuses [OF assms] by blast

theorem missing_file_is_bad_request_witness:
  "\<exists>k' m'. DoRead sample_platform (map Received [request_text (sample_request ''/none'')] @ [Would_block])
       (sample_kernel\<lparr>answers := [Sent 999]\<rparr>, sample_member) = Some (Inr (), k', m') \<and>
     wire k' = error_response 1 1 Keep_Alive (pf_date sample_platform) defaultMIME"
proof -
  let ?msg = "sample_request ''/none''"
  have msg: "msg_method ?msg \<noteq> HRPost" "minor_value (msg_minor ?msg) = 1" "flag_of Keep_Alive (msg_fields ?msg) = Keep_Alive"
    by (simp_all add: sample_request_def minor_value_def flag_of_def)
  show ?thesis
    using missing_file_is_bad_request [OF sample_member_ready(1) sample_request_fine(2) msg(1) _ _ sample_file(2) refl,
        of "[request_text ?msg]" "sample_kernel\<lparr>answers := [Sent 999]\<rparr>"]
      sample_member_ready sample_request_fine(4) sample_heads(2) msg
    by (auto simp: sample_kernel_def)
qed

section \<open>A descriptor that is used again\<close>

text \<open>A connection that never parsed anything cannot be cleared for a descriptor that is used
  again: \<open>clear\<close> follows the request's buffer pointer, which only \<open>SetRequesting\<close> sets. A peer
  that connects and leaves without a word brings the server down with the next connection that gets
  its descriptor.\<close>

theorem clear_before_request_crashes:
  "fst (Member_clear (Member_Init junk i)) = Inl Null_deref"
  by (simp add: Member_clear_def Member_Init_def Socket_clear_def HttpRequest_clear_def HttpRequest_new_def Let_def)

text \<open>C8: Once a parse has returned, so that the request has its buffer, \<open>clear\<close> makes the connection wait again whatever it was
  left with: a fault, positions of the buffers that passed each other, a queue that is not empty, a table of fields; only the blocks of the
  two buffers must be as they were allocated. The next request that is no POST, fits the buffer and names a file is answered like that of a
  new connection, but for the keep-alive flag: \<open>clear\<close> keeps it, so a request without a \<open>Connection\<close> field gets the
  flag of the peer that had the descriptor before.\<close>

theorem cleared_connection_answers:
  assumes "UB_block (hp_Buffer (mb_Parser m))" and "UB_block (wl_Buffer (mb_Write_Loop m))"
    and "Request_Buffer_set (hp_Request (mb_Parser m))"
    and "message_fine msg" and "msg_method msg \<noteq> HRPost" and "concat cs = request_text msg"
    and "length (request_text msg) < Buffer_Size (hp_Buffer (mb_Parser m))"
    and "names_file pf msg (Some bs) type"
    and "flag = flag_of (Set_Ka (hp_Result (mb_Parser m))) (msg_fields msg)"
    and "length (response_head HSCOK 1 (minor_value (msg_minor msg)) flag (pf_date pf) (int (length bs)) type) + 8
           < Buffer_Size (wl_Buffer (mb_Write_Loop m))"
    and "3 \<le> length (answers k)" and "\<forall>a \<in> set (answers k). \<exists>n. a = Sent n \<and>
           length (file_response 1 (minor_value (msg_minor msg)) flag (pf_date pf) type bs) \<le> n"
  shows "\<exists>m1 k' m'. Member_clear m = (Inr (), m1) \<and>
     DoRead pf (map Received cs @ [Would_block]) (k, m1) = Some (Inr (), k', m') \<and>
     wire k' = wire k @ file_response 1 (minor_value (msg_minor msg)) flag (pf_date pf) type bs \<and>
     (CloseAble m' \<longleftrightarrow> msg_minor msg = CHR ''0'' \<or> flag \<noteq> Keep_Alive)"
proof -
  obtain m1 where m1: "Member_clear m = (Inr (), m1)" "member_ready m1"
    "Set_Ka (hp_Result (mb_Parser m1)) = Set_Ka (hp_Result (mb_Parser m))"
    "UB_Writeable (hp_Buffer (mb_Parser m1)) = Buffer_Size (hp_Buffer (mb_Parser m))"
    "UB_Writeable (wl_Buffer (mb_Write_Loop m1)) = Buffer_Size (wl_Buffer (mb_Write_Loop m))"
    using member_ready_clear [OF assms(1-3)] by metis
  then show ?thesis
    using DoRead_serves [OF m1(2) assms(4-6) _ assms(8), of flag k] assms by auto
qed

lemma sample_head_close: "length (response_head HSCOK 1 1 Close (pf_date sample_platform) 5 defaultMIME) < 300"
  by code_simp

text \<open>A connection whose read position has passed the write position.\<close>

theorem cleared_connection_answers_witness:
  "\<exists>m m1 k' m'. Write_Spot (hp_Buffer (mb_Parser m)) < Read_Spot (hp_Buffer (mb_Parser m)) \<and>
     Set_Ka (hp_Result (mb_Parser m)) = Close \<and> Member_clear m = (Inr (), m1) \<and>
     DoRead sample_platform (map Received [request_text (sample_request ''/'')] @ [Would_block])
       (sample_kernel\<lparr>answers := replicate 3 (Sent 999)\<rparr>, m1) = Some (Inr (), k', m') \<and>
     wire k' = file_response 1 1 Close (pf_date sample_platform) defaultMIME ''hello'' \<and> CloseAble m'"
proof -
  let ?msg = "sample_request ''/''" and ?p = "mb_Parser sample_member"
  define m where "m = sample_member\<lparr>mb_Parser := ?p\<lparr>hp_Request := (hp_Request ?p)\<lparr>Request_Buffer_set := True\<rparr>,
      hp_Buffer := (hp_Buffer ?p)\<lparr>Write_Spot := 17, Read_Spot := 18\<rparr>, hp_Result := (hp_Result ?p)\<lparr>Set_Ka := Close\<rparr>\<rparr>\<rparr>"
  have m: "UB_block (hp_Buffer (mb_Parser m))" "UB_block (wl_Buffer (mb_Write_Loop m))"
    "Request_Buffer_set (hp_Request (mb_Parser m))" "Set_Ka (hp_Result (mb_Parser m)) = Close"
    "Buffer_Size (hp_Buffer (mb_Parser m)) = 4048" "Buffer_Size (wl_Buffer (mb_Write_Loop m)) = 4048"
    "Write_Spot (hp_Buffer (mb_Parser m)) < Read_Spot (hp_Buffer (mb_Parser m))"
    using sample_member_ready(1)
    by (simp_all add: m_def member_ready_def parser_at_def wl_idle_def UB_wf_def UB_block_def)
      (simp_all add: sample_member_def Member_Init_def WriteLoop_new_def)
  have msg: "msg_method ?msg \<noteq> HRPost" "minor_value (msg_minor ?msg) = 1" "flag_of Close (msg_fields ?msg) = Close"
    by (simp_all add: sample_request_def minor_value_def flag_of_def)
  have len: "length (file_response 1 1 Close (pf_date sample_platform) defaultMIME ''hello'') \<le> 999"
    using sample_head_close by (simp add: file_response_def)
  show ?thesis
    using cleared_connection_answers [OF m(1-3) sample_request_fine(1) msg(1) _ _ sample_file(1) refl,
        of "[request_text ?msg]" "sample_kernel\<lparr>answers := replicate 3 (Sent 999)\<rparr>"]
      sample_request_fine(3) sample_head_close len msg m
    by (auto simp: sample_kernel_def)
qed

section \<open>The target\<close>

text \<open>C13: The directory that \<open>Host\<close> names confines nothing: every accepted target that starts
  with a slash is opened as an absolute path, because \<open>openat\<close> ignores its directory for one (the
  last hypothesis, as its manual says), so \<open>GET /etc/passwd\<close> is served whatever the host is.\<close>

theorem target_ignores_host:
  assumes "request_names mem order rq host uri" and "hd uri = CHR ''/''" and "uri \<noteq> ''/''" and "length uri < usable s 1"
    and "\<And>base path. path \<noteq> [] \<Longrightarrow> hd path = CHR ''/'' \<Longrightarrow> os_openat s base path = os_open s path"
  shows "FileProvider s mem order (rq, w) =
     (case os_open s uri of
        None \<Rightarrow> (Inr None, rq\<lparr>rq_StatusCode := HSCForbidden\<rparr>, w)
      | Some f \<Rightarrow>
          if IsTextFile f then (Inr None, rq\<lparr>rq_StatusCode := HSCForbidden\<rparr>, w)
          else (Inr (Some (FileReader_open (st_bytes f))), rq\<lparr>rq_StatusCode := HSCOK\<rparr>, w))"
proof -
  have "open_target s host uri = os_open s uri"
    using assms by (simp add: open_target_def request_names_def)
  then show ?thesis
    using FileProvider_served [OF assms(1,4)] by (simp add: served_file_def split: option.split)
qed

definition sample_memory :: "string \<Rightarrow> string \<Rightarrow> char list" where
  "sample_memory uri host = uri @ '' '' @ host @ '' ''"

definition sample_names :: "HttpRequestMethod \<Rightarrow> string \<Rightarrow> string \<Rightarrow> HttpRequest" where
  "sample_names m uri host = (hp_Request (parser_with []))\<lparr>rq_Fault := HPFContent, rq_Method := m,
     rq_Uri := ParsedHeader_make (In_buffer 0) (int (length uri)),
     Header_Value := [(ParsedHeader_literal ''Host'',
       ParsedHeader_make (In_buffer (length uri + 1)) (int (length host)))]\<rparr>"

lemma sample_request_names:
  assumes "uri \<noteq> []" and "length uri < two64" and "length host < two64"
  shows "request_names (sample_memory uri host) rev (sample_names m uri host) host uri"
proof -
  let ?M = "sample_memory uri host"
  have x: "Get_Value ?M rev (sample_names m uri host) (ParsedHeader_literal ''Host'') =
      Inr (ParsedHeader_make (In_buffer (length uri + 1)) (int (length host)))"
    using ParsedHeaderIsEqual_spec [of ?M "ParsedHeader_literal ''Host''" "ParsedHeader_literal ''Host''"]
    by (simp add: Get_Value_def sample_names_def)
  show ?thesis
    using assms unfolding request_names_def x
    by (simp add: sample_memory_def sample_names_def Request_good_def view_ok_def view_bytes_def
        followed_def ParsedHeader_make_def size_of_int_of_nat)
qed

theorem target_ignores_host_witness:
  "\<exists>rq. FileProvider (sample_os\<lparr>os_openat := (\<lambda>base. os_open sample_os)\<rparr>) (sample_memory ''/etc/passwd'' ''h'') rev
     (sample_names HRGet ''/etc/passwd'' ''h'', sample_loop) = (Inr (Some (FileReader_open ''root'')), rq, sample_loop)"
  using target_ignores_host [OF sample_request_names [of "''/etc/passwd''" "''h''" HRGet],
      of "sample_os\<lparr>os_openat := (\<lambda>base. os_open sample_os)\<rparr>" sample_loop]
  by (simp add: sample_os_def IsTextFile_def two64_def)

text \<open>A target that does not fit the block that \<open>new char(n)\<close> allocates, one byte and what
  the allocator adds, is copied past its end.\<close>

theorem long_target_overflows:
  assumes "request_names mem order rq host uri" and "usable s 1 \<le> length uri" and "rq_Method rq \<noteq> HRPost"
  shows "provide s mem order date (rq, w) = (Inl Bad_access, rq, w)"
  using FileProvider_overflow [OF assms(1,2), of w] assms(3) by (simp add: provide_def)

theorem long_target_overflows_witness:
  "fst (provide (sample_os\<lparr>usable := id\<rparr>) (sample_memory ''/etc/passwd'' ''h'') rev []
     (sample_names HRGet ''/etc/passwd'' ''h'', sample_loop)) = Inl Bad_access"
  using long_target_overflows [OF sample_request_names [of "''/etc/passwd''" "''h''" HRGet], of "sample_os\<lparr>usable := id\<rparr>"]
  by (simp add: two64_def sample_names_def)

text \<open>A target whose suffix is in no entry of the table cannot be answered: making a string of the
  null pointer that \<open>MIME\<close> gives then throws \<open>logic_error\<close>, for the file as for the error page,
  before a byte is written or a task is queued.\<close>

theorem unknown_suffix_throws:
  assumes "request_names mem order rq host uri" and "length uri < usable s 1" and "rq_Method rq \<noteq> HRPost"
    and "CHR ''.'' \<in> set (tl uri)" and "map_of contentType (takeWhile IsFilename (dot_suffix (tl uri))) = None"
  shows "\<exists>c. provide s mem order date (rq, w) = (Inl Logic_error, rq\<lparr>rq_StatusCode := c\<rparr>, w)"
proof -
  have type: "AutoAdapt mem (rq\<lparr>rq_StatusCode := c\<rparr>) = Inl Logic_error" for c
    using request_names_type [OF assms(1)] assms(4,5) by (simp add: uri_type_def MIME_def FindMIME_get_def Let_def)
  have fail: "RegularProvide mem date n (rq\<lparr>rq_StatusCode := c\<rparr>, w) = (Inl Logic_error, rq\<lparr>rq_StatusCode := c\<rparr>, w)" for n c
    by (simp only: RegularProvide_def fst_conv type sum.case)
  show ?thesis
    using FileProvider_served [OF assms(1,2), of w] assms(3)
    by (auto simp: provide_def provide_file_def ProvideError_def Set_StatusCode_def Let_def fail split: option.split)
qed

lemmas table_search = map_of_Cons_code map_of.simps(1) list.inject char.inject simp_thms if_True if_False

lemma no_suffix_none: "map_of contentType ''.none'' = None"
proof -
  have "map_of contentType_1 ''.none'' = None" by (simp only: contentType_1_def table_search)
  moreover have "map_of contentType_2 ''.none'' = None" by (simp only: contentType_2_def table_search)
  moreover have "map_of contentType_3 ''.none'' = None" by (simp only: contentType_3_def table_search)
  moreover have "map_of contentType_4 ''.none'' = None" by (simp only: contentType_4_def table_search)
  moreover have "map_of contentType_5 ''.none'' = None" by (simp only: contentType_5_def table_search)
  ultimately show ?thesis by (simp add: contentType_def map_add_None)
qed

theorem unknown_suffix_throws_witness:
  "fst (provide sample_os (sample_memory ''/a.none'' ''h'') rev [] (sample_names HRGet ''/a.none'' ''h'', sample_loop))
     = Inl Logic_error"
proof -
  have "takeWhile IsFilename (dot_suffix (tl ''/a.none'')) = ''.none''" by code_simp
  then show ?thesis
    using no_suffix_none unknown_suffix_throws [OF sample_request_names [of "''/a.none''" "''h''" HRGet], of sample_os "[]" sample_loop]
    by (auto simp: two64_def sample_names_def sample_os_def)
qed

text \<open>The zero byte that ends the file name of a \<open>POST\<close> is stored at the length of the host: a
  host that is longer than the target by more than one byte makes the server write behind the string.\<close>

theorem post_long_host_overflows:
  assumes "request_names mem order rq host uri" and "length uri + 1 < length host" and "rq_Method rq = HRPost"
  shows "provide s mem order date (rq, w) = (Inl Bad_access, rq, w)"
proof -
  obtain x c where x: "Get_Value mem order rq (ParsedHeader_literal ''Host'') = Inr x" "view_ok mem x"
    "view_bytes mem x = host" "followed mem c x"
    and rq: "view_ok mem (rq_Uri rq)" "view_bytes mem (rq_Uri rq) = uri" "followed mem (CHR '' '') (rq_Uri rq)"
    using assms(1) by (auto simp: request_names_def)
  have len: "ph_length (rq_Uri rq) = length uri" "ph_length x = length host"
    using length_view_bytes [OF rq(1)] length_view_bytes [OF x(2)] rq(2) x(3) by simp_all
  show ?thesis
    using view_copy_followed [OF rq(1,3)] view_copy_followed [OF x(2,4)] x(1) rq(2) assms(2,3)
    by (simp add: provide_def provide_post_def len Let_def)
qed

theorem post_long_host_overflows_witness:
  "fst (provide sample_os (sample_memory ''/'' ''host'') rev [] (sample_names HRPost ''/'' ''host'', sample_loop)) = Inl Bad_access"
  using post_long_host_overflows [OF sample_request_names [of "''/''" "''host''" HRPost], of sample_os "[]" sample_loop]
  by (simp add: two64_def sample_names_def)

text \<open>C11: The content type that \<open>AutoAdapt\<close> finds for a parsed request is that of its target: of the
  suffix from the last dot up to the first byte that cannot be in a file name, and the default type
  when there is no dot behind the first byte. The scan runs backwards over the buffer; \<open>uri_type\<close>
  is defined on the target alone.\<close>

theorem content_type_of_target:
  assumes "parser_at p (request_text msg @ rest)" and "message_fine msg"
  shows "\<exists>p'. Starting_Parser visits p = Some (Inr HPFContent, p') \<and>
     AutoAdapt (Buffer (hp_Buffer p')) (hp_Request p') = uri_type (msg_uri msg)"
proof -
  obtain p' where p': "Starting_Parser visits p = Some (Inr HPFContent, p')"
    "view_bytes (Buffer (hp_Buffer p')) (rq_Uri (hp_Request p')) = msg_uri msg"
    "view_ok (Buffer (hp_Buffer p')) (rq_Uri (hp_Request p'))"
    "followed (Buffer (hp_Buffer p')) (CHR '' '') (rq_Uri (hp_Request p'))"
    using Starting_Parser_conf [OF assms, of visits] by blast
  then show ?thesis
    using AutoAdapt_type [OF p'(3,2) _ p'(4)] assms(2) by (simp add: message_fine_def)
qed

theorem content_type_of_target_witness:
  "\<exists>p'. Starting_Parser (\<lambda>_ _. True) (parser_with (request_text (sample_request ''/x.3gp?v=1'') @ [])) = Some (Inr HPFContent, p') \<and>
     AutoAdapt (Buffer (hp_Buffer p')) (hp_Request p') = Inr ''video/3gpp''"
proof -
  have "message_fine (sample_request ''/x.3gp?v=1'')" "msg_uri (sample_request ''/x.3gp?v=1'') = ''/x.3gp?v=1''"
    "even (length (request_text (sample_request ''/x.3gp?v=1'')))" "length (request_text (sample_request ''/x.3gp?v=1'')) < 99"
    by code_simp+
  moreover have "takeWhile IsFilename (dot_suffix (tl ''/x.3gp?v=1'')) = ''.3gp''" by code_simp
  moreover have "FindMIME_get ''.3gp'' = ''video/3gpp''"
    by (simp only: FindMIME_get_def contentType_def contentType_1_def append_Cons option.case table_search)
  ultimately show ?thesis
    using content_type_of_target [of "parser_with (request_text (sample_request ''/x.3gp?v=1'') @ [])"
        "sample_request ''/x.3gp?v=1''" "[]" "\<lambda>_ _. True"] parser_with_at [of "request_text (sample_request ''/x.3gp?v=1'') @ []"]
    by (simp add: uri_type_def MIME_def)
qed
end
