(* ===== verification/Worker_Serving.thy ===== *)
theory Worker_Serving
  imports Event_Loop Member_Theorems
begin

text \<open>
  A worker with its connections: what its loop does to the connections whose descriptors the main
  thread put into its queue, from their registration to the answers. The theory has no operation of its
  own; it composes \<open>server/channel.cc\<close>, \<open>server/manger.cc\<close> and \<open>server/member.cc\<close>.
\<close>

section \<open>Requests and replies\<close>

definition reply_text :: "platform \<Rightarrow> HttpFlag \<Rightarrow> http_message \<Rightarrow> char list option \<Rightarrow> string \<Rightarrow> char list" where
  "reply_text pf ka msg file type =
     (case file of
        Some bs \<Rightarrow> file_response 1 (minor_value (msg_minor msg)) (flag_of ka (msg_fields msg)) (pf_date pf) type bs
      | None \<Rightarrow> error_response 1 (minor_value (msg_minor msg)) (flag_of ka (msg_fields msg)) (pf_date pf) type)"

definition reply_closes :: "HttpFlag \<Rightarrow> http_message \<Rightarrow> bool" where
  "reply_closes ka msg \<longleftrightarrow> msg_minor msg = CHR ''0'' \<or> flag_of ka (msg_fields msg) \<noteq> Keep_Alive"

text \<open>
  A request that a connection can answer at once: it is no \<open>POST\<close>, it fits the input buffer of the size
  \<open>room\<close>, what is written before the file fits the output buffer of the size \<open>space\<close>, and the peer takes
  what is sent.
\<close>

definition answerable :: "platform \<Rightarrow> nat \<Rightarrow> nat \<Rightarrow> HttpFlag \<Rightarrow> Kernel \<Rightarrow> http_message \<Rightarrow> char list option \<Rightarrow> string \<Rightarrow> bool" where
  "answerable pf room space ka k msg file type \<longleftrightarrow>
     message_fine msg \<and> msg_method msg \<noteq> HRPost \<and> length (request_text msg) < room \<and> names_file pf msg file type \<and>
     (case file of
        Some bs \<Rightarrow> length (response_head HSCOK 1 (minor_value (msg_minor msg)) (flag_of ka (msg_fields msg)) (pf_date pf)
            (int (length bs)) type) + 8 < space
      | None \<Rightarrow> length (reply_text pf ka msg file type) < space) \<and>
     3 \<le> length (answers k) \<and> (\<forall>a \<in> set (answers k). \<exists>n. a = Sent n \<and> length (reply_text pf ka msg file type) \<le> n)"

lemma DoRead_replies:
  assumes "member_ready mb" and "concat cs = request_text msg"
    and ask: "answerable pf (UB_Writeable (hp_Buffer (mb_Parser mb))) (UB_Writeable (wl_Buffer (mb_Write_Loop mb)))
       (Set_Ka (hp_Result (mb_Parser mb))) k msg file type"
  obtains k' mb' where "DoRead pf (map Received cs @ [Would_block]) (k, mb) = Some (Inr (), k', mb')"
    "wire k' = wire k @ reply_text pf (Set_Ka (hp_Result (mb_Parser mb))) msg file type" "WriteComplete mb'"
    "CloseAble mb' \<longleftrightarrow> reply_closes (Set_Ka (hp_Result (mb_Parser mb))) msg"
proof (cases "file")
  case None
  then show thesis
    using DoRead_refuses [OF assms(1), of msg cs pf type _ k, OF _ _ assms(2) _ _ refl] ask that
    by (auto simp: answerable_def reply_text_def reply_closes_def)
next
  case (Some bs)
  then show thesis
    using DoRead_serves [OF assms(1), of msg cs pf bs type _ k, OF _ _ assms(2) _ _ refl] ask that
    by (auto simp: answerable_def reply_text_def reply_closes_def)
qed

section \<open>One event\<close>

definition readable :: "EpollEvent \<Rightarrow> bool" where
  "readable ev \<longleftrightarrow> check ev EETCOULDREAD \<and> \<not> check ev EETRDHUP"

text \<open>What an event of one connection leaves alone.\<close>

definition keeps_others :: "int set \<Rightarrow> worker \<Rightarrow> worker \<Rightarrow> bool" where
  "keeps_others fds s s' \<longleftrightarrow>
     ch_eventfd (snd s') = ch_eventfd (snd s) \<and> ptr_que (snd s') = ptr_que (snd s) \<and>
     (\<forall>fd. fd \<notin> fds \<longrightarrow> kernels (fst s') fd = kernels (fst s) fd \<and> watched (sys_calls (fst s')) fd = watched (sys_calls (fst s)) fd \<and>
        Fd_To_Member (ch_Manger (snd s')) fd = Fd_To_Member (ch_Manger (snd s)) fd)"

lemma keeps_others_refl [simp]: "keeps_others fds s s"
  by (simp add: keeps_others_def)

lemma keeps_others_trans:
  "keeps_others A s s1 \<Longrightarrow> keeps_others B s1 s2 \<Longrightarrow> keeps_others (A \<union> B) s s2"
  by (simp add: keeps_others_def)

text \<open>What becomes of the registration of a connection that was answered.\<close>

definition answered_watch :: "bool \<Rightarrow> EpollEventType option" where
  "answered_watch closes = (if closes then None else Some EpollCanRead)"

definition writing_watch :: "bool \<Rightarrow> bool \<Rightarrow> EpollEventType option" where
  "writing_watch complete closes = (if complete then answered_watch closes else Some EpollCanWite)"

text \<open>The members that \<open>JudgeToClose\<close> leaves: the same, but that a closed one does not close again.\<close>

definition same_member :: "Member \<Rightarrow> Member \<Rightarrow> bool" where
  "same_member mb mb' \<longleftrightarrow> mb_Write_Loop mb' = mb_Write_Loop mb \<and> mb_Parser mb' = mb_Parser mb \<and> (\<not> CloseAble mb \<longrightarrow> mb' = mb)"

lemma JudgeToClose_watch:
  assumes mb: "Fd_To_Member (ch_Manger c) fd = Some mb" and reg: "watched (sys_calls w) fd \<noteq> None"
  obtains w' c' mb' where "on_manger (JudgeToClose fd) (w, c) = (Inr 0, w', c')" "kernels w' = kernels w"
    "Fd_To_Member (ch_Manger c') fd = Some mb'" "same_member mb mb'"
    "watched (sys_calls w') fd = writing_watch (WriteComplete mb) (CloseAble mb)" "keeps_others {fd} (w, c) (w', c')"
proof (cases "WriteComplete mb")
  case False
  then show thesis
    using that assms
    by (simp add: on_manger_def JudgeToClose_def reactor_defs writing_watch_def keeps_others_def watched_append UpdateWrite_def Exist_def
        same_member_def)
next
  case True
  show thesis
  proof (cases "CloseAble mb")
    case close: True
    then show thesis
      using that assms True
      by (simp add: on_manger_def JudgeToClose_def reactor_defs writing_watch_def answered_watch_def keeps_others_def watched_append
          same_member_def split: prod.split)
  next
    case False
    then show thesis
      using that assms True
      by (simp add: on_manger_def JudgeToClose_def reactor_defs writing_watch_def answered_watch_def keeps_others_def watched_append
          Update_def Exist_def same_member_def)
  qed
qed

text \<open>An event after whose handler the connection has the member \<open>mb1\<close>.\<close>

lemma judged_event:
  assumes reg: "watched (sys_calls w) fd \<noteq> None"
    and w1: "w1 = w\<lparr>kernels := (kernels w)(fd := k')\<rparr>"
    and c1: "c1 = c\<lparr>ch_Manger := (ch_Manger c)\<lparr>Fd_To_Member := (Fd_To_Member (ch_Manger c))(fd \<mapsto> mb1)\<rparr>\<rparr>"
    and run: "handle_event junk pf inp ev (w, c) = Some (bindc (on_manger (JudgeToClose fd) (w1, c1)) (\<lambda>_ s. (Inr (), s)))"
  obtains w' c' mb' where "handle_event junk pf inp ev (w, c) = Some (Inr (), w', c')" "kernels w' fd = k'"
    "Fd_To_Member (ch_Manger c') fd = Some mb'" "same_member mb1 mb'"
    "watched (sys_calls w') fd = writing_watch (WriteComplete mb1) (CloseAble mb1)" "keeps_others {fd} (w, c) (w', c')"
proof -
  obtain w' c' mb' where j: "on_manger (JudgeToClose fd) (w1, c1) = (Inr 0, w', c')" "kernels w' = kernels w1"
    "Fd_To_Member (ch_Manger c') fd = Some mb'" "same_member mb1 mb'"
    "watched (sys_calls w') fd = writing_watch (WriteComplete mb1) (CloseAble mb1)" "keeps_others {fd} (w1, c1) (w', c')"
    using JudgeToClose_watch [of c1 fd mb1 w1] reg by (auto simp: w1 c1)
  have "keeps_others {fd} (w, c) (w', c')"
    using keeps_others_trans [OF _ j(6), of "{fd}" "(w, c)"] by (simp add: keeps_others_def w1 c1)
  then show thesis using that j run by (simp add: w1)
qed

lemma read_event:
  assumes ev: "readable ev" "Return_fd ev \<noteq> ch_eventfd c" and mb: "Fd_To_Member (ch_Manger c) (Return_fd ev) = Some mb"
    and reg: "watched (sys_calls w) (Return_fd ev) \<noteq> None"
    and rd: "DoRead pf (ei_recv inp) (kernels w (Return_fd ev), mb) = Some (Inr (), k', mb1)"
  obtains w' c' mb' where "handle_event junk pf inp ev (w, c) = Some (Inr (), w', c')" "kernels w' (Return_fd ev) = k'"
    "Fd_To_Member (ch_Manger c') (Return_fd ev) = Some mb'" "same_member mb1 mb'"
    "watched (sys_calls w') (Return_fd ev) = writing_watch (WriteComplete mb1) (CloseAble mb1)" "keeps_others {Return_fd ev} (w, c) (w', c')"
proof (rule judged_event [OF reg refl refl])
  show "handle_event junk pf inp ev (w, c) = Some (bindc (on_manger (JudgeToClose (Return_fd ev)) (w\<lparr>kernels := (kernels w)(Return_fd ev := k')\<rparr>,
      c\<lparr>ch_Manger := (ch_Manger c)\<lparr>Fd_To_Member := (Fd_To_Member (ch_Manger c))(Return_fd ev \<mapsto> mb1)\<rparr>\<rparr>)) (\<lambda>_ s. (Inr (), s)))"
    using ev by (simp add: handle_event_def readable_def Let_def Reading_def mb rd m_put_def)
qed (rule that)

lemma request_event:
  assumes ev: "readable ev" "Return_fd ev \<noteq> ch_eventfd c" and mb: "Fd_To_Member (ch_Manger c) (Return_fd ev) = Some mb"
    and ready: "member_ready mb" and recv: "ei_recv inp = map Received cs @ [Would_block]" "concat cs = request_text msg"
    and ask: "answerable pf (UB_Writeable (hp_Buffer (mb_Parser mb))) (UB_Writeable (wl_Buffer (mb_Write_Loop mb)))
       (Set_Ka (hp_Result (mb_Parser mb))) (kernels w (Return_fd ev)) msg file type"
    and reg: "watched (sys_calls w) (Return_fd ev) \<noteq> None"
  obtains w' c' where "handle_event junk pf inp ev (w, c) = Some (Inr (), w', c')"
    "wire (kernels w' (Return_fd ev)) = wire (kernels w (Return_fd ev)) @ reply_text pf (Set_Ka (hp_Result (mb_Parser mb))) msg file type"
    "watched (sys_calls w') (Return_fd ev) = answered_watch (reply_closes (Set_Ka (hp_Result (mb_Parser mb))) msg)"
    "keeps_others {Return_fd ev} (w, c) (w', c')"
proof -
  obtain k' mb1 where rd: "DoRead pf (ei_recv inp) (kernels w (Return_fd ev), mb) = Some (Inr (), k', mb1)"
    "wire k' = wire (kernels w (Return_fd ev)) @ reply_text pf (Set_Ka (hp_Result (mb_Parser mb))) msg file type" "WriteComplete mb1"
    "CloseAble mb1 \<longleftrightarrow> reply_closes (Set_Ka (hp_Result (mb_Parser mb))) msg"
    using DoRead_replies [OF ready recv(2) ask] unfolding recv(1) by metis
  show thesis
    by (rule read_event [where junk = junk, OF ev mb reg rd(1)]) (use that rd(2-4) in \<open>simp add: writing_watch_def\<close>)
qed

section \<open>A batch of requests\<close>

text \<open>
  A visit is what stands behind an event of a batch: the pieces in which the request arrives, the message, the
  file that it names and the file's type.
\<close>

record visit =
  vi_pieces :: "string list"
  vi_message :: http_message
  vi_file :: "char list option"
  vi_type :: string

definition visit_at :: "platform \<Rightarrow> event_input \<Rightarrow> Kernel \<Rightarrow> Member \<Rightarrow> visit \<Rightarrow> bool" where
  "visit_at pf inp k mb v \<longleftrightarrow>
     member_ready mb \<and> ei_recv inp = map Received (vi_pieces v) @ [Would_block] \<and>
     concat (vi_pieces v) = request_text (vi_message v) \<and>
     answerable pf (UB_Writeable (hp_Buffer (mb_Parser mb))) (UB_Writeable (wl_Buffer (mb_Write_Loop mb)))
       (Set_Ka (hp_Result (mb_Parser mb))) k (vi_message v) (vi_file v) (vi_type v)"

definition visit_reply :: "platform \<Rightarrow> Member \<Rightarrow> visit \<Rightarrow> char list" where
  "visit_reply pf mb v = reply_text pf (Set_Ka (hp_Result (mb_Parser mb))) (vi_message v) (vi_file v) (vi_type v)"

definition visit_closes :: "Member \<Rightarrow> visit \<Rightarrow> bool" where
  "visit_closes mb v \<longleftrightarrow> reply_closes (Set_Ka (hp_Result (mb_Parser mb))) (vi_message v)"

definition visited :: "platform \<Rightarrow> (nat \<Rightarrow> event_input) \<Rightarrow> EpollEvent list \<Rightarrow> (int \<Rightarrow> Member) \<Rightarrow> (int \<Rightarrow> visit) \<Rightarrow> nat \<Rightarrow> worker \<Rightarrow> bool" where
  "visited pf ins es mb v i s \<longleftrightarrow>
     distinct (map Return_fd es) \<and>
     (\<forall>j. i \<le> j \<and> j < length es \<longrightarrow>
        readable (es ! j) \<and> Return_fd (es ! j) \<noteq> ch_eventfd (snd s) \<and>
        Fd_To_Member (ch_Manger (snd s)) (Return_fd (es ! j)) = Some (mb (Return_fd (es ! j))) \<and>
        watched (sys_calls (fst s)) (Return_fd (es ! j)) \<noteq> None \<and>
        visit_at pf (ins j) (kernels (fst s) (Return_fd (es ! j))) (mb (Return_fd (es ! j))) (v (Return_fd (es ! j))))"

definition answered :: "platform \<Rightarrow> (int \<Rightarrow> Member) \<Rightarrow> (int \<Rightarrow> visit) \<Rightarrow> int set \<Rightarrow> worker \<Rightarrow> worker \<Rightarrow> bool" where
  "answered pf mb v fds s s' \<longleftrightarrow>
     keeps_others fds s s' \<and>
     (\<forall>fd \<in> fds. wire (kernels (fst s') fd) = wire (kernels (fst s) fd) @ visit_reply pf (mb fd) (v fd) \<and>
        watched (sys_calls (fst s')) fd = answered_watch (visit_closes (mb fd) (v fd)))"

lemma answered_insert:
  assumes "keeps_others {fd} s s1" and "wire (kernels (fst s1) fd) = wire (kernels (fst s) fd) @ visit_reply pf (mb fd) (v fd)"
    and "watched (sys_calls (fst s1)) fd = answered_watch (visit_closes (mb fd) (v fd))"
    and "answered pf mb v fds s1 s'" and "fd \<notin> fds"
  shows "answered pf mb v (insert fd fds) s s'"
  using assms unfolding answered_def keeps_others_def by auto

lemma batch_is_answered:
  assumes "Available_length r = length es" and "\<And>j. j < length es \<Longrightarrow> er_at j r = Inr (es ! j)"
    and "i \<le> length es" and "visited pf ins es mb v i s"
  shows "\<exists>s'. for_events junk pf ins i r s = Some (Inr (), s') \<and> answered pf mb v (Return_fd ` set (drop i es)) s s'"
  using assms(3,4)
proof (induction "length es - i" arbitrary: i s)
  case 0
  then show ?case using assms(1) by (simp add: for_events.simps [of _ _ _ i] answered_def)
next
  case (Suc d)
  let ?e = "es ! i" and ?fd = "Return_fd (es ! i)"
  have i: "i < length es" using Suc.hyps(2) by simp
  have dist: "distinct (map Return_fd es)" using Suc.prems(2) by (simp add: visited_def)
  have later: "Return_fd (es ! j) \<noteq> ?fd" if "i < j" "j < length es" for j
    using nth_eq_iff_index_eq [OF dist, of j i] that by simp
  obtain w c where s: "s = (w, c)" by (cases s)
  have now: "readable ?e" "?fd \<noteq> ch_eventfd c" "Fd_To_Member (ch_Manger c) ?fd = Some (mb ?fd)"
    "watched (sys_calls w) ?fd \<noteq> None" "visit_at pf (ins i) (kernels w ?fd) (mb ?fd) (v ?fd)"
    using Suc.prems(2) i by (simp_all add: visited_def s)
  have at: "member_ready (mb ?fd)" "ei_recv (ins i) = map Received (vi_pieces (v ?fd)) @ [Would_block]"
    "concat (vi_pieces (v ?fd)) = request_text (vi_message (v ?fd))"
    "answerable pf (UB_Writeable (hp_Buffer (mb_Parser (mb ?fd)))) (UB_Writeable (wl_Buffer (mb_Write_Loop (mb ?fd))))
       (Set_Ka (hp_Result (mb_Parser (mb ?fd)))) (kernels w ?fd) (vi_message (v ?fd)) (vi_file (v ?fd)) (vi_type (v ?fd))"
    using now(5) by (simp_all add: visit_at_def)
  obtain w1 c1 where h: "handle_event junk pf (ins i) ?e (w, c) = Some (Inr (), w1, c1)"
    "wire (kernels w1 ?fd) = wire (kernels w ?fd) @ visit_reply pf (mb ?fd) (v ?fd)"
    "watched (sys_calls w1) ?fd = answered_watch (visit_closes (mb ?fd) (v ?fd))" "keeps_others {?fd} (w, c) (w1, c1)"
    unfolding visit_reply_def visit_closes_def by (rule request_event [OF now(1-3) at now(4)])
  have "visited pf ins es mb v (i + 1) (w1, c1)"
    using Suc.prems(2) h(4) later by (simp add: visited_def s keeps_others_def)
  then obtain s' where s': "for_events junk pf ins (i + 1) r (w1, c1) = Some (Inr (), s')"
    "answered pf mb v (Return_fd ` set (drop (i + 1) es)) (w1, c1) s'"
    using Suc.hyps(1) [of "i + 1" "(w1, c1)"] Suc.hyps(2) i by (elim meta_impE exE conjE) simp_all
  have "?fd \<notin> Return_fd ` set (drop (i + 1) es)"
    using distinct_drop [OF dist, of i] Cons_nth_drop_Suc [OF i, symmetric] by (simp add: drop_map)
  moreover have "Return_fd ` set (drop i es) = insert ?fd (Return_fd ` set (drop (i + 1) es))"
    using Cons_nth_drop_Suc [OF i] by (metis Suc_eq_plus1 image_insert list.simps(15))
  ultimately have "answered pf mb v (Return_fd ` set (drop i es)) s s'"
    using answered_insert [of ?fd "(w, c)" "(w1, c1)" pf mb v _ s'] h s'(2) by (simp add: s)
  then show ?case
    using s'(1) h(1) i assms(1,2) by (simp add: for_events.simps [of _ _ _ i] s)
qed

section \<open>New connections\<close>

text \<open>The worker after the descriptors \<open>fds\<close> at the front of its queue were registered.\<close>

definition with_members :: "(int \<Rightarrow> HttpRequest \<times> 32 word) \<Rightarrow> int list \<Rightarrow> Manger \<Rightarrow> Manger" where
  "with_members junk fds m =
     m\<lparr>Fd_To_Member := (\<lambda>fd. if fd \<in> set fds then Some (Member_Init (fst (junk fd)) (snd (junk fd))) else Fd_To_Member m fd)\<rparr>"

lemma register_new_all:
  assumes "ptr_que c = fds @ rest" and "distinct fds" and "\<forall>fd \<in> set fds. Fd_To_Member (ch_Manger c) fd = None"
  shows "register_new junk (length fds) (w, c) =
    (Inr (), w\<lparr>sys_calls := sys_calls w @ map (\<lambda>fd. Epoll_add fd EpollCanRead) fds\<rparr>,
       c\<lparr>ptr_que := rest, ch_Manger := with_members junk fds (ch_Manger c)\<rparr>)"
  using assms
proof (induction fds arbitrary: w c)
  case Nil
  then show ?case by (simp add: with_members_def)
next
  case (Cons fd fds)
  let ?m = "(ch_Manger c)\<lparr>Fd_To_Member := (Fd_To_Member (ch_Manger c))(fd \<mapsto> Member_Init (fst (junk fd)) (snd (junk fd)))\<rparr>"
  have "on_manger (Opera_Member (junk fd) fd EpollCanRead) (w, c) =
      (Inr fd, w\<lparr>sys_calls := sys_calls w @ [Epoll_add fd EpollCanRead]\<rparr>, c\<lparr>ch_Manger := ?m\<rparr>)"
    using Cons.prems(3) by (simp add: on_manger_def Opera_Member_def reactor_defs)
  moreover have "with_members junk fds ?m = with_members junk (fd # fds) (ch_Manger c)"
    using Cons.prems(2) by (auto simp: with_members_def fun_eq_iff)
  moreover have "\<forall>fd \<in> set fds. Fd_To_Member ?m fd = None" using Cons.prems(2,3) by auto
  ultimately show ?case
    using Cons.prems(1,2) Cons.IH [of "c\<lparr>ch_Manger := ?m, ptr_que := fds @ rest\<rparr>" "w\<lparr>sys_calls := sys_calls w @ [Epoll_add fd EpollCanRead]\<rparr>"]
    by simp
qed

lemma single_turn:
  assumes "1 \<le> length (er_array r)" and "handle_event junk pf (ins 0) ev (deliver (Ready [ev]) s) = Some (Inr (), s')"
  shows "looping_turn junk pf ins (Ready [ev]) (r, s) = Some (Inr (Epoll_Wait (Ready [ev]) r), s')"
    and "length (er_array (Epoll_Wait (Ready [ev]) r)) = length (er_array r)"
proof -
  have "er_at 0 (Epoll_Wait (Ready [ev]) r) = Inr ev" using Epoll_Wait_at [of "[ev]" r 0] assms(1) by simp
  then show "looping_turn junk pf ins (Ready [ev]) (r, s) = Some (Inr (Epoll_Wait (Ready [ev]) r), s')"
    using assms(2) by (simp add: looping_turn_def for_events.simps [of _ _ _ 0] for_events.simps [of _ _ _ "Suc 0"] Epoll_Wait_def)
  show "length (er_array (Epoll_Wait (Ready [ev]) r)) = length (er_array r)" using assms(1) by (simp add: Epoll_Wait_def blit_def)
qed

lemma eventfd_turn:
  assumes "ptr_que c = fds" and "distinct fds" and "\<forall>fd \<in> set fds. Fd_To_Member (ch_Manger c) fd = None"
    and "1 \<le> length (er_array r)" and "ei_count (ins 0) = length fds" and "Return_fd ev = ch_eventfd c"
  shows "looping_turn junk pf ins (Ready [ev]) (r, w, c) = Some (Inr (Epoll_Wait (Ready [ev]) r),
     w\<lparr>sys_calls := sys_calls w @ Delivered (ch_eventfd c) # map (\<lambda>fd. Epoll_add fd EpollCanRead) fds @
         [Epoll_mod (ch_eventfd c) EpollCanRead]\<rparr>,
     c\<lparr>ptr_que := [], ch_Manger := with_members junk fds (ch_Manger c)\<rparr>)"
proof (rule single_turn(1) [where ins = ins, OF assms(4)])
  show "handle_event junk pf (ins 0) ev (deliver (Ready [ev]) (w, c)) = Some (Inr (),
     w\<lparr>sys_calls := sys_calls w @ Delivered (ch_eventfd c) # map (\<lambda>fd. Epoll_add fd EpollCanRead) fds @
         [Epoll_mod (ch_eventfd c) EpollCanRead]\<rparr>,
     c\<lparr>ptr_que := [], ch_Manger := with_members junk fds (ch_Manger c)\<rparr>)"
    using register_new_all [of c fds "[]" junk] assms(1-3,5,6)
    by (simp add: handle_event_def Let_def handle_eventfd_def Epoll_Modify_def EpollEvent_of_def deliver_simps)
qed

lemma watched_adds:
  "fold watched_step (map (\<lambda>fd. Epoll_add fd m) fds) W fd = (if W fd = None \<and> fd \<in> set fds then Some m else W fd)"
  by (induction fds arbitrary: W) auto

text \<open>A member that was just made: its buffers are empty, and without a \<open>Connection\<close> field it is kept.\<close>

lemma Member_Init_room:
  "UB_Writeable (hp_Buffer (mb_Parser (Member_Init rq i))) = 4048" "UB_Writeable (wl_Buffer (mb_Write_Loop (Member_Init rq i))) = 4048"
  "Set_Ka (hp_Result (mb_Parser (Member_Init rq i))) = Keep_Alive"
  by (simp_all add: Member_Init_def WriteLoop_new_def HttpParser_Content_new_def)

text \<open>The registrations that the first turn leaves are those of the new connections, also after the next batch was reported.\<close>

lemma registered_watched:
  assumes "watched (sys_calls w) fd = None" and "fd \<in> set fds" and "efd \<noteq> fd"
  shows "watched ((sys_calls w @ Delivered efd # map (\<lambda>fd. Epoll_add fd EpollCanRead) fds @ [Epoll_mod efd EpollCanRead]) @
    map (\<lambda>e. Delivered (Return_fd e)) es) fd \<noteq> None"
proof -
  have "watched (sys_calls w @ [Delivered efd]) fd = None" using assms(1) by (auto simp: watched_append split: option.split)
  then have "watched (sys_calls w @ Delivered efd # map (\<lambda>fd. Epoll_add fd EpollCanRead) fds @ [Epoll_mod efd EpollCanRead]) fd = Some EpollCanRead"
    using assms(2,3) by (auto simp: watched_append watched_adds)
  then show ?thesis by (simp add: watched_append delivered_watched)
qed

text \<open>A turn with a batch of readable connections.\<close>

lemma batch_turn:
  assumes "deliver (Ready es) s = s2" and "visited pf ins es mb v 0 s2" and "length es \<le> length (er_array r)"
  obtains s' where "looping_turn junk pf ins (Ready es) (r, s) = Some (Inr (Epoll_Wait (Ready es) r), s')"
    "answered pf mb v (Return_fd ` set es) s2 s'"
proof -
  obtain s' where "for_events junk pf ins 0 (Epoll_Wait (Ready es) r) s2 = Some (Inr (), s')" "answered pf mb v (Return_fd ` set es) s2 s'"
    using batch_is_answered [of "Epoll_Wait (Ready es) r" es 0 pf ins mb v s2 junk] Epoll_Wait_at [OF assms(3)] assms(2)
    by (auto simp: Epoll_Wait_def)
  then show ?thesis using that assms(1) by (simp add: looping_turn_def)
qed

text \<open>Two turns of a worker's loop. The main thread put the descriptors \<open>fds\<close> into the queue and wrote their number to the
  event descriptor; the next batch has events of any of these connections, each with a request of its own that arrives in any pieces.
  Then each of them has got the answer to its own request and nothing else, is watched for reading again, or closed and not watched
  when the request says so, and no other connection was touched.\<close>

theorem new_connections_are_served:
  fixes v :: "int \<Rightarrow> visit"
  assumes "ptr_que c = fds" and "distinct fds" and "ch_eventfd c \<notin> set fds"
    and "\<forall>fd \<in> set fds. Fd_To_Member (ch_Manger c) fd = None \<and> watched (sys_calls w) fd = None"
    and "1 \<le> length (er_array r)" and "length es \<le> length (er_array r)"
    and "Return_fd ev = ch_eventfd c" and "ei_count (ins 0) = length fds"
    and "distinct (map Return_fd es)" and "Return_fd ` set es \<subseteq> set fds" and "\<forall>e \<in> set es. readable e"
    and "\<forall>j < length es. ei_recv (ins' j) = map Received (vi_pieces (v (Return_fd (es ! j)))) @ [Would_block]"
    and "\<forall>fd \<in> Return_fd ` set es. concat (vi_pieces (v fd)) = request_text (vi_message (v fd)) \<and>
       answerable pf 4048 4048 Keep_Alive (kernels w fd) (vi_message (v fd)) (vi_file (v fd)) (vi_type (v fd))"
  shows "\<exists>r1 s1 r2 w' c'. looping_turn junk pf ins (Ready [ev]) (r, w, c) = Some (Inr r1, s1) \<and>
     looping_turn junk pf ins' (Ready es) (r1, s1) = Some (Inr r2, w', c') \<and> ptr_que c' = [] \<and>
     (\<forall>fd \<in> Return_fd ` set es.
        wire (kernels w' fd) = wire (kernels w fd) @ reply_text pf Keep_Alive (vi_message (v fd)) (vi_file (v fd)) (vi_type (v fd)) \<and>
        watched (sys_calls w') fd = answered_watch (reply_closes Keep_Alive (vi_message (v fd)))) \<and>
     (\<forall>fd. fd \<notin> set fds \<longrightarrow> kernels w' fd = kernels w fd \<and> Fd_To_Member (ch_Manger c') fd = Fd_To_Member (ch_Manger c) fd)"
proof -
  let ?r1 = "Epoll_Wait (Ready [ev]) r" and ?mb = "\<lambda>fd. Member_Init (fst (junk fd)) (snd (junk fd))"
  define w1 where "w1 = w\<lparr>sys_calls := sys_calls w @ Delivered (ch_eventfd c) # map (\<lambda>fd. Epoll_add fd EpollCanRead) fds @
      [Epoll_mod (ch_eventfd c) EpollCanRead]\<rparr>"
  define c1 where "c1 = c\<lparr>ptr_que := [], ch_Manger := with_members junk fds (ch_Manger c)\<rparr>"
  have turn1: "looping_turn junk pf ins (Ready [ev]) (r, w, c) = Some (Inr ?r1, w1, c1)"
    using eventfd_turn [of c fds r ins ev junk pf w] assms(1,2,4,5,7,8) by (simp add: w1_def c1_def)
  obtain w2 where w2: "deliver (Ready es) (w1, c1) = (w2, c1)" "kernels w2 = kernels w"
    "sys_calls w2 = sys_calls w1 @ map (\<lambda>e. Delivered (Return_fd e)) es" by (simp add: deliver_simps w1_def)
  have reg: "watched (sys_calls w2) fd \<noteq> None" if "fd \<in> set fds" for fd
    using registered_watched [of w fd fds "ch_eventfd c" es] assms(3,4) that by (auto simp: w2(3) w1_def)
  have other: "Return_fd (es ! j) \<in> set fds" "Return_fd (es ! j) \<noteq> ch_eventfd c" if "j < length es" for j
    using nth_mem [OF that] assms(3,10) by (metis image_subset_iff)+
  have "visited pf ins' es ?mb v 0 (w2, c1)"
    using assms(9,11-13) reg other
    by (simp add: visited_def visit_at_def c1_def with_members_def w2(2) member_ready_Init Member_Init_room)
  moreover have "length es \<le> length (er_array ?r1)" using assms(5,6) by (simp add: Epoll_Wait_def blit_def)
  ultimately obtain s' where "looping_turn junk pf ins' (Ready es) (?r1, w1, c1) = Some (Inr (Epoll_Wait (Ready es) ?r1), s')"
    "answered pf ?mb v (Return_fd ` set es) (w2, c1) s'"
    using batch_turn [OF w2(1)] by blast
  moreover have "\<forall>fd. fd \<notin> set fds \<longrightarrow> fd \<notin> Return_fd ` set es" using assms(10) by blast
  ultimately show ?thesis
    using turn1
    by (cases s') (auto simp: answered_def keeps_others_def visit_reply_def visit_closes_def Member_Init_room w2(2) c1_def with_members_def)
qed

section \<open>Peers that take little at a time\<close>

lemma DoAll_outcome:
  assumes "DoAll (k, w) = (Inr x, k', w')"
  shows "x = EMPTY \<and> Que w' = [] \<or> x = IMCOMPLETE \<and> Que w' \<noteq> []"
  using assms
proof (induction "(k, w)" arbitrary: k w rule: DoAll.induct)
  case (1 k w)
  obtain r k1 w1 where first: "DoFirst (k, w) = (r, k1, w1)" by (cases "DoFirst (k, w)") auto
  then obtain c where c: "r = Inr c" using 1(2) by (cases r) (simp_all add: DoAll.simps [of k w])
  have send: "x = COMPLETE \<or> x = IMCOMPLETE \<and> Que w' \<noteq> []" if "WL_Send len s = (Inr x, k', w')" for len s x k' w'
    using that by (auto simp: WL_Send_def InsertSend_def Let_def bindc_def split: if_splits sum.splits prod.splits)
  have task: "x = COMPLETE \<or> x = IMCOMPLETE \<and> Que w' \<noteq> []" if "run_task t s = (Inr x, k', w')" for t s x k' w'
    using that send by (cases t) (auto simp: WL_SendFile_def InsertSendFile_def Let_def split: prod.splits if_splits)
  have ended: "c = EMPTY \<and> Que w1 = [] \<or> c = COMPLETE \<or> c = IMCOMPLETE \<and> Que w1 \<noteq> []"
    using first task unfolding c DoFirst_def by (auto split: list.splits)
  show ?case
  proof (cases "c = COMPLETE")
    case True
    then show ?thesis
      using 1(1) [of r "(k1, w1)" c k1 w1 "report_interval w1"] 1(2) first c by (simp add: DoAll.simps [of k w] Let_def)
  next
    case False
    then show ?thesis
      using ended 1(2) by (auto simp: DoAll.simps [of k w] first c report_interval_def Let_def split: if_splits)
  qed
qed

lemma write_event:
  assumes "fd \<noteq> ch_eventfd c" and mb: "Fd_To_Member (ch_Manger c) fd = Some mb" and reg: "watched (sys_calls w) fd \<noteq> None"
    and all: "DoAll (kernels w fd, mb_Write_Loop mb) = (Inr x, k', wl)"
  obtains w' c' mb' where "handle_event junk pf inp (EpollEvent_of fd EETCOULDWRITE) (w, c) = Some (Inr (), w', c')"
    "kernels w' fd = k'" "Fd_To_Member (ch_Manger c') fd = Some mb'" "mb_Write_Loop mb' = wl" "mb_Parser mb' = mb_Parser mb"
    "watched (sys_calls w') fd = writing_watch (x \<noteq> IMCOMPLETE) (CloseAble mb)" "keeps_others {fd} (w, c) (w', c')"
proof -
  define mb1 where "mb1 = mb\<lparr>mb_Write_Loop := wl, WriteComplete := x \<noteq> IMCOMPLETE\<rparr>"
  have run: "handle_event junk pf inp (EpollEvent_of fd EETCOULDWRITE) (w, c) = Some (bindc (on_manger (JudgeToClose fd)
      (w\<lparr>kernels := (kernels w)(fd := k')\<rparr>, c\<lparr>ch_Manger := (ch_Manger c)\<lparr>Fd_To_Member := (Fd_To_Member (ch_Manger c))(fd \<mapsto> mb1)\<rparr>\<rparr>))
      (\<lambda>_ s. (Inr (), s)))"
    using assms(1)
    by (simp add: handle_event_def Let_def EpollEvent_of_def check_def EETRDHUP_def EETCOULDREAD_def EETCOULDWRITE_def on_manger_def
        Writing_def mb DoWrite_def Write_all_def all m_put_def mb1_def)
  have close: "CloseAble mb1 = CloseAble mb" by (simp add: CloseAble_def mb1_def)
  obtain w' c' mb' where e: "handle_event junk pf inp (EpollEvent_of fd EETCOULDWRITE) (w, c) = Some (Inr (), w', c')" "kernels w' fd = k'"
    "Fd_To_Member (ch_Manger c') fd = Some mb'" "same_member mb1 mb'"
    "watched (sys_calls w') fd = writing_watch (WriteComplete mb1) (CloseAble mb1)" "keeps_others {fd} (w, c) (w', c')"
    by (rule judged_event [where junk = junk, OF reg refl refl run])
  have "mb_Write_Loop mb' = wl" "mb_Parser mb' = mb_Parser mb" using e(4) by (simp_all add: same_member_def mb1_def)
  then show thesis using that [OF e(1-3)] e(5,6) close by (simp add: mb1_def)
qed

text \<open>Turns of the loop, each with one write event of the connection, whose peer takes up to \<open>m\<close> bytes at once.\<close>

definition gives_room :: "int \<Rightarrow> nat \<Rightarrow> worker \<Rightarrow> worker" where
  "gives_room fd m s = (case s of (w, c) \<Rightarrow> (w\<lparr>kernels := (kernels w)(fd := (kernels w fd)\<lparr>answers := [Sent m]\<rparr>)\<rparr>, c))"

fun write_turns ::
  "(int \<Rightarrow> HttpRequest \<times> 32 word) \<Rightarrow> platform \<Rightarrow> (nat \<Rightarrow> event_input) \<Rightarrow> int \<Rightarrow> nat list \<Rightarrow> EpollEvent_Result \<times> worker
    \<Rightarrow> ((worker, EpollEvent_Result) cpp) option" where
  "write_turns junk pf ins fd [] (r, s) = Some (Inr r, s)"
| "write_turns junk pf ins fd (m # ms) (r, s) =
     (case looping_turn junk pf ins (Ready [EpollEvent_of fd EETCOULDWRITE]) (r, gives_room fd m s) of
        None \<Rightarrow> None
      | Some (Inl e, s) \<Rightarrow> Some (Inl e, s)
      | Some (Inr r, s) \<Rightarrow> write_turns junk pf ins fd ms (r, s))"

lemma write_turn:
  assumes "fd \<noteq> ch_eventfd c" and mb: "Fd_To_Member (ch_Manger c) fd = Some mb" and reg: "watched (sys_calls w) fd \<noteq> None"
    and "1 \<le> length (er_array r)" and all: "DoAll ((kernels w fd)\<lparr>answers := [Sent m]\<rparr>, mb_Write_Loop mb) = (Inr x, k', wl)"
  obtains r' w' c' mb' where "looping_turn junk pf ins (Ready [EpollEvent_of fd EETCOULDWRITE]) (r, gives_room fd m (w, c)) = Some (Inr r', w', c')"
    "kernels w' fd = k'" "Fd_To_Member (ch_Manger c') fd = Some mb'" "mb_Write_Loop mb' = wl" "mb_Parser mb' = mb_Parser mb"
    "watched (sys_calls w') fd = writing_watch (x \<noteq> IMCOMPLETE) (CloseAble mb)" "keeps_others {fd} (w, c) (w', c')"
    "length (er_array r') = length (er_array r)"
proof -
  let ?ev = "EpollEvent_of fd EETCOULDWRITE"
  define w1 where "w1 = fst (deliver (Ready [?ev]) (gives_room fd m (w, c)))"
  have w1: "deliver (Ready [?ev]) (gives_room fd m (w, c)) = (w1, c)" "kernels w1 fd = (kernels w fd)\<lparr>answers := [Sent m]\<rparr>"
    "watched (sys_calls w1) fd \<noteq> None" "keeps_others {fd} (w, c) (w1, c)"
    using reg by (auto simp: w1_def gives_room_def deliver_simps keeps_others_def watched_append EpollEvent_of_def split: option.split)
  obtain w' c' mb' where h: "handle_event junk pf (ins 0) ?ev (w1, c) = Some (Inr (), w', c')"
    "kernels w' fd = k'" "Fd_To_Member (ch_Manger c') fd = Some mb'" "mb_Write_Loop mb' = wl" "mb_Parser mb' = mb_Parser mb"
    "watched (sys_calls w') fd = writing_watch (x \<noteq> IMCOMPLETE) (CloseAble mb)" "keeps_others {fd} (w1, c) (w', c')"
    by (rule write_event [OF assms(1) mb w1(3) all [folded w1(2)]])
  from h(1) have "handle_event junk pf (ins 0) ?ev (deliver (Ready [?ev]) (gives_room fd m (w, c))) = Some (Inr (), w', c')"
    unfolding w1(1) .
  from single_turn [where ins = ins, OF assms(4) this] show thesis using that h(2-6) keeps_others_trans [OF w1(4) h(7)] by simp
qed

text \<open>A connection with a reply that is not sent yet, however little its peer takes with each write event.\<close>

lemma write_turns_finish:
  assumes "fd \<noteq> ch_eventfd c" and "Fd_To_Member (ch_Manger c) fd = Some mb" and "watched (sys_calls w) fd \<noteq> None"
    and "1 \<le> length (er_array r)" and "wl_ok (mb_Write_Loop mb)" and "sends_only (Que (mb_Write_Loop mb))"
    and "list_all (\<lambda>m. 0 < m) ms" and "Que (mb_Write_Loop mb) \<noteq> []" and "length (wl_pending (mb_Write_Loop mb)) \<le> length ms"
  shows "\<exists>n r' w' c'. n \<le> length ms \<and> write_turns junk pf ins fd (take n ms) (r, w, c) = Some (Inr r', w', c') \<and>
     wire (kernels w' fd) = wire (kernels w fd) @ wl_pending (mb_Write_Loop mb) \<and>
     watched (sys_calls w') fd = answered_watch (CloseAble mb) \<and> keeps_others {fd} (w, c) (w', c') \<and>
     (\<forall>i. 0 < i \<and> i < n \<longrightarrow> (\<exists>ri wi ci. write_turns junk pf ins fd (take i ms) (r, w, c) = Some (Inr ri, wi, ci) \<and>
        watched (sys_calls wi) fd = Some EpollCanWite))"
  using assms
proof (induction ms arbitrary: r w c mb)
  case Nil
  then show ?case by (auto simp: sends_only_def wl_pending_def wl_ok_def neq_Nil_conv)
next
  case (Cons m ms)
  let ?wl = "mb_Write_Loop mb" and ?k = "(kernels w fd)\<lparr>answers := [Sent m]\<rparr>"
  obtain x k' wl where all: "DoAll (?k, ?wl) = (Inr x, k', wl)" "stream (k', wl) = stream (?k, ?wl)" "wl_ok wl"
    "sends_only (Que wl)" "length (wl_pending wl) \<le> length (wl_pending ?wl) - 1"
    using DoAll_event [OF Cons.prems(5,6), of ?k m] Cons.prems(7) by auto
  obtain r' w' c' mb' where t: "looping_turn junk pf ins (Ready [EpollEvent_of fd EETCOULDWRITE]) (r, gives_room fd m (w, c)) = Some (Inr r', w', c')"
    "kernels w' fd = k'" "Fd_To_Member (ch_Manger c') fd = Some mb'" "mb_Write_Loop mb' = wl" "mb_Parser mb' = mb_Parser mb"
    "watched (sys_calls w') fd = writing_watch (x \<noteq> IMCOMPLETE) (CloseAble mb)" "keeps_others {fd} (w, c) (w', c')"
    "length (er_array r') = length (er_array r)"
    by (rule write_turn [OF Cons.prems(1-4) all(1)])
  have wire: "wire k' @ wl_pending wl = wire (kernels w fd) @ wl_pending ?wl" using all(2) by (simp add: stream_def)
  have close: "CloseAble mb' = CloseAble mb" using t(5) by (simp add: CloseAble_def)
  show ?case
  proof (cases "x = IMCOMPLETE")
    case False
    then have "Que wl = []" using DoAll_outcome [OF all(1)] by blast
    then have "wl_pending wl = []" by (simp add: wl_pending_def)
    then show ?thesis using t False wire by (intro exI [of _ 1] exI [of _ r'] exI [of _ w'] exI [of _ c']) (simp add: writing_watch_def)
  next
    case True
    then have "Que wl \<noteq> []" using DoAll_outcome [OF all(1)] by blast
    have reg: "watched (sys_calls w') fd = Some EpollCanWite" using t(6) True by (simp add: writing_watch_def)
    have ih: "fd \<noteq> ch_eventfd c'" "watched (sys_calls w') fd \<noteq> None" "1 \<le> length (er_array r')" "wl_ok (mb_Write_Loop mb')"
      "sends_only (Que (mb_Write_Loop mb'))" "list_all (\<lambda>m. 0 < m) ms" "Que (mb_Write_Loop mb') \<noteq> []"
      "length (wl_pending (mb_Write_Loop mb')) \<le> length ms"
      using Cons.prems(1,4,7,9) t(4,7,8) reg all(3-5) \<open>Que wl \<noteq> []\<close> by (simp_all add: keeps_others_def)
    obtain n r2 w2 c2 where n: "n \<le> length ms" "write_turns junk pf ins fd (take n ms) (r', w', c') = Some (Inr r2, w2, c2)"
      "wire (kernels w2 fd) = wire (kernels w' fd) @ wl_pending wl" "watched (sys_calls w2) fd = answered_watch (CloseAble mb')"
      "keeps_others {fd} (w', c') (w2, c2)"
      "\<forall>i. 0 < i \<and> i < n \<longrightarrow> (\<exists>ri wi ci. write_turns junk pf ins fd (take i ms) (r', w', c') = Some (Inr ri, wi, ci) \<and>
        watched (sys_calls wi) fd = Some EpollCanWite)"
      using Cons.IH [OF ih(1) t(3) ih(2-8)] unfolding t(4) by (elim exE conjE) (rule that)
    have "\<exists>ri wi ci. write_turns junk pf ins fd (take i (m # ms)) (r, w, c) = Some (Inr ri, wi, ci) \<and>
        watched (sys_calls wi) fd = Some EpollCanWite" if "0 < i" "i < Suc n" for i
      using that n(6) t(1) reg by (cases i; cases "i - 1") auto
    then show ?thesis
      using n(1-5) t(1,2) wire close keeps_others_trans [OF t(7) n(5)]
      by (intro exI [of _ "Suc n"] exI [of _ r2] exI [of _ w2] exI [of _ c2]) simp
  qed
qed

section \<open>A reply that is not waited for\<close>

text \<open>A read event that brings nothing leaves the connection ready, but for \<open>WriteComplete\<close>.\<close>

lemma ready_after_nothing:
  assumes "member_ready mb"
  obtains mb' where "DoRead pf [Would_block] (k, mb) = Some (Inr (), k, mb')" "member_ready mb'" "WriteComplete mb'" "\<not> CloseAble mb'"
    "hp_Buffer (mb_Parser mb') = hp_Buffer (mb_Parser mb)" "wl_Buffer (mb_Write_Loop mb') = wl_Buffer (mb_Write_Loop mb)"
    "Set_Ka (hp_Result (mb_Parser mb')) = Set_Ka (hp_Result (mb_Parser mb))"
proof -
  let ?p = "mb_Parser mb" and ?wl = "mb_Write_Loop mb"
  let ?q = "upd_Result (\<lambda>r. r\<lparr>Fault := HPFToLittleMessage\<rparr>) ?p"
  have at: "parser_at ?p []" and idle: "wl_idle ?wl" using assms by (simp_all add: member_ready_def)
  have blank: "blank_record (hp_Result ?p)" and empty: "UB_Readable (hp_Buffer ?p) = 0"
    using at by (simp_all add: parser_at_def UB_Readable_content)
  have que: "Que ?wl = []" using idle by (simp add: wl_idle_def)
  have "Parsering (pf_visits pf) ?q = Some (Inr (), ?q)"
    using empty by (intro Parsering_stop) (simp add: upd_Result_def)
  then have start: "Starting_Parser (pf_visits pf) ?p = Some (Inr HPFToLittleMessage, SetRequesting ?q)"
    using empty by (simp add: Starting_Parser_def Parser_able_def Let_def) (simp add: upd_Result_def)
  have nf: "\<not> Finished ?p" "\<not> Finished (SetRequesting ?q)"
    using init_fields(11) [OF blank] by (simp_all add: Finished_def) (simp add: upd_Result_def)
  have "DoAll (k, ?wl) = (Inr EMPTY, k, report_interval ?wl)"
    using DoAll_unfold [of k ?wl EMPTY k ?wl] que by (simp add: DoFirst_def)
  then have "DoRead pf [Would_block] (k, mb) = Some (Inr (), k,
      mb\<lparr>mb_Parser := SetRequesting ?q, mb_Write_Loop := report_interval ?wl, WriteComplete := True\<rparr>)"
    using start nf by (simp add: DoRead_def receive_def Socket_Read_def Write_all_def)
  moreover have "parser_at (SetRequesting ?q) []"
    using at blank by (simp add: parser_at_def) (simp add: upd_Result_def blank_record_def HttpParser_Content_init_def)
  moreover have "wl_idle (report_interval ?wl)" using idle by (simp add: wl_idle_def)
  ultimately show thesis
    using that nf(2) by (simp add: member_ready_def CloseAble_def) (simp add: upd_Result_def)
qed

lemma DoRead_arrived_partly:
  assumes "receive pf ks (mb_Parser m) = Some (Inr n, p1)" and "\<not> Finished p1"
    and "Starting_Parser (pf_visits pf) p1 = Some (Inr f, p)" and "Finished p"
    and "provide (pf_os pf) (Buffer (hp_Buffer p)) (pf_order pf) (pf_date pf) (hp_Request p, mb_Write_Loop m) = (Inr (), rq, w)"
    and "DoAll (k, w) = (Inr IMCOMPLETE, k', w')"
  shows "DoRead pf ks (k, m) = Some (Inr (), k',
     m\<lparr>mb_Parser := p\<lparr>hp_Request := rq\<rparr>, mb_Write_Loop := w', WriteComplete := WriteComplete m\<rparr>)"
  using assms by (simp add: DoRead_def Content_Provide_def Write_all_def)

text \<open>A request for a file that is not there, whose reply fits the output buffer, and a peer that takes a part of it.\<close>

definition refusable :: "platform \<Rightarrow> nat \<Rightarrow> nat \<Rightarrow> HttpFlag \<Rightarrow> http_message \<Rightarrow> string \<Rightarrow> bool" where
  "refusable pf room space ka msg type \<longleftrightarrow>
     message_fine msg \<and> msg_method msg \<noteq> HRPost \<and> length (request_text msg) < room \<and> names_file pf msg None type \<and>
     length (reply_text pf ka msg None type) < space"

lemma DoRead_refuses_partly:
  assumes ready: "member_ready mb" and cs: "concat cs = request_text msg"
    and ask: "refusable pf (UB_Writeable (hp_Buffer (mb_Parser mb))) (UB_Writeable (wl_Buffer (mb_Write_Loop mb)))
       (Set_Ka (hp_Result (mb_Parser mb))) msg type"
    and peer: "answers k = [Sent n]" "0 < n" "n < length (reply_text pf (Set_Ka (hp_Result (mb_Parser mb))) msg None type)"
  obtains k' mb' where "DoRead pf (map Received cs @ [Would_block]) (k, mb) = Some (Inr (), k', mb')"
    "wire k' = wire k @ take n (reply_text pf (Set_Ka (hp_Result (mb_Parser mb))) msg None type)"
    "wl_pending (mb_Write_Loop mb') = drop n (reply_text pf (Set_Ka (hp_Result (mb_Parser mb))) msg None type)"
    "wl_ok (mb_Write_Loop mb')" "sends_only (Que (mb_Write_Loop mb'))"
    "WriteComplete mb' = WriteComplete mb" "CloseAble mb' \<longleftrightarrow> reply_closes (Set_Ka (hp_Result (mb_Parser mb))) msg"
proof -
  let ?ka = "Set_Ka (hp_Result (mb_Parser mb))"
  have fine: "message_fine msg" and get: "msg_method msg \<noteq> HRPost" and names: "names_file pf msg None type"
    and fits: "length (request_text msg) < UB_Writeable (hp_Buffer (mb_Parser mb))"
    and room: "length (reply_text pf ?ka msg None type) < UB_Writeable (wl_Buffer (mb_Write_Loop mb))"
    using ask by (simp_all add: refusable_def)
  have idle: "wl_idle (mb_Write_Loop mb)" using ready by (simp add: member_ready_def)
  obtain i p1 p where p: "receive pf (map Received cs @ [Would_block]) (mb_Parser mb) = Some (Inr i, p1)"
    "\<not> Finished p1" "Starting_Parser (pf_visits pf) p1 = Some (Inr HPFContent, p)" "request_arrived msg ?ka p"
    using ready_request_arrives [OF ready fine cs fits] by metis
  obtain host where h: "request_names (Buffer (hp_Buffer p)) (pf_order pf) (hp_Request p) host (msg_uri msg)"
    "served_file (pf_os pf) host (msg_uri msg) = None" "length (msg_uri msg) < usable (pf_os pf) 1" "uri_type (msg_uri msg) = Inr type"
    and rq: "rq_Method (hp_Request p) = msg_method msg" "Version_Major (hp_Request p) = 1"
    "Version_Minor (hp_Request p) = minor_value (msg_minor msg)" "rq_Flag (hp_Request p) = flag_of ?ka (msg_fields msg)"
    using arrived_request [OF p(4) fine names] by metis
  obtain N wl where w: "provide (pf_os pf) (Buffer (hp_Buffer p)) (pf_order pf) (pf_date pf) (hp_Request p, mb_Write_Loop mb) =
      (Inr (), (hp_Request p)\<lparr>rq_StatusCode := HSCBadRequest\<rparr>, wl)" "wl_ok wl" "Que wl = [Task_Send N]"
    "wl_pending wl = reply_text pf ?ka msg None type"
    using provide_refused [OF h(1,3) _ h(2,4) idle, of "pf_date pf"] get room by (auto simp: rq reply_text_def)
  have "nat N = length (reply_text pf ?ka msg None type)"
    using first_send_ok(3,5) [OF w(2,3)] w(4) by simp
  then obtain k' wl' where d: "DoAll (k, wl) = (Inr IMCOMPLETE, (k', wl'))" "wire k' = wire k @ take n (wl_pending wl)"
    "wl_pending wl' = drop n (wl_pending wl)" "wl_ok wl'" "sends_only (Que wl')"
    using DoAll_event_part [OF w(2,3) _ peer(1,2)] peer(3) by (auto simp: sends_only_def)
  have "Finished p" using p(4) by (simp add: request_arrived_def)
  moreover have "CloseAble (mb\<lparr>mb_Parser := p\<lparr>hp_Request := (hp_Request p)\<lparr>rq_StatusCode := HSCBadRequest\<rparr>\<rparr>, mb_Write_Loop := wl'\<rparr>)
      \<longleftrightarrow> reply_closes ?ka msg"
    using arrived_CloseAble [OF p(4) fine, where m = mb and c = HSCBadRequest and w = wl' and b = "WriteComplete mb"] by (simp add: reply_closes_def)
  ultimately show thesis
    using DoRead_arrived_partly [OF p(1-3) _ w(1) d(1)] d(2-5) w(4) that by simp
qed

lemma refused_event:
  assumes ev: "readable ev" "Return_fd ev = fd" "fd \<noteq> ch_eventfd c" and mb: "Fd_To_Member (ch_Manger c) fd = Some mb"
    and reg: "watched (sys_calls w) fd \<noteq> None" and ready: "member_ready mb"
    and recv: "ei_recv inp = map Received cs @ [Would_block]" "concat cs = request_text msg"
    and ask: "refusable pf (UB_Writeable (hp_Buffer (mb_Parser mb))) (UB_Writeable (wl_Buffer (mb_Write_Loop mb)))
       (Set_Ka (hp_Result (mb_Parser mb))) msg type"
    and reply: "reply = reply_text pf (Set_Ka (hp_Result (mb_Parser mb))) msg None type"
    and peer: "answers (kernels w fd) = [Sent n]" "0 < n" "n < length reply"
  obtains w' c' mb' where "handle_event junk pf inp ev (w, c) = Some (Inr (), w', c')" "wire (kernels w' fd) = wire (kernels w fd) @ take n reply"
    "Fd_To_Member (ch_Manger c') fd = Some mb'" "wl_pending (mb_Write_Loop mb') = drop n reply"
    "wl_ok (mb_Write_Loop mb')" "sends_only (Que (mb_Write_Loop mb'))"
    "CloseAble mb' \<longleftrightarrow> reply_closes (Set_Ka (hp_Result (mb_Parser mb))) msg"
    "watched (sys_calls w') fd = writing_watch (WriteComplete mb) (CloseAble mb')" "keeps_others {fd} (w, c) (w', c')"
proof -
  obtain k' mb1 where rd: "DoRead pf (ei_recv inp) (kernels w fd, mb) = Some (Inr (), k', mb1)" "wire k' = wire (kernels w fd) @ take n reply"
    "wl_pending (mb_Write_Loop mb1) = drop n reply" "wl_ok (mb_Write_Loop mb1)" "sends_only (Que (mb_Write_Loop mb1))"
    "WriteComplete mb1 = WriteComplete mb" "CloseAble mb1 \<longleftrightarrow> reply_closes (Set_Ka (hp_Result (mb_Parser mb))) msg"
    using DoRead_refuses_partly [OF ready recv(2) ask peer(1,2) peer(3) [unfolded reply]] unfolding recv(1) reply by metis
  obtain w' c' mb' where e: "handle_event junk pf inp ev (w, c) = Some (Inr (), w', c')" "kernels w' fd = k'"
    "Fd_To_Member (ch_Manger c') fd = Some mb'" "same_member mb1 mb'"
    "watched (sys_calls w') fd = writing_watch (WriteComplete mb1) (CloseAble mb1)" "keeps_others {fd} (w, c) (w', c')"
    by (rule read_event [where junk = junk, OF ev(1) _ _ _ rd(1) [folded ev(2)], unfolded ev(2)]) (use ev mb reg in simp_all)
  have "CloseAble mb' = CloseAble mb1" "mb_Write_Loop mb' = mb_Write_Loop mb1"
    using e(4) by (simp_all add: same_member_def CloseAble_def)
  then show thesis using that [OF e(1) _ e(3)] e(2,5,6) rd(2-7) by simp
qed

text \<open>Events are handled by the worker as it is after \<open>epoll_wait\<close> reported them.\<close>

lemma delivered_event:
  assumes "watched (sys_calls w) (Return_fd ev) \<noteq> None"
  obtains w1 where "deliver (Ready [ev]) (w, c) = (w1, c)" "kernels w1 = kernels w" "watched (sys_calls w1) (Return_fd ev) \<noteq> None"
    "keeps_others {Return_fd ev} (w, c) (w1, c)"
  using that [of "fst (deliver (Ready [ev]) (w, c))"] assms
  by (auto simp: deliver_simps keeps_others_def watched_append split: option.split)

section \<open>Properties of slow peers\<close>


text \<open>C21: The same request after a read event that brought nothing: that one had set \<open>WriteComplete\<close>, which \<open>DoRead\<close> never takes back, so that the rest
  of the reply is not waited for. The connection is closed with the rest in its buffer when the request says so, and otherwise
  registered for reading alone.\<close>

theorem late_reply_is_cut:
  assumes "readable ev" and "Return_fd ev = fd" and "fd \<noteq> ch_eventfd c" and "Fd_To_Member (ch_Manger c) fd = Some mb"
    and "watched (sys_calls w) fd \<noteq> None" and "1 \<le> length (er_array r)" and "member_ready mb" and "ei_recv (ins 0) = [Would_block]"
    and "ei_recv (ins' 0) = map Received cs @ [Would_block]" and "concat cs = request_text msg"
    and "ka = Set_Ka (hp_Result (mb_Parser mb))"
    and "refusable pf (UB_Writeable (hp_Buffer (mb_Parser mb))) (UB_Writeable (wl_Buffer (mb_Write_Loop mb))) ka msg type"
    and "reply = reply_text pf ka msg None type" and "answers (kernels w fd) = [Sent n]" and "0 < n" and "n < length reply"
  shows "\<exists>r1 s1 r2 w' c' mb'. looping_turn junk pf ins (Ready [ev]) (r, w, c) = Some (Inr r1, s1) \<and>
     looping_turn junk pf ins' (Ready [ev]) (r1, s1) = Some (Inr r2, w', c') \<and>
     wire (kernels w' fd) = wire (kernels w fd) @ take n reply \<and>
     Fd_To_Member (ch_Manger c') fd = Some mb' \<and> wl_pending (mb_Write_Loop mb') = drop n reply \<and>
     watched (sys_calls w') fd = (if reply_closes ka msg then None else Some EpollCanRead)"
proof -
  obtain w0 where w0: "deliver (Ready [ev]) (w, c) = (w0, c)" "kernels w0 = kernels w" "watched (sys_calls w0) (Return_fd ev) \<noteq> None"
    using delivered_event [of w ev c] assms(2,5) by metis
  obtain mb1 where m1: "DoRead pf [Would_block] (kernels w fd, mb) = Some (Inr (), kernels w fd, mb1)" "member_ready mb1" "WriteComplete mb1"
    "\<not> CloseAble mb1" "hp_Buffer (mb_Parser mb1) = hp_Buffer (mb_Parser mb)" "wl_Buffer (mb_Write_Loop mb1) = wl_Buffer (mb_Write_Loop mb)"
    "Set_Ka (hp_Result (mb_Parser mb1)) = ka"
    unfolding assms(11) by (rule ready_after_nothing [OF assms(7)])
  have rd: "DoRead pf (ei_recv (ins 0)) (kernels w0 (Return_fd ev), mb) = Some (Inr (), kernels w fd, mb1)"
    using m1(1) assms(2,8) w0(2) by simp
  obtain w1 c1 mb2 where e1: "handle_event junk pf (ins 0) ev (w0, c) = Some (Inr (), w1, c1)" "kernels w1 fd = kernels w fd"
    "Fd_To_Member (ch_Manger c1) fd = Some mb2" "same_member mb1 mb2" "watched (sys_calls w1) fd = writing_watch (WriteComplete mb1) (CloseAble mb1)"
    "keeps_others {fd} (w0, c) (w1, c1)"
    using read_event [where junk = junk, OF assms(1) _ _ w0(3) rd] assms(2-4) by metis
  have mb2: "mb2 = mb1" using e1(4) m1(4) by (simp add: same_member_def)
  have reg: "watched (sys_calls w1) (Return_fd ev) \<noteq> None" "fd \<noteq> ch_eventfd c1"
    using e1(5,6) m1(3,4) assms(2,3) by (simp_all add: writing_watch_def answered_watch_def keeps_others_def)
  note turn1 = single_turn [where ins = ins, OF assms(6) e1(1) [folded w0(1)]]
  obtain w2 where w2: "deliver (Ready [ev]) (w1, c1) = (w2, c1)" "kernels w2 = kernels w1" "watched (sys_calls w2) fd \<noteq> None"
    using delivered_event [of w1 ev c1] reg(1) assms(2) by metis
  have ask: "refusable pf (UB_Writeable (hp_Buffer (mb_Parser mb1))) (UB_Writeable (wl_Buffer (mb_Write_Loop mb1)))
      (Set_Ka (hp_Result (mb_Parser mb1))) msg type" "reply = reply_text pf (Set_Ka (hp_Result (mb_Parser mb1))) msg None type"
    using assms(12,13) m1(5-7) by simp_all
  have peer: "answers (kernels w2 fd) = [Sent n]" using assms(14) w2(2) e1(2) by simp
  obtain w' c' mb' where e2: "handle_event junk pf (ins' 0) ev (w2, c1) = Some (Inr (), w', c')" "wire (kernels w' fd) = wire (kernels w2 fd) @ take n reply"
    "Fd_To_Member (ch_Manger c') fd = Some mb'" "wl_pending (mb_Write_Loop mb') = drop n reply"
    "wl_ok (mb_Write_Loop mb')" "sends_only (Que (mb_Write_Loop mb'))" "CloseAble mb' \<longleftrightarrow> reply_closes (Set_Ka (hp_Result (mb_Parser mb1))) msg"
    "watched (sys_calls w') fd = writing_watch (WriteComplete mb1) (CloseAble mb')" "keeps_others {fd} (w2, c1) (w', c')"
    by (rule refused_event [where junk = junk, OF assms(1,2) reg(2) e1(3) [unfolded mb2] w2(3) m1(2) assms(9,10) ask peer assms(15,16)])
  have "1 \<le> length (er_array (Epoll_Wait (Ready [ev]) r))" using turn1(2) assms(6) by simp
  from single_turn(1) [where ins = ins', OF this e2(1) [folded w2(1)]] show ?thesis
    using turn1(1) e2(2-4,7,8) m1(3,7) w2(2) e1(2) by (auto simp: writing_watch_def answered_watch_def)
qed

section \<open>Witnesses\<close>

definition serving_world :: "send_answer list \<Rightarrow> world" where
  "serving_world as = \<lparr>sys_calls = [Epoll_add 4 EpollCanRead, Epoll_add 7 EpollCanRead], kernels = \<lambda>fd. \<lparr>answers = as, wire = [], errno = EWOULDBLOCK\<rparr>,
     close_value = \<lambda>fd. 0\<rparr>"

definition sample_visit :: "int \<Rightarrow> visit" where
  "sample_visit fd =
     (if fd = 5 then \<lparr>vi_pieces = [request_text (sample_request ''/'')], vi_message = sample_request ''/'', vi_file = Some ''hello'', vi_type = defaultMIME\<rparr>
      else \<lparr>vi_pieces = [request_text (sample_request ''/none'')], vi_message = sample_request ''/none'', vi_file = None, vi_type = defaultMIME\<rparr>)"

lemma sample_request_values: "msg_method (sample_request uri) = HRGet" "minor_value (msg_minor (sample_request uri)) = 1"
  "flag_of ka (msg_fields (sample_request uri)) = ka" "msg_minor (sample_request uri) \<noteq> CHR ''0''"
  by (simp_all add: sample_request_def minor_value_def flag_of_def)

lemma sample_replies:
  "reply_text sample_platform Keep_Alive (sample_request uri) (Some bs) type = file_response 1 1 Keep_Alive (pf_date sample_platform) type bs"
  "reply_text sample_platform Keep_Alive (sample_request uri) None type = error_response 1 1 Keep_Alive (pf_date sample_platform) type"
  "\<not> reply_closes Keep_Alive (sample_request uri)"
  by (simp_all add: reply_text_def reply_closes_def sample_request_values)

lemma sample_answerable:
  "answerable sample_platform 4048 4048 Keep_Alive (kernels (serving_world (replicate 3 (Sent 999))) fd)
     (vi_message (sample_visit fd')) (vi_file (sample_visit fd')) (vi_type (sample_visit fd'))"
  using sample_request_fine sample_file sample_heads
  by (simp add: answerable_def sample_visit_def serving_world_def sample_replies sample_request_values file_response_def)

definition sample_junk :: "int \<Rightarrow> HttpRequest \<times> 32 word" where
  "sample_junk fd = (hp_Request (parser_with []), 0)"

definition brings :: "recv_result list \<Rightarrow> event_input" where
  "brings as = \<lparr>ei_recv = as, ei_count = 0\<rparr>"

definition request_then_nothing :: "string \<Rightarrow> event_input" where
  "request_then_nothing uri = brings (map Received [request_text (sample_request uri)] @ [Would_block])"

definition counts :: "nat \<Rightarrow> event_input" where
  "counts n = \<lparr>ei_recv = [], ei_count = n\<rparr>"

lemma sample_events: "readable (EpollEvent_of fd EETCOULDREAD)" "Return_fd (EpollEvent_of fd m) = fd" "length (er_array (EpollEvent_Result_new 2)) = 2"
  by (simp_all add: readable_def check_def EpollEvent_of_def EETCOULDREAD_def EETRDHUP_def EpollEvent_Result_new_def)

lemma sample_accepted:
  "ptr_que ((channel_new 4)\<lparr>ptr_que := fds\<rparr>) = fds" "ch_eventfd ((channel_new 4)\<lparr>ptr_que := fds\<rparr>) = 4"
  "Fd_To_Member (ch_Manger ((channel_new 4)\<lparr>ptr_que := fds\<rparr>)) fd = None"
  "watched (sys_calls (serving_world as)) 5 = None" "watched (sys_calls (serving_world as)) 6 = None" "wire (kernels (serving_world as) fd) = []"
  by (simp_all add: channel_new_def Manger_new_def serving_world_def watched_def)

theorem new_connections_are_served_witness:
  "\<exists>r1 s1 r2 w' c'. looping_turn sample_junk sample_platform (\<lambda>_. counts 2)
       (Ready [EpollEvent_of 4 EETCOULDREAD]) (EpollEvent_Result_new 2, serving_world (replicate 3 (Sent 999)), (channel_new 4)\<lparr>ptr_que := [5, 6]\<rparr>)
       = Some (Inr r1, s1) \<and>
     looping_turn sample_junk sample_platform (\<lambda>j. request_then_nothing (if j = 0 then ''/none'' else ''/''))
       (Ready [EpollEvent_of 6 EETCOULDREAD, EpollEvent_of 5 EETCOULDREAD]) (r1, s1) = Some (Inr r2, w', c') \<and>
     wire (kernels w' 5) = file_response 1 1 Keep_Alive (pf_date sample_platform) defaultMIME ''hello'' \<and>
     wire (kernels w' 6) = error_response 1 1 Keep_Alive (pf_date sample_platform) defaultMIME \<and>
     watched (sys_calls w') 5 = Some EpollCanRead"
proof -
  let ?es = "[EpollEvent_of 6 EETCOULDREAD, EpollEvent_of 5 EETCOULDREAD]"
  let ?ins = "\<lambda>j. request_then_nothing (if j = 0 then ''/none'' else ''/'')"
  let ?w = "serving_world (replicate 3 (Sent 999))"
  let ?c = "(channel_new 4)\<lparr>ptr_que := [5, 6]\<rparr>"
  have ask: "concat (vi_pieces (sample_visit fd)) = request_text (vi_message (sample_visit fd)) \<and>
      answerable sample_platform 4048 4048 Keep_Alive (kernels ?w fd) (vi_message (sample_visit fd)) (vi_file (sample_visit fd)) (vi_type (sample_visit fd))" for fd
    using sample_answerable by (simp add: sample_visit_def)
  have come: "\<forall>j < length ?es. ei_recv (?ins j) = map Received (vi_pieces (sample_visit (Return_fd (?es ! j)))) @ [Would_block]"
    by (simp add: request_then_nothing_def brings_def sample_events sample_visit_def less_Suc_eq)
  have "\<exists>r1 s1 r2 w' c'. looping_turn sample_junk sample_platform (\<lambda>_. counts 2) (Ready [EpollEvent_of 4 EETCOULDREAD]) (EpollEvent_Result_new 2, ?w, ?c)
       = Some (Inr r1, s1) \<and> looping_turn sample_junk sample_platform ?ins (Ready ?es) (r1, s1) = Some (Inr r2, w', c') \<and> ptr_que c' = [] \<and>
     (\<forall>fd \<in> Return_fd ` set ?es.
        wire (kernels w' fd) = wire (kernels ?w fd) @
          reply_text sample_platform Keep_Alive (vi_message (sample_visit fd)) (vi_file (sample_visit fd)) (vi_type (sample_visit fd)) \<and>
        watched (sys_calls w') fd = answered_watch (reply_closes Keep_Alive (vi_message (sample_visit fd)))) \<and>
     (\<forall>fd. fd \<notin> set [5, 6] \<longrightarrow> kernels w' fd = kernels ?w fd \<and> Fd_To_Member (ch_Manger c') fd = Fd_To_Member (ch_Manger ?c) fd)"
    by (rule new_connections_are_served [OF _ _ _ _ _ _ _ _ _ _ _ come])
      (use ask sample_accepted(3) in \<open>simp_all add: sample_accepted sample_events counts_def\<close>)
  then obtain r1 s1 r2 w' c' where run: "looping_turn sample_junk sample_platform (\<lambda>_. counts 2) (Ready [EpollEvent_of 4 EETCOULDREAD])
       (EpollEvent_Result_new 2, ?w, ?c) = Some (Inr r1, s1)" "looping_turn sample_junk sample_platform ?ins (Ready ?es) (r1, s1) = Some (Inr r2, w', c')"
    and out: "\<forall>fd \<in> {6, 5}. wire (kernels w' fd) = wire (kernels ?w fd) @
          reply_text sample_platform Keep_Alive (vi_message (sample_visit fd)) (vi_file (sample_visit fd)) (vi_type (sample_visit fd)) \<and>
        watched (sys_calls w') fd = answered_watch (reply_closes Keep_Alive (vi_message (sample_visit fd)))"
    by (simp only: list.map list.set image_insert image_empty sample_events(2)) blast
  have "wire (kernels w' 5) = file_response 1 1 Keep_Alive (pf_date sample_platform) defaultMIME ''hello''"
    "wire (kernels w' 6) = error_response 1 1 Keep_Alive (pf_date sample_platform) defaultMIME" "watched (sys_calls w') 5 = Some EpollCanRead"
    using out by (simp_all add: sample_accepted(6) sample_visit_def sample_replies answered_watch_def)
  with run show ?thesis by blast
qed

lemma sample_refusable: "refusable sample_platform (UB_Writeable (hp_Buffer (mb_Parser sample_member)))
    (UB_Writeable (wl_Buffer (mb_Write_Loop sample_member))) Keep_Alive (sample_request ''/none'') defaultMIME"
  using sample_request_fine sample_file sample_heads
  by (simp add: refusable_def sample_member_ready sample_replies sample_request_values)

lemma sample_reply_length:
  "9 < length (error_response 1 1 Keep_Alive (pf_date sample_platform) defaultMIME)"
  by code_simp

lemma sample_slow:
  "ch_eventfd (sample_channel ms) = 4" "Fd_To_Member (ch_Manger (sample_channel ms)) = ms"
  "watched (sys_calls (serving_world [Sent 9])) 7 = Some EpollCanRead"
  "answers (kernels (serving_world as) fd) = as" "wire (kernels (serving_world as) fd) = []" "\<not> WriteComplete sample_member"
  by (simp_all add: sample_channel_def channel_new_def Manger_new_def serving_world_def watched_def sample_member_def Member_Init_def)


theorem late_reply_is_cut_witness:
  "\<exists>r1 s1 r2 w' c'. looping_turn sample_junk sample_platform (\<lambda>_. brings [Would_block])
       (Ready [EpollEvent_of 7 EETCOULDREAD]) (EpollEvent_Result_new 2, serving_world [Sent 9], sample_channel [7 \<mapsto> sample_member]) = Some (Inr r1, s1) \<and>
     looping_turn sample_junk sample_platform (\<lambda>_. request_then_nothing ''/none'')
       (Ready [EpollEvent_of 7 EETCOULDREAD]) (r1, s1) = Some (Inr r2, w', c') \<and>
     wire (kernels w' 7) = take 9 (error_response 1 1 Keep_Alive (pf_date sample_platform) defaultMIME) \<and>
     watched (sys_calls w') 7 = Some EpollCanRead"
proof -
  have "\<exists>r1 s1 r2 w' c' mb'. looping_turn sample_junk sample_platform (\<lambda>_. brings [Would_block])
       (Ready [EpollEvent_of 7 EETCOULDREAD]) (EpollEvent_Result_new 2, serving_world [Sent 9], sample_channel [7 \<mapsto> sample_member]) = Some (Inr r1, s1) \<and>
     looping_turn sample_junk sample_platform (\<lambda>_. request_then_nothing ''/none'')
       (Ready [EpollEvent_of 7 EETCOULDREAD]) (r1, s1) = Some (Inr r2, w', c') \<and>
     wire (kernels w' 7) = wire (kernels (serving_world [Sent 9]) 7) @ take 9 (error_response 1 1 Keep_Alive (pf_date sample_platform) defaultMIME) \<and>
     Fd_To_Member (ch_Manger c') 7 = Some mb' \<and>
     wl_pending (mb_Write_Loop mb') = drop 9 (error_response 1 1 Keep_Alive (pf_date sample_platform) defaultMIME) \<and>
     watched (sys_calls w') 7 = (if reply_closes Keep_Alive (sample_request ''/none'') then None else Some EpollCanRead)"
    unfolding sample_replies(2) [where uri = "''/none''" and type = defaultMIME, symmetric]
    by (rule late_reply_is_cut [where cs = "[request_text (sample_request ''/none'')]", OF sample_events(1,2) _ _ _ _ sample_member_ready(1) _ _ _ _ sample_refusable _ sample_slow(4)])
      (use sample_reply_length in \<open>simp_all add: sample_slow sample_events sample_member_ready sample_replies request_then_nothing_def brings_def\<close>)
  then show ?thesis unfolding sample_slow(5) append_Nil by (simp only: sample_replies(3) if_False) blast
qed

end
