(* ===== verification/Load_Balance.thy ===== *)
theory Load_Balance
  imports Prelude "HOL-Library.Product_Lexorder" "HOL-Library.Multiset"
begin

text \<open>
  \<open>src/src/tool/loadbalance.h\<close> and \<open>loadbalance.cc\<close>: the choice of the thread for a new
  connection, a smooth weighted round robin over the threads, and the preparation of the weights
  from the reports of the threads. The reports are the content of the lock-free queue, oldest
  first.
\<close>

section \<open>The state\<close>

record ThreadLoadData =
  Throughput :: "32 word"
  ThreadId :: "16 word"
  ConnectionNumber :: "16 word"

record LoadBalance =
  PerThreadThroughput :: "32 word list"
  CurrentWeight :: "int list"
  TotalWeight :: int
  PerThreadConnectNumber :: "16 word list"
  KeepData :: bool

text \<open>The constructor does not assign \<open>TotalWeight\<close> (\<open>junk\<close>).\<close>

definition LoadBalance_new :: "int \<Rightarrow> nat \<Rightarrow> LoadBalance" where
  "LoadBalance_new junk hardware_concurrency =
     (let ThreadSum = max 1 (hardware_concurrency - 1) in
      \<lparr>PerThreadThroughput = replicate ThreadSum 0, CurrentWeight = replicate ThreadSum 0,
       TotalWeight = junk, PerThreadConnectNumber = replicate ThreadSum 0, KeepData = False\<rparr>)"

definition GetFlag :: "LoadBalance \<Rightarrow> bool" where
  "GetFlag lb = KeepData lb"

definition SetFlag :: "bool \<Rightarrow> LoadBalance \<Rightarrow> LoadBalance" where
  "SetFlag flag lb = lb\<lparr>KeepData := flag\<rparr>"

text \<open>A \<open>long\<close> has 64 bits.\<close>

definition int64_ok :: "int \<Rightarrow> bool" where
  "int64_ok i \<longleftrightarrow> - (2 ^ 63) \<le> i \<and> i < 2 ^ 63"

section \<open>Distribution\<close>

fun add_weights :: "int list \<Rightarrow> 32 word list \<Rightarrow> cpp_error + int list" where
  "add_weights [] ts = Inr []"
| "add_weights (c # cs) [] = Inl Bad_access"
| "add_weights (c # cs) (t # ts) =
     (let c' = c + uint t in
      if int64_ok c'
      then (case add_weights cs ts of Inl e \<Rightarrow> Inl e | Inr cs' \<Rightarrow> Inr (c' # cs'))
      else Inl Signed_overflow)"

text \<open>\<open>std::max_element\<close>, as an index: the first of the greatest elements.\<close>

fun max_element_from :: "int list \<Rightarrow> nat \<Rightarrow> nat \<Rightarrow> int \<Rightarrow> nat" where
  "max_element_from [] k best m = best"
| "max_element_from (x # xs) k best m =
     (if m < x then max_element_from xs (Suc k) k x else max_element_from xs (Suc k) best m)"

fun max_element :: "int list \<Rightarrow> nat" where
  "max_element [] = 0"
| "max_element (x # xs) = max_element_from xs 1 0 x"

definition Distribution :: "LoadBalance \<Rightarrow> (LoadBalance, nat) cpp" where
  "Distribution lb =
     (case add_weights (CurrentWeight lb) (PerThreadThroughput lb) of
        Inl e \<Rightarrow> (Inl e, lb)
      | Inr cw \<Rightarrow>
          if cw = [] then (Inl Bad_access, lb)
          else
            let index = max_element cw; w = cw ! index - TotalWeight lb in
            if int64_ok w then (Inr index, lb\<lparr>CurrentWeight := cw[index := w]\<rparr>)
            else (Inl Signed_overflow, lb\<lparr>CurrentWeight := cw\<rparr>))"

section \<open>Taking the reports\<close>

text \<open>Adding to one element of a vector of counters.\<close>

definition bump :: "nat \<Rightarrow> 'w :: len word \<Rightarrow> 'w word list \<Rightarrow> 'w word list" where
  "bump i d xs = xs[i := xs ! i + d]"

definition account_item :: "ThreadLoadData \<Rightarrow> LoadBalance \<Rightarrow> (LoadBalance, unit) cpp" where
  "account_item item lb =
     (let i = unat (ThreadId item) in
      if i < length (PerThreadConnectNumber lb) \<and> i < length (PerThreadThroughput lb)
      then (Inr (),
            lb\<lparr>PerThreadConnectNumber := bump i (ConnectionNumber item) (PerThreadConnectNumber lb),
               PerThreadThroughput := bump i (Throughput item) (PerThreadThroughput lb)\<rparr>)
      else (Inl Bad_access, lb))"

text \<open>
  \<open>Resize\<close>: \<open>USHRT_MAX - item.ConnectionNumber\<close> is an \<open>int\<close> expression,
  \<open>UINT_MAX - item.Throughput\<close> an unsigned one.
\<close>

definition Resize :: "ThreadLoadData \<Rightarrow> LoadBalance \<Rightarrow> (LoadBalance, unit) cpp" where
  "Resize item lb =
     (let i = unat (ThreadId item) in
      if i < length (PerThreadConnectNumber lb) \<and> i < length (PerThreadThroughput lb)
      then
        let conn = PerThreadConnectNumber lb;
            conn = (if 65535 - int (unat (ConnectionNumber item)) < int (unat (conn ! i))
                    then map (\<lambda>data. data div 2) conn else conn);
            load = PerThreadThroughput lb;
            load = (if 4294967295 - Throughput item < load ! i
                    then map (\<lambda>data. data div 2) load else load) in
        (Inr (),
         lb\<lparr>PerThreadConnectNumber := bump i (ConnectionNumber item) conn,
            PerThreadThroughput := bump i (Throughput item) load\<rparr>)
      else (Inl Bad_access, lb))"

fun take_items :: "ThreadLoadData list \<Rightarrow> LoadBalance \<Rightarrow> (LoadBalance, unit) cpp" where
  "take_items [] lb = (Inr (), lb)"
| "take_items (item # que) lb =
     bindc (if KeepData lb then Resize item lb else account_item item lb) (\<lambda>_ lb. take_items que lb)"

text \<open>
  \<open>std::accumulate\<close> with the initial value \<open>0\<close> accumulates in an \<open>int\<close>: each sum is an
  unsigned 32-bit addition, converted back.
\<close>

definition accumulate_int :: "32 word list \<Rightarrow> int" where
  "accumulate_int ws = sint (foldl (+) 0 ws)"

text \<open>The exchange of the loads: the least loaded thread gets the weight of the most loaded.\<close>

definition swap_at :: "nat \<Rightarrow> nat \<Rightarrow> 'a list \<Rightarrow> 'a list" where
  "swap_at i j xs = xs[i := xs ! j, j := xs ! i]"

definition by_load :: "32 word list \<Rightarrow> (32 word \<times> nat) list" where
  "by_load ws = sort (zip ws [0..<length ws])"

definition reverse_loads :: "32 word list \<Rightarrow> 32 word list" where
  "reverse_loads ws =
     (let temp = by_load ws; n = length ws in
      fold (\<lambda>i. swap_at (snd (temp ! i)) (snd (temp ! (n - i - 1)))) [0..<n div 2] ws)"

text \<open>Without \<open>KeepData\<close> the tables start from zero.\<close>

definition clear_reports :: "LoadBalance \<Rightarrow> LoadBalance" where
  "clear_reports lb =
     (if KeepData lb then lb
      else lb\<lparr>PerThreadThroughput := map (\<lambda>_. 0) (PerThreadThroughput lb),
              PerThreadConnectNumber := map (\<lambda>_. 0) (PerThreadConnectNumber lb)\<rparr>)"

definition ExtractDataDromLockFreeQueue ::
  "ThreadLoadData list \<Rightarrow> LoadBalance \<Rightarrow> (LoadBalance, nat) cpp" where
  "ExtractDataDromLockFreeQueue que lb =
     bindc (take_items que (clear_reports lb)) (\<lambda>_ lb.
        (Inr (length que),
         lb\<lparr>PerThreadThroughput := reverse_loads (PerThreadThroughput lb),
            CurrentWeight := map (\<lambda>_. 0) (CurrentWeight lb),
            TotalWeight := accumulate_int (PerThreadThroughput lb)\<rparr>))"

section \<open>The chosen element\<close>

lemma max_element_from_spec:
  assumes "best < k" and "k + length xs = length ys" and "drop k ys = xs" and "ys ! best = m"
    and "\<forall>j < k. ys ! j \<le> m" and "\<forall>j < best. ys ! j < m"
  shows "max_element_from xs k best m < length ys \<and>
     (\<forall>j < length ys. ys ! j \<le> ys ! max_element_from xs k best m) \<and>
     (\<forall>j < max_element_from xs k best m. ys ! j < ys ! max_element_from xs k best m)"
  using assms
proof (induction xs k best m rule: max_element_from.induct)
  case (2 x xs k best m)
  have x: "ys ! k = x" "drop (Suc k) ys = xs"
    using "2.prems"(3) by (metis nth_via_drop) (metis "2.prems"(3) drop_Suc list.sel(3) tl_drop)
  show ?case
  proof (cases "m < x")
    case True
    have "\<forall>j < Suc k. ys ! j \<le> x" "\<forall>j < k. ys ! j < x"
      using "2.prems"(5) True x by (auto simp: less_Suc_eq)
    then show ?thesis
      using "2.IH"(1) [OF True] "2.prems"(2) x True by simp
  next
    case False
    have "\<forall>j < Suc k. ys ! j \<le> m"
      using "2.prems"(5) False x by (auto simp: less_Suc_eq)
    then show ?thesis
      using "2.IH"(2) [OF False] "2.prems" x False by simp
  qed
qed auto

lemma max_element_spec:
  assumes "ys \<noteq> []"
  shows "max_element ys < length ys"
    and "j < length ys \<Longrightarrow> ys ! j \<le> ys ! max_element ys"
    and "j < max_element ys \<Longrightarrow> ys ! j < ys ! max_element ys"
proof -
  obtain y zs where ys: "ys = y # zs" using assms by (cases ys) auto
  note * = max_element_from_spec [of 0 1 zs ys y]
  show "max_element ys < length ys" using * ys by simp
  show "ys ! j \<le> ys ! max_element ys" if "j < length ys" using * ys that by auto
  show "ys ! j < ys ! max_element ys" if "j < max_element ys" using * ys that by auto
qed

lemma max_element_unique:
  assumes "i < length ys" and "\<And>j. j < length ys \<Longrightarrow> ys ! j \<le> ys ! i"
    and "\<And>j. j < i \<Longrightarrow> ys ! j < ys ! i"
  shows "max_element ys = i"
proof -
  have ne: "ys \<noteq> []" using assms(1) by auto
  note m = max_element_spec [OF ne]
  show ?thesis
    using assms(2) [OF m(1)] assms(3) [of "max_element ys"] m(2) [OF assms(1)] m(3) [of i]
    by (metis linorder_neqE_nat not_le)
qed

section \<open>Rounds of the weighted round robin\<close>

text \<open>
  \<open>balanced\<close>: the total is the sum of the weights (it has not wrapped), the current weights
  add up to zero, and none has fallen by a whole round.
\<close>

definition balanced :: "LoadBalance \<Rightarrow> bool" where
  "balanced lb \<longleftrightarrow>
     length (CurrentWeight lb) = length (PerThreadThroughput lb) \<and>
     0 < length (PerThreadThroughput lb) \<and> length (PerThreadThroughput lb) \<le> 65536 \<and>
     TotalWeight lb = sum_list (map uint (PerThreadThroughput lb)) \<and>
     0 < TotalWeight lb \<and> TotalWeight lb < 2 ^ 31 \<and>
     sum_list (CurrentWeight lb) = 0 \<and>
     (\<forall>i < length (CurrentWeight lb). - TotalWeight lb < CurrentWeight lb ! i)"

lemma balanced_low: "balanced lb \<Longrightarrow> i < length (CurrentWeight lb) \<Longrightarrow> - TotalWeight lb < CurrentWeight lb ! i"
  unfolding balanced_def by blast

lemma sum_list_nth: "sum_list xs = (\<Sum>i<length xs. xs ! i)" for xs :: "int list"
  by (simp add: sum_list_sum_nth atLeast0LessThan)

lemma sum_list_upd:
  fixes xs :: "int list"
  shows "i < length xs \<Longrightarrow> sum_list (xs[i := v]) = sum_list xs - xs ! i + v"
  by (induction xs arbitrary: i) (auto split: nat.splits)

lemma balanced_upper:
  assumes "balanced lb" and "i < length (CurrentWeight lb)"
  shows "CurrentWeight lb ! i \<le> 65536 * TotalWeight lb"
proof -
  let ?cw = "CurrentWeight lb" and ?W = "TotalWeight lb"
  let ?R = "{..<length ?cw} - {i}"
  have "sum_list ?cw = 0" using assms(1) by (simp add: balanced_def)
  then have "(\<Sum>j\<in>{..<length ?cw}. ?cw ! j) = 0" unfolding sum_list_nth .
  then have eq: "?cw ! i + (\<Sum>j\<in>?R. ?cw ! j) = 0"
    using assms(2) by (simp add: sum.remove [of "{..<length ?cw}" i])
  have "(\<Sum>j\<in>?R. ?cw ! j) \<ge> (\<Sum>j\<in>?R. - ?W)"
    using assms(1) by (intro sum_mono) (auto simp: balanced_def less_imp_le)
  then have "(\<Sum>j\<in>?R. ?cw ! j) \<ge> - (int (card ?R) * ?W)" by simp
  moreover have "int (card ?R) * ?W \<le> 65536 * ?W"
    using assms by (intro mult_right_mono) (auto simp: balanced_def)
  ultimately show ?thesis using eq by linarith
qed

lemma uint32_range: "0 \<le> uint t \<and> uint t < 4294967296" for t :: "32 word"
  using uint_lt2p [of t] by simp

lemma add_weights_fits:
  assumes "length cs = length ts" and "\<And>i. i < length cs \<Longrightarrow> int64_ok (cs ! i + uint (ts ! i))"
  shows "add_weights cs ts = Inr (map2 (\<lambda>c t. c + uint t) cs ts)"
  using assms
proof (induction cs ts rule: list_induct2)
  case (Cons c cs t ts)
  from Cons.prems [of 0] have "int64_ok (c + uint t)" by simp
  moreover have "int64_ok (cs ! i + uint (ts ! i))" if "i < length cs" for i
    using Cons.prems [of "Suc i"] that by simp
  ultimately show ?case using Cons.IH by (simp add: Let_def)
qed simp

lemma weight_le_total:
  fixes ws :: "32 word list"
  assumes "i < length ws"
  shows "uint (ws ! i) \<le> sum_list (map uint ws)"
  using assms by (intro member_le_sum_list) auto

lemma max_element_positive:
  assumes "0 < sum_list (xs :: int list)"
  shows "0 < xs ! max_element xs"
proof (rule ccontr)
  assume not: "\<not> 0 < xs ! max_element xs"
  have ne: "xs \<noteq> []" using assms by auto
  have "xs ! j \<le> 0" if "j < length xs" for j using max_element_spec(2) [OF ne that] not by linarith
  then have "sum_list xs \<le> 0" unfolding sum_list_nth by (intro sum_nonpos) auto
  with assms show False by simp
qed

text \<open>The weights as they are after the additions of one call.\<close>

lemma balanced_raised:
  assumes bal: "balanced lb" and up: "up = map2 (\<lambda>c t. c + uint t) (CurrentWeight lb) (PerThreadThroughput lb)"
  shows "add_weights (CurrentWeight lb) (PerThreadThroughput lb) = Inr up" "length up = length (CurrentWeight lb)"
    "sum_list up = TotalWeight lb"
    "\<And>j. j < length (CurrentWeight lb) \<Longrightarrow> up ! j = CurrentWeight lb ! j + uint (PerThreadThroughput lb ! j)"
    "\<And>j. j < length (CurrentWeight lb) \<Longrightarrow> - TotalWeight lb < up ! j \<and> int64_ok (up ! j)"
proof -
  let ?cw = "CurrentWeight lb" and ?ws = "PerThreadThroughput lb" and ?W = "TotalWeight lb"
  have len: "length ?ws = length ?cw" and W: "?W = sum_list (map uint ?ws)" "0 < ?W" "?W < 2 ^ 31" and zero: "sum_list ?cw = 0"
    and low: "\<And>j. j < length ?cw \<Longrightarrow> - ?W < ?cw ! j"
    using bal by (auto simp: balanced_def)
  show length: "length up = length ?cw" using len by (simp add: up)
  show nth: "up ! j = ?cw ! j + uint (?ws ! j)" if "j < length ?cw" for j using that len by (simp add: up)
  show range: "- ?W < up ! j \<and> int64_ok (up ! j)" if "j < length ?cw" for j
  proof -
    have "?cw ! j \<le> 65536 * ?W" using balanced_upper [OF bal that] .
    moreover have "?W < 2147483648" "(2::int) ^ 63 = 9223372036854775808" using W(3) by simp_all
    ultimately show ?thesis
      unfolding int64_ok_def nth [OF that] using low [OF that] uint32_range [of "?ws ! j"] W(2) by linarith
  qed
  show "add_weights ?cw ?ws = Inr up" unfolding up using len range nth by (intro add_weights_fits) auto
  have "sum_list up = (\<Sum>j<length ?cw. ?cw ! j + uint (?ws ! j))" using length by (simp add: sum_list_nth nth lessThan_atLeast0)
  also have "\<dots> = sum_list ?cw + ?W" using len W(1) by (simp add: sum.distrib sum_list_nth lessThan_atLeast0)
  finally show "sum_list up = ?W" using zero by simp
qed

lemma Distribution_step:
  assumes bal: "balanced lb"
  obtains i cw where "Distribution lb = (Inr i, lb\<lparr>CurrentWeight := cw\<rparr>)"
    "balanced (lb\<lparr>CurrentWeight := cw\<rparr>)" "i < length (CurrentWeight lb)"
    "\<And>j. j < length (CurrentWeight lb) \<Longrightarrow>
       cw ! j = CurrentWeight lb ! j + uint (PerThreadThroughput lb ! j) - (if j = i then TotalWeight lb else 0)"
proof -
  let ?n = "length (CurrentWeight lb)" and ?W = "TotalWeight lb"
  define up where "up = map2 (\<lambda>c t. c + uint t) (CurrentWeight lb) (PerThreadThroughput lb)"
  note raised = balanced_raised [OF bal up_def]
  define i where "i = max_element up"
  define cw where "cw = up[i := up ! i - ?W]"
  have W: "0 < ?W" "?W < 2 ^ 31" using bal by (simp_all add: balanced_def)
  have ne: "up \<noteq> []" using raised(3) W(1) by auto
  have i: "i < ?n" using max_element_spec(1) [OF ne] raised(2) by (simp add: i_def)
  have pos: "0 < up ! i" using max_element_positive [of up] raised(3) W(1) by (simp add: i_def)
  have cw_nth: "cw ! j = up ! j - (if j = i then ?W else 0)" if "j < ?n" for j
    using that raised(2) by (simp add: cw_def nth_list_update)
  have "int64_ok (up ! i - ?W)" using raised(5) [OF i] pos W by (simp add: int64_ok_def)
  then have "Distribution lb = (Inr i, lb\<lparr>CurrentWeight := cw\<rparr>)"
    using ne by (simp add: Distribution_def raised(1) i_def [symmetric] cw_def Let_def)
  moreover have "- ?W < cw ! j" if "j < ?n" for j
    using cw_nth [OF that] raised(5) [OF that] pos by auto
  then have "balanced (lb\<lparr>CurrentWeight := cw\<rparr>)"
    using bal i raised(2,3) by (auto simp: balanced_def cw_def sum_list_upd)
  ultimately show thesis using that i cw_nth raised(4) by simp
qed

text \<open>Several new connections, one after the other.\<close>

definition distribute :: "nat \<Rightarrow> LoadBalance \<Rightarrow> (LoadBalance, nat list) cpp" where
  "distribute k lb = mapc (\<lambda>_ lb. Distribution lb) (replicate k ()) lb"

lemma distribute_rounds:
  assumes "balanced lb"
  shows "\<exists>picks cw. distribute k lb = (Inr picks, lb\<lparr>CurrentWeight := cw\<rparr>) \<and>
     balanced (lb\<lparr>CurrentWeight := cw\<rparr>) \<and> length picks = k \<and>
     set picks \<subseteq> {..<length (CurrentWeight lb)} \<and>
     (\<forall>j < length (CurrentWeight lb). cw ! j = CurrentWeight lb ! j
        + int k * uint (PerThreadThroughput lb ! j) - int (count_list picks j) * TotalWeight lb)"
  using assms
proof (induction k arbitrary: lb)
  case 0
  have "lb = lb\<lparr>CurrentWeight := CurrentWeight lb\<rparr>" by simp
  then show ?case using 0 by (intro exI [of _ "[]"] exI [of _ "CurrentWeight lb"]) (simp add: distribute_def)
next
  case (Suc k)
  obtain i cw where s: "Distribution lb = (Inr i, lb\<lparr>CurrentWeight := cw\<rparr>)"
    "balanced (lb\<lparr>CurrentWeight := cw\<rparr>)" "i < length (CurrentWeight lb)"
    "\<And>j. j < length (CurrentWeight lb) \<Longrightarrow>
       cw ! j = CurrentWeight lb ! j + uint (PerThreadThroughput lb ! j) - (if j = i then TotalWeight lb else 0)"
    using Distribution_step [OF Suc.prems] by metis
  have len: "length cw = length (CurrentWeight lb)" using s(2) Suc.prems by (simp add: balanced_def)
  obtain picks cw' where r: "distribute k (lb\<lparr>CurrentWeight := cw\<rparr>) = (Inr picks, lb\<lparr>CurrentWeight := cw'\<rparr>)"
    "balanced (lb\<lparr>CurrentWeight := cw'\<rparr>)" "length picks = k" "set picks \<subseteq> {..<length cw}"
    "\<forall>j < length cw. cw' ! j = cw ! j + int k * uint (PerThreadThroughput lb ! j)
       - int (count_list picks j) * TotalWeight lb"
    using Suc.IH [OF s(2)] by auto
  have "distribute (Suc k) lb = (Inr (i # picks), lb\<lparr>CurrentWeight := cw'\<rparr>)"
    using s(1) r(1) by (simp add: distribute_def)
  then show ?case
    using r s(3,4) len
    by (intro exI [of _ "i # picks"] exI [of _ cw']) (auto simp: algebra_simps)
qed

section \<open>The exchange of the loads\<close>

lemma length_swap_at [simp]: "length (swap_at i j xs) = length xs"
  by (simp add: swap_at_def)

lemma nth_swap_at:
  assumes "i < length xs" and "j < length xs" and "k < length xs"
  shows "swap_at i j xs ! k = xs ! (if k = i then j else if k = j then i else k)"
  using assms by (auto simp: swap_at_def nth_list_update)

lemma mset_swap_at:
  "i < length xs \<Longrightarrow> j < length xs \<Longrightarrow> mset (swap_at i j xs) = mset xs"
  by (simp add: swap_at_def mset_swap)

text \<open>The sorted table of pairs: a permutation of the threads, in the order of their loads.\<close>

lemma by_load_facts:
  assumes "i < length ws"
  shows "snd (by_load ws ! i) < length ws" and "fst (by_load ws ! i) = ws ! snd (by_load ws ! i)"
proof -
  have "by_load ws ! i \<in> set (zip ws [0..<length ws])"
    using assms nth_mem [of i "by_load ws"] by (simp add: by_load_def)
  then show "snd (by_load ws ! i) < length ws" "fst (by_load ws ! i) = ws ! snd (by_load ws ! i)"
    by (auto simp: set_zip)
qed

lemma by_load_map_snd: "set (map snd (by_load ws)) = {..<length ws}" "distinct (map snd (by_load ws))"
proof -
  have "mset (map snd (by_load ws)) = mset (map snd (zip ws [0..<length ws]))"
    by (simp only: by_load_def mset_map mset_sort)
  also have "map snd (zip ws [0..<length ws]) = [0..<length ws]" by simp
  finally have eq: "mset (map snd (by_load ws)) = mset [0..<length ws]" .
  show "set (map snd (by_load ws)) = {..<length ws}"
    using arg_cong [OF eq, of set_mset] by (simp add: atLeast0LessThan)
  show "distinct (map snd (by_load ws))"
    using eq mset_eq_imp_distinct_iff distinct_upt by metis
qed

lemma by_load_inj:
  assumes "i < length ws" and "j < length ws"
  shows "snd (by_load ws ! i) = snd (by_load ws ! j) \<longleftrightarrow> i = j"
  using nth_eq_iff_index_eq [OF by_load_map_snd(2), of i ws j] assms by (simp add: by_load_def)

lemma by_load_sorted:
  assumes "i \<le> j" and "j < length ws"
  shows "fst (by_load ws ! i) \<le> fst (by_load ws ! j)"
proof -
  have "by_load ws ! i \<le> by_load ws ! j"
    using assms by (intro sorted_nth_mono) (simp_all add: by_load_def)
  then show ?thesis by (auto simp: less_eq_prod_def less_imp_le)
qed

lemma fold_swaps:
  assumes "k \<le> length ws div 2"
  defines "temp \<equiv> by_load ws"
  defines "r \<equiv> fold (\<lambda>i. swap_at (snd (temp ! i)) (snd (temp ! (length ws - i - 1)))) [0..<k] ws"
  shows "length r = length ws \<and> mset r = mset ws \<and>
     (\<forall>i < length ws. r ! snd (temp ! i) =
        ws ! snd (temp ! (if i < k \<or> length ws - k \<le> i then length ws - 1 - i else i)))"
  using assms(1) unfolding r_def
proof (induction k)
  case 0
  then show ?case by simp
next
  case (Suc k)
  let ?n = "length ws"
  define q where "q = fold (\<lambda>i. swap_at (snd (temp ! i)) (snd (temp ! (?n - i - 1)))) [0..<k] ws"
  have IH: "length q = ?n" "mset q = mset ws"
    "\<And>i. i < ?n \<Longrightarrow> q ! snd (temp ! i) = ws ! snd (temp ! (if i < k \<or> ?n - k \<le> i then ?n - 1 - i else i))"
    using Suc by (simp_all add: q_def)
  let ?a = "snd (temp ! k)" and ?b = "snd (temp ! (?n - k - 1))"
  have k: "k < ?n" "?n - k - 1 < ?n" "k < ?n - k - 1" using Suc.prems by auto
  have ab: "?a < ?n" "?b < ?n" using k by (simp_all add: temp_def by_load_facts)
  have "swap_at ?a ?b q ! snd (temp ! i) =
      ws ! snd (temp ! (if i < Suc k \<or> ?n - Suc k \<le> i then ?n - 1 - i else i))" if i: "i < ?n" for i
  proof -
    have c: "snd (temp ! i) < ?n" using i by (simp add: temp_def by_load_facts)
    have "snd (temp ! i) = ?a \<longleftrightarrow> i = k" "snd (temp ! i) = ?b \<longleftrightarrow> i = ?n - k - 1"
      using i k by (simp_all add: temp_def by_load_inj)
    then show ?thesis
      using ab c i k IH(1) IH(3) [OF i] IH(3) [OF k(1)] IH(3) [OF k(2)]
      by (auto simp: nth_swap_at split: if_splits)
  qed
  moreover have "fold (\<lambda>i. swap_at (snd (temp ! i)) (snd (temp ! (?n - i - 1)))) [0..<Suc k] ws = swap_at ?a ?b q"
    by (simp add: q_def)
  ultimately show ?case using ab IH(1,2) by (simp only: length_swap_at) (simp add: mset_swap_at)
qed

lemma reverse_loads_mset: "mset (reverse_loads ws) = mset ws" "length (reverse_loads ws) = length ws"
  using fold_swaps [of "length ws div 2" ws] by (simp_all add: reverse_loads_def Let_def)

text \<open>The thread in place \<open>i\<close> gets the load of the thread in the opposite place.\<close>

lemma reverse_loads_nth:
  assumes "i < length ws"
  shows "reverse_loads ws ! snd (by_load ws ! i) = ws ! snd (by_load ws ! (length ws - 1 - i))"
proof -
  have "reverse_loads ws ! snd (by_load ws ! i) = ws ! snd (by_load ws !
      (if i < length ws div 2 \<or> length ws - length ws div 2 \<le> i then length ws - 1 - i else i))"
    using fold_swaps [of "length ws div 2" ws] assms by (simp add: reverse_loads_def Let_def)
  moreover have "\<not> (i < length ws div 2 \<or> length ws - length ws div 2 \<le> i) \<Longrightarrow> length ws - 1 - i = i"
    using assms by linarith
  ultimately show ?thesis by (auto split: if_splits)
qed

lemma place_of_thread:
  assumes "a < length ws"
  obtains i where "i < length ws" "snd (by_load ws ! i) = a" "fst (by_load ws ! i) = ws ! a"
proof -
  have "a \<in> set (map snd (by_load ws))" using assms by (simp add: by_load_map_snd(1) del: set_map)
  then obtain i where "i < length (map snd (by_load ws))" "map snd (by_load ws) ! i = a"
    by (metis in_set_conv_nth)
  then show thesis using that [of i] by_load_facts(2) [of i ws] by (simp add: by_load_def)
qed

lemma reverse_loads_antimono:
  assumes "a < length ws" and "b < length ws" and "ws ! a < ws ! b"
  shows "reverse_loads ws ! b \<le> reverse_loads ws ! a"
proof -
  obtain i where i: "i < length ws" "snd (by_load ws ! i) = a" "fst (by_load ws ! i) = ws ! a"
    using place_of_thread [OF assms(1)] .
  obtain j where j: "j < length ws" "snd (by_load ws ! j) = b" "fst (by_load ws ! j) = ws ! b"
    using place_of_thread [OF assms(2)] .
  have "i < j"
  proof (rule ccontr)
    assume "\<not> i < j"
    then have "ws ! b \<le> ws ! a" using by_load_sorted [of j i ws] i j by simp
    with assms(3) show False by simp
  qed
  then have "fst (by_load ws ! (length ws - 1 - j)) \<le> fst (by_load ws ! (length ws - 1 - i))"
    using i(1) j(1) by (intro by_load_sorted) auto
  then show ?thesis
    using reverse_loads_nth [OF i(1)] reverse_loads_nth [OF j(1)] i j by_load_facts(2) [of _ ws]
    by simp
qed

section \<open>The total\<close>

lemma foldl_plus_words: "foldl (+) (w :: 32 word) ws = w + word_of_int (sum_list (map uint ws))"
  by (induction ws arbitrary: w) (simp_all add: add.assoc)

lemma accumulate_int_small:
  assumes "sum_list (map uint ws) < 2 ^ 31"
  shows "accumulate_int ws = sum_list (map uint ws)"
proof -
  have "0 \<le> sum_list (map uint ws)" by (intro sum_list_nonneg) auto
  then show ?thesis
    using assms by (simp add: accumulate_int_def foldl_plus_words signed_of_int signed_take_bit_int_eq_self)
qed

lemma sum_list_reverse_loads: "sum_list (map uint (reverse_loads ws)) = sum_list (map uint ws)"
  using reverse_loads_mset(1) [of ws] by (metis mset_map sum_mset_sum_list)

lemma accumulate_int_wrapped:
  assumes "2 ^ 31 \<le> sum_list (map uint ws)" and "sum_list (map uint ws) < 2 ^ 32"
  shows "accumulate_int ws = sum_list (map uint ws) - 2 ^ 32"
proof -
  let ?s = "sum_list (map uint ws)"
  have "(word_of_int (?s - 2 ^ 32) :: 32 word) = word_of_int ?s" by simp
  then have "accumulate_int ws = sint (word_of_int (?s - 2 ^ 32) :: 32 word)"
    by (simp only: accumulate_int_def foldl_plus_words add_0_left)
  also have "\<dots> = ?s - 2 ^ 32"
    using assms by (simp add: signed_of_int signed_take_bit_int_eq_self del: of_int_diff)
  finally show ?thesis .
qed

section \<open>A total that is not positive\<close>

text \<open>With such a total the thread that was chosen gains by being chosen.\<close>

text \<open>A thread of largest weight that was not paid back stays in front of all others.\<close>

lemma stuck_max:
  assumes "0 < length ws" and "length up = length ws" and "0 \<le> u" and i: "i = max_element (map uint ws)"
    and up: "\<And>j. j < length ws \<Longrightarrow> up ! j = int (Suc r) * uint (ws ! j) + (if j = i then u else 0)"
  shows "i < length ws" "max_element up = i"
proof -
  have ne: "map uint ws \<noteq> []" using assms(1) by auto
  show less: "i < length ws" using max_element_spec(1) [OF ne] i by simp
  define f where "f j = int (Suc r) * uint (ws ! j)" for j
  have top: "f j \<le> f i" if "j < length ws" for j
    using max_element_spec(2) [OF ne, of j] that i less by (auto simp: f_def intro!: mult_left_mono)
  have first: "f j < f i" if "j < i" for j
    using max_element_spec(3) [OF ne, of j] that i less by (auto simp: f_def intro!: mult_strict_left_mono)
  note up = up [folded f_def]
  show "max_element up = i"
  proof (rule max_element_unique)
    show "i < length up" using less assms(2) by simp
    show "up ! j \<le> up ! i" if "j < length up" for j
      using top [of j] that assms(2,3) up [of j] up [OF less] by (cases "j = i") simp_all
    show "up ! j < up ! i" if "j < i" for j
      using first [OF that] that assms(3) up [of j] up [OF less] less by simp
  qed
qed

lemma stuck_range:
  assumes "0 \<le> t" and "t \<le> 2 ^ 31" and "Suc r \<le> 2 ^ 30"
  shows "0 \<le> int (Suc r) * uint (w :: 32 word) + (if b then int r * t else 0)"
    "int (Suc r) * uint w + (if b then int r * t else 0) \<le> 2 ^ 30 * 2 ^ 32 + 2 ^ 30 * 2 ^ 31"
proof -
  have "int (Suc r) * uint w \<le> 2 ^ 30 * 2 ^ 32" using assms(3) uint32_range [of w] by (intro mult_mono) auto
  moreover have "int r * t \<le> 2 ^ 30 * 2 ^ 31" using assms by (intro mult_mono) auto
  ultimately show "int (Suc r) * uint w + (if b then int r * t else 0) \<le> 2 ^ 30 * 2 ^ 32 + 2 ^ 30 * 2 ^ 31" by (cases b) simp_all
  show "0 \<le> int (Suc r) * uint w + (if b then int r * t else 0)"
    using assms(1) uint32_range [of w] by (intro add_nonneg_nonneg mult_nonneg_nonneg) auto
qed

lemma stuck_rounds:
  assumes len: "length (CurrentWeight lb) = length ws" "PerThreadThroughput lb = ws" "0 < length ws"
    and T: "TotalWeight lb = - t" "0 \<le> t" "t \<le> 2 ^ 31" and r: "r + k \<le> 2 ^ 30"
    and i: "i = max_element (map uint ws)"
    and cw: "\<And>j. j < length ws \<Longrightarrow>
       CurrentWeight lb ! j = int r * uint (ws ! j) + (if j = i then int r * t else 0)"
  shows "fst (distribute k lb) = Inr (replicate k i)"
  using len(1,2) T(1) r cw
proof (induction k arbitrary: r lb)
  case 0
  then show ?case by (simp add: distribute_def)
next
  case (Suc k)
  define up where "up = map2 (\<lambda>c t. c + uint t) (CurrentWeight lb) ws"
  have up_nth: "up ! j = int (Suc r) * uint (ws ! j) + (if j = i then int r * t else 0)" if "j < length ws" for j
    using that Suc.prems(1) Suc.prems(5) [OF that] by (simp add: up_def algebra_simps)
  have len_up: "length up = length ws" using Suc.prems(1) by (simp add: up_def)
  have range: "0 \<le> up ! j" "up ! j \<le> 2 ^ 30 * 2 ^ 32 + 2 ^ 30 * 2 ^ 31" if "j < length ws" for j
    unfolding up_nth [OF that] using stuck_range [OF T(2,3), of r] Suc.prems(4) by auto
  have "int64_ok (CurrentWeight lb ! j + uint (ws ! j))" if "j < length ws" for j
    using range [OF that] that Suc.prems(1) by (simp add: up_def int64_ok_def)
  then have add: "add_weights (CurrentWeight lb) ws = Inr up"
    unfolding up_def using Suc.prems(1) by (intro add_weights_fits) simp_all
  have max: "i < length ws" "max_element up = i"
    using stuck_max [OF len(3) len_up _ i up_nth] T(2) by simp_all
  moreover have "int64_ok (up ! i + t)" using range [OF max(1)] T(2,3) by (simp add: int64_ok_def)
  moreover have "up \<noteq> []" using len_up len(3) by auto
  ultimately have step: "Distribution lb = (Inr i, lb\<lparr>CurrentWeight := up[i := up ! i + t]\<rparr>)"
    by (simp add: Distribution_def Suc.prems(2) add Suc.prems(3) Let_def)
  let ?lb = "lb\<lparr>CurrentWeight := up[i := up ! i + t]\<rparr>"
  have "fst (distribute k ?lb) = Inr (replicate k i)"
    by (rule Suc.IH [of ?lb "Suc r"])
       (use len_up Suc.prems max(1) up_nth in \<open>auto simp: nth_list_update algebra_simps\<close>)
  then show ?case
    using step by (cases "distribute k ?lb") (auto simp: distribute_def)
qed

section \<open>The properties\<close>

lemma count_le_imp_eq:
  fixes n :: nat
  assumes "set xs \<subseteq> {..<n}" and "\<And>j. j < n \<Longrightarrow> count_list xs j \<le> f j" and "length xs = (\<Sum>j<n. f j)"
    and "j < n"
  shows "count_list xs j = f j"
proof (rule ccontr)
  assume "count_list xs j \<noteq> f j"
  then have "count_list xs j < f j" using assms(2) [OF assms(4)] by simp
  then have ex: "\<exists>j\<in>{..<n}. count_list xs j < f j" using assms(4) by blast
  have "(\<Sum>j<n. count_list xs j) < (\<Sum>j<n. f j)"
    using assms(2) by (intro sum_strict_mono_ex1 [OF _ _ ex]) auto
  moreover have "(\<Sum>j<n. count_list xs j) = length xs"
    using assms(1) by (simp add: sum_count_set)
  ultimately show False using assms(3) by simp
qed

lemma distribute_fair:
  assumes bal: "balanced lb" and zero: "\<And>j. j < length (CurrentWeight lb) \<Longrightarrow> CurrentWeight lb ! j = 0"
  shows "\<exists>picks. distribute (nat (TotalWeight lb)) lb = (Inr picks, lb) \<and>
     (\<forall>j < length (PerThreadThroughput lb). count_list picks j = unat (PerThreadThroughput lb ! j))"
proof -
  let ?W = "TotalWeight lb" and ?ws = "PerThreadThroughput lb" and ?n = "length (CurrentWeight lb)"
  have W: "0 < ?W" and len: "length ?ws = ?n" and sum: "?W = sum_list (map uint ?ws)"
    using bal by (simp_all add: balanced_def)
  obtain picks cw where r: "distribute (nat ?W) lb = (Inr picks, lb\<lparr>CurrentWeight := cw\<rparr>)"
    "balanced (lb\<lparr>CurrentWeight := cw\<rparr>)" "length picks = nat ?W" "set picks \<subseteq> {..<?n}"
    "\<forall>j < ?n. cw ! j = CurrentWeight lb ! j + int (nat ?W) * uint (?ws ! j) - int (count_list picks j) * ?W"
    using distribute_rounds [OF bal, of "nat ?W"] by blast
  have cw: "cw ! j = (uint (?ws ! j) - int (count_list picks j)) * ?W" if "j < ?n" for j
    using r(5) that zero [OF that] W by (simp add: algebra_simps)
  have lcw: "length cw = ?n" using r(2) len by (simp add: balanced_def)
  have "count_list picks j \<le> unat (?ws ! j)" if "j < ?n" for j
  proof -
    have "- ?W < cw ! j" using balanced_low [OF r(2), of j] that lcw by simp
    then have "0 < (uint (?ws ! j) - int (count_list picks j) + 1) * ?W"
      using cw [OF that] by (simp add: algebra_simps)
    then have "0 < uint (?ws ! j) - int (count_list picks j) + 1"
      by (rule zero_less_mult_pos2 [OF _ W])
    then show ?thesis unfolding uint_nat by linarith
  qed
  moreover have "length picks = (\<Sum>j<?n. unat (?ws ! j))"
  proof -
    have "?W = (\<Sum>j<?n. uint (?ws ! j))" using sum len by (simp add: sum_list_nth)
    then have "?W = int (\<Sum>j<?n. unat (?ws ! j))" by simp
    then show ?thesis unfolding r(3) by (simp only: nat_int)
  qed
  ultimately have count: "count_list picks j = unat (?ws ! j)" if "j < ?n" for j
    by (rule count_le_imp_eq [OF r(4) _ _ that]) simp_all
  have "cw = CurrentWeight lb"
  proof (rule nth_equalityI)
    show "cw ! j = CurrentWeight lb ! j" if "j < length cw" for j
      using cw [of j] count [of j] zero [of j] that lcw by simp
  qed (use lcw in simp)
  then show ?thesis using r(1) count len by auto
qed

text \<open>C9: The distribution is fair: over as many connections as the weights add up to, starting
  from current weights of zero, every thread is chosen exactly as often as its weight says, and
  the state is then the one it started from.\<close>

theorem Distribution_fair:
  assumes bal: "balanced lb" and zero: "\<And>j. j < length (CurrentWeight lb) \<Longrightarrow> CurrentWeight lb ! j = 0"
  shows "\<exists>picks. distribute (nat (TotalWeight lb)) lb = (Inr picks, lb) \<and>
     (\<forall>j < length (PerThreadThroughput lb). count_list picks j = unat (PerThreadThroughput lb ! j))"
  using assms by (rule distribute_fair)

definition sample_balance :: LoadBalance where
  "sample_balance =
     \<lparr>PerThreadThroughput = [5, 1, 1], CurrentWeight = [0, 0, 0], TotalWeight = 7,
      PerThreadConnectNumber = [0, 0, 0], KeepData = False\<rparr>"

lemma sample_balanced: "balanced sample_balance"
  by (simp add: balanced_def sample_balance_def less_Suc_eq)

theorem Distribution_fair_witness:
  "\<exists>picks. distribute 7 sample_balance = (Inr picks, sample_balance) \<and> count_list picks 0 = 5"
  using Distribution_fair [OF sample_balanced]
  by (force simp: sample_balance_def less_Suc_eq)

text \<open>In every initial stretch of connections too no thread gets more than its share: after
  \<open>k\<close> connections a thread of weight \<open>w\<close> has less than one connection more than
  \<open>k * w / W\<close>.\<close>

theorem Distribution_share:
  assumes "balanced lb" and "\<And>j. j < length (CurrentWeight lb) \<Longrightarrow> CurrentWeight lb ! j = 0"
    and "j < length (PerThreadThroughput lb)"
  shows "\<exists>picks lb'. distribute k lb = (Inr picks, lb') \<and> length picks = k \<and>
     int (count_list picks j) * TotalWeight lb <
       int k * uint (PerThreadThroughput lb ! j) + TotalWeight lb"
proof -
  obtain picks cw where r: "distribute k lb = (Inr picks, lb\<lparr>CurrentWeight := cw\<rparr>)"
    "balanced (lb\<lparr>CurrentWeight := cw\<rparr>)" "length picks = k"
    "\<forall>j < length (CurrentWeight lb). cw ! j = CurrentWeight lb ! j
       + int k * uint (PerThreadThroughput lb ! j) - int (count_list picks j) * TotalWeight lb"
    using distribute_rounds [OF assms(1), of k] by blast
  have j: "j < length (CurrentWeight lb)" using assms(1,3) by (simp add: balanced_def)
  moreover have "length cw = length (CurrentWeight lb)" using r(2) assms(1) by (simp add: balanced_def)
  ultimately have "- TotalWeight lb < cw ! j" using balanced_low [OF r(2), of j] by simp
  then show ?thesis using r j assms(2) by (auto simp: algebra_simps)
qed

theorem Distribution_share_witness:
  "\<exists>picks lb'. distribute 3 sample_balance = (Inr picks, lb') \<and> length picks = 3 \<and> count_list picks 1 \<le> 1"
  using Distribution_share [OF sample_balanced, of 1 3]
  by (force simp: sample_balance_def less_Suc_eq)

text \<open>Taking the reports leaves the tables of the threads as long as they were.\<close>

lemma take_items_length:
  assumes "take_items que lb = (Inr u, lb')"
  shows "length (PerThreadThroughput lb') = length (PerThreadThroughput lb) \<and>
     CurrentWeight lb' = CurrentWeight lb"
  using assms
proof (induction que arbitrary: lb)
  case (Cons item que)
  show ?case
  proof (cases "if KeepData lb then Resize item lb else account_item item lb")
    case (Pair res mid)
    have "length (PerThreadThroughput mid) = length (PerThreadThroughput lb) \<and> CurrentWeight mid = CurrentWeight lb"
      using Pair by (auto simp: Resize_def account_item_def Let_def bump_def split: if_splits)
    then show ?thesis
      using Cons.IH [of mid] Cons.prems Pair by (cases res) (auto split: if_splits)
  qed
qed simp

text \<open>C14: Preparing a round: the weights are the reported loads, exchanged between the threads
  so that a thread with more load gets no more weight than one with less; when their sum is positive and
  less than 2^31, so that it fits the \<open>int\<close> it is accumulated in, it is the total, and the result is a state in which the
  distribution is fair.\<close>

theorem ExtractData_balances:
  assumes items: "take_items que (clear_reports lb) = (Inr (), mid)"
    and len: "length (CurrentWeight lb) = length (PerThreadThroughput lb)"
      "0 < length (PerThreadThroughput lb)" "length (PerThreadThroughput lb) \<le> 65536"
    and total: "0 < sum_list (map uint (PerThreadThroughput mid))"
      "sum_list (map uint (PerThreadThroughput mid)) < 2 ^ 31"
  shows "\<exists>lb'. ExtractDataDromLockFreeQueue que lb = (Inr (length que), lb') \<and> balanced lb' \<and>
     mset (PerThreadThroughput lb') = mset (PerThreadThroughput mid) \<and>
     (\<forall>a < length (PerThreadThroughput lb). \<forall>b < length (PerThreadThroughput lb).
        PerThreadThroughput mid ! a < PerThreadThroughput mid ! b \<longrightarrow>
        PerThreadThroughput lb' ! b \<le> PerThreadThroughput lb' ! a)"
proof -
  have mid: "length (PerThreadThroughput mid) = length (PerThreadThroughput lb)"
    "CurrentWeight mid = CurrentWeight lb"
    using take_items_length [OF items] by (simp_all add: clear_reports_def)
  define lb' where "lb' = mid\<lparr>PerThreadThroughput := reverse_loads (PerThreadThroughput mid),
      CurrentWeight := map (\<lambda>_. 0) (CurrentWeight mid),
      TotalWeight := accumulate_int (PerThreadThroughput mid)\<rparr>"
  have "ExtractDataDromLockFreeQueue que lb = (Inr (length que), lb')"
    using items by (simp add: ExtractDataDromLockFreeQueue_def lb'_def)
  moreover have "balanced lb'"
    using len total mid
    by (simp add: balanced_def lb'_def reverse_loads_mset sum_list_reverse_loads accumulate_int_small
        map_replicate_const sum_list_replicate)
  ultimately show ?thesis
    using mid reverse_loads_antimono [of _ "PerThreadThroughput mid"]
    by (auto simp: lb'_def reverse_loads_mset)
qed

definition sample_reports :: "ThreadLoadData list" where
  "sample_reports = [\<lparr>Throughput = 5, ThreadId = 0, ConnectionNumber = 1\<rparr>,
     \<lparr>Throughput = 2, ThreadId = 1, ConnectionNumber = 1\<rparr>, \<lparr>Throughput = 1, ThreadId = 0, ConnectionNumber = 0\<rparr>]"

lemma sample_reports_taken:
  "take_items sample_reports (clear_reports (LoadBalance_new 0 3)) = (Inr (),
     \<lparr>PerThreadThroughput = [6, 2], CurrentWeight = [0, 0], TotalWeight = 0,
      PerThreadConnectNumber = [1, 1], KeepData = False\<rparr>)"
  by (simp add: sample_reports_def LoadBalance_new_def clear_reports_def account_item_def bump_def Let_def
      numeral_eq_Suc)

theorem ExtractData_balances_witness:
  "\<exists>lb'. ExtractDataDromLockFreeQueue sample_reports (LoadBalance_new 0 3) = (Inr 3, lb') \<and> balanced lb' \<and>
     PerThreadThroughput lb' ! 0 \<le> PerThreadThroughput lb' ! 1"
proof -
  have new: "length (CurrentWeight (LoadBalance_new 0 3)) = 2" "length (PerThreadThroughput (LoadBalance_new 0 3)) = 2"
    by (simp_all add: LoadBalance_new_def)
  show ?thesis
    using ExtractData_balances [OF sample_reports_taken] new by (auto simp: sample_reports_def)
qed

text \<open>C15: When the reported loads add up to at least 2^31 and less than 2^32, the total wraps to a negative number,
  contrary to the comment in the source, and the thread that gets the first connection gets every
  one of the next 2^30.\<close>

theorem wrapped_total_starves:
  assumes items: "take_items que (clear_reports lb) = (Inr (), mid)"
    and len: "length (CurrentWeight lb) = length (PerThreadThroughput lb)" "0 < length (PerThreadThroughput lb)"
    and total: "2 ^ 31 \<le> sum_list (map uint (PerThreadThroughput mid))"
      "sum_list (map uint (PerThreadThroughput mid)) < 2 ^ 32"
    and k: "k \<le> 2 ^ 30"
  shows "\<exists>lb' i. ExtractDataDromLockFreeQueue que lb = (Inr (length que), lb') \<and> TotalWeight lb' < 0 \<and>
     fst (distribute k lb') = Inr (replicate k i)"
proof -
  have mid: "length (PerThreadThroughput mid) = length (PerThreadThroughput lb)"
    "CurrentWeight mid = CurrentWeight lb"
    using take_items_length [OF items] by (simp_all add: clear_reports_def)
  define lb' where "lb' = mid\<lparr>PerThreadThroughput := reverse_loads (PerThreadThroughput mid),
      CurrentWeight := map (\<lambda>_. 0) (CurrentWeight mid),
      TotalWeight := accumulate_int (PerThreadThroughput mid)\<rparr>"
  have run: "ExtractDataDromLockFreeQueue que lb = (Inr (length que), lb')"
    using items by (simp add: ExtractDataDromLockFreeQueue_def lb'_def)
  define t where "t = 2 ^ 32 - sum_list (map uint (PerThreadThroughput mid))"
  have T: "TotalWeight lb' = - t" "0 < t" "t \<le> 2 ^ 31"
    using total accumulate_int_wrapped [OF total] by (simp_all add: lb'_def t_def)
  have "fst (distribute k lb') = Inr (replicate k (max_element (map uint (PerThreadThroughput lb'))))"
    using len mid T k by (intro stuck_rounds [where r = 0 and ws = "reverse_loads (PerThreadThroughput mid)" and t = t])
      (simp_all add: lb'_def reverse_loads_mset)
  then show ?thesis using run T by auto
qed

definition heavy_reports :: "ThreadLoadData list" where
  "heavy_reports = [\<lparr>Throughput = 1073741824, ThreadId = 0, ConnectionNumber = 1\<rparr>,
     \<lparr>Throughput = 1073741824, ThreadId = 1, ConnectionNumber = 1\<rparr>]"

theorem wrapped_total_starves_witness:
  "\<exists>lb' i. ExtractDataDromLockFreeQueue heavy_reports (LoadBalance_new 0 3) = (Inr 2, lb') \<and>
     TotalWeight lb' < 0 \<and> fst (distribute 1000 lb') = Inr (replicate 1000 i)"
proof -
  have new: "length (CurrentWeight (LoadBalance_new 0 3)) = 2" "length (PerThreadThroughput (LoadBalance_new 0 3)) = 2"
    by (simp_all add: LoadBalance_new_def)
  have "take_items heavy_reports (clear_reports (LoadBalance_new 0 3)) = (Inr (),
     \<lparr>PerThreadThroughput = [1073741824, 1073741824], CurrentWeight = [0, 0], TotalWeight = 0,
      PerThreadConnectNumber = [1, 1], KeepData = False\<rparr>)"
    by (simp add: heavy_reports_def LoadBalance_new_def clear_reports_def account_item_def bump_def Let_def
        numeral_2_eq_2)
  then show ?thesis
    using wrapped_total_starves [of heavy_reports "LoadBalance_new 0 3" _ 1000] new
    by (auto simp: heavy_reports_def)
qed

lemma unat32_less: "unat t < 4294967296" for t :: "32 word"
proof -
  have "unat t < 2 ^ LENGTH(32)" by (rule unsigned_less)
  then show ?thesis by simp
qed

text \<open>Keeping old loads does not wrap a counter as long as one report is at most 2^31:
  \<open>Resize\<close> halves all counters before an addition that would wrap.\<close>

theorem Resize_no_wrap:
  assumes "unat (ThreadId item) < length (PerThreadConnectNumber lb)"
    and "unat (ThreadId item) < length (PerThreadThroughput lb)" and "unat (Throughput item) \<le> 2 ^ 31"
  shows "\<exists>lb'. Resize item lb = (Inr (), lb') \<and>
     unat (PerThreadThroughput lb' ! unat (ThreadId item)) = unat (Throughput item) +
       (let old = unat (PerThreadThroughput lb ! unat (ThreadId item)) in
        if old + unat (Throughput item) < 2 ^ 32 then old else old div 2)"
proof -
  let ?i = "unat (ThreadId item)"
  define w where "w = PerThreadThroughput lb ! ?i"
  define t where "t = Throughput item"
  have u: "unat (4294967295 - t) = 4294967295 - unat t"
  proof -
    have "t \<le> 4294967295" using unat32_less [of t] by (simp add: word_le_nat_alt)
    then show ?thesis by (simp add: unat_sub)
  qed
  have t: "unat t < 4294967296" "unat t \<le> 2147483648" "unat w < 4294967296"
    using unat32_less [of t] unat32_less [of w] assms(3) by (simp_all add: t_def)
  have half: "unat (w div 2) = unat w div 2" by (simp add: unat_div)
  have lt: "4294967295 - t < w \<longleftrightarrow> 2 ^ 32 \<le> unat w + unat t"
    using u t(1) by (auto simp: word_less_nat_alt)
  have add: "unat (v + t) = unat v + unat t" if "unat v + unat t < 2 ^ 32" for v :: "32 word"
    using that by (simp add: unat_add_lem [symmetric])
  show ?thesis
    using assms(1,2) t lt half add [of w] add [of "w div 2"]
    by (auto simp: Resize_def Let_def bump_def w_def [symmetric] t_def [symmetric])
qed

theorem Resize_no_wrap_witness:
  "\<exists>lb'. Resize \<lparr>Throughput = 10, ThreadId = 0, ConnectionNumber = 0\<rparr>
       \<lparr>PerThreadThroughput = [4294967290], CurrentWeight = [0], TotalWeight = 0,
        PerThreadConnectNumber = [0], KeepData = True\<rparr> = (Inr (), lb') \<and>
     unat (PerThreadThroughput lb' ! 0) = 2147483655"
  using Resize_no_wrap [of "\<lparr>Throughput = 10, ThreadId = 0, ConnectionNumber = 0\<rparr>"
      "\<lparr>PerThreadThroughput = [4294967290], CurrentWeight = [0], TotalWeight = 0,
        PerThreadConnectNumber = [0], KeepData = True\<rparr>"]
  by simp

end
