(* ===== verification/Dispatch.thy ===== *)
theory Dispatch
  imports Event_Loop Load_Balance
begin

text \<open>
  \<open>channel_helper\<close> of \<open>src/src/server/channel.h\<close> and \<open>channel.cc\<close>, which hands accepted
  descriptors to the worker threads, and the main loop of \<open>server.cc\<close> and \<open>ws.cc\<close>. The main
  thread and the workers run concurrently: their accesses to the queue and to the counter of the
  eventfd of each worker are the steps of a relation, each step one line of the code.
\<close>

section \<open>The helper\<close>

text \<open>
  A worker is its queue, the counter of its eventfd, the number \<open>Temp\<close> its loop still has to
  take, and the descriptors it has registered so far. \<open>writing\<close> is the worker whose queue the
  main thread has pushed to, until it has written to the eventfd.
\<close>

record channel_helper =
  TrueLD :: LoadBalance
  store_queues :: "int list list"
  event_counts :: "nat list"
  Temps :: "nat list"
  registered :: "int list list"
  writing :: "nat option"
  RoundRobinValue :: int

definition RealThreadNumber :: "nat \<Rightarrow> nat" where
  "RealThreadNumber hardware_concurrency = max 1 (hardware_concurrency - 1)"

text \<open>\<open>loop\<close> makes a queue and an eventfd for each thread.\<close>

definition helper_loop :: "nat \<Rightarrow> LoadBalance \<Rightarrow> channel_helper" where
  "helper_loop hardware_concurrency lb =
     (let n = RealThreadNumber hardware_concurrency in
      \<lparr>TrueLD = lb, store_queues = replicate n [], event_counts = replicate n 0, Temps = replicate n 0,
       registered = replicate n [], writing = None, RoundRobinValue = 0\<rparr>)"

definition RoundRobin :: "channel_helper \<Rightarrow> int \<times> channel_helper" where
  "RoundRobin h =
     (RoundRobinValue h, h\<lparr>RoundRobinValue := (RoundRobinValue h + 1) mod int (length (store_queues h))\<rparr>)"

definition WeightedRoundRobin :: "channel_helper \<Rightarrow> (channel_helper, nat) cpp" where
  "WeightedRoundRobin h = (case Distribution (TrueLD h) of (r, lb) \<Rightarrow> (r, h\<lparr>TrueLD := lb\<rparr>))"

text \<open>\<open>Distribution\<close> in its two halves: the push, and the write to the eventfd.\<close>

definition dist_push :: "int \<Rightarrow> channel_helper \<Rightarrow> (channel_helper, unit) cpp" where
  "dist_push fd h =
     bindc (WeightedRoundRobin h) (\<lambda>index h.
       if index < length (store_queues h)
       then (Inr (), h\<lparr>store_queues := (store_queues h)[index := store_queues h ! index @ [fd]], writing := Some index\<rparr>)
       else (Inl Bad_access, h))"

definition dist_write :: "channel_helper \<Rightarrow> channel_helper" where
  "dist_write h =
     (case writing h of
        None \<Rightarrow> h
      | Some index \<Rightarrow> h\<lparr>event_counts := (event_counts h)[index := event_counts h ! index + 1], writing := None\<rparr>)"

definition helper_Distribution :: "int \<Rightarrow> channel_helper \<Rightarrow> (channel_helper, unit) cpp" where
  "helper_Distribution fd h = bindc (dist_push fd h) (\<lambda>_ h. (Inr (), dist_write h))"

text \<open>The worker: reading the eventfd, which resets it, and one turn of \<open>while (Temp--)\<close>.\<close>

definition worker_read :: "nat \<Rightarrow> channel_helper \<Rightarrow> channel_helper" where
  "worker_read i h = h\<lparr>Temps := (Temps h)[i := event_counts h ! i], event_counts := (event_counts h)[i := 0]\<rparr>"

definition worker_take :: "nat \<Rightarrow> channel_helper \<Rightarrow> (channel_helper, unit) cpp" where
  "worker_take i h =
     (case store_queues h ! i of
        [] \<Rightarrow> (Inl Assertion_failed, h)
      | fd # q \<Rightarrow>
          (Inr (), h\<lparr>store_queues := (store_queues h)[i := q], Temps := (Temps h)[i := Temps h ! i - 1],
                     registered := (registered h)[i := registered h ! i @ [fd]]\<rparr>))"

section \<open>The steps of all threads\<close>

text \<open>
  The state of the relation carries the history of the descriptors that were handed out. A step to
  \<open>None\<close> is the failed assertion.
\<close>

inductive thread_step :: "channel_helper \<times> (nat \<times> int) list \<Rightarrow> (channel_helper \<times> (nat \<times> int) list) option \<Rightarrow> bool" where
  main_push: "writing h = None \<Longrightarrow> dist_push fd h = (Inr (), h') \<Longrightarrow> writing h' = Some i \<Longrightarrow>
     thread_step (h, gs) (Some (h', gs @ [(i, fd)]))"
| main_write: "writing h = Some i \<Longrightarrow> thread_step (h, gs) (Some (dist_write h, gs))"
| main_extract: "writing h = None \<Longrightarrow> ExtractDataDromLockFreeQueue que (TrueLD h) = (Inr n, lb) \<Longrightarrow>
     thread_step (h, gs) (Some (h\<lparr>TrueLD := lb\<rparr>, gs))"
| read_event: "i < length (store_queues h) \<Longrightarrow> Temps h ! i = 0 \<Longrightarrow> thread_step (h, gs) (Some (worker_read i h, gs))"
| take_one: "i < length (store_queues h) \<Longrightarrow> Temps h ! i > 0 \<Longrightarrow> worker_take i h = (Inr (), h') \<Longrightarrow>
     thread_step (h, gs) (Some (h', gs))"
| take_fails: "i < length (store_queues h) \<Longrightarrow> Temps h ! i > 0 \<Longrightarrow> worker_take i h = (Inl e, h') \<Longrightarrow>
     thread_step (h, gs) None"

inductive_cases thread_step_None: "thread_step hg None"

inductive thread_run :: "channel_helper \<times> (nat \<times> int) list \<Rightarrow> channel_helper \<times> (nat \<times> int) list \<Rightarrow> bool" where
  run_start: "thread_run hg hg"
| run_step: "thread_run hg hg1 \<Longrightarrow> thread_step hg1 (Some hg2) \<Longrightarrow> thread_run hg hg2"

text \<open>The invariant: the queue of a worker has what was announced and not yet taken, and a push that is still to be announced.\<close>

definition given_to :: "nat \<Rightarrow> (nat \<times> int) list \<Rightarrow> int list" where
  "given_to i gs = map snd (filter (\<lambda>(j, fd). j = i) gs)"

definition helper_inv :: "channel_helper \<times> (nat \<times> int) list \<Rightarrow> bool" where
  "helper_inv hg \<longleftrightarrow>
     (case hg of (h, gs) \<Rightarrow>
        length (event_counts h) = length (store_queues h) \<and> length (Temps h) = length (store_queues h) \<and>
        length (registered h) = length (store_queues h) \<and>
        (\<forall>i. writing h = Some i \<longrightarrow> i < length (store_queues h)) \<and>
        (\<forall>i < length (store_queues h).
           length (store_queues h ! i) = event_counts h ! i + Temps h ! i + (if writing h = Some i then 1 else 0) \<and>
           given_to i gs = registered h ! i @ store_queues h ! i))"

lemma helper_inv_loop: "helper_inv (helper_loop n lb, [])"
  by (simp add: helper_inv_def helper_loop_def given_to_def Let_def)

lemma given_to_snoc: "given_to i (gs @ [(j, fd)]) = given_to i gs @ (if j = i then [fd] else [])"
  by (simp add: given_to_def)

lemma dist_push_runs:
  assumes "dist_push fd h = (Inr (), h')"
  shows "\<exists>index lb. index < length (store_queues h) \<and> Distribution (TrueLD h) = (Inr index, lb) \<and>
     h' = h\<lparr>TrueLD := lb, store_queues := (store_queues h)[index := store_queues h ! index @ [fd]], writing := Some index\<rparr>"
  using assms
  by (cases "Distribution (TrueLD h)"; cases "fst (Distribution (TrueLD h))")
    (auto simp: dist_push_def WeightedRoundRobin_def split: if_splits)

lemma push_inv:
  assumes "helper_inv (h, gs)" and "writing h = None" and "dist_push fd h = (Inr (), h')" and "writing h' = Some i"
  shows "helper_inv (h', gs @ [(i, fd)])"
proof -
  obtain index lb where "index < length (store_queues h)"
    "h' = h\<lparr>TrueLD := lb, store_queues := (store_queues h)[index := store_queues h ! index @ [fd]], writing := Some index\<rparr>"
    using dist_push_runs [OF assms(3)] by blast
  then show ?thesis using assms(1,2,4) by (auto simp: helper_inv_def given_to_snoc nth_list_update)
qed

lemma write_inv: "helper_inv (h, gs) \<Longrightarrow> writing h = Some i \<Longrightarrow> helper_inv (dist_write h, gs)"
  by (auto simp: helper_inv_def dist_write_def nth_list_update split: if_splits)

lemma read_inv: "helper_inv (h, gs) \<Longrightarrow> i < length (store_queues h) \<Longrightarrow> Temps h ! i = 0 \<Longrightarrow> helper_inv (worker_read i h, gs)"
  by (auto simp: helper_inv_def worker_read_def nth_list_update)

lemma take_inv:
  assumes "helper_inv (h, gs)" and "i < length (store_queues h)" and "Temps h ! i > 0" and "worker_take i h = (Inr (), h')"
  shows "helper_inv (h', gs)"
proof -
  obtain fd q where q: "store_queues h ! i = fd # q"
    "h' = h\<lparr>store_queues := (store_queues h)[i := q], Temps := (Temps h)[i := Temps h ! i - 1],
       registered := (registered h)[i := registered h ! i @ [fd]]\<rparr>"
    using assms(4) by (auto simp: worker_take_def split: list.splits)
  have "length (fd # q) = event_counts h ! i + Temps h ! i + (if writing h = Some i then 1 else 0)"
    using assms(1,2) q(1) [symmetric] by (simp add: helper_inv_def)
  then show ?thesis using assms q by (auto simp: helper_inv_def nth_list_update split: if_splits)
qed

lemma thread_step_inv: "thread_step hg r \<Longrightarrow> r = Some hg' \<Longrightarrow> helper_inv hg \<Longrightarrow> helper_inv hg'"
proof (induction arbitrary: hg' rule: thread_step.induct)
  case (main_extract h que n lb gs)
  then show ?case by (auto simp: helper_inv_def)
qed (auto intro: push_inv write_inv read_inv take_inv)

lemma thread_run_inv: "thread_run hg hg' \<Longrightarrow> helper_inv hg \<Longrightarrow> helper_inv hg'"
  by (induction rule: thread_run.induct) (auto intro: thread_step_inv)

lemma thread_step_fails: "thread_step hg None \<Longrightarrow> \<not> helper_inv hg"
proof (erule thread_step_None)
  fix i h e h' gs
  assume "i < length (store_queues h)" "0 < Temps h ! i" "worker_take i h = (Inl e, h')" "hg = (h, gs)"
  then show "\<not> helper_inv hg" by (auto simp: helper_inv_def worker_take_def split: list.splits)
qed

section \<open>Many connections\<close>

definition dispatch :: "int list \<Rightarrow> channel_helper \<Rightarrow> (channel_helper, unit list) cpp" where
  "dispatch fds h = mapc helper_Distribution fds h"

definition helper_fits :: "channel_helper \<Rightarrow> bool" where
  "helper_fits h \<longleftrightarrow> length (event_counts h) = length (store_queues h) \<and> writing h = None"

lemma helper_Distribution_runs:
  assumes "Distribution (TrueLD h) = (Inr i, lb)" and "i < length (store_queues h)" and "helper_fits h"
  shows "\<exists>h'. helper_Distribution fd h = (Inr (), h') \<and> TrueLD h' = lb \<and> helper_fits h' \<and>
     length (store_queues h') = length (store_queues h) \<and>
     (\<forall>j < length (store_queues h). store_queues h' ! j = store_queues h ! j @ given_to j [(i, fd)] \<and>
        event_counts h' ! j = event_counts h ! j + length (given_to j [(i, fd)]))"
  using assms
  by (auto simp: helper_Distribution_def dist_push_def WeightedRoundRobin_def dist_write_def helper_fits_def
      given_to_def nth_list_update)

lemma given_to_Cons: "given_to j (g # gs) = given_to j [g] @ given_to j gs"
  by (simp add: given_to_def)

lemma dispatch_picks:
  assumes "distribute (length fds) (TrueLD h) = (Inr picks, lb)" and "set picks \<subseteq> {..<length (store_queues h)}"
    and "helper_fits h"
  shows "\<exists>us h'. dispatch fds h = (Inr us, h') \<and> TrueLD h' = lb \<and>
     (\<forall>j < length (store_queues h). store_queues h' ! j = store_queues h ! j @ given_to j (zip picks fds) \<and>
        event_counts h' ! j = event_counts h ! j + length (given_to j (zip picks fds)))"
  using assms
proof (induction fds arbitrary: h picks)
  case Nil
  then show ?case by (simp add: dispatch_def distribute_def given_to_def)
next
  case (Cons fd fds)
  obtain i lb1 ps where s: "Distribution (TrueLD h) = (Inr i, lb1)" "distribute (length fds) lb1 = (Inr ps, lb)" "picks = i # ps"
    using Cons.prems(1) by (auto simp: distribute_def bindc_Inr_iff)
  have i: "i < length (store_queues h)" using Cons.prems(2) s(3) by simp
  obtain h1 where h1: "helper_Distribution fd h = (Inr (), h1)" "TrueLD h1 = lb1" "helper_fits h1"
    "length (store_queues h1) = length (store_queues h)"
    "\<And>j. j < length (store_queues h) \<Longrightarrow> store_queues h1 ! j = store_queues h ! j @ given_to j [(i, fd)]"
    "\<And>j. j < length (store_queues h) \<Longrightarrow> event_counts h1 ! j = event_counts h ! j + length (given_to j [(i, fd)])"
    using helper_Distribution_runs [OF s(1) i Cons.prems(3), of fd] by blast
  obtain us h' where h': "dispatch fds h1 = (Inr us, h')" "TrueLD h' = lb"
    "\<And>j. j < length (store_queues h) \<Longrightarrow> store_queues h' ! j = store_queues h1 ! j @ given_to j (zip ps fds)"
    "\<And>j. j < length (store_queues h) \<Longrightarrow> event_counts h' ! j = event_counts h1 ! j + length (given_to j (zip ps fds))"
    using Cons.IH [of h1 ps] s(2) h1(2-4) Cons.prems(2) s(3) by auto
  have "dispatch (fd # fds) h = (Inr (() # us), h')" using h1(1) h'(1) by (simp add: dispatch_def)
  then show ?case
    using h' h1(5,6) s(3) given_to_Cons [of _ "(i, fd)" "zip ps fds"] by simp
qed

lemma given_to_zip: "length picks = length fds \<Longrightarrow> length (given_to j (zip picks fds)) = count_list picks j"
  by (induction picks fds rule: list_induct2) (auto simp: given_to_def)

section \<open>Accepting connections\<close>

text \<open>
  \<open>src/src/server/server.cc\<close>: one answer for each call of \<open>accept4\<close>. The descriptor of the file that is held
  in reserve, \<open>/dev/null\<close> opened with \<open>O_CREAT | O_EXCL\<close>, is what that call gave (-1 where the file exists).
\<close>

datatype accept_answer = Accepted int | Accept_EMFILE | Accept_again | Accept_failed

record Server =
  sv_fd :: int
  File_Description :: int

text \<open>
  The descriptor that was handed out, if any, the calls and the answers that are left. \<open>None\<close>: the loop
  polls the socket and is still in it when the answers end.
\<close>

fun Server_Accept :: "Server \<Rightarrow> accept_answer list \<Rightarrow> (int option \<times> sys_call list \<times> accept_answer list) option" where
  "Server_Accept sv [] = None"
| "Server_Accept sv (Accepted ret # as) = Some (Some ret, [], as)"
| "Server_Accept sv (Accept_EMFILE # as) = Some (None, [Close_fd (File_Description sv), Close_fd (sv_fd sv)], tl as)"
| "Server_Accept sv (Accept_again # as) = Server_Accept sv as"
| "Server_Accept sv (Accept_failed # as) = Some (None, [], as)"

section \<open>The main loop\<close>

record Web_Server =
  ws_Server :: Server
  ws_Timer :: int
  ws_helper :: channel_helper
  ws_calls :: "sys_call list"
  ws_que :: "ThreadLoadData list"

text \<open>Both registrations of \<open>Running\<close>.\<close>

definition Running_start :: "Server \<Rightarrow> int \<Rightarrow> nat \<Rightarrow> LoadBalance \<Rightarrow> Web_Server" where
  "Running_start sv timer hardware_concurrency lb =
     \<lparr>ws_Server = sv, ws_Timer = timer, ws_helper = helper_loop hardware_concurrency lb,
      ws_calls = Epoll_Add (EpollEvent_of timer EpollOnlyRead) (Epoll_Add (EpollEvent_of (sv_fd sv) EpollOnlyRead) []),
      ws_que = []\<rparr>"

definition main_event :: "accept_answer list \<Rightarrow> EpollEvent \<Rightarrow> Web_Server \<Rightarrow> ((Web_Server, accept_answer list) cpp) option" where
  "main_event as item s =
     (let fd = Return_fd item in
      if fd = sv_fd (ws_Server s) then
        (case Server_Accept (ws_Server s) as of
           None \<Rightarrow> None
         | Some (ret, cs, as) \<Rightarrow>
             (let s = s\<lparr>ws_calls := ws_calls s @ cs\<rparr> in
              case ret of
                None \<Rightarrow> Some (Inr as, s)
              | Some ret \<Rightarrow>
                  (case helper_Distribution ret (ws_helper s) of
                     (r, h) \<Rightarrow> Some (bindc (r, s\<lparr>ws_helper := h\<rparr>) (\<lambda>_ s. (Inr as, s))))))
      else if fd = ws_Timer s then
        (case ExtractDataDromLockFreeQueue (ws_que s) (TrueLD (ws_helper s)) of
           (r, lb) \<Rightarrow>
             Some (bindc (r, s\<lparr>ws_helper := (ws_helper s)\<lparr>TrueLD := lb\<rparr>, ws_que := []\<rparr>) (\<lambda>_ s. (Inr as, s))))
      else Some (Inr as, s))"

text \<open>The events of one call of \<open>epoll_wait\<close>; a call that fails is skipped.\<close>

fun main_events :: "accept_answer list \<Rightarrow> EpollEvent list \<Rightarrow> Web_Server \<Rightarrow> ((Web_Server, accept_answer list) cpp) option" where
  "main_events as [] s = Some (Inr as, s)"
| "main_events as (item # es) s =
     (case main_event as item s of
        None \<Rightarrow> None
      | Some (Inl e, s) \<Rightarrow> Some (Inl e, s)
      | Some (Inr as, s) \<Rightarrow> main_events as es s)"

definition Running_turn :: "accept_answer list \<Rightarrow> wait_answer \<Rightarrow> Web_Server \<Rightarrow> ((Web_Server, accept_answer list) cpp) option" where
  "Running_turn as a s = (case a of Wait_failed \<Rightarrow> Some (Inr as, s) | Ready es \<Rightarrow> main_events as es s)"

section \<open>Properties\<close>

text \<open>C18: In every run of the main thread and the workers, however their accesses interleave, the assertion that the
  queue is not empty never fails, each worker has registered exactly the descriptors handed to it so far, in their
  order, up to those in its queue, and a worker whose queue is not empty has a wake-up coming or is
  being served, unless the main thread is about to write it.\<close>

theorem no_connection_is_lost:
  assumes "thread_run (helper_loop n lb, []) (h, gs)"
  shows "\<not> thread_step (h, gs) None \<and>
     (\<forall>i < length (store_queues h). given_to i gs = registered h ! i @ store_queues h ! i \<and>
        (store_queues h ! i \<noteq> [] \<longrightarrow> writing h = Some i \<or> 0 < event_counts h ! i \<or> 0 < Temps h ! i))"
proof -
  have inv: "helper_inv (h, gs)" by (rule thread_run_inv [OF assms helper_inv_loop])
  show ?thesis
  proof (intro conjI allI impI)
    show "\<not> thread_step (h, gs) None" using thread_step_fails [of "(h, gs)"] inv by blast
    fix i
    assume i: "i < length (store_queues h)"
    have len: "length (store_queues h ! i) = event_counts h ! i + Temps h ! i + (if writing h = Some i then 1 else 0)"
      and given: "given_to i gs = registered h ! i @ store_queues h ! i"
      using inv i by (simp_all add: helper_inv_def del: One_nat_def)
    show "given_to i gs = registered h ! i @ store_queues h ! i" by (rule given)
    assume "store_queues h ! i \<noteq> []"
    then have "0 < event_counts h ! i + Temps h ! i + (if writing h = Some i then 1 else 0)"
      unfolding len [symmetric] by simp
    then show "writing h = Some i \<or> 0 < event_counts h ! i \<or> 0 < Temps h ! i" by (simp split: if_splits)
  qed
qed

theorem no_connection_is_lost_witness:
  "\<exists>h gs. thread_run (helper_loop 1 sample_balance, []) (h, gs) \<and> gs = [(0, 7)] \<and> \<not> thread_step (h, gs) None \<and>
     given_to 0 gs = registered h ! 0 @ store_queues h ! 0"
proof -
  let ?h0 = "helper_loop 1 sample_balance"
  obtain h where h: "dist_push 7 ?h0 = (Inr (), h)" "writing h = Some 0" "length (store_queues h) = 1"
  proof -
    obtain lb where "Distribution sample_balance = (Inr 0, lb)"
      by (simp add: sample_balance_def Distribution_def int64_ok_def)
    then show thesis
      using that by (simp add: dist_push_def WeightedRoundRobin_def helper_loop_def RealThreadNumber_def)
  qed
  have "thread_step (?h0, []) (Some (h, [] @ [(0, 7)]))"
    by (rule main_push [OF _ h(1,2)]) (simp add: helper_loop_def Let_def)
  then have run: "thread_run (?h0, []) (h, [(0, 7)])" using run_step [OF run_start] by simp
  then show ?thesis using no_connection_is_lost [OF run] h(3) by auto
qed

text \<open>The helper spreads connections as the weights say: as many connections as the weights add up to extend the
  queue of each worker, and the counter of its eventfd, by as many entries as its weight, and bring the load balance back to where it was.\<close>

theorem dispatch_is_fair:
  assumes "balanced (TrueLD h)" and "\<And>j. j < length (CurrentWeight (TrueLD h)) \<Longrightarrow> CurrentWeight (TrueLD h) ! j = 0"
    and "helper_fits h" and "length (store_queues h) = length (PerThreadThroughput (TrueLD h))"
    and "int (length fds) = TotalWeight (TrueLD h)"
  shows "\<exists>us h'. dispatch fds h = (Inr us, h') \<and> TrueLD h' = TrueLD h \<and>
     (\<forall>j < length (store_queues h). \<exists>new. store_queues h' ! j = store_queues h ! j @ new \<and>
        length new = unat (PerThreadThroughput (TrueLD h) ! j) \<and> event_counts h' ! j = event_counts h ! j + length new)"
proof -
  let ?lb = "TrueLD h"
  have n: "nat (TotalWeight ?lb) = length fds" using assms(5) by linarith
  obtain picks where p: "distribute (length fds) ?lb = (Inr picks, ?lb)"
    "\<And>j. j < length (PerThreadThroughput ?lb) \<Longrightarrow> count_list picks j = unat (PerThreadThroughput ?lb ! j)"
    using distribute_fair [OF assms(1,2)] unfolding n by blast
  obtain ps cw where "distribute (length fds) ?lb = (Inr ps, ?lb\<lparr>CurrentWeight := cw\<rparr>)" "length ps = length fds"
    "set ps \<subseteq> {..<length (CurrentWeight ?lb)}"
    using distribute_rounds [OF assms(1), of "length fds"] by blast
  then have ps: "length picks = length fds" "set picks \<subseteq> {..<length (store_queues h)}"
    using p(1) assms(1,4) by (auto simp: balanced_def)
  obtain us h' where "dispatch fds h = (Inr us, h')" "TrueLD h' = ?lb"
    "\<And>j. j < length (store_queues h) \<Longrightarrow> store_queues h' ! j = store_queues h ! j @ given_to j (zip picks fds)"
    "\<And>j. j < length (store_queues h) \<Longrightarrow> event_counts h' ! j = event_counts h ! j + length (given_to j (zip picks fds))"
    using dispatch_picks [OF p(1) ps(2) assms(3)] by blast
  then show ?thesis using p(2) given_to_zip [OF ps(1)] assms(4) by auto
qed

theorem dispatch_is_fair_witness:
  "\<exists>us h'. dispatch [10, 11, 12, 13, 14, 15, 16] (helper_loop 4 sample_balance) = (Inr us, h') \<and>
     (\<exists>new. store_queues h' ! 0 = new \<and> length new = 5)"
  using dispatch_is_fair [of "helper_loop 4 sample_balance" "[10, 11, 12, 13, 14, 15, 16]"] sample_balanced
  by (force simp: helper_loop_def RealThreadNumber_def helper_fits_def sample_balance_def less_Suc_eq Let_def)

lemma main_events_elsewhere:
  assumes "\<forall>e \<in> set es. Return_fd e \<noteq> sv_fd (ws_Server s)" and "main_events as es s = Some (r, s')"
  shows "ws_calls s' = ws_calls s \<and> store_queues (ws_helper s') = store_queues (ws_helper s)"
  using assms
proof (induction es arbitrary: as s)
  case (Cons e es)
  obtain r1 s1 where e: "main_event as e s = Some (r1, s1)"
    using Cons.prems(2) by (cases "main_event as e s") auto
  have same: "ws_calls s1 = ws_calls s" "ws_Server s1 = ws_Server s" "store_queues (ws_helper s1) = store_queues (ws_helper s)"
    using Cons.prems(1) e
    by (auto simp: main_event_def Let_def bindc_def split: if_splits prod.splits sum.splits)
  show ?case
  proof (cases r1)
    case (Inl x)
    then show ?thesis using Cons.prems(2) e same by simp
  next
    case (Inr as1)
    then have "main_events as1 es s1 = Some (r, s')" using Cons.prems(2) e by simp
    then show ?thesis using Cons.IH [of s1 as1] Cons.prems(1) same by simp
  qed
qed simp

text \<open>When a connection arrives and the process has no descriptor left, the main thread closes its own listening
  socket in place of the connection: the kernel watches it no more, and no event of another descriptor brings
  it back or hands a connection to a worker.\<close>

theorem no_descriptor_stops_server:
  "\<exists>s'. Running_turn (Accept_EMFILE # a # as) (Ready [EpollEvent_of (sv_fd (ws_Server s)) EETCOULDREAD]) s = Some (Inr as, s') \<and>
     watched (ws_calls s') (sv_fd (ws_Server s)) = None \<and>
     (\<forall>as es r s''. (\<forall>e \<in> set es. Return_fd e \<noteq> sv_fd (ws_Server s)) \<longrightarrow> main_events as es s' = Some (r, s'') \<longrightarrow>
        watched (ws_calls s'') (sv_fd (ws_Server s)) = None \<and> store_queues (ws_helper s'') = store_queues (ws_helper s))"
proof -
  let ?s' = "s\<lparr>ws_calls := ws_calls s @ [Close_fd (File_Description (ws_Server s)), Close_fd (sv_fd (ws_Server s))]\<rparr>"
  have "Running_turn (Accept_EMFILE # a # as) (Ready [EpollEvent_of (sv_fd (ws_Server s)) EETCOULDREAD]) s = Some (Inr as, ?s')"
    by (simp add: Running_turn_def main_event_def EpollEvent_of_def Let_def)
  moreover have "watched (ws_calls ?s') (sv_fd (ws_Server s)) = None" by (simp add: watched_append)
  moreover have "watched (ws_calls s'') (sv_fd (ws_Server s)) = None \<and> store_queues (ws_helper s'') = store_queues (ws_helper s)"
    if "\<forall>e \<in> set es. Return_fd e \<noteq> sv_fd (ws_Server s)" "main_events as es ?s' = Some (r, s'')" for as es r s''
    using main_events_elsewhere [of es ?s' as r s''] that calculation(2) by simp
  ultimately show ?thesis by blast
qed

theorem no_descriptor_stops_server_witness:
  "\<exists>s' s''. Running_turn [Accept_EMFILE, Accept_EMFILE] (Ready [EpollEvent_of 3 EETCOULDREAD])
       (Running_start \<lparr>sv_fd = 3, File_Description = - 1\<rparr> 6 4 sample_balance) = Some (Inr [], s') \<and>
     main_events [] [EpollEvent_of 6 EETCOULDREAD] s' = Some (Inr [], s'') \<and> watched (ws_calls s'') 3 = None"
proof -
  let ?s = "Running_start \<lparr>sv_fd = 3, File_Description = - 1\<rparr> 6 4 sample_balance"
  obtain s' where s': "Running_turn [Accept_EMFILE, Accept_EMFILE] (Ready [EpollEvent_of 3 EETCOULDREAD]) ?s = Some (Inr [], s')"
    "\<And>as es r s''. \<forall>e \<in> set es. Return_fd e \<noteq> 3 \<Longrightarrow> main_events as es s' = Some (r, s'') \<Longrightarrow> watched (ws_calls s'') 3 = None"
    using no_descriptor_stops_server [of Accept_EMFILE "[]" ?s] by (auto simp: Running_start_def)
  moreover obtain s'' where "main_events [] [EpollEvent_of 6 EETCOULDREAD] s' = Some (Inr [], s'')"
    using s'(1)
    by (auto simp: Running_turn_def Running_start_def main_event_def EpollEvent_of_def ExtractDataDromLockFreeQueue_def
        helper_loop_def Let_def)
  ultimately show ?thesis by (metis EpollEvent_of_def EpollEvent.select_convs(2) list.set(1,2) numeral_eq_iff semiring_norm(89) singletonD)
qed

end
