(* ===== verification/Whole_Server.thy ===== *)
theory Whole_Server
  imports Worker_Serving Dispatch
begin

text \<open>
  The server as a whole: the main thread of \<open>Dispatch\<close> accepts connections and hands them over, the workers of \<open>Event_Loop\<close> take them from
  their queues and answer their requests.
\<close>

section \<open>Accepting\<close>

text \<open>The worker \<open>j\<close> shares its queue with the main thread; the number it reads from its event descriptor is the one the main thread wrote.\<close>

definition shares_queue :: "channel_helper \<Rightarrow> nat \<Rightarrow> channel \<Rightarrow> channel" where
  "shares_queue h j c = c\<lparr>ptr_que := store_queues h ! j\<rparr>"

definition wakes :: "channel_helper \<Rightarrow> nat \<Rightarrow> event_input" where
  "wakes h j = \<lparr>ei_recv = [], ei_count = event_counts h ! j\<rparr>"

text \<open>A batch of readable connections, each of them in \<open>fds\<close> and no two the same, that fits the array of the worker.\<close>

definition batch_from :: "int list \<Rightarrow> EpollEvent_Result \<Rightarrow> EpollEvent list \<Rightarrow> bool" where
  "batch_from fds r es \<longleftrightarrow>
     length es \<le> length (er_array r) \<and> distinct (map Return_fd es) \<and> Return_fd ` set es \<subseteq> set fds \<and> (\<forall>e \<in> set es. readable e)"

text \<open>Several turns of the main loop, with what is left of the answers of \<open>accept4\<close>.\<close>

fun main_turns :: "accept_answer list \<Rightarrow> wait_answer list \<Rightarrow> Web_Server \<Rightarrow> ((Web_Server, accept_answer list) cpp) option" where
  "main_turns as [] s = Some (Inr as, s)"
| "main_turns as (a # ws) s =
     (case Running_turn as a s of
        None \<Rightarrow> None
      | Some (Inl e, s) \<Rightarrow> Some (Inl e, s)
      | Some (Inr as, s) \<Rightarrow> main_turns as ws s)"

lemma main_turns_dispatch:
  assumes "Return_fd ev = sv_fd (ws_Server s)" and "dispatch fds (ws_helper s) = (Inr us, h')"
  shows "main_turns (map Accepted fds @ as) (replicate (length fds) (Ready [ev])) s = Some (Inr as, s\<lparr>ws_helper := h'\<rparr>)"
  using assms
proof (induction fds arbitrary: s us)
  case (Cons fd fds)
  obtain h1 us1 where h1: "helper_Distribution fd (ws_helper s) = (Inr (), h1)" "dispatch fds h1 = (Inr us1, h')"
    using Cons.prems(2) by (auto simp: dispatch_def bindc_Inr_iff)
  have "Running_turn (map Accepted (fd # fds) @ as) (Ready [ev]) s = Some (Inr (map Accepted fds @ as), s\<lparr>ws_helper := h1\<rparr>)"
    using Cons.prems(1) h1(1) by (simp add: Running_turn_def main_event_def Let_def)
  then show ?case using Cons.IH [of "s\<lparr>ws_helper := h1\<rparr>" us1] Cons.prems(1) h1(2) by simp
qed (simp add: dispatch_def)

lemma dispatched_everywhere:
  assumes "balanced (TrueLD h)" and "helper_fits h" and "length (store_queues h) = length (PerThreadThroughput (TrueLD h))"
    and "\<And>j. j < length (store_queues h) \<Longrightarrow> store_queues h ! j = [] \<and> event_counts h ! j = 0" and "distinct fds"
  obtains us h' where "dispatch fds h = (Inr us, h')"
    "\<And>fd. fd \<in> set fds \<Longrightarrow> \<exists>j < length (store_queues h). fd \<in> set (store_queues h' ! j)"
    "\<And>j. j < length (store_queues h) \<Longrightarrow> distinct (store_queues h' ! j) \<and> set (store_queues h' ! j) \<subseteq> set fds \<and>
       event_counts h' ! j = length (store_queues h' ! j)"
proof -
  obtain ps cw where ps: "distribute (length fds) (TrueLD h) = (Inr ps, (TrueLD h)\<lparr>CurrentWeight := cw\<rparr>)" "length ps = length fds"
    "set ps \<subseteq> {..<length (CurrentWeight (TrueLD h))}"
    using distribute_rounds [OF assms(1), of "length fds"] by blast
  then have range: "set ps \<subseteq> {..<length (store_queues h)}" using assms(1,3) by (simp add: balanced_def)
  obtain us h' where h': "dispatch fds h = (Inr us, h')"
    "\<And>j. j < length (store_queues h) \<Longrightarrow> store_queues h' ! j = given_to j (zip ps fds) \<and> event_counts h' ! j = length (given_to j (zip ps fds))"
    using dispatch_picks [OF ps(1) range assms(2)] assms(4) by fastforce
  have sub: "set (given_to j (zip ps fds)) \<subseteq> set fds" for j by (auto simp: given_to_def dest: set_zip_rightD)
  have "distinct (map snd (filter P (zip ps fds)))" for P
    using assms(5) ps(2) by (metis distinct_map_filter map_snd_zip)
  then have dist: "distinct (given_to j (zip ps fds))" for j by (simp add: given_to_def)
  have "\<exists>j < length (store_queues h). fd \<in> set (store_queues h' ! j)" if "fd \<in> set fds" for fd
  proof -
    obtain i where i: "i < length fds" "fd = fds ! i" using \<open>fd \<in> set fds\<close> by (auto simp: in_set_conv_nth)
    have "(ps ! i, fd) \<in> set (zip ps fds)" using i ps(2) by (auto simp: in_set_zip)
    then have "fd \<in> set (given_to (ps ! i) (zip ps fds))" by (force simp: given_to_def)
    moreover have "ps ! i < length (store_queues h)" using subsetD [OF range nth_mem [of i ps]] i(1) ps(2) by simp
    ultimately show ?thesis using h'(2) by auto
  qed
  then show thesis using that [OF h'(1)] h'(2) sub dist by simp
qed

section \<open>From the connection to the answer\<close>

text \<open>
  Two turns of a worker: the wake-up \<open>wake\<close>, then the batch \<open>es\<close>. Every connection of the batch gets the answer to its own request and is then watched for
  reading, or closed as the request says; all other connections that are not in \<open>fds\<close> stay as they were.
\<close>

definition turns_answer ::
  "(int \<Rightarrow> HttpRequest \<times> 32 word) \<Rightarrow> platform \<Rightarrow> (int \<Rightarrow> visit) \<Rightarrow> int list \<Rightarrow> event_input \<times> EpollEvent \<Rightarrow> EpollEvent list
    \<Rightarrow> EpollEvent_Result \<Rightarrow> world \<Rightarrow> channel \<Rightarrow> bool" where
  "turns_answer junk pf v fds wake es r w c \<longleftrightarrow>
     (\<exists>r1 s1 r2 w' c'. looping_turn junk pf (\<lambda>_. fst wake) (Ready [snd wake]) (r, w, c) = Some (Inr r1, s1) \<and>
        looping_turn junk pf (\<lambda>i. brings (map Received (vi_pieces (v (Return_fd (es ! i)))) @ [Would_block])) (Ready es) (r1, s1) = Some (Inr r2, w', c') \<and>
        (\<forall>fd \<in> Return_fd ` set es.
           wire (kernels w' fd) = wire (kernels w fd) @ reply_text pf Keep_Alive (vi_message (v fd)) (vi_file (v fd)) (vi_type (v fd)) \<and>
           watched (sys_calls w') fd = answered_watch (reply_closes Keep_Alive (vi_message (v fd)))) \<and>
        (\<forall>fd. fd \<notin> set fds \<longrightarrow> kernels w' fd = kernels w fd \<and> Fd_To_Member (ch_Manger c') fd = Fd_To_Member (ch_Manger c) fd))"

text \<open>What a request and its connection must be: the text arrives in pieces, and the request is one that is answered.\<close>

definition asks :: "platform \<Rightarrow> visit \<Rightarrow> Kernel \<Rightarrow> bool" where
  "asks pf u k \<longleftrightarrow> concat (vi_pieces u) = request_text (vi_message u) \<and> answerable pf 4048 4048 Keep_Alive k (vi_message u) (vi_file u) (vi_type u)"

lemma handed_connections_are_answered:
  assumes queue: "distinct (store_queues h ! j)" "event_counts h ! j = length (store_queues h ! j)" and r: "1 \<le> length (er_array r)"
    and efd: "ch_eventfd c \<notin> set (store_queues h ! j)" "Return_fd wev = ch_eventfd c"
    and new: "\<forall>fd \<in> set (store_queues h ! j). Fd_To_Member (ch_Manger c) fd = None \<and> watched (sys_calls w) fd = None \<and> asks pf (v fd) (kernels w fd)"
    and es: "batch_from (store_queues h ! j) r es"
  shows "turns_answer junk pf v (store_queues h ! j) (wakes h j, wev) es r w (shares_queue h j c)"
proof -
  let ?c = "shares_queue h j c"
  have c: "ptr_que ?c = store_queues h ! j" "ch_eventfd ?c = ch_eventfd c" "ch_Manger ?c = ch_Manger c" by (simp_all add: shares_queue_def)
  have new': "\<forall>fd \<in> set (store_queues h ! j). Fd_To_Member (ch_Manger ?c) fd = None \<and> watched (sys_calls w) fd = None"
    and "ch_eventfd ?c \<notin> set (store_queues h ! j)" "Return_fd wev = ch_eventfd ?c"
    using new efd unfolding c by blast+
  moreover have "length es \<le> length (er_array r)" "distinct (map Return_fd es)" "Return_fd ` set es \<subseteq> set (store_queues h ! j)" "\<forall>e \<in> set es. readable e"
    using es by (simp_all add: batch_from_def)
  moreover from this(3) have "\<forall>fd \<in> Return_fd ` set es. concat (vi_pieces (v fd)) = request_text (vi_message (v fd)) \<and>
      answerable pf 4048 4048 Keep_Alive (kernels w fd) (vi_message (v fd)) (vi_file (v fd)) (vi_type (v fd))"
    using new unfolding asks_def by blast
  moreover have "ei_count (wakes h j) = length (store_queues h ! j)" using queue(2) by (simp add: wakes_def)
  ultimately show ?thesis
    using new_connections_are_served [OF c(1) queue(1) _ _ r, of w es wev "\<lambda>_. wakes h j"
        "\<lambda>i. brings (map Received (vi_pieces (v (Return_fd (es ! i)))) @ [Would_block])" v pf junk]
    unfolding turns_answer_def by (simp add: brings_def) blast
qed

text \<open>C1: The whole server. The main thread accepts any number of connections, one with each event of its listening socket, and hands each of them to one of
  the workers. A worker that has been woken registers all that were handed to it in one turn of its loop; in the next turn every
  connection of the batch, with a request that is no POST, fits the buffer and arrives in any pieces, and a peer that takes what it is offered, gets the answer to its own request and nothing else, and is then watched for reading
  or closed as the request says; no connection that was there before is touched.\<close>

theorem accepted_connections_are_answered:
  fixes v :: "int \<Rightarrow> visit" and w :: "nat \<Rightarrow> world"
  assumes "balanced (TrueLD (ws_helper s))" and "helper_fits (ws_helper s)"
    and "length (store_queues (ws_helper s)) = length (PerThreadThroughput (TrueLD (ws_helper s)))"
    and "\<And>j. j < length (store_queues (ws_helper s)) \<Longrightarrow> store_queues (ws_helper s) ! j = [] \<and> event_counts (ws_helper s) ! j = 0"
    and "distinct fds" and "Return_fd lev = sv_fd (ws_Server s)" and "1 \<le> length (er_array r)"
    and "\<And>j. j < length (store_queues (ws_helper s)) \<Longrightarrow> ch_eventfd (c j) \<notin> set fds \<and> Return_fd (wev j) = ch_eventfd (c j)"
    and "\<And>j fd. j < length (store_queues (ws_helper s)) \<Longrightarrow> fd \<in> set fds \<Longrightarrow>
      Fd_To_Member (ch_Manger (c j)) fd = None \<and> watched (sys_calls (w j)) fd = None \<and> asks pf (v fd) (kernels (w j) fd)"
  shows "\<exists>s'. main_turns (map Accepted fds @ as) (replicate (length fds) (Ready [lev])) s = Some (Inr as, s') \<and>
     (\<forall>fd \<in> set fds. \<exists>j < length (store_queues (ws_helper s)). fd \<in> set (store_queues (ws_helper s') ! j)) \<and>
     (\<forall>j < length (store_queues (ws_helper s)). set (store_queues (ws_helper s') ! j) \<subseteq> set fds \<and>
        (\<forall>es. batch_from (store_queues (ws_helper s') ! j) r es \<longrightarrow>
           turns_answer junk pf v (store_queues (ws_helper s') ! j) (wakes (ws_helper s') j, wev j) es r (w j) (shares_queue (ws_helper s') j (c j))))"
proof -
  let ?n = "length (store_queues (ws_helper s))"
  obtain us h' where h': "dispatch fds (ws_helper s) = (Inr us, h')"
    "\<And>fd. fd \<in> set fds \<Longrightarrow> \<exists>j < ?n. fd \<in> set (store_queues h' ! j)"
    "\<And>j. j < ?n \<Longrightarrow> distinct (store_queues h' ! j) \<and> set (store_queues h' ! j) \<subseteq> set fds \<and>
       event_counts h' ! j = length (store_queues h' ! j)"
    using dispatched_everywhere [OF assms(1-5)] by blast
  have "turns_answer junk pf v (store_queues h' ! j) (wakes h' j, wev j) es r (w j) (shares_queue h' j (c j))"
    if j: "j < ?n" and b: "batch_from (store_queues h' ! j) r es" for j es
    using h'(3) [OF j] assms(8) [OF j] assms(9) [OF j]
    by (intro handed_connections_are_answered [OF _ _ assms(7) _ _ _ b]) blast+
  then show ?thesis
    using main_turns_dispatch [OF assms(6) h'(1), of as] h'(2,3) by (intro exI [of _ "s\<lparr>ws_helper := h'\<rparr>"]) simp
qed

section \<open>Witness\<close>

definition sample_server :: Web_Server where
  "sample_server = Running_start \<lparr>sv_fd = 3, File_Description = - 1\<rparr> 7 4 sample_balance"

lemma sample_server_values:
  "balanced (TrueLD (ws_helper sample_server))" "helper_fits (ws_helper sample_server)" "length (store_queues (ws_helper sample_server)) = 3"
  "length (PerThreadThroughput (TrueLD (ws_helper sample_server))) = 3" "sv_fd (ws_Server sample_server) = 3"
  "j < 3 \<Longrightarrow> store_queues (ws_helper sample_server) ! j = [] \<and> event_counts (ws_helper sample_server) ! j = 0"
  using sample_balanced
  by (simp_all add: sample_server_def Running_start_def helper_loop_def RealThreadNumber_def helper_fits_def Let_def)
    (simp add: sample_balance_def)

lemma sample_asks:
  assumes "fd \<in> {5, 6}"
  shows "asks sample_platform (sample_visit fd) (kernels (serving_world (replicate 3 (Sent 999))) fd)"
    "watched (sys_calls (serving_world (replicate 3 (Sent 999)))) fd = None"
  using sample_answerable [of fd fd] sample_accepted(4,5) assms by (auto simp: asks_def sample_visit_def)

theorem accepted_connections_are_answered_witness:
  "\<exists>s' j r1 s1 r2 w' c'. main_turns [Accepted 5, Accepted 6] (replicate 2 (Ready [EpollEvent_of 3 EETCOULDREAD])) sample_server = Some (Inr [], s') \<and>
     looping_turn sample_junk sample_platform (\<lambda>_. wakes (ws_helper s') j) (Ready [EpollEvent_of (10 + int j) EETCOULDREAD])
       (EpollEvent_Result_new 2, serving_world (replicate 3 (Sent 999)), shares_queue (ws_helper s') j (channel_new (10 + int j))) = Some (Inr r1, s1) \<and>
     looping_turn sample_junk sample_platform (\<lambda>i. brings (map Received (vi_pieces (sample_visit (Return_fd ([EpollEvent_of 5 EETCOULDREAD] ! i)))) @ [Would_block]))
       (Ready [EpollEvent_of 5 EETCOULDREAD]) (r1, s1) = Some (Inr r2, w', c') \<and>
     wire (kernels w' 5) = file_response 1 1 Keep_Alive (pf_date sample_platform) defaultMIME ''hello'' \<and>
     watched (sys_calls w') 5 = Some EpollCanRead"
proof -
  let ?w = "serving_world (replicate 3 (Sent 999))" and ?es = "[EpollEvent_of 5 EETCOULDREAD]"
  obtain s' where s': "main_turns (map Accepted [5, 6] @ []) (replicate (length [5 :: int, 6]) (Ready [EpollEvent_of 3 EETCOULDREAD])) sample_server = Some (Inr [], s')"
    "\<forall>fd \<in> set [5, 6]. \<exists>j < 3. fd \<in> set (store_queues (ws_helper s') ! j)"
    "\<forall>j < 3. set (store_queues (ws_helper s') ! j) \<subseteq> set [5, 6] \<and> (\<forall>es. batch_from (store_queues (ws_helper s') ! j) (EpollEvent_Result_new 2) es \<longrightarrow>
       turns_answer sample_junk sample_platform sample_visit (store_queues (ws_helper s') ! j) (wakes (ws_helper s') j, EpollEvent_of (10 + int j) EETCOULDREAD)
         es (EpollEvent_Result_new 2) ?w (shares_queue (ws_helper s') j (channel_new (10 + int j))))"
    using accepted_connections_are_answered [of sample_server "[5, 6]" "EpollEvent_of 3 EETCOULDREAD" "EpollEvent_Result_new 2"
        "\<lambda>j. channel_new (10 + int j)" "\<lambda>j. EpollEvent_of (10 + int j) EETCOULDREAD" "\<lambda>_. ?w" sample_platform sample_visit "[]" sample_junk]
      sample_server_values sample_asks
    by (auto simp: sample_events channel_new_def Manger_new_def)
  then obtain j where j: "j < 3" "5 \<in> set (store_queues (ws_helper s') ! j)" by auto
  then have "batch_from (store_queues (ws_helper s') ! j) (EpollEvent_Result_new 2) ?es"
    by (simp add: batch_from_def sample_events)
  then have "turns_answer sample_junk sample_platform sample_visit (store_queues (ws_helper s') ! j)
      (wakes (ws_helper s') j, EpollEvent_of (10 + int j) EETCOULDREAD) ?es (EpollEvent_Result_new 2) ?w
      (shares_queue (ws_helper s') j (channel_new (10 + int j)))"
    using s'(3) j(1) by blast
  then obtain r1 s1 r2 w' c' where t: "looping_turn sample_junk sample_platform (\<lambda>_. wakes (ws_helper s') j) (Ready [EpollEvent_of (10 + int j) EETCOULDREAD])
       (EpollEvent_Result_new 2, ?w, shares_queue (ws_helper s') j (channel_new (10 + int j))) = Some (Inr r1, s1)"
    "looping_turn sample_junk sample_platform (\<lambda>i. brings (map Received (vi_pieces (sample_visit (Return_fd (?es ! i)))) @ [Would_block]))
       (Ready ?es) (r1, s1) = Some (Inr r2, w', c')"
    and out: "\<forall>fd \<in> {5}. wire (kernels w' fd) = wire (kernels ?w fd) @
        reply_text sample_platform Keep_Alive (vi_message (sample_visit fd)) (vi_file (sample_visit fd)) (vi_type (sample_visit fd)) \<and>
      watched (sys_calls w') fd = answered_watch (reply_closes Keep_Alive (vi_message (sample_visit fd)))"
    unfolding turns_answer_def fst_conv snd_conv list.set image_insert image_empty sample_events(2) by blast
  have "wire (kernels w' 5) = file_response 1 1 Keep_Alive (pf_date sample_platform) defaultMIME ''hello''" "watched (sys_calls w') 5 = Some EpollCanRead"
    using out by (simp_all add: sample_accepted(6) sample_visit_def sample_replies answered_watch_def)
  moreover have "main_turns [Accepted 5, Accepted 6] (replicate 2 (Ready [EpollEvent_of 3 EETCOULDREAD])) sample_server = Some (Inr [], s')"
    using s'(1) by (simp add: numeral_2_eq_2)
  ultimately show ?thesis using t by blast
qed

end
