(* ===== verification/Descriptors.thy ===== *)
theory Descriptors
  imports Provider Write_Loop_Order Socket_Read
begin

text \<open>
  Files and sockets as descriptors: \<open>src/src/tool/fileproxy.h\<close>, \<open>fileproxy.cc\<close>, \<open>filereader.h\<close> and
  \<open>filereader.cc\<close>, and the operations of \<open>src/src/net/socket.h\<close> and \<open>socket.cc\<close> that only call the kernel. The kernel's part is a
  table of what is open under each number. The provider and the output side know an opened file by its bytes alone
  (\<open>Provider\<close>, \<open>Write_Loop\<close>); here that view is shown to be one of the files behind the descriptors.
\<close>

section \<open>The table of descriptors\<close>

type_synonym 'a fdtable = "'a option list"

definition sys_at :: "int \<Rightarrow> 'a fdtable \<Rightarrow> 'a option" where
  "sys_at fd T = (if 0 \<le> fd \<and> nat fd < length T then T ! nat fd else None)"

text \<open>
  By its documentation the kernel gives the lowest number that is free. A path that names nothing gives -1, and so does
  the close of a number that is not open.
\<close>

definition lowest_free :: "'a fdtable \<Rightarrow> nat" where
  "lowest_free T = length (takeWhile (\<lambda>e. e \<noteq> None) T)"

definition sys_open :: "'a option \<Rightarrow> 'a fdtable \<Rightarrow> int \<times> 'a fdtable" where
  "sys_open x T =
     (case x of
        None \<Rightarrow> (- 1, T)
      | Some a \<Rightarrow>
          (let i = lowest_free T in (int i, if i < length T then T[i := Some a] else T @ [Some a])))"

definition sys_close :: "int \<Rightarrow> 'a fdtable \<Rightarrow> int \<times> 'a fdtable" where
  "sys_close fd T = (if sys_at fd T = None then (- 1, T) else (0, T[nat fd := None]))"

lemma lowest_free_le: "lowest_free T \<le> length T"
  by (simp add: lowest_free_def length_takeWhile_le)

lemma sys_at_lowest_free: "sys_at (int (lowest_free T)) T = None"
proof (cases "lowest_free T < length T")
  case True
  then show ?thesis using nth_length_takeWhile [of "\<lambda>e. e \<noteq> None" T] by (simp add: sys_at_def lowest_free_def)
qed (simp add: sys_at_def)

lemma sys_at_nat: "sys_at (int i) T = (if i < length T then T ! i else None)"
  by (simp add: sys_at_def)

lemma sys_at_neg: "fd < 0 \<Longrightarrow> sys_at fd T = None"
  by (simp add: sys_at_def)

lemma sys_at_update:
  assumes "i < length T"
  shows "sys_at fd (T[i := x]) = (if fd = int i then x else sys_at fd T)"
proof (cases "fd < 0")
  case False
  then obtain j where "fd = int j" by (metis nonneg_int_cases not_less)
  then show ?thesis using assms by (simp add: sys_at_nat nth_list_update)
qed (auto simp: sys_at_neg)

lemma sys_at_append: "sys_at fd (T @ [x]) = (if fd = int (length T) then x else sys_at fd T)"
proof (cases "fd < 0")
  case False
  then obtain j where "fd = int j" by (metis nonneg_int_cases not_less)
  then show ?thesis by (simp add: sys_at_nat nth_append)
qed (auto simp: sys_at_neg)

lemma sys_open_at:
  assumes "sys_open (Some a) T = (fd, T')"
  shows "0 \<le> fd" "sys_at fd T = None" "sys_at fd' T' = (if fd' = fd then Some a else sys_at fd' T)"
proof -
  have fd: "fd = int (lowest_free T)" and T': "T' = (if lowest_free T < length T then T[lowest_free T := Some a] else T @ [Some a])"
    using assms by (simp_all add: sys_open_def Let_def)
  show "0 \<le> fd" "sys_at fd T = None" using sys_at_lowest_free [of T] by (simp_all add: fd)
  show "sys_at fd' T' = (if fd' = fd then Some a else sys_at fd' T)"
  proof (cases "lowest_free T < length T")
    case True
    then have "T' = T[lowest_free T := Some a]" using T' by simp
    then show ?thesis using True by (simp add: fd sys_at_update)
  next
    case False
    then have "T' = T @ [Some a]" "lowest_free T = length T" using T' lowest_free_le [of T] by simp_all
    then show ?thesis by (simp add: fd sys_at_append)
  qed
qed

lemma sys_close_at:
  "sys_at fd' (snd (sys_close fd T)) = (if fd' = fd then None else sys_at fd' T)"
proof (cases "sys_at fd T")
  case (Some x)
  then have "nat fd < length T" "fd = int (nat fd)" by (auto simp: sys_at_def split: if_splits)
  then show ?thesis using Some sys_at_update [of "nat fd" T fd' None] by (simp add: sys_close_def)
qed (simp add: sys_close_def)

section \<open>Files\<close>

text \<open>\<open>fp_stat\<close> is null until it is asked for; a \<open>stat\<close> that \<open>fstat\<close> does not fill stays zero.\<close>

record stat =
  sb_mode :: "32 word"
  sb_size :: int

record FileProxy =
  File_Description :: int
  fp_stat :: "stat option"

text \<open>
  The constructors; the argument is the file that the path names, taken from the working directory, or from the directory behind the
  descriptor of another proxy.
\<close>

definition FileProxy_open :: "os_file option \<Rightarrow> os_file fdtable \<Rightarrow> FileProxy \<times> os_file fdtable" where
  "FileProxy_open x T = (case sys_open x T of (fd, T) \<Rightarrow> (\<lparr>File_Description = fd, fp_stat = None\<rparr>, T))"

definition FileProxy_openat ::
  "(os_file option \<Rightarrow> string \<Rightarrow> os_file option) \<Rightarrow> FileProxy \<Rightarrow> string \<Rightarrow> os_file fdtable \<Rightarrow> FileProxy \<times> os_file fdtable" where
  "FileProxy_openat resolve path1 path2 T =
     (case sys_open (resolve (sys_at (File_Description path1) T) path2) T of
        (fd, T) \<Rightarrow> (\<lparr>File_Description = fd, fp_stat = None\<rparr>, T))"

definition Fd_Good :: "FileProxy \<Rightarrow> bool" where
  "Fd_Good p \<longleftrightarrow> File_Description p > - 1"

definition fstat :: "int \<Rightarrow> os_file fdtable \<Rightarrow> stat \<Rightarrow> stat" where
  "fstat fd T st =
     (case sys_at fd T of None \<Rightarrow> st | Some f \<Rightarrow> \<lparr>sb_mode = st_mode f, sb_size = int (length (st_bytes f))\<rparr>)"

definition Statget :: "os_file fdtable \<Rightarrow> FileProxy \<Rightarrow> FileProxy" where
  "Statget T p =
     (if fp_stat p = None then p\<lparr>fp_stat := Some (fstat (File_Description p) T \<lparr>sb_mode = 0, sb_size = 0\<rparr>)\<rparr> else p)"

definition FileSize :: "os_file fdtable \<Rightarrow> FileProxy \<Rightarrow> int \<times> FileProxy" where
  "FileSize T p = (let p = Statget T p in (sb_size (the (fp_stat p)), p))"

definition FP_IsTextFile :: "os_file fdtable \<Rightarrow> FileProxy \<Rightarrow> bool \<times> FileProxy" where
  "FP_IsTextFile T p =
     (let p = Statget T p; m = sb_mode (the (fp_stat p)) in
      (m AND 0x4000 \<noteq> 0 \<or> m AND 0x2000 \<noteq> 0 \<or> m AND 0x6000 \<noteq> 0 \<or> m AND 0x1000 \<noteq> 0, p))"

definition FileProxy_destroy :: "FileProxy \<Rightarrow> os_file fdtable \<Rightarrow> os_file fdtable" where
  "FileProxy_destroy p T = snd (sys_close (File_Description p) T)"

text \<open>A reader asks for the size when it is made; \<open>sendfile\<close> reads the file as it is then.\<close>

record file_reader = FileProxy +
  fr_length :: int
  fr_offset :: int

definition file_reader_new :: "FileProxy \<times> os_file fdtable \<Rightarrow> file_reader \<times> os_file fdtable" where
  "file_reader_new pT =
     (case pT of (p, T) \<Rightarrow>
        (case FileSize T p of
           (n, p) \<Rightarrow> (\<lparr>File_Description = File_Description p, fp_stat = fp_stat p, fr_length = n, fr_offset = 0\<rparr>, T)))"

definition fr_proxy :: "file_reader \<Rightarrow> FileProxy" where
  "fr_proxy fr = \<lparr>File_Description = File_Description fr, fp_stat = fp_stat fr\<rparr>"

definition fr_Send_End :: "file_reader \<Rightarrow> bool" where
  "fr_Send_End fr \<longleftrightarrow> fr_length fr = fr_offset fr"

definition fr_SendFile :: "os_file fdtable \<Rightarrow> file_reader \<Rightarrow> Kernel \<Rightarrow> int \<times> file_reader \<times> Kernel" where
  "fr_SendFile T fr k =
     (case sys_at (File_Description fr) T of
        None \<Rightarrow> (- 1, fr, k\<lparr>errno := Other_errno\<rparr>)
      | Some f \<Rightarrow>
          (case kernel_send (slice (st_bytes f) (nat (fr_offset fr)) (nat (fr_length fr - fr_offset fr))) k of
             (n, k) \<Rightarrow> (n, fr\<lparr>fr_offset := fr_offset fr + (if n < 0 then 0 else n)\<rparr>, k)))"

section \<open>The readers of the output side\<close>

text \<open>The reader of \<open>Write_Loop\<close> for a reader of a descriptor whose file has the bytes \<open>bs\<close>.\<close>

definition reader_view :: "char list \<Rightarrow> file_reader \<Rightarrow> FileReader" where
  "reader_view bs fr = \<lparr>file_bytes = bs, file_length = fr_length fr, offest = fr_offset fr\<rparr>"

lemma reader_opened:
  assumes "file_reader_new (FileProxy_open (Some f) T) = (fr, T')"
  shows "Fd_Good (fr_proxy fr)" "reader_view (st_bytes f) fr = FileReader_open (st_bytes f)"
    "FP_IsTextFile T' (fr_proxy fr) = (IsTextFile f, fr_proxy fr)"
    "sys_at fd T' = (if fd = File_Description fr then Some f else sys_at fd T)" "sys_at (File_Description fr) T = None"
proof -
  obtain fd T1 where o: "sys_open (Some f) T = (fd, T1)" by (cases "sys_open (Some f) T")
  note at = sys_open_at [OF o]
  have fr: "fr = \<lparr>File_Description = fd, fp_stat = Some \<lparr>sb_mode = st_mode f, sb_size = int (length (st_bytes f))\<rparr>,
      fr_length = int (length (st_bytes f)), fr_offset = 0\<rparr>" "T' = T1"
    using assms at(3) [of fd]
    by (simp_all add: file_reader_new_def FileProxy_open_def o FileSize_def Statget_def fstat_def Let_def)
  show "Fd_Good (fr_proxy fr)" "reader_view (st_bytes f) fr = FileReader_open (st_bytes f)"
    "FP_IsTextFile T' (fr_proxy fr) = (IsTextFile f, fr_proxy fr)"
    "sys_at fd' T' = (if fd' = File_Description fr then Some f else sys_at fd' T)" "sys_at (File_Description fr) T = None" for fd'
    using at by (simp_all add: fr fr_proxy_def Fd_Good_def reader_view_def FileReader_open_def FP_IsTextFile_def Statget_def IsTextFile_def Let_def)
qed

lemma reader_sends:
  assumes "sys_at (File_Description fr) T = Some f" and "fr_SendFile T fr k = (n, fr', k')"
  shows "FileReader_SendFile (reader_view (st_bytes f) fr) k = (n, reader_view (st_bytes f) fr', k')"
    "File_Description fr' = File_Description fr" "Send_End (reader_view (st_bytes f) fr') \<longleftrightarrow> fr_Send_End fr'"
  using assms
  by (auto simp: fr_SendFile_def FileReader_SendFile_def reader_view_def Send_End_def fr_Send_End_def split: prod.splits)

text \<open>Several calls of \<open>SendFile\<close>, of both kinds.\<close>

fun fr_sends :: "nat \<Rightarrow> os_file fdtable \<Rightarrow> file_reader \<times> Kernel \<Rightarrow> int list \<times> file_reader \<times> Kernel" where
  "fr_sends 0 T s = ([], s)"
| "fr_sends (Suc i) T (fr, k) =
     (case fr_SendFile T fr k of (n, s) \<Rightarrow> (case fr_sends i T s of (ns, s) \<Rightarrow> (n # ns, s)))"

lemma slice_step: "m + n \<le> length bs \<Longrightarrow> take m bs @ take n (slice bs m l) = take (m + min n l) bs"
  by (simp add: slice_def take_add min.commute)

text \<open>One call on a file that has been sent up to \<open>m\<close>.\<close>

lemma fr_SendFile_progress:
  assumes "sys_at (File_Description fr) T = Some f" and "fr_length fr = int (length (st_bytes f))" and "fr_offset fr = int m"
    and "m \<le> length (st_bytes f)" and "wire k = ws @ take m (st_bytes f)" and "fr_SendFile T fr k = (n, fr', k')"
  shows "\<exists>m'. m \<le> m' \<and> m' \<le> length (st_bytes f) \<and> fr_offset fr' = int m' \<and> wire k' = ws @ take m' (st_bytes f) \<and>
     fr' = fr\<lparr>fr_offset := int m'\<rparr> \<and> (0 < n \<longrightarrow> m < m')"
proof -
  let ?bs = "st_bytes f" and ?rest = "slice (st_bytes f) m (length (st_bytes f) - m)"
  have rest: "?rest = drop m ?bs" by (simp add: slice_def)
  obtain n' k1 where send: "kernel_send (drop m ?bs) k = (n', k1)" by (cases "kernel_send (drop m ?bs) k")
  have "nat (int (length ?bs) - int m) = length ?bs - m" by simp
  then have res: "n = n'" "k' = k1" "fr' = fr\<lparr>fr_offset := int m + (if n' < 0 then 0 else n')\<rparr>"
    using assms(1-3,6) send by (auto simp: fr_SendFile_def rest)
  show ?thesis
  proof (cases "\<exists>c as. answers k = Sent c # as")
    case True
    then obtain c as where "answers k = Sent c # as" by blast
    then have "n' = int (min c (length ?bs - m))" "wire k1 = wire k @ take (min c (length ?bs - m)) (drop m ?bs)"
      using send by (auto simp: kernel_send_def Let_def)
    then show ?thesis
      using res assms(4,5) by (intro exI [of _ "m + min c (length ?bs - m)"]) (auto simp: take_add)
  next
    case False
    then have "n' = - 1" "wire k1 = wire k" using send by (auto simp: kernel_send_def split: list.splits send_answer.splits)
    then show ?thesis using res assms(2-5) by (intro exI [of _ m]) auto
  qed
qed

lemma fr_sends_progress:
  assumes "sys_at (File_Description fr) T = Some f" and "fr_length fr = int (length (st_bytes f))" and "fr_offset fr = int m"
    and "m \<le> length (st_bytes f)" and "wire k = ws @ take m (st_bytes f)" and "fr_sends i T (fr, k) = (ns, fr', k')"
  shows "\<exists>m'. m' \<le> length (st_bytes f) \<and> fr_offset fr' = int m' \<and> fr_length fr' = fr_length fr \<and> wire k' = ws @ take m' (st_bytes f) \<and>
     m + length (filter (\<lambda>n. 0 < n) ns) \<le> m'"
  using assms
proof (induction i arbitrary: fr k m ns)
  case (Suc i)
  obtain n fr1 k1 where one: "fr_SendFile T fr k = (n, fr1, k1)" by (cases "fr_SendFile T fr k")
  obtain ns' where rest: "fr_sends i T (fr1, k1) = (ns', fr', k')" "ns = n # ns'"
    using Suc.prems(6) one by (auto split: prod.splits)
  obtain m1 where m1: "m \<le> m1" "m1 \<le> length (st_bytes f)" "fr_offset fr1 = int m1" "wire k1 = ws @ take m1 (st_bytes f)"
    "fr1 = fr\<lparr>fr_offset := int m1\<rparr>" "0 < n \<longrightarrow> m < m1"
    using fr_SendFile_progress [OF Suc.prems(1-5) one] by blast
  obtain m' where m': "m' \<le> length (st_bytes f)" "fr_offset fr' = int m'" "fr_length fr' = fr_length fr1" "wire k' = ws @ take m' (st_bytes f)"
    "m1 + length (filter (\<lambda>n. 0 < n) ns') \<le> m'"
    using Suc.IH [of fr1 m1 k1 ns'] Suc.prems(1,2) m1(2-5) rest(1) by auto
  then show ?case using m1(1,5,6) rest(2) by (intro exI [of _ m']) auto
qed auto

section \<open>Sockets\<close>

text \<open>What the kernel keeps of a connection: the status flags and which directions were shut down.\<close>

record conn =
  cn_flags :: "32 word"
  cn_read_shut :: bool
  cn_write_shut :: bool

text \<open>The overflow buffer of a socket is in \<open>Socket_Read\<close>; here is what the class knows of its descriptor.\<close>

record Socket =
  Socket_fd :: int
  Socket_Have_Close :: bool

text \<open>The constructors from a number and from anything that has one; the default one is given what \<open>socket\<close> returned.\<close>

definition Socket_of :: "int \<Rightarrow> Socket" where
  "Socket_of fd = \<lparr>Socket_fd = fd, Socket_Have_Close = True\<rparr>"

definition Socket_Set :: "int \<Rightarrow> Socket \<Rightarrow> Socket" where
  "Socket_Set fd s = s\<lparr>Socket_fd := fd\<rparr>"

definition Socket_Close :: "Socket \<Rightarrow> conn fdtable \<Rightarrow> int \<times> Socket \<times> conn fdtable" where
  "Socket_Close s T =
     (case sys_close (Socket_fd s) T of (rv, T) \<Rightarrow> (rv, if rv \<noteq> - 1 then s\<lparr>Socket_Have_Close := False\<rparr> else s, T))"

definition Socket_destroy :: "Socket \<Rightarrow> conn fdtable \<Rightarrow> conn fdtable" where
  "Socket_destroy s T = (if Socket_Have_Close s \<and> Socket_fd s \<noteq> - 1 then snd (sys_close (Socket_fd s) T) else T)"

definition Socket_reset :: "Socket \<Rightarrow> Socket" where
  "Socket_reset s = s\<lparr>Socket_Have_Close := True\<rparr>"

definition sys_shutdown :: "bool \<Rightarrow> bool \<Rightarrow> int \<Rightarrow> conn fdtable \<Rightarrow> int \<times> conn fdtable" where
  "sys_shutdown rd wr fd T =
     (case sys_at fd T of
        None \<Rightarrow> (- 1, T)
      | Some c \<Rightarrow> (0, T[nat fd := Some (c\<lparr>cn_read_shut := cn_read_shut c \<or> rd, cn_write_shut := cn_write_shut c \<or> wr\<rparr>)]))"

definition Shutdown :: "Socket \<Rightarrow> conn fdtable \<Rightarrow> int \<times> conn fdtable" where
  "Shutdown s = sys_shutdown True True (Socket_fd s)"

definition ShutdownWrite :: "Socket \<Rightarrow> conn fdtable \<Rightarrow> int \<times> conn fdtable" where
  "ShutdownWrite s = sys_shutdown False True (Socket_fd s)"

definition ShutdownRead :: "Socket \<Rightarrow> conn fdtable \<Rightarrow> int \<times> conn fdtable" where
  "ShutdownRead s = sys_shutdown True False (Socket_fd s)"

definition O_NONBLOCK :: "32 word" where "O_NONBLOCK = 0x800"
definition O_CLOEXEC :: "32 word" where "O_CLOEXEC = 0x80000"

text \<open>\<open>F_SETFL\<close> takes over \<open>O_APPEND\<close>, \<open>O_ASYNC\<close>, \<open>O_DIRECT\<close>, \<open>O_NOATIME\<close> and \<open>O_NONBLOCK\<close> and ignores the rest.\<close>

definition settable :: "32 word" where
  "settable = (0x400 OR 0x2000 OR 0x4000 OR 0x40000 OR O_NONBLOCK)"

definition F_SETFL :: "32 word \<Rightarrow> conn \<Rightarrow> conn" where
  "F_SETFL v c = c\<lparr>cn_flags := (cn_flags c AND NOT settable) OR (v AND settable)\<rparr>"

definition SetNoblocking :: "32 word \<Rightarrow> Socket \<Rightarrow> conn fdtable \<Rightarrow> 32 word \<times> conn fdtable" where
  "SetNoblocking flag s T =
     (case sys_at (Socket_fd s) T of
        None \<Rightarrow> (- 1, T)
      | Some c \<Rightarrow>
          (let old_option = cn_flags c; new_option = old_option OR O_NONBLOCK OR flag in
           (old_option, T[nat (Socket_fd s) := Some (F_SETFL new_option c)])))"

definition SetNoblockingCLOEXEC :: "Socket \<Rightarrow> conn fdtable \<Rightarrow> 32 word \<times> conn fdtable" where
  "SetNoblockingCLOEXEC = SetNoblocking O_CLOEXEC"

text \<open>The reads and writes of a block of the caller: what the kernel returns, and what it copied.\<close>

definition Socket_Read_block :: "recv_result \<Rightarrow> nat \<Rightarrow> int \<times> char list" where
  "Socket_Read_block r len =
     (case r of Received bs \<Rightarrow> (int (min len (length bs)), take len bs) | _ \<Rightarrow> (- 1, []))"

definition Socket_Write_block :: "char list \<Rightarrow> Kernel \<Rightarrow> int \<times> Kernel" where
  "Socket_Write_block bs k = kernel_send bs k"

text \<open>The connection is made non-blocking, the other flags stay, and close-on-exec is not set by either function.\<close>

lemma SetNoblocking_flags:
  assumes "sys_at (Socket_fd s) T = Some c" and "SetNoblocking flag s T = (old, T')" and "flag AND settable = 0"
  shows "old = cn_flags c"
    "\<exists>c'. sys_at (Socket_fd s) T' = Some c' \<and> cn_flags c' = cn_flags c OR O_NONBLOCK"
proof -
  have T': "old = cn_flags c" "T' = T[nat (Socket_fd s) := Some (F_SETFL (cn_flags c OR O_NONBLOCK OR flag) c)]"
    using assms(1,2) by (auto simp: SetNoblocking_def Let_def)
  have "(v AND NOT m) OR ((v OR n OR f) AND m) = v OR n" if "f AND m = 0" "n AND m = n" for v n f m :: "32 word"
  proof (rule bit_word_eqI)
    fix i assume "i < LENGTH(32)"
    have "\<not> (bit f i \<and> bit m i)" "bit n i \<longrightarrow> bit m i"
      using arg_cong [OF that(1), of "\<lambda>x. bit x i"] arg_cong [OF that(2), of "\<lambda>x. bit x i"] by (simp_all add: bit_and_iff) blast
    with \<open>i < LENGTH(32)\<close> show "bit ((v AND NOT m) OR ((v OR n OR f) AND m)) i = bit (v OR n) i"
      by (auto simp: bit_simps)
  qed
  from this [OF assms(3)] have "cn_flags (F_SETFL (cn_flags c OR O_NONBLOCK OR flag) c) = cn_flags c OR O_NONBLOCK"
    by (simp add: F_SETFL_def settable_def O_NONBLOCK_def)
  then show "\<exists>c'. sys_at (Socket_fd s) T' = Some c' \<and> cn_flags c' = cn_flags c OR O_NONBLOCK"
    using assms(1) by (auto simp: T'(2) sys_at_def split: if_splits)
  show "old = cn_flags c" by (rule T'(1))
qed

lemma CLOEXEC_not_settable: "O_CLOEXEC AND settable = 0"
  by (simp add: O_CLOEXEC_def settable_def O_NONBLOCK_def)

section \<open>Properties\<close>

text \<open>C7: A file is sent once and in order, however the kernel splits it: after any number of calls of \<open>SendFile\<close> on a reader that was
  opened, with refusals and short counts between, while its descriptor stays open on the file and the file does not change, the peer has got
  a prefix of the file; \<open>Send_End\<close> holds exactly when it has got all of it, and that is so after as many successful calls as the file has
  bytes at the latest, after which nothing more is sent.\<close>

theorem file_is_sent_once:
  assumes "file_reader_new (FileProxy_open (Some f) T) = (fr, T1)" and "sys_at (File_Description fr) T2 = Some f"
    and "fr_sends i T2 (fr, k) = (ns, fr', k')"
  shows "\<exists>m \<le> length (st_bytes f). wire k' = wire k @ take m (st_bytes f) \<and> (fr_Send_End fr' \<longleftrightarrow> m = length (st_bytes f)) \<and>
     (length (st_bytes f) \<le> length (filter (\<lambda>n. 0 < n) ns) \<longrightarrow> fr_Send_End fr')"
proof -
  have "reader_view (st_bytes f) fr = FileReader_open (st_bytes f)" by (rule reader_opened(2) [OF assms(1)])
  then have new: "fr_length fr = int (length (st_bytes f))" "fr_offset fr = int 0" by (simp_all add: reader_view_def FileReader_open_def)
  obtain m where "m \<le> length (st_bytes f)" "fr_offset fr' = int m" "fr_length fr' = fr_length fr" "wire k' = wire k @ take m (st_bytes f)"
    "length (filter (\<lambda>n. 0 < n) ns) \<le> m"
    using fr_sends_progress [OF assms(2) new _ _ assms(3), of "wire k"] by auto
  then show ?thesis using new(1) by (auto simp: fr_Send_End_def)
qed

text \<open>A file that became shorter while it was sent is never done: when the reader has come to the new end, each write event sends
  nothing and queues the same task again, so that the connection waits for writing for ever.\<close>

theorem shrunk_file_never_ends:
  assumes "Que w = [Task_SendFile fr]" and "0 \<le> offest fr" and "length (file_bytes fr) \<le> nat (offest fr)" and "offest fr < file_length fr"
  shows "\<exists>k' w'. write_events ms (k, w) = (Inr (replicate (length ms) IMCOMPLETE), k', w') \<and> wire k' = wire k \<and> Que w' = [Task_SendFile fr]"
  using assms(1)
proof (induction ms arbitrary: k w)
  case (Cons m ms)
  let ?k = "k\<lparr>answers := []\<rparr>" and ?w = "report_interval (w\<lparr>interval := interval w + 1\<rparr>)"
  have "slice (file_bytes fr) (nat (offest fr)) (nat (file_length fr - offest fr)) = []" using assms(3) by (simp add: slice_def)
  then have "FileReader_SendFile fr (k\<lparr>answers := [Sent m]\<rparr>) = (0, fr, ?k)" by (simp add: FileReader_SendFile_def kernel_send_def)
  then have "DoFirst (k\<lparr>answers := [Sent m]\<rparr>, w) = (Inr IMCOMPLETE, ?k, w\<lparr>interval := interval w + 1\<rparr>)"
    using Cons.prems assms(4) by (simp add: DoFirst_def WL_SendFile_def Send_End_def InsertSendFile_def Let_def)
  then have "DoAll (k\<lparr>answers := [Sent m]\<rparr>, w) = (Inr IMCOMPLETE, ?k, ?w)" using DoAll_unfold by simp
  moreover have "Que ?w = [Task_SendFile fr]" using Cons.prems by simp
  ultimately show ?case using Cons.IH [of ?w ?k] by auto
qed simp

text \<open>A socket that was closed leaves its number alone: when the kernel gives the number to a new connection, the destructor does not close
  that one; only \<open>clear\<close>, which takes the new connection over, and a second object for the same number do.\<close>

theorem closed_socket_spares_successor:
  assumes "sys_at (Socket_fd s) T \<noteq> None" and "Socket_Close s T = (rv, s1, T1)" and "sys_open (Some b) T1 = (Socket_fd s, T2)"
  shows "rv = 0 \<and> Socket_destroy s1 T2 = T2 \<and>
     sys_at fd (Socket_destroy (Socket_reset s1) T2) = (if fd = Socket_fd s then None else sys_at fd T2) \<and>
     Socket_destroy (Socket_of (Socket_fd s1)) T2 = Socket_destroy (Socket_reset s1) T2"
proof -
  have "0 \<le> Socket_fd s" using sys_open_at(1) [OF assms(3)] .
  then show ?thesis
    using assms(1,2)
    by (auto simp: Socket_Close_def Socket_destroy_def Socket_reset_def Socket_of_def sys_close_at) (auto simp: sys_close_def)
qed

section \<open>Witnesses\<close>

definition sample_page :: os_file where
  "sample_page = \<lparr>st_mode = 0x81A4, st_bytes = ''hello''\<rparr>"

definition sample_peer :: Kernel where
  "sample_peer = \<lparr>answers = [Sent 3, Send_failed EWOULDBLOCK, Sent 9], wire = [], errno = No_error\<rparr>"

theorem file_is_sent_once_witness:
  "\<exists>fr fr' k'. file_reader_new (FileProxy_open (Some sample_page) []) = (fr, [Some sample_page]) \<and>
     fr_sends 3 [Some sample_page] (fr, sample_peer) = ([3, - 1, 2], fr', k') \<and> wire k' = ''hello'' \<and> fr_Send_End fr'"
proof -
  define fr where "fr = fst (file_reader_new (FileProxy_open (Some sample_page) []))"
  have new: "file_reader_new (FileProxy_open (Some sample_page) []) = (fr, [Some sample_page])"
    and fields: "File_Description fr = 0" "fr_length fr = 5" "fr_offset fr = 0"
    by (simp_all add: fr_def file_reader_new_def FileProxy_open_def sys_open_def lowest_free_def FileSize_def Statget_def fstat_def
        sys_at_def sample_page_def Let_def)
  have at: "sys_at (File_Description fr) [Some sample_page] = Some sample_page" by (simp add: sys_at_def fields)
  obtain fr' k' where sends: "fr_sends 3 [Some sample_page] (fr, sample_peer) = ([3, - 1, 2], fr', k')" "wire k' = ''hello''"
    using at fields
    by (simp add: numeral_3_eq_3 fr_SendFile_def kernel_send_def sample_peer_def slice_def sample_page_def sys_at_def Let_def)
  obtain m where "m \<le> length ''hello''" "wire k' = wire sample_peer @ take m ''hello''" "fr_Send_End fr' \<longleftrightarrow> m = length ''hello''"
    using file_is_sent_once [OF new at sends(1)] by (auto simp: sample_page_def)
  moreover from this have "length (take m ''hello'') = 5" using sends(2) by (simp add: sample_peer_def del: take_Suc_Cons)
  ultimately have "fr_Send_End fr'" by simp
  then show ?thesis using new sends by blast
qed

theorem shrunk_file_never_ends_witness:
  "\<exists>k' w'. write_events [9, 9] (sample_peer, sample_loop\<lparr>Que := [Task_SendFile \<lparr>file_bytes = ''ab'', file_length = 4, offest = 2\<rparr>]\<rparr>)
     = (Inr [IMCOMPLETE, IMCOMPLETE], k', w') \<and> wire k' = []"
  using shrunk_file_never_ends [of "sample_loop\<lparr>Que := [Task_SendFile \<lparr>file_bytes = ''ab'', file_length = 4, offest = 2\<rparr>]\<rparr>" _ "[9, 9]" sample_peer]
  by (auto simp: sample_peer_def)

theorem closed_socket_spares_successor_witness:
  "\<exists>s1 T1 T2. Socket_Close (Socket_of 0) [Some \<lparr>cn_flags = 0, cn_read_shut = False, cn_write_shut = False\<rparr>] = (0, s1, T1) \<and>
     sys_open (Some \<lparr>cn_flags = 1, cn_read_shut = False, cn_write_shut = False\<rparr>) T1 = (0, T2) \<and> Socket_destroy s1 T2 = T2 \<and>
     sys_at 0 T2 \<noteq> None \<and> sys_at 0 (Socket_destroy (Socket_of 0) T2) = None"
proof -
  let ?a = "\<lparr>cn_flags = 0, cn_read_shut = False, cn_write_shut = False\<rparr>" and ?b = "\<lparr>cn_flags = 1, cn_read_shut = False, cn_write_shut = False\<rparr>"
  define s1 where "s1 = (Socket_of 0)\<lparr>Socket_Have_Close := False\<rparr>"
  have close: "Socket_Close (Socket_of 0) [Some ?a] = (0, s1, [None])"
    by (simp add: s1_def Socket_Close_def Socket_of_def sys_close_def sys_at_def)
  have opened: "sys_open (Some ?b) [None] = (Socket_fd (Socket_of 0), [Some ?b])"
    by (simp add: sys_open_def lowest_free_def Socket_of_def Let_def)
  show ?thesis
    using closed_socket_spares_successor [OF _ close opened, of 0] close opened
    by (auto simp: sys_at_def Socket_of_def s1_def)
qed

end
