(* ===== verification/Descriptor_Limit.thy ===== *)
theory Descriptor_Limit
  imports Descriptors
begin

text \<open>
  Accepting connections when the numbers of descriptors run out: \<open>Server_Accept\<close> of \<open>src/src/server/server.cc\<close> with the descriptor
  in reserve of \<open>src/src/tool/fileopen.h\<close>, on the table of descriptors and its limit. \<open>Dispatch\<close> has the calls of the same function; here
  is what they do to the table.
\<close>

section \<open>The kernel\<close>

datatype entry = Listening | Dev_null | Connection nat | Other_entry

text \<open>The table, the number of descriptors a process may have, and the connections that wait to be accepted, each with a name.\<close>

record fd_kernel =
  fk_table :: "entry fdtable"
  fk_limit :: nat
  fk_waiting :: "nat list"

definition table_open :: "entry \<Rightarrow> fd_kernel \<Rightarrow> int \<times> fd_kernel" where
  "table_open x k =
     (if lowest_free (fk_table k) < fk_limit k
      then case sys_open (Some x) (fk_table k) of (fd, T) \<Rightarrow> (fd, k\<lparr>fk_table := T\<rparr>)
      else (- 1, k))"

definition table_close :: "int \<Rightarrow> fd_kernel \<Rightarrow> fd_kernel" where
  "table_close fd k = k\<lparr>fk_table := snd (sys_close fd (fk_table k))\<rparr>"

datatype accept_error = EMFILE | EAGAIN | ENOTSOCK

definition accept4 :: "int \<Rightarrow> fd_kernel \<Rightarrow> (accept_error + int) \<times> fd_kernel" where
  "accept4 fd k =
     (if sys_at fd (fk_table k) \<noteq> Some Listening then (Inl ENOTSOCK, k)
      else if \<not> lowest_free (fk_table k) < fk_limit k then (Inl EMFILE, k)
      else
        case fk_waiting k of
          [] \<Rightarrow> (Inl EAGAIN, k)
        | c # cs \<Rightarrow> (case table_open (Connection c) (k\<lparr>fk_waiting := cs\<rparr>) of (ret, k) \<Rightarrow> (Inr ret, k)))"

section \<open>The descriptor in reserve\<close>

text \<open>
  The constructor's \<open>open\<close> fails when the file is there; \<open>Close\<close> closes the number of the constructor, and \<open>Open\<close> keeps none.
\<close>

definition fileopen_constructor :: "bool \<Rightarrow> fd_kernel \<Rightarrow> int \<times> fd_kernel" where
  "fileopen_constructor there k = (if there then (- 1, k) else table_open Dev_null k)"

definition fileopen_Close :: "int \<Rightarrow> fd_kernel \<Rightarrow> fd_kernel" where
  "fileopen_Close reserve k = table_close reserve k"

definition fileopen_Open :: "fd_kernel \<Rightarrow> fd_kernel" where
  "fileopen_Open k = snd (table_open Dev_null k)"

text \<open>The helper closes it, and its destructor, which runs after what is between, opens it.\<close>

definition with_fileopen_helper :: "int \<Rightarrow> (fd_kernel \<Rightarrow> fd_kernel) \<Rightarrow> fd_kernel \<Rightarrow> fd_kernel" where
  "with_fileopen_helper reserve f k = fileopen_Open (f (fileopen_Close reserve k))"

section \<open>Accepting\<close>

text \<open>
  \<open>coming\<close> are the connections that arrive while the loop polls, a list for each of its turns; \<open>None\<close>: it is still polling when they end. The result
  is the descriptor that is handed on.
\<close>

fun accept_connection :: "int \<Rightarrow> int \<Rightarrow> nat list list \<Rightarrow> fd_kernel \<Rightarrow> (int option \<times> fd_kernel) option" where
  "accept_connection fd reserve coming k =
     (case accept4 fd k of
        (Inr ret, k) \<Rightarrow> Some (Some ret, k)
      | (Inl EMFILE, k) \<Rightarrow> Some (None, with_fileopen_helper reserve (\<lambda>k. table_close fd (snd (accept4 fd k))) k)
      | (Inl EAGAIN, k) \<Rightarrow>
          (case coming of [] \<Rightarrow> None | cs # coming \<Rightarrow> accept_connection fd reserve coming (k\<lparr>fk_waiting := fk_waiting k @ cs\<rparr>))
      | (Inl ENOTSOCK, k) \<Rightarrow> Some (None, k))"

declare accept_connection.simps [simp del]

section \<open>What is open\<close>

lemma sys_at_mono: "lowest_free T = n \<Longrightarrow> i < n \<Longrightarrow> i < length T \<and> T ! i \<noteq> None"
  unfolding lowest_free_def by (metis (mono_tags, lifting) length_takeWhile_le nth_mem order_less_le_trans set_takeWhileD takeWhile_nth)

lemma lowest_free_least:
  assumes "\<And>i. i < n \<Longrightarrow> sys_at (int i) T \<noteq> None" and "sys_at (int n) T = None"
  shows "lowest_free T = n"
proof (rule antisym)
  show "n \<le> lowest_free T" using assms(1) sys_at_lowest_free [of T] not_le by blast
  show "lowest_free T \<le> n" using sys_at_mono [OF refl, of n T] assms(2) by (cases "lowest_free T \<le> n") (simp_all add: sys_at_nat)
qed

lemma full_table: "\<not> lowest_free T < l \<Longrightarrow> i < l \<Longrightarrow> sys_at (int i) T \<noteq> None"
  using sys_at_mono [OF refl, of i T] by (simp add: sys_at_nat)

lemma table_open_at:
  assumes "lowest_free (fk_table k) < fk_limit k"
  shows "fst (table_open x k) = int (lowest_free (fk_table k))" "fk_waiting (snd (table_open x k)) = fk_waiting k" "fk_limit (snd (table_open x k)) = fk_limit k"
    "sys_at fd (fk_table (snd (table_open x k))) = (if fd = int (lowest_free (fk_table k)) then Some x else sys_at fd (fk_table k))"
proof -
  obtain fd' T where o: "sys_open (Some x) (fk_table k) = (fd', T)" by (cases "sys_open (Some x) (fk_table k)")
  then have "fd' = int (lowest_free (fk_table k))" by (auto simp: sys_open_def Let_def)
  then show "fst (table_open x k) = int (lowest_free (fk_table k))" "fk_waiting (snd (table_open x k)) = fk_waiting k"
    "fk_limit (snd (table_open x k)) = fk_limit k"
    "sys_at fd (fk_table (snd (table_open x k))) = (if fd = int (lowest_free (fk_table k)) then Some x else sys_at fd (fk_table k))"
    using assms o sys_open_at(3) [OF o] by (simp_all add: table_open_def)
qed

lemma table_close_at [simp]:
  "sys_at fd' (fk_table (table_close fd k)) = (if fd' = fd then None else sys_at fd' (fk_table k))"
  "fk_waiting (table_close fd k) = fk_waiting k" "fk_limit (table_close fd k) = fk_limit k"
  by (simp_all add: table_close_def sys_close_at)

section \<open>Properties\<close>

text \<open>While a number is free, a waiting connection is handed on under the lowest free number, and nothing else changes.\<close>

theorem waiting_connection_is_accepted:
  assumes "sys_at fd (fk_table k) = Some Listening" and "lowest_free (fk_table k) < fk_limit k" and "fk_waiting k = c # cs"
  shows "\<exists>k'. accept_connection fd reserve coming k = Some (Some (int (lowest_free (fk_table k))), k') \<and> fk_waiting k' = cs \<and>
    (\<forall>j. sys_at j (fk_table k') = (if j = int (lowest_free (fk_table k)) then Some (Connection c) else sys_at j (fk_table k)))"
proof -
  let ?k' = "snd (table_open (Connection c) (k\<lparr>fk_waiting := cs\<rparr>))"
  have "accept_connection fd reserve coming k = Some (Some (fst (table_open (Connection c) (k\<lparr>fk_waiting := cs\<rparr>))), ?k')"
    using assms by (simp add: accept_connection.simps accept4_def split: prod.split)
  then show ?thesis using assms table_open_at [where k = "k\<lparr>fk_waiting := cs\<rparr>" and x = "Connection c"] by auto
qed

lemma table_open_same: "sys_at fd (fk_table (snd (table_open x k))) \<in> {Some x, sys_at fd (fk_table k)}"
  using table_open_at(4) [of k fd x] by (cases "lowest_free (fk_table k) < fk_limit k") (simp_all add: table_open_def)

text \<open>C22: When the numbers are used up, an event of the listening socket ends the server, whether or not the helper's reserve is open:
  the listening socket itself is closed, and after that nothing is accepted any more, whatever comes. When the reserve is not open, as after
  the failure of the helper's constructor, no waiting connection is taken either, and the helper's destructor opens
  \<open>/dev/null\<close> under the number of the listening socket.\<close>

theorem exhausted_server_stops:
  assumes "sys_at fd (fk_table k) = Some Listening" and "\<not> lowest_free (fk_table k) < fk_limit k" and "nat fd < fk_limit k"
  shows "\<exists>k'. accept_connection fd reserve coming k = Some (None, k') \<and>
    (sys_at reserve (fk_table k) = None \<longrightarrow> sys_at fd (fk_table k') = Some Dev_null \<and> fk_waiting k' = fk_waiting k) \<and>
    (\<forall>reserve' coming'. accept_connection fd reserve' coming' k' = Some (None, k'))"
proof -
  define k3 where "k3 = table_close fd (snd (accept4 fd (table_close reserve k)))"
  define k' where "k' = snd (table_open Dev_null k3)"
  have run: "accept_connection fd reserve coming k = Some (None, k')"
    using assms(1,2)
    by (simp add: accept_connection.simps accept4_def [of fd k] with_fileopen_helper_def fileopen_Open_def fileopen_Close_def k'_def k3_def)
  have "sys_at fd (fk_table k3) = None" by (simp add: k3_def)
  then have "sys_at fd (fk_table k') \<noteq> Some Listening" using table_open_same [of fd Dev_null k3] by (auto simp: k'_def)
  then have later: "accept_connection fd reserve' coming' k' = Some (None, k')" for reserve' coming'
    by (simp add: accept_connection.simps accept4_def)
  have "sys_at fd (fk_table k') = Some Dev_null \<and> fk_waiting k' = fk_waiting k" if "sys_at reserve (fk_table k) = None"
  proof -
    have fd: "fd = int (nat fd)" using assms(1) by (auto simp: sys_at_def split: if_splits)
    have k3: "k3 = table_close fd k" using that assms(1,2) by (simp add: k3_def table_close_def sys_close_def accept4_def)
    have "lowest_free (fk_table k3) = nat fd"
      by (rule lowest_free_least) (use full_table [OF assms(2)] assms(3) fd in \<open>auto simp: k3\<close>)
    then show ?thesis using table_open_at [of k3] assms(3) fd by (simp add: k'_def k3)
  qed
  then show ?thesis using run later by (intro exI [of _ k']) simp
qed

section \<open>Witnesses\<close>

definition sample_full :: "nat \<Rightarrow> fd_kernel" where
  "sample_full limit = \<lparr>fk_table = [Some Other_entry, Some Listening, Some (Connection 1)], fk_limit = limit, fk_waiting = [2, 3]\<rparr>"

lemma sample_full_values:
  "sys_at 1 (fk_table (sample_full l)) = Some Listening" "lowest_free (fk_table (sample_full l)) = 3" "sys_at (- 1) (fk_table (sample_full l)) = None"
  "fk_limit (sample_full l) = l" "fk_waiting (sample_full l) = [2, 3]"
  by (simp_all add: sample_full_def sys_at_def lowest_free_def)

theorem waiting_connection_is_accepted_witness:
  "\<exists>k'. accept_connection 1 (- 1) [] (sample_full 4) = Some (Some 3, k') \<and> fk_waiting k' = [3] \<and> sys_at 3 (fk_table k') = Some (Connection 2)"
  using waiting_connection_is_accepted [of 1 "sample_full 4" 2 "[3]" "- 1" "[]"] unfolding sample_full_values by fastforce

theorem exhausted_server_stops_witness:
  "\<exists>k'. fileopen_constructor True (sample_full 3) = (- 1, sample_full 3) \<and> accept_connection 1 (- 1) [] (sample_full 3) = Some (None, k') \<and>
     sys_at 1 (fk_table k') = Some Dev_null \<and> fk_waiting k' = [2, 3] \<and> accept_connection 1 (- 1) [] k' = Some (None, k')"
  using exhausted_server_stops [of 1 "sample_full 3" "- 1" "[]"] unfolding sample_full_values fileopen_constructor_def by fastforce

end
