(* ===== verification/FastCgi.thy ===== *)
theory FastCgi
  imports Prelude
begin

text \<open>
  \<open>src/src/FastCgi/fastcgiHeader.h\<close>, \<open>fastcgi.h\<close> and \<open>fastcgi.cc\<close>: the client of a FastCGI
  server. The socket is what was sent, the values of the next writes, and the pieces in which the answer arrives;
  a read takes from one piece, gives nothing at the end of the stream and does not fail.
\<close>

unbundle bit_operations_syntax

section \<open>Records of the protocol\<close>

type_synonym byte = "8 word"

record FCGI_Header =
  version :: byte
  fh_type :: byte
  requestIdB1 :: byte
  requestIdB0 :: byte
  contentLengthB1 :: byte
  contentLengthB0 :: byte
  paddingLength :: byte
  fh_reserved :: byte

record FCGI_BeginRequestBody =
  roleB1 :: byte
  roleB0 :: byte
  fb_flags :: byte
  fb_reserved :: "byte list"

datatype FCGI_Type =
    FCGI_BEGIN_REQUEST | FCGI_ABORT_REQUEST | FCGI_END_REQUEST | FCGI_PARAMS | FCGI_STDIN | FCGI_STDOUT
  | FCGI_STDERR | FCGI_DATA | FCGI_GET_VALUES | FCGI_GET_VALUES_RESULT | FCGI_UNKNOWN_TYPE

fun FCGI_Type_value :: "FCGI_Type \<Rightarrow> int" where
  "FCGI_Type_value FCGI_BEGIN_REQUEST = 1"
| "FCGI_Type_value FCGI_ABORT_REQUEST = 2"
| "FCGI_Type_value FCGI_END_REQUEST = 3"
| "FCGI_Type_value FCGI_PARAMS = 4"
| "FCGI_Type_value FCGI_STDIN = 5"
| "FCGI_Type_value FCGI_STDOUT = 6"
| "FCGI_Type_value FCGI_STDERR = 7"
| "FCGI_Type_value FCGI_DATA = 8"
| "FCGI_Type_value FCGI_GET_VALUES = 9"
| "FCGI_Type_value FCGI_GET_VALUES_RESULT = 10"
| "FCGI_Type_value FCGI_UNKNOWN_TYPE = 11"

definition FCGI_RESPONDER :: int where "FCGI_RESPONDER = 1"
definition FCGI_KEEP_CONN :: int where "FCGI_KEEP_CONN = 1"
definition CONTENT_BUFFER_LEN :: nat where "CONTENT_BUFFER_LEN = 1024"

text \<open>The structs have only bytes, so their memory is the list of the members.\<close>

definition header_bytes :: "FCGI_Header \<Rightarrow> byte list" where
  "header_bytes h =
     [version h, fh_type h, requestIdB1 h, requestIdB0 h, contentLengthB1 h, contentLengthB0 h, paddingLength h, fh_reserved h]"

definition body_bytes :: "FCGI_BeginRequestBody \<Rightarrow> byte list" where
  "body_bytes b = [roleB1 b, roleB0 b, fb_flags b] @ fb_reserved b"

section \<open>The socket\<close>

record fcgi_socket =
  sk_out :: "byte list"
  sk_takes :: "int list"
  sk_pieces :: "byte list list"

record FastCgi =
  requestId :: int
  HtmlFlag :: int
  fc_socket :: fcgi_socket

definition sock_write :: "byte list \<Rightarrow> FastCgi \<Rightarrow> int \<times> FastCgi" where
  "sock_write bs f =
     (let s = fc_socket f in
      case sk_takes s of
        [] \<Rightarrow> (- 1, f)
      | r # rs \<Rightarrow>
          if r < 0 then (- 1, f\<lparr>fc_socket := s\<lparr>sk_takes := rs\<rparr>\<rparr>)
          else (let m = min (nat r) (length bs) in
                (int m, f\<lparr>fc_socket := s\<lparr>sk_takes := rs, sk_out := sk_out s @ take m bs\<rparr>\<rparr>)))"

definition sock_read :: "nat \<Rightarrow> FastCgi \<Rightarrow> byte list \<times> FastCgi" where
  "sock_read n f =
     (let s = fc_socket f in
      case sk_pieces s of
        [] \<Rightarrow> ([], f)
      | p # ps \<Rightarrow> (take n p, f\<lparr>fc_socket := s\<lparr>sk_pieces := if length p \<le> n then ps else drop n p # ps\<rparr>\<rparr>))"

text \<open>\<open>write\<close> with the assertion on its value.\<close>

definition write_all :: "byte list \<Rightarrow> FastCgi \<Rightarrow> (FastCgi, unit) cpp" where
  "write_all bs f = (case sock_write bs f of (r, f) \<Rightarrow> (if r = int (length bs) then Inr () else Inl Assertion_failed, f))"

section \<open>Building records\<close>

definition byte_of :: "int \<Rightarrow> byte" where
  "byte_of i = word_of_int i"

definition CreateHeader :: "FCGI_Type \<Rightarrow> int \<Rightarrow> int \<Rightarrow> int \<Rightarrow> FCGI_Header" where
  "CreateHeader type request contentLength padding =
     \<lparr>version = 1, fh_type = byte_of (FCGI_Type_value type),
      requestIdB1 = byte_of (drop_bit 8 request AND 0xff), requestIdB0 = byte_of (request AND 0xff),
      contentLengthB1 = byte_of (drop_bit 8 contentLength AND 0xff), contentLengthB0 = byte_of (contentLength AND 0xff),
      paddingLength = byte_of padding, fh_reserved = 0\<rparr>"

definition CreateBeginRequestBody :: "int \<Rightarrow> int \<Rightarrow> FCGI_BeginRequestBody" where
  "CreateBeginRequestBody role keepConnection =
     \<lparr>roleB1 = byte_of (drop_bit 8 role AND 0xff), roleB0 = byte_of (role AND 0xff),
      fb_flags = byte_of (if keepConnection \<noteq> 0 then FCGI_KEEP_CONN else 0), fb_reserved = replicate 5 0\<rparr>"

definition StartRequest :: "FastCgi \<Rightarrow> (FastCgi, unit) cpp" where
  "StartRequest f =
     (let body = body_bytes (CreateBeginRequestBody FCGI_RESPONDER 0) in
      write_all (header_bytes (CreateHeader FCGI_BEGIN_REQUEST (requestId f) (int (length body)) 0) @ body) f)"

definition length_bytes :: "int \<Rightarrow> byte list" where
  "length_bytes n =
     (if n < 128 then [byte_of n]
      else [byte_of (drop_bit 24 n OR 0x80), byte_of (drop_bit 16 n), byte_of (drop_bit 8 n), byte_of n])"

definition CreateContentValue :: "byte list \<Rightarrow> byte list \<Rightarrow> byte list" where
  "CreateContentValue name value = length_bytes (int (length name)) @ length_bytes (int (length value)) @ name @ value"

text \<open>The pair is built in an array of \<open>CONTENT_BUFFER_LEN\<close> bytes, whose size nothing checks.\<close>

definition SendContent :: "byte list \<Rightarrow> byte list \<Rightarrow> FastCgi \<Rightarrow> (FastCgi, unit) cpp" where
  "SendContent tag value f =
     (let content = CreateContentValue tag value in
      if CONTENT_BUFFER_LEN < length content then (Inl Bad_access, f)
      else write_all (header_bytes (CreateHeader FCGI_PARAMS (requestId f) (int (length content)) 0) @ content) f)"

definition EndRequest :: "FastCgi \<Rightarrow> (FastCgi, unit) cpp" where
  "EndRequest f = write_all (header_bytes (CreateHeader FCGI_PARAMS (requestId f) 0 0)) f"

text \<open>
  The values of the three sends are not looked at. \<open>len\<close> bytes are sent from \<open>c_str()\<close>, which has one more
  than the string.
\<close>

definition SendRequest :: "byte list \<Rightarrow> int \<Rightarrow> FastCgi \<Rightarrow> (FastCgi, unit) cpp" where
  "SendRequest data len f =
     (let f = snd (sock_write (header_bytes (CreateHeader FCGI_STDIN (requestId f) len 0)) f) in
      if length data + 1 < nat len then (Inl Bad_access, f)
      else
        let f = snd (sock_write (take (nat len) (data @ [0])) f);
            f = snd (sock_write (header_bytes (CreateHeader FCGI_STDIN (requestId f) 0 0)) f)
        in (Inr (), f))"

text \<open>A \<open>std::string\<close> that is made from \<open>c_str()\<close> ends at the first zero.\<close>

definition c_string :: "byte list \<Rightarrow> byte list" where
  "c_string bs = takeWhile (\<lambda>b. b \<noteq> 0) bs"

definition lit :: "string \<Rightarrow> byte list" where
  "lit s = map of_char s"

text \<open>\<open>%d\<close> reads the low 32 bits of the size.\<close>

definition start :: "int \<Rightarrow> byte list \<Rightarrow> byte list \<Rightarrow> FastCgi \<Rightarrow> (FastCgi, unit) cpp" where
  "start connected path data f =
     (if \<not> int32_ok (requestId f + 1) then (Inl Signed_overflow, f)
      else
        let f = f\<lparr>requestId := requestId f + 1\<rparr> in
        if connected < 0 then (Inl Assertion_failed, f)
        else
          bindc (StartRequest f) (\<lambda>_ f.
          bindc (SendContent (lit ''SCRIPT_FILENAME'') (c_string path) f) (\<lambda>_ f.
          bindc (SendContent (lit ''REQUEST_METHOD'') (lit ''POST'') f) (\<lambda>_ f.
          bindc (SendContent (lit ''CONTENT_LENGTH'') (lit (dec_string (sint (of_nat (length data) :: 32 word)))) f) (\<lambda>_ f.
          bindc (SendContent (lit ''CONTENT_TYPE'') (lit ''application/x-www-form-urlencoded'') f) (\<lambda>_ f.
          bindc (EndRequest f) (\<lambda>_ f.
            SendRequest (c_string data) (int (length data)) f)))))))"

section \<open>Reading the answer\<close>

fun FindStart :: "byte list \<Rightarrow> cpp_error + byte list option" where
  "FindStart [] = Inl Bad_access"
| "FindStart (b # bs) = (if b = 0 then Inr None else if b = 60 then Inr (Some (b # bs)) else FindStart bs)"

text \<open>The loop behind \<open>FindStart\<close> only walks to the end of the text.\<close>

definition GetContent :: "byte list \<Rightarrow> FastCgi \<Rightarrow> (FastCgi, unit) cpp" where
  "GetContent data f =
     (if HtmlFlag f = 1 then (Inr (), f)
      else
        case FindStart data of
          Inl e \<Rightarrow> (Inl e, f)
        | Inr None \<Rightarrow> (Inr (), f)
        | Inr (Some pt) \<Rightarrow> (if 0 \<in> set pt then Inr () else Inl Bad_access, f\<lparr>HtmlFlag := 1\<rparr>))"

definition header_length :: "byte list \<Rightarrow> nat" where
  "header_length hdr = unat (hdr ! 4) * 256 + unat (hdr ! 5)"

text \<open>The content of a record, into the array of 1024 bytes, and its padding, into one of 128.\<close>

definition read_body :: "byte list \<Rightarrow> FastCgi \<Rightarrow> (FastCgi, byte list) cpp" where
  "read_body hdr f =
     (case sock_read (header_length hdr) f of
        (bs, f) \<Rightarrow>
          if CONTENT_BUFFER_LEN < length bs then (Inl Bad_access, f)
          else if length bs \<noteq> header_length hdr then (Inl Assertion_failed, f)
          else (Inr (bs @ replicate (CONTENT_BUFFER_LEN - length bs) 0), f))"

definition read_padding :: "byte list \<Rightarrow> FastCgi \<Rightarrow> (FastCgi, unit) cpp" where
  "read_padding hdr f =
     (if hdr ! 6 = 0 then (Inr (), f)
      else
        case sock_read (unat (hdr ! 6)) f of
          (bs, f) \<Rightarrow>
            if 128 < length bs then (Inl Bad_access, f)
            else (if length bs = unat (hdr ! 6) then Inr () else Inl Assertion_failed, f))"

definition read_record :: "byte list \<Rightarrow> FastCgi \<Rightarrow> (FastCgi, byte list) cpp" where
  "read_record hdr f =
     bindc (read_body hdr f) (\<lambda>content f.
     bindc (if hdr ! 1 = 6 then GetContent content f else (Inr (), f)) (\<lambda>_ f.
     bindc (read_padding hdr f) (\<lambda>_ f. (Inr content, f))))"

definition to_read :: "FastCgi \<Rightarrow> nat" where
  "to_read f = (\<Sum>p \<leftarrow> sk_pieces (fc_socket f). length p + 1)"

lemma sock_read_shrinks:
  assumes "sock_read n f = (bs, f')"
  shows "to_read f' \<le> to_read f" "bs \<noteq> [] \<Longrightarrow> to_read f' < to_read f"
  using assms by (auto simp: sock_read_def to_read_def Let_def split: list.splits if_splits)

lemma read_body_shrinks: "read_body hdr f = (r, f') \<Longrightarrow> to_read f' \<le> to_read f"
  using sock_read_shrinks(1) [of "header_length hdr" f] by (auto simp: read_body_def split: prod.splits if_splits)

lemma read_padding_shrinks: "read_padding hdr f = (r, f') \<Longrightarrow> to_read f' \<le> to_read f"
  using sock_read_shrinks(1) [of "unat (hdr ! 6)" f] by (auto simp: read_padding_def split: prod.splits if_splits)

lemma GetContent_shrinks: "GetContent c f = (r, f') \<Longrightarrow> to_read f' = to_read f"
  by (auto simp: GetContent_def to_read_def split: if_splits sum.splits option.splits)

lemma read_record_shrinks: "read_record hdr f = (Inr c, f') \<Longrightarrow> to_read f' \<le> to_read f"
  by (fastforce simp: read_record_def bindc_Inr_iff split: if_splits
      dest: read_body_shrinks read_padding_shrinks GetContent_shrinks intro: le_trans)

text \<open>
  A short read leaves the rest of the header as it was. The branch for the end of the request tests for the type
  of the branch before it and is never taken, so the body of that record is read as a header.
\<close>

function read_loop :: "byte list \<Rightarrow> byte list \<Rightarrow> FastCgi \<Rightarrow> (FastCgi, byte list) cpp" where
  "read_loop hdr content f =
     (case sock_read 8 f of
        (bs, f1) \<Rightarrow>
          if bs = [] then (Inr content, f1)
          else
            let hdr = blit hdr 0 bs in
            if hdr ! 1 = 6 \<or> hdr ! 1 = 7 then
              (case read_record hdr f1 of
                 (Inl e, f) \<Rightarrow> (Inl e, f)
               | (Inr content, f) \<Rightarrow> read_loop hdr content f)
            else read_loop hdr content f1)"
  by pat_completeness auto

termination
  by (relation "measure (\<lambda>(hdr, content, f). to_read f)")
    (auto dest!: sock_read_shrinks(2) [OF sym] read_record_shrinks [OF sym])

declare read_loop.simps [simp del]

text \<open>The result is made from the array, up to its first zero. The header is not initialised (\<open>junk\<close>).\<close>

definition ReadContent :: "byte list \<Rightarrow> FastCgi \<Rightarrow> (FastCgi, byte list) cpp" where
  "ReadContent junk f =
     bindc (read_loop junk (replicate CONTENT_BUFFER_LEN 0) f) (\<lambda>content f.
       (if 0 \<in> set content then Inr (c_string content) else Inl Bad_access, f))"

section \<open>What the records mean\<close>

text \<open>The reader of the protocol's specification: a stream of records, each with its type, request and content.\<close>

function records :: "byte list \<Rightarrow> (nat \<times> nat \<times> byte list) list option" where
  "records bs =
     (if bs = [] then Some []
      else if length bs < 8 then None
      else
        let len = header_length bs; pad = unat (bs ! 6) in
        if length bs < 8 + len + pad then None
        else map_option (Cons (unat (bs ! 1), unat (bs ! 2) * 256 + unat (bs ! 3), take len (drop 8 bs)))
               (records (drop (8 + len + pad) bs)))"
  by pat_completeness auto

termination
  by (relation "measure length") auto

declare records.simps [simp del]

definition decode_length :: "byte list \<Rightarrow> (nat \<times> byte list) option" where
  "decode_length bs =
     (case bs of
        [] \<Rightarrow> None
      | b3 # r \<Rightarrow>
          if unat b3 < 128 then Some (unat b3, r)
          else
            case r of
              b2 # b1 # b0 # r \<Rightarrow> Some ((unat b3 - 128) * 2 ^ 24 + unat b2 * 2 ^ 16 + unat b1 * 2 ^ 8 + unat b0, r)
            | _ \<Rightarrow> None)"

definition decode_pair :: "byte list \<Rightarrow> (byte list \<times> byte list) option" where
  "decode_pair bs =
     (case decode_length bs of
        None \<Rightarrow> None
      | Some (n, r) \<Rightarrow>
          (case decode_length r of
             None \<Rightarrow> None
           | Some (m, r) \<Rightarrow> if length r = n + m then Some (take n r, drop n r) else None))"

section \<open>Bytes of a number\<close>

lemma unat_byte_of: "unat (byte_of i) = nat (i mod 256)"
  by (simp add: byte_of_def unsigned_of_int take_bit_eq_mod)

lemma and_255: "(i AND 255 :: int) = i mod 256"
  using take_bit_eq_mask [of 8 i] by (simp add: take_bit_eq_mod mask_eq_exp_minus_1)

lemma or_128:
  assumes "0 \<le> (x :: int)" and "x < 128"
  shows "x OR 128 = x + 128"
proof -
  have "take_bit n x AND 2 ^ n = 0" for n by (rule bit_eqI) (auto simp: bit_simps)
  from this [of 7] have "x AND 128 = 0" using assms by (simp add: take_bit_int_eq_self)
  then show ?thesis by (simp add: disjunctive_add_eq_or)
qed

lemma two_bytes:
  "unat (byte_of (drop_bit 8 i AND 255)) * 256 + unat (byte_of (i AND 255)) = nat (i mod 65536)"
proof -
  have "i mod 65536 = (i div 256) mod 256 * 256 + i mod 256" using zmod_zmult2_eq [of 256 i 256] by simp
  then show ?thesis by (simp add: unat_byte_of and_255 drop_bit_eq_div nat_add_distrib nat_mult_distrib)
qed

lemma decode_length_bytes:
  assumes "n < 2 ^ 31"
  shows "decode_length (length_bytes (int n) @ r) = Some (n, r)"
proof (cases "n < 128")
  case True
  then show ?thesis by (simp add: decode_length_def length_bytes_def unat_byte_of)
next
  case False
  define q where "q = int n div 2 ^ 24"
  have q: "0 \<le> q" "q < 128" using assms by (simp_all add: q_def div_less_dividend div_less_iff_less_mult) linarith?
  have b3: "unat (byte_of (drop_bit 24 (int n) OR 128)) = nat q + 128"
  proof -
    have "drop_bit 24 (int n) = q" by (simp add: q_def drop_bit_eq_div)
    then show ?thesis using q or_128 [OF q] by (simp add: unat_byte_of nat_add_distrib)
  qed
  have parts: "int n = q * 2 ^ 24 + int n div 2 ^ 16 mod 256 * 2 ^ 16 + int n div 2 ^ 8 mod 256 * 2 ^ 8 + int n mod 256"
    using four_bytes [of "int n"] by (simp add: q_def)
  have "(unat (byte_of (drop_bit 24 (int n) OR 128)) - 128) * 2 ^ 24 + unat (byte_of (drop_bit 16 (int n))) * 2 ^ 16 +
      unat (byte_of (drop_bit 8 (int n))) * 2 ^ 8 + unat (byte_of (int n)) = n" (is "?v = n")
  proof -
    have "int ?v = q * 2 ^ 24 + int n div 2 ^ 16 mod 256 * 2 ^ 16 + int n div 2 ^ 8 mod 256 * 2 ^ 8 + int n mod 256"
      unfolding b3 using q by (simp add: unat_byte_of drop_bit_eq_div)
    then show ?thesis using parts by linarith
  qed
  moreover have "\<not> unat (byte_of (drop_bit 24 (int n) OR 128)) < 128" unfolding b3 by simp
  moreover have "length_bytes (int n) @ r = byte_of (drop_bit 24 (int n) OR 128) # byte_of (drop_bit 16 (int n)) #
      byte_of (drop_bit 8 (int n)) # byte_of (int n) # r" using False by (simp add: length_bytes_def)
  ultimately show ?thesis unfolding decode_length_def by (simp only: list.case if_False)
qed

lemma decode_pair_content:
  assumes "length name < 2 ^ 31" and "length value < 2 ^ 31"
  shows "decode_pair (CreateContentValue name value) = Some (name, value)"
  using assms by (simp add: decode_pair_def CreateContentValue_def decode_length_bytes)

lemma header_fields:
  "length (header_bytes (CreateHeader t i n p)) = 8"
  "header_bytes (CreateHeader t i n p) ! 1 = byte_of (FCGI_Type_value t)"
  "header_bytes (CreateHeader t i n p) ! 6 = byte_of p"
  "header_length (header_bytes (CreateHeader t i n p) @ r) = nat (n mod 65536)"
  "unat (header_bytes (CreateHeader t i n p) ! 2) * 256 + unat (header_bytes (CreateHeader t i n p) ! 3) = nat (i mod 65536)"
  using two_bytes [of n] two_bytes [of i]
  by (simp_all add: header_bytes_def CreateHeader_def header_length_def)

lemma type_byte: "unat (byte_of (FCGI_Type_value t)) = nat (FCGI_Type_value t)"
  by (cases t) (simp_all add: unat_byte_of)

lemma records_Cons:
  assumes "length c < 65536" and "0 \<le> i" and "i < 65536"
  shows "records (header_bytes (CreateHeader t i (int (length c)) 0) @ c @ r) =
     map_option (Cons (nat (FCGI_Type_value t), nat i, c)) (records r)"
proof -
  let ?h = "header_bytes (CreateHeader t i (int (length c)) 0)"
  have len: "header_length (?h @ c @ r) = length c" using assms(1) header_fields(4) [of t i "int (length c)" 0 "c @ r"] by simp
  have pad: "(?h @ c @ r) ! 6 = 0" "(?h @ c @ r) ! 1 = byte_of (FCGI_Type_value t)"
    "unat ((?h @ c @ r) ! 2) * 256 + unat ((?h @ c @ r) ! 3) = nat i"
    using assms header_fields(1-3,5) [of t i "int (length c)" 0] by (simp_all add: nth_append byte_of_def)
  have "?h @ c @ r \<noteq> []" "length (?h @ c @ r) = 8 + length c + length r"
    using header_fields(1) [of t i "int (length c)" 0] by auto
  then show ?thesis
    using header_fields(1) [of t i "int (length c)" 0]
    by (subst records.simps) (simp only: len pad type_byte Let_def if_False, simp)
qed

lemma records_Cons_empty:
  assumes "0 \<le> i" and "i < 65536"
  shows "records (header_bytes (CreateHeader t i 0 0) @ r) = map_option (Cons (nat (FCGI_Type_value t), nat i, [])) (records r)"
  using records_Cons [of "[]" i t r] assms by simp

lemma records_Nil [simp]: "records [] = Some []"
  by (simp add: records.simps)

section \<open>A socket that takes everything\<close>

definition takes_all :: "nat \<Rightarrow> FastCgi \<Rightarrow> bool" where
  "takes_all n f \<longleftrightarrow> n \<le> length (sk_takes (fc_socket f)) \<and> (\<forall>r \<in> set (sk_takes (fc_socket f)). 2147483647 \<le> r)"

definition sent :: "FastCgi \<Rightarrow> byte list" where
  "sent f = sk_out (fc_socket f)"

lemma sock_write_all:
  assumes "takes_all (Suc n) f" and "length bs \<le> 2147483647"
  shows "\<exists>f'. sock_write bs f = (int (length bs), f') \<and> takes_all n f' \<and> sent f' = sent f @ bs \<and> requestId f' = requestId f"
proof -
  obtain r rs where r: "sk_takes (fc_socket f) = r # rs"
    using assms(1) by (cases "sk_takes (fc_socket f)") (auto simp: takes_all_def)
  then have "2147483647 \<le> r" using assms(1) by (simp add: takes_all_def)
  then have "length bs \<le> nat r" "\<not> r < 0" using assms(2) by simp_all
  then show ?thesis
    using r assms(1) by (simp add: sock_write_def takes_all_def sent_def Let_def)
qed

lemma write_all_runs:
  assumes "takes_all (Suc n) f" and "length bs \<le> 2147483647"
  shows "\<exists>f'. write_all bs f = (Inr (), f') \<and> takes_all n f' \<and> sent f' = sent f @ bs \<and> requestId f' = requestId f"
  using sock_write_all [OF assms] by (auto simp: write_all_def)

lemma SendContent_runs:
  assumes "takes_all (Suc n) f" and "length (CreateContentValue tag value) \<le> 1024"
  shows "\<exists>f'. SendContent tag value f = (Inr (), f') \<and> takes_all n f' \<and> requestId f' = requestId f \<and>
     sent f' = sent f @ header_bytes (CreateHeader FCGI_PARAMS (requestId f) (int (length (CreateContentValue tag value))) 0) @
       CreateContentValue tag value"
  using write_all_runs [OF assms(1), of "header_bytes (CreateHeader FCGI_PARAMS (requestId f) (int (length (CreateContentValue tag value))) 0) @
       CreateContentValue tag value"] assms(2)
  by (auto simp: SendContent_def CONTENT_BUFFER_LEN_def header_fields(1))

lemma EndRequest_runs:
  assumes "takes_all (Suc n) f"
  shows "\<exists>f'. EndRequest f = (Inr (), f') \<and> takes_all n f' \<and>
     sent f' = sent f @ header_bytes (CreateHeader FCGI_PARAMS (requestId f) 0 0) \<and> requestId f' = requestId f"
  using write_all_runs [OF assms, of "header_bytes (CreateHeader FCGI_PARAMS (requestId f) 0 0)"]
  by (simp add: EndRequest_def header_fields(1))

text \<open>The role of a responder, in two bytes, and flags that let the server close the connection.\<close>

definition begin_body :: "byte list" where
  "begin_body = [0, 1, 0, 0, 0, 0, 0, 0]"

lemma StartRequest_runs:
  assumes "takes_all (Suc n) f"
  shows "\<exists>f'. StartRequest f = (Inr (), f') \<and> takes_all n f' \<and>
     sent f' = sent f @ header_bytes (CreateHeader FCGI_BEGIN_REQUEST (requestId f) (int (length begin_body)) 0) @ begin_body \<and>
     requestId f' = requestId f"
proof -
  have body: "body_bytes (CreateBeginRequestBody FCGI_RESPONDER 0) = begin_body"
    by (simp add: body_bytes_def begin_body_def CreateBeginRequestBody_def FCGI_RESPONDER_def byte_of_def eval_nat_numeral)
  have "length begin_body = 8" by (simp add: begin_body_def)
  then show ?thesis
    using write_all_runs [OF assms, of "header_bytes (CreateHeader FCGI_BEGIN_REQUEST (requestId f) (int (length begin_body)) 0) @ begin_body"]
    by (simp add: StartRequest_def body header_fields(1) Let_def)
qed

lemma SendRequest_runs:
  assumes "takes_all (Suc (Suc (Suc n))) f" and "length data \<le> 2147483647"
  shows "\<exists>f'. SendRequest data (int (length data)) f = (Inr (), f') \<and> requestId f' = requestId f \<and>
     sent f' = sent f @ header_bytes (CreateHeader FCGI_STDIN (requestId f) (int (length data)) 0) @ data @
       header_bytes (CreateHeader FCGI_STDIN (requestId f) 0 0)"
proof -
  let ?h = "header_bytes (CreateHeader FCGI_STDIN (requestId f) (int (length data)) 0)"
    and ?e = "header_bytes (CreateHeader FCGI_STDIN (requestId f) 0 0)"
  obtain f1 where f1: "sock_write ?h f = (int (length ?h), f1)" "takes_all (Suc (Suc n)) f1" "sent f1 = sent f @ ?h"
    "requestId f1 = requestId f"
    using sock_write_all [OF assms(1), of ?h] by (auto simp: header_fields(1))
  obtain f2 where f2: "sock_write data f1 = (int (length data), f2)" "takes_all (Suc n) f2" "sent f2 = sent f1 @ data"
    "requestId f2 = requestId f1"
    using sock_write_all [OF f1(2) assms(2)] by auto
  obtain f3 where f3: "sock_write ?e f2 = (int (length ?e), f3)" "sent f3 = sent f2 @ ?e" "requestId f3 = requestId f2"
    using sock_write_all [OF f2(2), of ?e] by (auto simp: header_fields(1))
  show ?thesis using f1 f2 f3 by (simp add: SendRequest_def Let_def)
qed

lemma dec_nat_length: "n < 10 ^ k \<Longrightarrow> 0 < k \<Longrightarrow> length (dec_nat n) \<le> k"
proof (induction k arbitrary: n)
  case (Suc k)
  show ?case
  proof (cases "n < 10")
    case True
    then show ?thesis by (simp add: dec_nat.simps [of n])
  next
    case False
    then have "k \<noteq> 0" using Suc.prems(1) by (cases k) auto
    moreover have "n div 10 < 10 ^ k" using Suc.prems(1) by (simp add: div_less_iff_less_mult mult.commute)
    ultimately show ?thesis using Suc.IH [of "n div 10"] False by (simp add: dec_nat.simps [of n])
  qed
qed simp

lemma content_length:
  "length (CreateContentValue n v) \<le> 8 + length n + length v"
  by (simp add: CreateContentValue_def length_bytes_def)

lemma c_string_all: "0 \<notin> set bs \<Longrightarrow> c_string bs = bs"
  by (auto simp: c_string_def takeWhile_eq_all_conv)

definition request_params :: "byte list \<Rightarrow> byte list \<Rightarrow> (byte list \<times> byte list) list" where
  "request_params path data =
     [(lit ''SCRIPT_FILENAME'', path), (lit ''REQUEST_METHOD'', lit ''POST''),
      (lit ''CONTENT_LENGTH'', lit (dec_string (int (length data)))),
      (lit ''CONTENT_TYPE'', lit ''application/x-www-form-urlencoded'')]"

definition request_records :: "nat \<Rightarrow> byte list \<Rightarrow> byte list \<Rightarrow> (nat \<times> nat \<times> byte list) list" where
  "request_records rid path data =
     [(1, rid, begin_body)] @
     map (\<lambda>(n, v). (4, rid, CreateContentValue n v)) (request_params path data) @ [(4, rid, []), (5, rid, data), (5, rid, [])]"

lemma request_params_small:
  assumes "length path \<le> 1000" and "length data < 65536" and "(n, v) \<in> set (request_params path data)"
  shows "length (CreateContentValue n v) \<le> 1024" and "decode_pair (CreateContentValue n v) = Some (n, v)"
proof -
  have "length (dec_nat (length data)) \<le> 5" using assms(2) by (intro dec_nat_length) simp_all
  then have "length n + length v \<le> 1016"
    using assms(1,3) by (auto simp: request_params_def lit_def dec_string_def)
  then show "length (CreateContentValue n v) \<le> 1024" "decode_pair (CreateContentValue n v) = Some (n, v)"
    using content_length [of n v] decode_pair_content [of n v] by simp_all
qed

lemma sint_small: "n < 65536 \<Longrightarrow> sint (of_nat n :: 32 word) = int n"
  by (simp add: signed_of_nat signed_take_bit_int_eq_self)

section \<open>An answer that arrives\<close>

definition arrives :: "byte list \<Rightarrow> FastCgi \<Rightarrow> bool" where
  "arrives bs f \<longleftrightarrow> sk_pieces (fc_socket f) = (if bs = [] then [] else [bs])"

lemma sock_read_arrives:
  assumes "arrives bs f"
  shows "\<exists>f'. sock_read n f = (take n bs, f') \<and> arrives (drop n bs) f'"
  using assms by (auto simp: arrives_def sock_read_def Let_def)

lemma arrives_GetContent: "GetContent c f = (r, f') \<Longrightarrow> arrives bs f' = arrives bs f"
  by (auto simp: GetContent_def arrives_def split: if_splits sum.splits option.splits)

lemma FindStart_zero: "0 \<in> set bs \<Longrightarrow> \<exists>r. FindStart bs = Inr r \<and> (\<forall>pt. r = Some pt \<longrightarrow> 0 \<in> set pt)"
  by (induction bs) auto

lemma GetContent_text:
  assumes "0 \<in> set c"
  shows "\<exists>f'. GetContent c f = (Inr (), f')"
  using FindStart_zero [OF assms] by (auto simp: GetContent_def split: option.split)

definition answer_record :: "FCGI_Type \<Rightarrow> int \<Rightarrow> byte list \<Rightarrow> byte list" where
  "answer_record t i c = header_bytes (CreateHeader t i (int (length c)) 0) @ c"

lemma read_record_runs:
  assumes "arrives (c @ rest) f" and "header_length hdr = length c" and "hdr ! 6 = 0" and "length c < 1024"
  shows "\<exists>f'. read_record hdr f = (Inr (c @ replicate (1024 - length c) 0), f') \<and> arrives rest f'"
proof -
  let ?content = "c @ replicate (1024 - length c) 0"
  obtain f1 where f1: "sock_read (length c) f = (c, f1)" "arrives rest f1"
    using sock_read_arrives [OF assms(1), of "length c"] by auto
  then have body: "read_body hdr f = (Inr ?content, f1)"
    using assms(2,4) by (simp add: read_body_def CONTENT_BUFFER_LEN_def)
  have "0 \<in> set ?content" using assms(4) by simp
  from GetContent_text [OF this, of f1] obtain f2 where f2: "GetContent ?content f1 = (Inr (), f2)" by blast
  show ?thesis
    using body f2 arrives_GetContent [OF f2, of rest] f1(2) assms(3) by (simp add: read_record_def read_padding_def)
qed

lemma read_loop_answer:
  assumes "arrives (answer_record t i c @ rest) f" and "length hdr = 8" and "length c < 1024" and "t = FCGI_STDOUT \<or> t = FCGI_STDERR"
  shows "\<exists>hdr' f'. read_loop hdr content f = read_loop hdr' (c @ replicate (1024 - length c) 0) f' \<and> length hdr' = 8 \<and> arrives rest f'"
proof -
  let ?h = "header_bytes (CreateHeader t i (int (length c)) 0)"
  have len: "length ?h = 8" by (rule header_fields(1))
  obtain f1 where f1: "sock_read 8 f = (?h, f1)" "arrives (c @ rest) f1"
    using sock_read_arrives [OF assms(1), of 8] len by (auto simp: answer_record_def)
  have hdr: "blit hdr 0 ?h = ?h" "?h \<noteq> []" using assms(2) len by (auto simp: blit_def)
  have "header_length ?h = length c" "?h ! 6 = 0" "?h ! 1 = 6 \<or> ?h ! 1 = 7"
    using header_fields(2,3,4) [of t i "int (length c)" 0] header_fields(4) [of t i "int (length c)" 0 "[]"] assms(3,4)
    by (auto simp: byte_of_def)
  from read_record_runs [OF f1(2) this(1,2) assms(3)] this(3)
  obtain f2 where f2: "read_record ?h f1 = (Inr (c @ replicate (1024 - length c) 0), f2)" "arrives rest f2" "?h ! 1 = 6 \<or> ?h ! 1 = 7" by blast
  have "read_loop hdr content f = read_loop ?h (c @ replicate (1024 - length c) 0) f2"
    using f1(1) hdr f2(1,3) by (subst read_loop.simps) (simp del: One_nat_def add: Let_def)
  then show ?thesis using f2(2) len by blast
qed

lemma read_loop_skip:
  assumes "arrives (h @ rest) f" and "length hdr = 8" and "length h = 8" and "h ! 1 \<noteq> 6" and "h ! 1 \<noteq> 7"
  shows "\<exists>f'. read_loop hdr content f = read_loop h content f' \<and> arrives rest f'"
proof -
  obtain f1 where f1: "sock_read 8 f = (h, f1)" "arrives rest f1"
    using sock_read_arrives [OF assms(1), of 8] assms(3) by auto
  have "blit hdr 0 h = h" "h \<noteq> []" using assms(2,3) by (auto simp: blit_def)
  then have "read_loop hdr content f = read_loop h content f1"
    using f1(1) assms(4,5) by (subst read_loop.simps) (simp del: One_nat_def add: Let_def)
  then show ?thesis using f1(2) by blast
qed

lemma read_loop_end: "arrives [] f \<Longrightarrow> \<exists>f'. read_loop hdr content f = (Inr content, f')"
  using sock_read_arrives [of "[]" f 8] by (auto simp: read_loop.simps [of hdr])

definition text_record :: "FCGI_Type \<times> byte list \<Rightarrow> bool" where
  "text_record r \<longleftrightarrow> (fst r = FCGI_STDOUT \<or> fst r = FCGI_STDERR) \<and> length (snd r) < 1024 \<and> 0 \<notin> set (snd r)"

lemma read_loop_all:
  assumes "list_all text_record rs" and "length hdr = 8"
    and "arrives (concat (map (\<lambda>(t, c). answer_record t i c) rs) @ rest) f"
  shows "\<exists>hdr' f'. read_loop hdr content f =
       read_loop hdr' (if rs = [] then content else snd (last rs) @ replicate (1024 - length (snd (last rs))) 0) f' \<and>
     length hdr' = 8 \<and> arrives rest f'"
  using assms
proof (induction rs arbitrary: hdr content f)
  case (Cons r rs)
  obtain t c where r: "r = (t, c)" by (cases r)
  have "arrives (answer_record t i c @ concat (map (\<lambda>(t, c). answer_record t i c) rs) @ rest) f"
    using Cons.prems(3) r by simp
  from read_loop_answer [OF this Cons.prems(2), of content] Cons.prems(1) r obtain hdr1 f1 where
    f1: "read_loop hdr content f = read_loop hdr1 (c @ replicate (1024 - length c) 0) f1" "length hdr1 = 8"
    "arrives (concat (map (\<lambda>(t, c). answer_record t i c) rs) @ rest) f1" by (auto simp: text_record_def)
  show ?case using Cons.IH [OF _ f1(2,3)] Cons.prems(1) f1(1) r by auto
qed auto

text \<open>The bytes of a whole request.\<close>

definition param_bytes :: "int \<Rightarrow> 8 word list \<times> 8 word list \<Rightarrow> 8 word list" where
  "param_bytes i p =
     (case p of (n, v) \<Rightarrow>
        header_bytes (CreateHeader FCGI_PARAMS i (int (length (CreateContentValue n v))) 0) @ CreateContentValue n v)"

definition request_bytes :: "int \<Rightarrow> 8 word list \<Rightarrow> 8 word list \<Rightarrow> 8 word list" where
  "request_bytes i path data =
     header_bytes (CreateHeader FCGI_BEGIN_REQUEST i (int (length begin_body)) 0) @ begin_body @
     concat (map (param_bytes i) (request_params path data)) @
     header_bytes (CreateHeader FCGI_PARAMS i 0 0) @ header_bytes (CreateHeader FCGI_STDIN i (int (length data)) 0) @ data @
     header_bytes (CreateHeader FCGI_STDIN i 0 0) @ []"

lemma request_params_mem:
  "(lit ''SCRIPT_FILENAME'', path) \<in> set (request_params path data)"
  "(lit ''REQUEST_METHOD'', lit ''POST'') \<in> set (request_params path data)"
  "(lit ''CONTENT_LENGTH'', lit (dec_string (int (length data)))) \<in> set (request_params path data)"
  "(lit ''CONTENT_TYPE'', lit ''application/x-www-form-urlencoded'') \<in> set (request_params path data)"
  by (simp_all add: request_params_def)

lemma start_sends:
  assumes "takes_all 9 f" and "0 \<le> connected" and "0 \<le> requestId f" and "requestId f < 65535"
    and "length path \<le> 1000" and "0 \<notin> set path" and "length data < 65536" and "0 \<notin> set data"
  shows "\<exists>f'. start connected path data f = (Inr (), f') \<and> sent f' = sent f @ request_bytes (requestId f + 1) path data"
proof -
  define f0 where "f0 = f\<lparr>requestId := requestId f + 1\<rparr>"
  let ?id = "requestId f + 1"
  let ?len = "lit (dec_string (int (length data)))"
  note small = request_params_small(1) [OF assms(5,7) request_params_mem(1)] request_params_small(1) [OF assms(5,7) request_params_mem(2)]
    request_params_small(1) [OF assms(5,7) request_params_mem(3)] request_params_small(1) [OF assms(5,7) request_params_mem(4)]
  have f0: "takes_all (Suc 8) f0" "requestId f0 = ?id" "sent f0 = sent f"
    using assms(1) by (simp_all add: f0_def takes_all_def sent_def)
  obtain f1 where f1: "StartRequest f0 = (Inr (), f1)" "takes_all (Suc 7) f1" "requestId f1 = ?id"
    "sent f1 = sent f @ header_bytes (CreateHeader FCGI_BEGIN_REQUEST ?id (int (length begin_body)) 0) @ begin_body"
    using StartRequest_runs [OF f0(1)] f0(2,3) by auto
  obtain f2 where f2: "SendContent (lit ''SCRIPT_FILENAME'') path f1 = (Inr (), f2)" "takes_all (Suc 6) f2"
    "requestId f2 = ?id" "sent f2 = sent f1 @ param_bytes ?id (lit ''SCRIPT_FILENAME'', path)"
    using SendContent_runs [OF f1(2) small(1)] f1(3) by (auto simp: param_bytes_def)
  obtain f3 where f3: "SendContent (lit ''REQUEST_METHOD'') (lit ''POST'') f2 = (Inr (), f3)" "takes_all (Suc 5) f3"
    "requestId f3 = ?id" "sent f3 = sent f2 @ param_bytes ?id (lit ''REQUEST_METHOD'', lit ''POST'')"
    using SendContent_runs [OF f2(2) small(2)] f2(3) by (auto simp: param_bytes_def)
  obtain f4 where f4: "SendContent (lit ''CONTENT_LENGTH'') ?len f3 = (Inr (), f4)" "takes_all (Suc 4) f4"
    "requestId f4 = ?id" "sent f4 = sent f3 @ param_bytes ?id (lit ''CONTENT_LENGTH'', ?len)"
    using SendContent_runs [OF f3(2) small(3)] f3(3) by (auto simp: param_bytes_def)
  obtain f5 where f5: "SendContent (lit ''CONTENT_TYPE'') (lit ''application/x-www-form-urlencoded'') f4 = (Inr (), f5)"
    "takes_all (Suc 3) f5" "requestId f5 = ?id"
    "sent f5 = sent f4 @ param_bytes ?id (lit ''CONTENT_TYPE'', lit ''application/x-www-form-urlencoded'')"
    using SendContent_runs [OF f4(2) small(4)] f4(3) by (auto simp: param_bytes_def)
  obtain f6 where f6: "EndRequest f5 = (Inr (), f6)" "takes_all (Suc (Suc (Suc 0))) f6" "requestId f6 = ?id"
    "sent f6 = sent f5 @ header_bytes (CreateHeader FCGI_PARAMS ?id 0 0)"
    using EndRequest_runs [OF f5(2)] f5(3) by (auto simp: eval_nat_numeral)
  obtain f7 where f7: "SendRequest data (int (length data)) f6 = (Inr (), f7)"
    "sent f7 = sent f6 @ header_bytes (CreateHeader FCGI_STDIN ?id (int (length data)) 0) @ data @
       header_bytes (CreateHeader FCGI_STDIN ?id 0 0)"
    using SendRequest_runs [OF f6(2), of data] assms(7) f6(3) by auto
  have "start connected path data f = (Inr (), f7)"
    using assms(2-4) f1(1) f2(1) f3(1) f4(1) f5(1) f6(1) f7(1)
    unfolding start_def f0_def [symmetric] Let_def c_string_all [OF assms(6)] c_string_all [OF assms(8)] sint_small [OF assms(7)]
    by (simp add: int32_ok_def)
  moreover have "sent f7 = sent f @ request_bytes ?id path data"
    using f1(4) f2(4) f3(4) f4(4) f5(4) f6(4) f7(2) by (simp add: request_bytes_def request_params_def)
  ultimately show ?thesis by blast
qed

lemma records_of_request:
  assumes "0 \<le> i" and "i < 65536" and "length path \<le> 1000" and "length data < 65536"
  shows "records (request_bytes i path data) = Some (request_records (nat i) path data)"
proof -
  note small = request_params_small(1) [OF assms(3,4) request_params_mem(1)] request_params_small(1) [OF assms(3,4) request_params_mem(2)]
    request_params_small(1) [OF assms(3,4) request_params_mem(3)] request_params_small(1) [OF assms(3,4) request_params_mem(4)]
  have begin_length: "length begin_body < 65536" by (simp add: begin_body_def)
  show ?thesis
    unfolding request_bytes_def request_params_def list.map concat.simps param_bytes_def prod.case append_assoc
    using small assms(4)
    by (simp add: records_Cons assms(1,2) records_Cons_empty request_records_def request_params_def begin_length del: append_Nil2)
qed

section \<open>Properties\<close>

text \<open>C23: When the socket takes what it is offered, for a path of at most 1000 bytes and a body of less than 65536, both without
  zero bytes, the bytes of a request decode, by the rules of the protocol, to its
  records: the begin of a responder request, one record for each parameter, from which the name and the value
  are read back, the empty record that ends them, the body and the empty record that ends it.\<close>

theorem start_request_decodes:
  assumes "takes_all 9 f" and "0 \<le> connected" and "0 \<le> requestId f" and "requestId f < 65535"
    and "length path \<le> 1000" and "0 \<notin> set path" and "length data < 65536" and "0 \<notin> set data"
  shows "\<exists>f' out. start connected path data f = (Inr (), f') \<and> sent f' = sent f @ out \<and>
     records out = Some (request_records (nat (requestId f + 1)) path data) \<and>
     (\<forall>(n, v) \<in> set (request_params path data). decode_pair (CreateContentValue n v) = Some (n, v))"
proof -
  obtain f' where "start connected path data f = (Inr (), f')" "sent f' = sent f @ request_bytes (requestId f + 1) path data"
    using start_sends [OF assms] by blast
  then show ?thesis
    using records_of_request [of "requestId f + 1" path data] assms(3-5,7) request_params_small(2) [OF assms(5,7)]
    by (intro exI [of _ f'] exI [of _ "request_bytes (requestId f + 1) path data"]) auto
qed

theorem start_request_decodes_witness:
  "\<exists>f' out. start 0 (lit ''/a.php'') (lit ''x=1'')
       \<lparr>requestId = 0, HtmlFlag = 0, fc_socket = \<lparr>sk_out = [], sk_takes = replicate 9 2147483647, sk_pieces = []\<rparr>\<rparr> = (Inr (), f') \<and>
     sent f' = out \<and> records out = Some (request_records 1 (lit ''/a.php'') (lit ''x=1''))"
proof -
  let ?f = "\<lparr>requestId = 0, HtmlFlag = 0, fc_socket = \<lparr>sk_out = [], sk_takes = replicate 9 2147483647, sk_pieces = []\<rparr>\<rparr>"
  have "takes_all 9 ?f" "0 \<notin> set (lit ''/a.php'')" "0 \<notin> set (lit ''x=1'')"
    by (simp_all add: takes_all_def lit_def of_char_def)
  then show ?thesis
    using start_request_decodes [of ?f 0 "lit ''/a.php''" "lit ''x=1''"] by (auto simp: sent_def lit_def)
qed

text \<open>\<open>ReadContent\<close> returns the content of the last record of output or error output only: what the records
  before it carried is lost, and error output replaces the page.\<close>

theorem only_last_output_is_returned:
  assumes "list_all text_record rs" and "length junk = 8" and "length body = 8" and "body ! 1 \<noteq> 6" and "body ! 1 \<noteq> 7"
    and "arrives (concat (map (\<lambda>(t, c). answer_record t i c) rs) @ answer_record FCGI_END_REQUEST i body) f"
  shows "\<exists>f'. ReadContent junk f = (Inr (if rs = [] then [] else snd (last rs)), f')"
proof -
  let ?content = "if rs = [] then replicate 1024 0 else snd (last rs) @ replicate (1024 - length (snd (last rs))) 0"
  let ?h = "header_bytes (CreateHeader FCGI_END_REQUEST i (int (length body)) 0)"
  obtain hdr1 f1 where f1: "read_loop junk (replicate 1024 0) f = read_loop hdr1 ?content f1" "length hdr1 = 8"
    "arrives (?h @ body) f1"
    using read_loop_all [OF assms(1,2,6), of "replicate 1024 0"] by (auto simp: answer_record_def)
  have "length ?h = 8" "?h ! 1 \<noteq> 6" "?h ! 1 \<noteq> 7" using header_fields(1,2) by (simp_all add: byte_of_def)
  from read_loop_skip [OF f1(3,2) this, of ?content] obtain f2 where
    f2: "read_loop hdr1 ?content f1 = read_loop ?h ?content f2" "arrives (body @ []) f2" by auto
  from read_loop_skip [OF f2(2) \<open>length ?h = 8\<close> assms(3-5), of ?content] obtain f3 where
    f3: "read_loop ?h ?content f2 = read_loop body ?content f3" "arrives [] f3" by auto
  obtain f4 where f4: "read_loop body ?content f3 = (Inr ?content, f4)" using read_loop_end [OF f3(2)] by blast
  have last: "rs \<noteq> [] \<Longrightarrow> 0 \<notin> set (snd (last rs)) \<and> length (snd (last rs)) < 1024"
    using assms(1) by (metis last_in_set list_all_iff text_record_def)
  have "0 \<in> set ?content" "c_string ?content = (if rs = [] then [] else snd (last rs))"
    using last by (auto simp: c_string_def takeWhile_append)
  then show ?thesis
    using f1(1) f2(1) f3(1) f4 by (simp add: ReadContent_def CONTENT_BUFFER_LEN_def)
qed

theorem only_last_output_is_returned_witness:
  "\<exists>f'. ReadContent (replicate 8 0)
       \<lparr>requestId = 1, HtmlFlag = 0, fc_socket = \<lparr>sk_out = [], sk_takes = [],
          sk_pieces = [answer_record FCGI_STDOUT 1 [60, 97] @ answer_record FCGI_STDERR 1 [98] @ answer_record FCGI_END_REQUEST 1 (replicate 8 0)]\<rparr>\<rparr>
     = (Inr [98], f')"
proof -
  let ?rs = "[(FCGI_STDOUT, [60, 97]), (FCGI_STDERR, [98])]"
  have "list_all text_record ?rs" by (simp add: text_record_def)
  from only_last_output_is_returned [OF this, of "replicate 8 0" "replicate 8 0" 1 "\<lparr>requestId = 1, HtmlFlag = 0, fc_socket = \<lparr>sk_out = [], sk_takes = [],
          sk_pieces = [answer_record FCGI_STDOUT 1 [60, 97] @ answer_record FCGI_STDERR 1 [98] @ answer_record FCGI_END_REQUEST 1 (replicate 8 0)]\<rparr>\<rparr>"]
  show ?thesis by (simp add: arrives_def answer_record_def)
qed

text \<open>A body of 65536 bytes or more is announced with the low 16 bits of its length; all of it is sent.\<close>

theorem long_body_wraps:
  assumes "takes_all 3 f" and "length data \<le> 2147483647"
  shows "\<exists>f' out. SendRequest data (int (length data)) f = (Inr (), f') \<and> sent f' = sent f @ out \<and>
     header_length out = length data mod 65536 \<and> take (length data) (drop 8 out) = data"
proof -
  let ?h = "header_bytes (CreateHeader FCGI_STDIN (requestId f) (int (length data)) 0)"
    and ?e = "header_bytes (CreateHeader FCGI_STDIN (requestId f) 0 0)"
  have "takes_all (Suc (Suc (Suc 0))) f" using assms(1) by (simp add: eval_nat_numeral)
  from SendRequest_runs [OF this assms(2)] obtain f' where
    "SendRequest data (int (length data)) f = (Inr (), f')" "sent f' = sent f @ ?h @ data @ ?e" by blast
  moreover have "header_length (?h @ data @ ?e) = length data mod 65536"
    by (simp add: header_fields(4) nat_mod_distrib)
  ultimately show ?thesis using header_fields(1) [of FCGI_STDIN "requestId f" "int (length data)" 0]
    by (intro exI [of _ f'] exI [of _ "?h @ data @ ?e"]) simp
qed

text \<open>A record whose content arrives in more than one piece fails the assertion on the length.\<close>

theorem split_record_fails:
  assumes "c1 \<noteq> []" and "c2 \<noteq> []" and "length (c1 @ c2) < 1024" and "length junk = 8"
    and "sk_pieces (fc_socket f) = [header_bytes (CreateHeader FCGI_STDOUT i (int (length (c1 @ c2))) 0) @ c1, c2]"
  shows "\<exists>f'. ReadContent junk f = (Inl Assertion_failed, f')"
proof -
  let ?h = "header_bytes (CreateHeader FCGI_STDOUT i (int (length (c1 @ c2))) 0)"
  have h: "length ?h = 8" "?h ! 1 = 6" "header_length ?h = length (c1 @ c2)" "?h \<noteq> []"
    using header_fields(1,2) [of FCGI_STDOUT i "int (length (c1 @ c2))" 0]
      header_fields(4) [of FCGI_STDOUT i "int (length (c1 @ c2))" 0 "[]"] assms(3) by (auto simp: byte_of_def)
  have r1: "sock_read 8 f = (?h, f\<lparr>fc_socket := (fc_socket f)\<lparr>sk_pieces := [c1, c2]\<rparr>\<rparr>)"
    using assms(1,5) h(1) by (simp add: sock_read_def Let_def)
  have "read_record ?h (f\<lparr>fc_socket := (fc_socket f)\<lparr>sk_pieces := [c1, c2]\<rparr>\<rparr>)
      = (Inl Assertion_failed, f\<lparr>fc_socket := (fc_socket f)\<lparr>sk_pieces := [c2]\<rparr>\<rparr>)"
    using assms(2,3) h(3) by (simp add: read_record_def read_body_def sock_read_def CONTENT_BUFFER_LEN_def Let_def)
  moreover have "blit junk 0 ?h = ?h" using assms(4) h(1) by (simp add: blit_def)
  ultimately have "read_loop junk (replicate 1024 0) f = (Inl Assertion_failed, f\<lparr>fc_socket := (fc_socket f)\<lparr>sk_pieces := [c2]\<rparr>\<rparr>)"
    using r1 h(2,4) by (subst read_loop.simps) (simp del: One_nat_def add: Let_def)
  then show ?thesis by (simp add: ReadContent_def CONTENT_BUFFER_LEN_def)
qed

end
