(* ===== verification/Calendar.thy ===== *)
theory Calendar
  imports Prelude "HOL-Library.Signed_Division"
begin

text \<open>
  \<open>src/src/log/date.h\<close> and \<open>date.cc\<close>: days as Julian day numbers. \<open>/\<close> and \<open>%\<close> of the
  code truncate (\<open>sdiv\<close>, \<open>smod\<close>). Every number is an \<open>int\<close> of 32 bits: each definition lists the results of
  its additions, subtractions and multiplications in the order they are computed, and one that leaves the 32 bits is the
  error \<open>Signed_overflow\<close>. The proofs compare them with the same formulas on unbounded numbers.
\<close>

section \<open>Dates\<close>

record YearMonthDay =
  ymd_year :: int
  ymd_month :: int
  ymd_day :: int

text \<open>A value whose computation went through the given \<open>int\<close>s.\<close>

definition through :: "int list \<Rightarrow> 'a \<Rightarrow> cpp_error + 'a" where
  "through is v = (if list_all int32_ok is then Inr v else Inl Signed_overflow)"

definition getJulianDayNumber :: "int \<Rightarrow> int \<Rightarrow> int \<Rightarrow> cpp_error + int" where
  "getJulianDayNumber year month day =
     (let a = (14 - month) sdiv 12; y = year + 4800 - a; m = month + 12 * a - 3;
          j1 = day + (153 * m + 2) sdiv 5; j2 = j1 + y * 365; j3 = j2 + y sdiv 4; j4 = j3 - y sdiv 100; j5 = j4 + y sdiv 400 in
      through [14 - month, year + 4800, y, 12 * a, month + 12 * a, m, 153 * m, 153 * m + 2, j1, y * 365, j2, j3, j4, j5, j5 - 32045]
        (j5 - 32045))"

definition getYearMonthDay :: "int \<Rightarrow> cpp_error + YearMonthDay" where
  "getYearMonthDay julianDayNumber =
     (let a = julianDayNumber + 32044;
          b = (4 * a + 3) sdiv 146097;
          c = a - (b * 146097) sdiv 4;
          d = (4 * c + 3) sdiv 1461;
          e = c - (1461 * d) sdiv 4;
          m = (5 * e + 2) sdiv 153;
          day = e - (153 * m + 2) sdiv 5 + 1;
          month = m + 3 - 12 * (m sdiv 10);
          year = b * 100 + d - 4800 + m sdiv 10 in
      through
        [a, 4 * a, 4 * a + 3, b * 146097, c, 4 * c, 4 * c + 3, 1461 * d, e, 5 * e, 5 * e + 2, 153 * m, 153 * m + 2,
         e - (153 * m + 2) sdiv 5, day, m + 3, 12 * (m sdiv 10), month, b * 100, b * 100 + d, b * 100 + d - 4800, year]
        \<lparr>ymd_year = year, ymd_month = month, ymd_day = day\<rparr>)"

text \<open>A constant expression: one that overflowed would not compile.\<close>

definition kJulianDayOf1970_01_01 :: int where
  "kJulianDayOf1970_01_01 = (case getJulianDayNumber 1970 1 1 of Inr j \<Rightarrow> j | Inl _ \<Rightarrow> 0)"

definition date_valid :: "int \<Rightarrow> bool" where
  "date_valid julianDayNumber \<longleftrightarrow> julianDayNumber > 0"

definition weekDay :: "int \<Rightarrow> cpp_error + int" where
  "weekDay julianDayNumber = through [julianDayNumber + 1] ((julianDayNumber + 1) smod 7)"

text \<open>\<open>%4d-%02d-%02d\<close>.\<close>

definition pad_left :: "char \<Rightarrow> nat \<Rightarrow> string \<Rightarrow> string" where
  "pad_left c n s = replicate (n - length s) c @ s"

definition toIsoString :: "int \<Rightarrow> cpp_error + string" where
  "toIsoString julianDayNumber =
     (case getYearMonthDay julianDayNumber of
        Inl e \<Rightarrow> Inl e
      | Inr ymd \<Rightarrow>
          Inr (take 31 (pad_left (CHR '' '') 4 (dec_string (ymd_year ymd)) @ ''-'' @ pad_left (CHR ''0'') 2 (dec_string (ymd_month ymd)) @
            ''-'' @ pad_left (CHR ''0'') 2 (dec_string (ymd_day ymd)))))"

section \<open>The calendar\<close>

text \<open>The rules of the Gregorian calendar: leap years, the lengths of the months, the next day.\<close>

definition leap :: "int \<Rightarrow> bool" where
  "leap y \<longleftrightarrow> 4 dvd y \<and> (\<not> 100 dvd y \<or> 400 dvd y)"

definition days_in :: "int \<Rightarrow> int \<Rightarrow> int" where
  "days_in y m = (if m = 2 then if leap y then 29 else 28 else if m \<in> {4, 6, 9, 11} then 30 else 31)"

definition date_ok :: "YearMonthDay \<Rightarrow> bool" where
  "date_ok t \<longleftrightarrow> - 4800 < ymd_year t \<and> 1 \<le> ymd_month t \<and> ymd_month t \<le> 12 \<and> 1 \<le> ymd_day t \<and>
     ymd_day t \<le> days_in (ymd_year t) (ymd_month t)"

definition next_day :: "YearMonthDay \<Rightarrow> YearMonthDay" where
  "next_day t =
     (if ymd_day t < days_in (ymd_year t) (ymd_month t) then t\<lparr>ymd_day := ymd_day t + 1\<rparr>
      else if ymd_month t < 12 then t\<lparr>ymd_month := ymd_month t + 1, ymd_day := 1\<rparr>
      else t\<lparr>ymd_year := ymd_year t + 1, ymd_month := 1, ymd_day := 1\<rparr>)"

text \<open>The two formulas of the code on unbounded numbers.\<close>

definition day_number :: "int \<Rightarrow> int \<Rightarrow> int \<Rightarrow> int" where
  "day_number year month day =
     (let a = (14 - month) sdiv 12; y = year + 4800 - a; m = month + 12 * a - 3 in
      day + (153 * m + 2) sdiv 5 + y * 365 + y sdiv 4 - y sdiv 100 + y sdiv 400 - 32045)"

definition date_of_number :: "int \<Rightarrow> YearMonthDay" where
  "date_of_number julianDayNumber =
     (let a = julianDayNumber + 32044;
          b = (4 * a + 3) sdiv 146097;
          c = a - (b * 146097) sdiv 4;
          d = (4 * c + 3) sdiv 1461;
          e = c - (1461 * d) sdiv 4;
          m = (5 * e + 2) sdiv 153 in
      \<lparr>ymd_year = b * 100 + d - 4800 + m sdiv 10, ymd_month = m + 3 - 12 * (m sdiv 10),
       ymd_day = e - (153 * m + 2) sdiv 5 + 1\<rparr>)"

definition julian :: "YearMonthDay \<Rightarrow> int" where
  "julian t = day_number (ymd_year t) (ymd_month t) (ymd_day t)"

section \<open>Counting days\<close>

lemma sdiv_pos: "0 \<le> a \<Longrightarrow> 0 < b \<Longrightarrow> a sdiv b = (a div b :: int)"
  by (simp add: signed_divide_int_def sgn_if)

lemma smod_pos: "0 \<le> a \<Longrightarrow> 0 < b \<Longrightarrow> a smod b = (a mod b :: int)"
  by (cases "a = 0") (simp_all add: signed_modulo_int_def)

lemma month_cases:
  assumes "1 \<le> m" and "m \<le> (12 :: int)"
  shows "m \<in> {1, 2, 3, 4, 5, 6, 7, 8, 9, 10, 11, 12}"
  unfolding insert_iff empty_iff using assms by presburger

lemma div_Suc:
  assumes "0 < (n :: int)"
  shows "(y + 1) div n = y div n + (if n dvd y + 1 then 1 else 0)"
proof -
  define q r where "q = y div n" and "r = y mod n"
  have y: "y = q * n + r" "0 \<le> r" "r < n" using assms by (simp_all add: q_def r_def)
  show ?thesis
  proof (cases "r + 1 = n")
    case True
    then have "y + 1 = (q + 1) * n" using y(1) by (simp add: algebra_simps)
    then show ?thesis using assms unfolding q_def [symmetric] by simp
  next
    case False
    then have "(q * n + (r + 1)) div n = q" "(q * n + (r + 1)) mod n = r + 1"
      using y assms by (simp_all add: div_pos_pos_trivial)
    then show ?thesis using y by (simp add: q_def [symmetric] add.assoc dvd_eq_mod_eq_0)
  qed
qed

text \<open>The number of a day, with the years counted from March.\<close>

definition march_days :: "int \<Rightarrow> int" where
  "march_days y = 365 * y + y div 4 - y div 100 + y div 400"

lemma march_days_Suc: "march_days (y + 1) = march_days y + (if leap (y + 1) then 366 else 365)"
proof -
  have "400 dvd y + 1 \<Longrightarrow> 100 dvd y + 1" "100 dvd y + 1 \<Longrightarrow> 4 dvd y + 1"
    using dvd_trans [of 100 400 "y + 1"] dvd_trans [of 4 100 "y + 1"] by simp_all
  moreover have "(y + 1) div 4 = y div 4 + (if 4 dvd y + 1 then 1 else 0)"
    "(y + 1) div 100 = y div 100 + (if 100 dvd y + 1 then 1 else 0)"
    "(y + 1) div 400 = y div 400 + (if 400 dvd y + 1 then 1 else 0)" by (rule div_Suc, simp)+
  ultimately show ?thesis
    unfolding march_days_def leap_def
    by (cases "4 dvd y + 1"; cases "100 dvd y + 1"; cases "400 dvd y + 1") (simp_all only: simp_thms if_True if_False, simp_all)
qed

lemma leap_4800: "leap (y + 4800) = leap y"
proof -
  have "n dvd y + 4800 \<longleftrightarrow> n dvd y" if "n dvd 4800" for n using that by (rule dvd_add_left_iff)
  then show ?thesis by (simp add: leap_def)
qed

lemma julian_march:
  assumes "- 4800 < year" and "1 \<le> month" and "month \<le> 12" and "1 \<le> day"
  shows "day_number year month day =
     (if month \<le> 2 then march_days (year + 4799) + (153 * (month + 9) + 2) div 5
      else march_days (year + 4800) + (153 * (month - 3) + 2) div 5) + day - 32045"
proof -
  have a: "(14 - month) sdiv 12 = (if month \<le> 2 then 1 else 0)"
    using month_cases [OF assms(2,3)] by (auto simp: sdiv_pos)
  show ?thesis
    using assms by (simp add: day_number_def a march_days_def sdiv_pos Let_def) (simp add: add.commute)
qed

lemma date_ok_next: "date_ok t \<Longrightarrow> date_ok (next_day t)"
  by (auto simp: date_ok_def next_day_def days_in_def)

lemma julian_next:
  assumes "date_ok t"
  shows "julian (next_day t) = julian t + 1"
proof -
  obtain y m d where t: "ymd_year t = y" "ymd_month t = m" "ymd_day t = d" by blast
  have ok: "- 4800 < y" "1 \<le> m" "m \<le> 12" "1 \<le> d" "d \<le> days_in y m" using assms t by (simp_all add: date_ok_def)
  have one: "- 4800 < y + 1" "1 \<le> d + 1" using ok by simp_all
  have m: "m \<in> {1, 2, 3, 4, 5, 6, 7, 8, 9, 10, 11, 12}" using month_cases ok by blast
  show ?thesis
  proof (cases "d < days_in y m")
    case True
    then show ?thesis using t ok one by (simp add: julian_def next_day_def julian_march)
  next
    case False
    then have d: "d = days_in y m" using ok by simp
    have mar: "march_days (y + 4800) = march_days (y + 4799) + (if leap y then 366 else 365)"
      using march_days_Suc [of "y + 4799"] leap_4800 [of y] by (simp add: add.assoc)
    show ?thesis
    proof (cases "m = 12")
      case True
      then show ?thesis using t ok one d by (simp add: julian_def next_day_def julian_march days_in_def add.commute)
    next
      case False
      have "1 \<le> m + 1" "m + 1 \<le> 12" using ok False by simp_all
      then show ?thesis
        using t ok d m mar False by (auto simp: julian_def next_day_def julian_march days_in_def)
    qed
  qed
qed

section \<open>Finding the date of a day\<close>

lemma div_unique_int: "0 < n \<Longrightarrow> q * n \<le> x \<Longrightarrow> x < (q + 1) * n \<Longrightarrow> x div n = (q :: int)"
  by (rule int_div_pos_eq [of x n q "x - q * n"]) (simp_all add: algebra_simps)

lemma quarter: "(4 * k + x) div 4 = k + x div (4 :: int)"
  by simp

text \<open>Centuries: the length of four of them is 146097 days.\<close>

lemma century_of_day:
  assumes "0 \<le> c" and "0 \<le> e" and "e \<le> 36523 \<or> (e = 36524 \<and> c mod 4 = 3)"
  shows "(4 * (36524 * c + c div 4 + e) + 3) div 146097 = (c :: int)"
proof (rule div_unique_int)
  define k s where "k = c div 4" and "s = c mod 4"
  have c: "c = 4 * k + s" "0 \<le> s" "s \<le> 3" "c div 4 = k" "c mod 4 = s" by (simp_all add: k_def s_def)
  show "c * 146097 \<le> 4 * (36524 * c + c div 4 + e) + 3" using c(1-3) assms(2) unfolding c(4) by simp
  show "4 * (36524 * c + c div 4 + e) + 3 < (c + 1) * 146097" using c(1-3) assms(3) unfolding c(4,5) by (elim disjE conjE) simp_all
qed simp

lemma year_of_day:
  assumes "0 \<le> r" and "0 \<le> doy" and "doy \<le> 364 \<or> (doy = 365 \<and> r mod 4 = 3)"
  shows "(4 * (365 * r + r div 4 + doy) + 3) div 1461 = (r :: int)"
proof (rule div_unique_int)
  define k s where "k = r div 4" and "s = r mod 4"
  have r: "r = 4 * k + s" "0 \<le> s" "s \<le> 3" "r div 4 = k" "r mod 4 = s" by (simp_all add: k_def s_def)
  show "r * 1461 \<le> 4 * (365 * r + r div 4 + doy) + 3" using r(1-3) assms(2) unfolding r(4) by simp
  show "4 * (365 * r + r div 4 + doy) + 3 < (r + 1) * 1461" using r(1-3) assms(3) unfolding r(4,5) by (elim disjE conjE) simp_all
qed simp

lemma century_days: "(c * 146097) div 4 = 36524 * c + c div (4 :: int)"
proof -
  have "c * 146097 = 4 * (36524 * c) + c" by simp
  then show ?thesis by (simp only: quarter)
qed

lemma year_days: "(1461 * r) div 4 = 365 * r + r div (4 :: int)"
proof -
  have "1461 * r = 4 * (365 * r) + r" by simp
  then show ?thesis by (simp only: quarter)
qed

lemma march_days_parts:
  "march_days (100 * c + r) = 36524 * c + c div 4 + (365 * r + r div 4)" if "0 \<le> r" "r < 100" for c r :: int
proof -
  have "100 * c + r = 4 * (25 * c) + r" by simp
  then have "(100 * c + r) div 4 = 25 * c + r div 4" by (simp only: quarter)
  moreover have "(100 * c + r) div 100 = c" using that by simp
  moreover have "(100 * c + r) div 400 = c div 4"
    using that zdiv_zmult2_eq [of 4 "100 * c + r" 100] by simp
  ultimately show ?thesis by (simp add: march_days_def)
qed

text \<open>The day of the year from March on, and its bounds.\<close>

lemma month_of_day:
  assumes "mp \<in> {0, 1, 2, 3, 4, 5, 6, 7, 8, 9, 10, 11}" and "1 \<le> day"
    and "day \<le> days_in y (if mp < 10 then mp + 3 else mp - 9)"
  shows "(5 * ((153 * mp + 2) div 5 + (day - 1)) + 2) div 153 = mp"
    and "(153 * mp + 2) div 5 + (day - 1) \<le> 364 + (if leap y then 1 else 0)"
proof -
  show "(5 * ((153 * mp + 2) div 5 + (day - 1)) + 2) div 153 = mp"
    by (rule div_unique_int) (use assms in \<open>auto simp: days_in_def split: if_splits\<close>)
  show "(153 * mp + 2) div 5 + (day - 1) \<le> 364 + (if leap y then 1 else 0)"
    using assms by (auto simp: days_in_def split: if_splits)
qed

lemma date_of_number_march:
  assumes "0 \<le> Y" and "mp \<in> {0, 1, 2, 3, 4, 5, 6, 7, 8, 9, 10, 11}" and "1 \<le> day"
    and "day \<le> days_in (Y + 1) (if mp < 10 then mp + 3 else mp - 9)"
  shows "date_of_number (march_days Y + (153 * mp + 2) div 5 + day - 32045) =
     \<lparr>ymd_year = Y - 4800 + (if mp < 10 then 0 else 1), ymd_month = (if mp < 10 then mp + 3 else mp - 9), ymd_day = day\<rparr>"
proof -
  define c r where "c = Y div 100" and "r = Y mod 100"
  define doy where "doy = (153 * mp + 2) div 5 + (day - 1)"
  define e where "e = 365 * r + r div 4 + doy"
  have Y: "Y = 100 * c + r" "0 \<le> c" "0 \<le> r" "r < 100" using assms(1) by (simp_all add: c_def r_def pos_imp_zdiv_nonneg_iff)
  have doy: "0 \<le> doy" "doy \<le> 364 + (if leap (Y + 1) then 1 else 0)" "(5 * doy + 2) div 153 = mp"
    using month_of_day [OF assms(2-4)] assms(2,3) unfolding doy_def by auto
  have l4: "r mod 4 = 3" if "leap (Y + 1)"
  proof -
    have "4 dvd 100 * c + r + 1" using that Y(1) by (simp add: leap_def)
    then show ?thesis by presburger
  qed
  have l100: "c mod 4 = 3" if "leap (Y + 1)" "r = 99"
  proof -
    have eq: "Y + 1 = 100 * (c + 1)" using Y(1) that(2) by simp
    then have "400 dvd Y + 1" using that(1) by (metis leap_def dvd_triv_left)
    then have "100 * 4 dvd 100 * (c + 1)" unfolding eq by simp
    then have "4 dvd c + 1" by (simp only: dvd_times_left_cancel_iff)
    then show ?thesis by presburger
  qed
  have doy': "doy \<le> 364 \<or> (doy = 365 \<and> r mod 4 = 3)" using doy(2) l4 by (cases "leap (Y + 1)") auto
  have e0: "0 \<le> e" using Y(3) doy(1) by (simp add: e_def)
  have "e \<le> 36523 \<or> (e = 36524 \<and> c mod 4 = 3)"
  proof (cases "r = 99")
    case True
    then show ?thesis using doy(2) l100 by (cases "leap (Y + 1)") (auto simp: e_def)
  next
    case False
    then have "r \<le> 98" using Y(4) by simp
    then have "r div 4 \<le> 24" by simp
    then show ?thesis using \<open>r \<le> 98\<close> doy' unfolding e_def by linarith
  qed
  note century = century_of_day [OF Y(2) e0 this]
  note year = year_of_day [OF Y(3) doy(1) doy', folded e_def]
  have a: "march_days Y + (153 * mp + 2) div 5 + day - 32045 + 32044 = 36524 * c + c div 4 + e"
    using march_days_parts [OF Y(3,4), of c] unfolding Y(1) [symmetric] e_def doy_def by simp
  have nonneg: "0 \<le> 36524 * c + c div 4 + e" using Y(2) e0 by simp
  have b: "(4 * (36524 * c + c div 4 + e) + 3) sdiv 146097 = c" using nonneg century by (simp add: sdiv_pos)
  have c': "36524 * c + c div 4 + e - (c * 146097) sdiv 4 = e" using Y(2) century_days [of c] by (simp add: sdiv_pos)
  have d: "(4 * e + 3) sdiv 1461 = r" using e0 year by (simp add: sdiv_pos)
  have e': "e - (1461 * r) sdiv 4 = doy" using Y(3) year_days [of r] by (simp add: sdiv_pos e_def)
  have m: "(5 * doy + 2) sdiv 153 = mp" using doy(1,3) by (simp add: sdiv_pos)
  have m10: "mp sdiv 10 = (if mp < 10 then 0 else 1)" and m5: "(153 * mp + 2) sdiv 5 = (153 * mp + 2) div 5"
    using assms(2) by (auto simp: sdiv_pos)
  show ?thesis
    unfolding date_of_number_def a Let_def b c' d e' m m10 m5
    using Y(1) by (simp add: doy_def)
qed

lemma date_of_number_julian:
  assumes "date_ok t"
  shows "date_of_number (julian t) = t"
proof -
  obtain y m d where t: "t = \<lparr>ymd_year = y, ymd_month = m, ymd_day = d\<rparr>" by (cases t) auto
  have ok: "- 4800 < y" "1 \<le> m" "m \<le> 12" "1 \<le> d" "d \<le> days_in y m" using assms t by (simp_all add: date_ok_def)
  have m: "m \<in> {1, 2, 3, 4, 5, 6, 7, 8, 9, 10, 11, 12}" using month_cases ok by blast
  have days: "days_in (y + 4800 + 1) m = days_in y m" if "m \<noteq> 2" using that by (simp add: days_in_def)
  show ?thesis
  proof (cases "m \<le> 2")
    case True
    have "days_in (y + 4799 + 1) m = days_in y m" using leap_4800 [of y] by (simp add: days_in_def add.assoc)
    then show ?thesis
      using date_of_number_march [of "y + 4799" "m + 9" d] ok m True t
      by (auto simp: julian_def julian_march)
  next
    case False
    then have "d \<le> days_in (y + 4800 + 1) m" using days ok by simp
    then show ?thesis
      using date_of_number_march [of "y + 4800" "m - 3" d] ok m False t
      by (auto simp: julian_def julian_march)
  qed
qed

section \<open>Every day has its date\<close>

definition first_day :: YearMonthDay where
  "first_day = \<lparr>ymd_year = - 4799, ymd_month = 1, ymd_day = 1\<rparr>"

lemma first_day_ok: "date_ok first_day" and julian_first_day: "julian first_day = - 31738"
  by (simp_all add: first_day_def date_ok_def days_in_def julian_def julian_march march_days_def)

lemma some_date: "\<exists>t. date_ok t \<and> julian t = - 31738 + int n"
proof (induction n)
  case 0
  then show ?case using first_day_ok julian_first_day by auto
next
  case (Suc n)
  then obtain t where "date_ok t" "julian t = - 31738 + int n" by blast
  then show ?case using date_ok_next julian_next by (intro exI [of _ "next_day t"]) simp
qed

lemma date_of_number_ok:
  assumes "- 31738 \<le> j"
  shows "date_ok (date_of_number j)" and "julian (date_of_number j) = j"
proof -
  obtain t where "date_ok t" "julian t = j"
    using some_date [of "nat (j + 31738)"] assms by auto
  then show "date_ok (date_of_number j)" "julian (date_of_number j) = j"
    using date_of_number_julian by auto
qed

lemma date_of_number_Suc:
  assumes "- 31738 \<le> j"
  shows "date_of_number (j + 1) = next_day (date_of_number j)"
  using date_of_number_julian [OF date_ok_next [OF date_of_number_ok(1) [OF assms]]]
    julian_next [OF date_of_number_ok(1) [OF assms]] date_of_number_ok(2) [OF assms] by simp

section \<open>Within 32 bits\<close>

text \<open>The last day whose date is computed without overflow, in the year 1465002.\<close>

definition last_day :: int where
  "last_day = 536838867"

lemma getJulianDayNumber_fits:
  assumes "date_ok t" and "ymd_year t \<le> 5000000"
  shows "getJulianDayNumber (ymd_year t) (ymd_month t) (ymd_day t) = Inr (julian t)"
proof -
  obtain y m d where t: "ymd_year t = y" "ymd_month t = m" "ymd_day t = d" by blast
  have ok: "- 4800 < y" "y \<le> 5000000" "1 \<le> m" "m \<le> 12" "1 \<le> d" "d \<le> 31"
    using assms t by (auto simp: date_ok_def days_in_def split: if_splits)
  have a: "(14 - m) sdiv 12 = (if m \<le> 2 then 1 else 0)"
    using month_cases [OF ok(3,4)] by (auto simp: sdiv_pos)
  define a' where "a' = (14 - m) sdiv 12"
  define Y where "Y = y + 4800 - a'"
  define M where "M = m + 12 * a' - 3"
  have a': "0 \<le> a'" "a' \<le> 1" and M: "0 \<le> M" "M \<le> 11" using a ok by (simp_all add: a'_def M_def split: if_splits)
  have Y: "0 \<le> Y" "Y \<le> 5004800" using ok(1,2) a' by (simp_all add: Y_def)
  have sd: "(153 * M + 2) sdiv 5 = (153 * M + 2) div 5" "Y sdiv 4 = Y div 4" "Y sdiv 100 = Y div 100" "Y sdiv 400 = Y div 400"
    using M Y by (simp_all add: sdiv_pos)
  have q: "0 \<le> (153 * M + 2) div 5" "(153 * M + 2) div 5 \<le> 337" "0 \<le> Y div 4" "Y div 4 \<le> 1251200"
    "0 \<le> Y div 100" "Y div 100 \<le> 50048" "0 \<le> Y div 400" "Y div 400 \<le> 12512" using M Y by linarith+
  have "getJulianDayNumber y m d = Inr (day_number y m d)"
    unfolding getJulianDayNumber_def day_number_def through_def Let_def a'_def [symmetric] Y_def [symmetric] M_def [symmetric] sd
    using ok a' M Y q by (simp add: int32_ok_def)
  then show ?thesis by (simp add: julian_def t)
qed

lemma kJulianDay: "kJulianDayOf1970_01_01 = 2440588"
proof -
  define t where "t = \<lparr>ymd_year = 1970, ymd_month = 1, ymd_day = 1\<rparr>"
  have "date_ok t" "ymd_year t \<le> 5000000" by (simp_all add: t_def date_ok_def days_in_def)
  from getJulianDayNumber_fits [OF this] show ?thesis
    by (simp add: kJulianDayOf1970_01_01_def t_def julian_def julian_march march_days_def)
qed

lemma march_days_ge: "0 \<le> y \<Longrightarrow> 365 * y \<le> march_days y"
  using zdiv_mono2 [of y 4 100] pos_imp_zdiv_nonneg_iff [of 400 y] by (simp add: march_days_def)

lemma julian_year:
  assumes "date_ok t" and "julian t \<le> last_day"
  shows "ymd_year t \<le> 1467000"
proof -
  obtain y m d where t: "ymd_year t = y" "ymd_month t = m" "ymd_day t = d" by blast
  have ok: "- 4800 < y" "1 \<le> m" "m \<le> 12" "1 \<le> d" using assms t by (simp_all add: date_ok_def)
  have "365 * (y + 4799) \<le> julian t + 32045"
    using ok march_days_ge [of "y + 4799"] march_days_ge [of "y + 4800"] pos_imp_zdiv_nonneg_iff [of 5 "153 * (m + 9) + 2"]
      pos_imp_zdiv_nonneg_iff [of 5 "153 * (m - 3) + 2"]
    by (cases "m \<le> 2") (simp_all add: julian_def t julian_march)
  then show ?thesis using assms(2) t by (simp add: last_day_def)
qed

lemma julian_range:
  assumes "date_ok t"
  shows "- 31738 \<le> julian t" and "julian t \<le> 366 * (ymd_year t + 4800) - 31309"
proof -
  obtain y m d where t: "ymd_year t = y" "ymd_month t = m" "ymd_day t = d" by blast
  have ok: "- 4800 < y" "1 \<le> m" "m \<le> 12" "1 \<le> d" "d \<le> 31"
    using assms t by (auto simp: date_ok_def days_in_def split: if_splits)
  define Y M where "Y = (if m \<le> 2 then y + 4799 else y + 4800)" and "M = (if m \<le> 2 then m + 9 else m - 3)"
  have j: "julian t = 365 * Y + Y div 4 - Y div 100 + Y div 400 + (153 * M + 2) div 5 + d - 32045"
    using ok t by (simp add: julian_def julian_march march_days_def Y_def M_def)
  have Y: "0 \<le> Y" "Y \<le> y + 4800" "m \<le> 2 \<longrightarrow> 10 \<le> M" "\<not> m \<le> 2 \<longrightarrow> 1 \<le> Y" "0 \<le> M" "M \<le> 11" using ok by (auto simp: Y_def M_def)
  have q: "5 * ((153 * M + 2) div 5) \<le> 153 * M + 2" "153 * M + 2 < 5 * ((153 * M + 2) div 5) + 5"
    "400 * (Y div 400) \<le> Y" "4 * (Y div 4) \<le> Y" by simp_all
  have b: "0 \<le> Y div 100" "Y div 4 + Y div 400 \<le> Y" "(153 * M + 2) div 5 \<le> 337" using Y(1,6) q by linarith+
  have "julian t \<le> 366 * Y + 337 + 31 - 32045" unfolding j using b ok(5) by simp
  then show "julian t \<le> 366 * (ymd_year t + 4800) - 31309" using Y(2) t(1) by simp
  have "0 \<le> Y div 4 - Y div 100" "0 \<le> Y div 400" using Y(1) zdiv_mono2 [of Y 4 100] by simp_all
  moreover have "306 \<le> 365 * Y + (153 * M + 2) div 5" using Y q(1,2) by (cases "m \<le> 2") linarith+
  ultimately show "- 31738 \<le> julian t" unfolding j using ok(4) by linarith
qed

lemma getYearMonthDay_fits:
  assumes "- 31738 \<le> j" and "j \<le> last_day"
  shows "getYearMonthDay j = Inr (date_of_number j)"
proof -
  define a where "a = j + 32044"
  define b where "b = (4 * a + 3) sdiv 146097"
  define c where "c = a - (b * 146097) sdiv 4"
  define d where "d = (4 * c + 3) sdiv 1461"
  define e where "e = c - (1461 * d) sdiv 4"
  define m where "m = (5 * e + 2) sdiv 153"
  have a: "0 \<le> a" "a \<le> 536870911" using assms by (simp_all add: a_def last_day_def)
  have b: "b = (4 * a + 3) div 146097" using a by (simp add: b_def sdiv_pos)
  have b': "0 \<le> b" "b * 146097 \<le> 4 * a + 3" "4 * a + 3 < b * 146097 + 146097" unfolding b using a by linarith+
  have "c = a - (b * 146097) div 4" using b'(1) by (simp add: c_def sdiv_pos)
  then have c: "0 \<le> c" "c \<le> 36525" using b' by linarith+
  have d: "d = (4 * c + 3) div 1461" using c by (simp add: d_def sdiv_pos)
  have d': "0 \<le> d" "d * 1461 \<le> 4 * c + 3" "4 * c + 3 < d * 1461 + 1461" unfolding d using c by linarith+
  have "e = c - (1461 * d) div 4" using d'(1) by (simp add: e_def sdiv_pos)
  then have e: "0 \<le> e" "e \<le> 366" using d' by linarith+
  have "m = (5 * e + 2) div 153" using e by (simp add: m_def sdiv_pos)
  then have m: "0 \<le> m" "m \<le> 12" using e by linarith+
  have sd: "m sdiv 10 = m div 10" "(153 * m + 2) sdiv 5 = (153 * m + 2) div 5" using m by (simp_all add: sdiv_pos)
  have q: "0 \<le> m div 10" "m div 10 \<le> 1" "0 \<le> (153 * m + 2) div 5" "(153 * m + 2) div 5 \<le> 368" using m by linarith+
  have bb: "b \<le> 14700" and dd: "d \<le> 101" using a b' c d' by linarith+
  show ?thesis
    unfolding getYearMonthDay_def date_of_number_def through_def Let_def a_def [symmetric] b_def [symmetric] c_def [symmetric]
      d_def [symmetric] e_def [symmetric] m_def [symmetric] sd
    using a b' c d' e m q bb dd by (simp add: int32_ok_def)
qed

lemma getYearMonthDay_overflows: "last_day < j \<Longrightarrow> getYearMonthDay j = Inl Signed_overflow"
  by (simp add: getYearMonthDay_def through_def Let_def last_day_def int32_ok_def)

section \<open>Properties\<close>

text \<open>A Julian day number and its date determine each other: the date that is computed for a day is a date of the Gregorian
  calendar and gives the day back, and every date from the year -4799 on whose number is not too large is found from it.\<close>

theorem date_roundtrip:
  "(- 31738 \<le> j \<and> j \<le> last_day \<longrightarrow>
      (\<exists>t. getYearMonthDay j = Inr t \<and> date_ok t \<and> getJulianDayNumber (ymd_year t) (ymd_month t) (ymd_day t) = Inr j)) \<and>
   (date_ok t \<and> getJulianDayNumber (ymd_year t) (ymd_month t) (ymd_day t) = Inr i \<and> ymd_year t \<le> 1460000 \<longrightarrow>
      getYearMonthDay i = Inr t)"
proof (intro conjI impI)
  assume j: "- 31738 \<le> j \<and> j \<le> last_day"
  then have d: "date_ok (date_of_number j)" "julian (date_of_number j) = j" using date_of_number_ok by auto
  have "ymd_year (date_of_number j) \<le> 5000000" using julian_year [OF d(1)] d(2) j by simp
  then show "\<exists>t. getYearMonthDay j = Inr t \<and> date_ok t \<and> getJulianDayNumber (ymd_year t) (ymd_month t) (ymd_day t) = Inr j"
    using getYearMonthDay_fits getJulianDayNumber_fits [OF d(1)] d j by auto
next
  assume t: "date_ok t \<and> getJulianDayNumber (ymd_year t) (ymd_month t) (ymd_day t) = Inr i \<and> ymd_year t \<le> 1460000"
  then have i: "i = julian t" using getJulianDayNumber_fits [of t] by simp
  show "getYearMonthDay i = Inr t"
    using getYearMonthDay_fits [of i] date_of_number_julian [of t] julian_range [of t] t i by (simp add: last_day_def)
qed

theorem date_roundtrip_witness:
  "(\<exists>t. getYearMonthDay 2460370 = Inr t \<and> date_ok t)"
  using date_roundtrip [of 2460370 "\<lparr>ymd_year = 2024, ymd_month = 2, ymd_day = 29\<rparr>"]
  by (auto simp: last_day_def)

text \<open>C24: The closed formula counts days as the calendar does, up to the last day that fits the 32-bit arithmetic and not beyond it:
  \<open>n\<close> days after the first of January 1970, for every \<open>n\<close> up to 534398279, it gives the date that is reached
  by going to the next day \<open>n\<close> times, with the calendar's month lengths and leap years, and the day of the week has moved on by one with
  every day, from a Thursday; no operation overflows. For every later day that has a number the multiplication in \<open>getYearMonthDay\<close> overflows.\<close>

theorem date_counts_days:
  "if n \<le> 534398279
   then getYearMonthDay (kJulianDayOf1970_01_01 + int n) = Inr ((next_day ^^ n) \<lparr>ymd_year = 1970, ymd_month = 1, ymd_day = 1\<rparr>) \<and>
     weekDay (kJulianDayOf1970_01_01 + int n) = Inr ((4 + int n) mod 7)
   else getYearMonthDay (kJulianDayOf1970_01_01 + int n) = Inl Signed_overflow"
proof -
  have date: "date_of_number (2440588 + int k) = (next_day ^^ k) \<lparr>ymd_year = 1970, ymd_month = 1, ymd_day = 1\<rparr>" for k
  proof (induction k)
    case 0
    have "date_ok \<lparr>ymd_year = 1970, ymd_month = 1, ymd_day = 1\<rparr>" by (simp add: date_ok_def days_in_def)
    from date_of_number_julian [OF this] show ?case by (simp add: julian_def julian_march march_days_def)
  next
    case (Suc k)
    then show ?case using date_of_number_Suc [of "2440588 + int k"] by (simp add: algebra_simps)
  qed
  have "(2440588 + int n + 1) smod 7 = (4 + int n) mod 7" by (simp add: signed_modulo_int_def) presburger
  then have "weekDay (2440588 + int n) = Inr ((4 + int n) mod 7)" if "n \<le> 534398279"
    using that by (simp add: weekDay_def through_def int32_ok_def)
  then show ?thesis
    using getYearMonthDay_fits [of "2440588 + int n"] getYearMonthDay_overflows [of "2440588 + int n"]
    by (simp add: kJulianDay date last_day_def)
qed

end
