(* ===== verification/Log_Stream.thy ===== *)
theory Log_Stream
  imports Calendar
begin

text \<open>
  \<open>src/src/log/Fixedbuffer.h\<close>, \<open>logstream.h\<close>, \<open>logstream.cc\<close> and
  \<open>timestamp.h\<close>, \<open>timestamp.cc\<close>: the buffer of fixed size in which a line of the log
  is put together, the output operators with their own conversion of numbers, and time stamps. The template
  parameter \<open>BufferSize\<close> is the length of the block; the cookie of the buffer is never called and left out.
\<close>

section \<open>The buffer of fixed size\<close>

definition SmallBuffer :: nat where "SmallBuffer = 4048"
definition LargerBuffer :: nat where "LargerBuffer = 4048 * 1000"

record FixedBuffer =
  fb_Buffer :: string
  Spot :: "32 word"

definition NUL :: char where "NUL = char_of (0 :: nat)"

definition FixedBuffer_new :: "nat \<Rightarrow> FixedBuffer" where
  "FixedBuffer_new BufferSize = \<lparr>fb_Buffer = replicate BufferSize NUL, Spot = 0\<rparr>"

definition avail :: "FixedBuffer \<Rightarrow> 32 word" where
  "avail b = of_nat (length (fb_Buffer b)) - Spot b"

definition add :: "32 word \<Rightarrow> FixedBuffer \<Rightarrow> FixedBuffer" where
  "add len b = b\<lparr>Spot := Spot b + len\<rparr>"

definition setSpotBegin :: "FixedBuffer \<Rightarrow> FixedBuffer" where
  "setSpotBegin b = b\<lparr>Spot := 0\<rparr>"

definition setZero :: "FixedBuffer \<Rightarrow> FixedBuffer" where
  "setZero b = b\<lparr>fb_Buffer := replicate (length (fb_Buffer b)) NUL\<rparr>"

definition FB_reset :: "FixedBuffer \<Rightarrow> FixedBuffer" where
  "FB_reset b = b\<lparr>Spot := 0\<rparr>"

definition FB_toString :: "FixedBuffer \<Rightarrow> cpp_error + string" where
  "FB_toString b =
     (if unat (Spot b) \<le> length (fb_Buffer b) then Inr (take (unat (Spot b)) (fb_Buffer b)) else Inl Bad_access)"

text \<open>Storing bytes from \<open>current()\<close> on.\<close>

definition at_current :: "string \<Rightarrow> FixedBuffer \<Rightarrow> (FixedBuffer, unit) cpp" where
  "at_current bs b =
     (if unat (Spot b) + length bs \<le> length (fb_Buffer b)
      then (Inr (), b\<lparr>fb_Buffer := blit (fb_Buffer b) (unat (Spot b)) bs\<rparr>)
      else (Inl Bad_access, b))"

definition FB_append :: "string \<Rightarrow> FixedBuffer \<Rightarrow> (FixedBuffer, unit) cpp" where
  "FB_append buf b =
     (if unat (avail b) > length buf
      then bindc (at_current buf b) (\<lambda>_ b. (Inr (), add (of_nat (length buf)) b))
      else (Inr (), b))"

section \<open>Conversion of numbers\<close>

definition digits :: string where "digits = ''9876543210123456789''"
definition digitsHex :: string where "digitsHex = ''0123456789ABCDEF''"

text \<open>\<open>zero\<close> points to the middle of the table, so that the digits of negative numbers are found too.\<close>

definition zero_at :: "int \<Rightarrow> char" where
  "zero_at lsd = digits ! nat (9 + lsd)"

lemma sdiv_10_shrinks: "i sdiv 10 \<noteq> 0 \<Longrightarrow> \<bar>i sdiv 10\<bar> < \<bar>i :: int\<bar>"
  by (auto simp: signed_divide_int_def sgn_if abs_mult split: if_splits)

function convert_loop :: "int \<Rightarrow> string" where
  "convert_loop i = zero_at (i smod 10) # (if i sdiv 10 \<noteq> 0 then convert_loop (i sdiv 10) else [])"
  by auto

termination
  by (relation "measure (\<lambda>i. nat \<bar>i\<bar>)") (auto dest: sdiv_10_shrinks)

declare convert_loop.simps [simp del]

text \<open>The text before its final zero byte.\<close>

definition convert :: "int \<Rightarrow> string" where
  "convert value = rev (convert_loop value @ (if value < 0 then ''-'' else ''''))"

fun hex_loop :: "nat \<Rightarrow> string" where
  "hex_loop i = digitsHex ! (i mod 16) # (if i div 16 \<noteq> 0 then hex_loop (i div 16) else [])"

declare hex_loop.simps [simp del]

definition convertHex :: "64 word \<Rightarrow> string" where
  "convertHex value = rev (hex_loop (unat value))"

section \<open>Output operators\<close>

definition kMaxNumericSize :: nat where "kMaxNumericSize = 32"

definition formatInteger :: "int \<Rightarrow> FixedBuffer \<Rightarrow> (FixedBuffer, unit) cpp" where
  "formatInteger v b =
     (if unat (avail b) \<ge> kMaxNumericSize
      then bindc (at_current (convert v @ [NUL]) b) (\<lambda>_ b. (Inr (), add (of_nat (length (convert v))) b))
      else (Inr (), b))"

text \<open>
  What can be written with \<open>operator<<\<close>: the integers by their value, a C string as the bytes before its end
  or \<open>None\<close> for the null pointer, a floating-point number as its text in the format \<open>%.12g\<close>, which
  \<open>snprintf\<close> computes.
\<close>

datatype stream_item =
    Put_bool bool
  | Put_integer int
  | Put_pointer "64 word"
  | Put_double string
  | Put_char char
  | Put_cstring "string option"
  | Put_string string
  | Put_buffer FixedBuffer

text \<open>The operators of the integer types; a short is widened to an int, which keeps its value.\<close>

definition put_integer :: "int \<Rightarrow> FixedBuffer \<Rightarrow> (FixedBuffer, unit) cpp" where
  "put_integer v b = formatInteger v b"

lemma put_integer_eq [simp]: "put_integer = formatInteger"
  by (intro ext) (simp add: put_integer_def)

definition put_pointer :: "64 word \<Rightarrow> FixedBuffer \<Rightarrow> (FixedBuffer, unit) cpp" where
  "put_pointer p b =
     (if unat (avail b) \<ge> kMaxNumericSize
      then bindc (at_current (''0x'' @ convertHex p @ [NUL]) b)
             (\<lambda>_ b. (Inr (), add (of_nat (length (convertHex p) + 2)) b))
      else (Inr (), b))"

text \<open>\<open>snprintf\<close> stores at most 31 characters and the zero, and returns the length of the whole text.\<close>

definition put_double :: "string \<Rightarrow> FixedBuffer \<Rightarrow> (FixedBuffer, unit) cpp" where
  "put_double shown b =
     (if unat (avail b) \<ge> kMaxNumericSize
      then bindc (at_current (take (kMaxNumericSize - 1) shown @ [NUL]) b)
             (\<lambda>_ b. (Inr (), add (of_nat (length shown)) b))
      else (Inr (), b))"

fun put :: "stream_item \<Rightarrow> FixedBuffer \<Rightarrow> (FixedBuffer, unit) cpp" where
  "put (Put_bool flag) b = FB_append (if flag then ''1'' else ''0'') b"
| "put (Put_integer v) b = put_integer v b"
| "put (Put_pointer p) b = put_pointer p b"
| "put (Put_double shown) b = put_double shown b"
| "put (Put_char v) b = FB_append [v] b"
| "put (Put_cstring (Some str)) b = FB_append str b"
| "put (Put_cstring None) b = FB_append ''(null)'' b"
| "put (Put_string v) b = FB_append v b"
| "put (Put_buffer v) b = (case FB_toString v of Inl e \<Rightarrow> (Inl e, b) | Inr s \<Rightarrow> FB_append s b)"

fun put_all :: "stream_item list \<Rightarrow> FixedBuffer \<Rightarrow> (FixedBuffer, unit) cpp" where
  "put_all [] b = (Inr (), b)"
| "put_all (i # is) b = bindc (put i b) (\<lambda>_ b. put_all is b)"

text \<open>The constructor of \<open>Fmt\<close>, given the whole text that \<open>snprintf\<close> computes.\<close>

definition Fmt :: "string \<Rightarrow> cpp_error + string" where
  "Fmt shown = (if length shown < 32 then Inr shown else Inl Assertion_failed)"

section \<open>Numbers\<close>

lemma zero_at_digit: "n < 10 \<Longrightarrow> zero_at (int n) = char_of (48 + n) \<and> zero_at (- int n) = char_of (48 + n)"
proof -
  assume "n < 10"
  then have "n \<in> {0, 1, 2, 3, 4, 5, 6, 7, 8, 9}" unfolding insert_iff empty_iff by presburger
  then show ?thesis by (auto simp: zero_at_def digits_def nth_Cons_numeral char_of_def bit_0)
qed

lemma convert_loop_of_nat:
  "rev (convert_loop (int n)) = dec_nat n" "rev (convert_loop (- int n)) = dec_nat n"
proof (induction n rule: dec_nat.induct)
  case (1 n)
  have pos: "int n smod 10 = int (n mod 10)" "int n sdiv 10 = int (n div 10)"
    by (simp_all add: smod_pos sdiv_pos zmod_int zdiv_int)
  have neg: "- int n smod 10 = - int (n mod 10)" "- int n sdiv 10 = - int (n div 10)"
    using pos by simp_all
  {
    case 1
    show ?case
      using "1.IH"(1) zero_at_digit [of "n mod 10"] unfolding convert_loop.simps [of "int n"] pos dec_nat.simps [of n]
      by (auto simp: not_less)
  next
    case 2
    show ?case
      using "1.IH"(2) zero_at_digit [of "n mod 10"] unfolding convert_loop.simps [of "- int n"] neg dec_nat.simps [of n]
      by (auto simp: not_less)
  }
qed

lemma convert_dec_string: "convert v = dec_string v"
proof (cases "v < 0")
  case True
  then have "v = - int (nat (- v))" by simp
  then show ?thesis using True convert_loop_of_nat(2) [of "nat (- v)"] by (simp add: convert_def dec_string_def)
next
  case False
  then have "v = int (nat v)" by simp
  then show ?thesis using False convert_loop_of_nat(1) [of "nat v"] by (simp add: convert_def dec_string_def)
qed

lemma dec_nat_short: "n < 10 ^ k \<Longrightarrow> 0 < k \<Longrightarrow> length (dec_nat n) \<le> k"
proof (induction k arbitrary: n)
  case (Suc k)
  show ?case
  proof (cases "n < 10")
    case False
    then have "n div 10 < 10 ^ k" "0 < k" using Suc.prems(1) by (auto simp: less_mult_imp_div_less intro: gr0I)
    then show ?thesis using Suc.IH False by (simp add: dec_nat.simps [of n])
  qed (simp add: dec_nat.simps [of n])
qed simp

text \<open>All the integers of at most 64 bits.\<close>

definition integer_ok :: "int \<Rightarrow> bool" where
  "integer_ok v \<longleftrightarrow> - (2 ^ 63) \<le> v \<and> v < 2 ^ 64"

lemma convert_short: "integer_ok v \<Longrightarrow> length (convert v) \<le> 20"
  using dec_nat_short [of "nat (- v)" 19] dec_nat_short [of "nat v" 20]
  by (auto simp: integer_ok_def convert_dec_string dec_string_def)

lemma hex_loop_short: "n < 16 ^ k \<Longrightarrow> 0 < k \<Longrightarrow> length (hex_loop n) \<le> k"
proof (induction k arbitrary: n)
  case (Suc k)
  show ?case
  proof (cases "n div 16 = 0")
    case False
    then have "n div 16 < 16 ^ k" "0 < k" using Suc.prems(1) by (auto simp: less_mult_imp_div_less intro: gr0I)
    then show ?thesis using Suc.IH False by (simp add: hex_loop.simps [of n])
  qed (simp add: hex_loop.simps [of n])
qed simp

lemma convertHex_short: "length (convertHex p) \<le> 16"
  using hex_loop_short [of "unat p" 16] unsigned_less [of p] by (simp add: convertHex_def)

section \<open>What is written\<close>

definition FB_ok :: "FixedBuffer \<Rightarrow> bool" where
  "FB_ok b \<longleftrightarrow> unat (Spot b) \<le> length (fb_Buffer b) \<and> length (fb_Buffer b) < 2 ^ 32"

definition FB_text :: "FixedBuffer \<Rightarrow> string" where
  "FB_text b = take (unat (Spot b)) (fb_Buffer b)"

definition FB_room :: "FixedBuffer \<Rightarrow> nat" where
  "FB_room b = length (fb_Buffer b) - unat (Spot b)"

lemma FB_new_ok [simp]:
  "n < 2 ^ 32 \<Longrightarrow> FB_ok (FixedBuffer_new n)" "FB_text (FixedBuffer_new n) = []"
  "FB_room (FixedBuffer_new n) = n" "length (fb_Buffer (FixedBuffer_new n)) = n"
  by (simp_all add: FB_ok_def FB_text_def FB_room_def FixedBuffer_new_def)

lemma FB_reset_ok [simp]:
  "length (fb_Buffer b) < 2 ^ 32 \<Longrightarrow> FB_ok (FB_reset b)" "FB_text (FB_reset b) = []"
  "FB_room (FB_reset b) = length (fb_Buffer b)" "fb_Buffer (FB_reset b) = fb_Buffer b"
  by (simp_all add: FB_ok_def FB_text_def FB_room_def FB_reset_def)

lemma setSpotBegin_reset: "setSpotBegin = FB_reset"
  by (rule ext) (simp add: setSpotBegin_def FB_reset_def)

lemma FB_toString_ok: "FB_ok b \<Longrightarrow> FB_toString b = Inr (FB_text b)"
  by (simp add: FB_toString_def FB_ok_def FB_text_def)

lemma FB_room_text: "FB_ok b \<Longrightarrow> FB_room b + length (FB_text b) = length (fb_Buffer b)"
  by (simp add: FB_ok_def FB_room_def FB_text_def)

lemma unat_avail:
  assumes "FB_ok b"
  shows "unat (avail b) = FB_room b"
proof -
  have "unat (of_nat (length (fb_Buffer b)) :: 32 word) = length (fb_Buffer b)"
    using assms by (simp add: FB_ok_def unat_of_nat)
  then show ?thesis using assms unfolding avail_def FB_room_def
    by (subst unat_sub) (simp_all add: FB_ok_def word_le_nat_alt)
qed

lemma unat_Spot_add:
  assumes "FB_ok b" and "n \<le> FB_room b"
  shows "unat (Spot b + of_nat n) = unat (Spot b) + n"
proof -
  have "unat (Spot b) + n < 2 ^ 32" using assms by (auto simp: FB_ok_def FB_room_def)
  then show ?thesis by (simp add: unat_word_ariths unat_of_nat)
qed

text \<open>Bytes are stored from the spot on and the spot moves over the first \<open>n\<close> of them.\<close>

lemma stored:
  assumes "FB_ok b" and "length bs \<le> FB_room b" and "n \<le> length bs"
  shows "\<exists>b'. bindc (at_current bs b) (\<lambda>_ b. (Inr (), add (of_nat n) b)) = (Inr (), b') \<and> FB_ok b' \<and>
     length (fb_Buffer b') = length (fb_Buffer b) \<and> FB_text b' = FB_text b @ take n bs"
proof -
  let ?s = "unat (Spot b)"
  have range: "?s + length bs \<le> length (fb_Buffer b)" "?s \<le> length (fb_Buffer b)"
    using assms(1,2) by (auto simp: FB_ok_def FB_room_def)
  have n: "n \<le> FB_room b" using assms(2,3) by simp
  show ?thesis
    using range assms n unat_Spot_add [OF assms(1) n] FB_room_text [OF assms(1)]
    by (auto simp: at_current_def add_def FB_ok_def FB_text_def FB_room_def blit_def min_absorb2)
qed

lemma FB_append_ok:
  assumes "FB_ok b"
  shows "\<exists>b'. FB_append s b = (Inr (), b') \<and> FB_ok b' \<and> length (fb_Buffer b') = length (fb_Buffer b) \<and>
     FB_text b' = FB_text b @ (if length s < FB_room b then s else [])"
  using stored [OF assms, of s "length s"] assms by (auto simp: FB_append_def unat_avail)

text \<open>
  The text of an item, and when it is taken: a number needs 32 free bytes, a text one more than it has. An item
  that does not fit is left out as a whole.
\<close>

fun item_text :: "stream_item \<Rightarrow> string" where
  "item_text (Put_bool flag) = (if flag then ''1'' else ''0'')"
| "item_text (Put_integer v) = dec_string v"
| "item_text (Put_pointer p) = ''0x'' @ convertHex p"
| "item_text (Put_double shown) = shown"
| "item_text (Put_char c) = [c]"
| "item_text (Put_cstring str) = (case str of None \<Rightarrow> ''(null)'' | Some s \<Rightarrow> s)"
| "item_text (Put_string s) = s"
| "item_text (Put_buffer v) = FB_text v"

fun item_ok :: "stream_item \<Rightarrow> bool" where
  "item_ok (Put_integer v) = integer_ok v"
| "item_ok (Put_double shown) = (length shown < 32)"
| "item_ok (Put_buffer v) = FB_ok v"
| "item_ok _ = True"

fun item_fits :: "stream_item \<Rightarrow> nat \<Rightarrow> bool" where
  "item_fits (Put_integer _) room = (32 \<le> room)"
| "item_fits (Put_pointer _) room = (32 \<le> room)"
| "item_fits (Put_double _) room = (32 \<le> room)"
| "item_fits i room = (length (item_text i) < room)"

fun written :: "stream_item list \<Rightarrow> nat \<Rightarrow> string" where
  "written [] room = []"
| "written (i # is) room =
     (if item_fits i room then item_text i @ written is (room - length (item_text i)) else written is room)"

lemma put_ok:
  assumes "FB_ok b" and "item_ok i"
  shows "\<exists>b'. put i b = (Inr (), b') \<and> FB_ok b' \<and> length (fb_Buffer b') = length (fb_Buffer b) \<and>
     FB_text b' = FB_text b @ (if item_fits i (FB_room b) then item_text i else [])"
proof (cases i)
  case (Put_integer v)
  then have "length (convert v) \<le> 20" using assms(2) convert_short by simp
  then show ?thesis using Put_integer assms(1) stored [OF assms(1), of "convert v @ [NUL]" "length (convert v)"]
    by (auto simp: formatInteger_def unat_avail kMaxNumericSize_def convert_dec_string)
next
  case (Put_pointer p)
  then show ?thesis
    using assms(1) convertHex_short [of p] stored [OF assms(1), of "''0x'' @ convertHex p @ [NUL]" "length (convertHex p) + 2"]
    by (auto simp: put_pointer_def unat_avail kMaxNumericSize_def)
next
  case (Put_double shown)
  then show ?thesis using assms stored [OF assms(1), of "take 31 shown @ [NUL]" "length shown"]
    by (auto simp: put_double_def unat_avail kMaxNumericSize_def)
next
  case (Put_cstring s)
  then show ?thesis using FB_append_ok [OF assms(1), of "item_text i"] by (cases s) auto
qed (use assms FB_append_ok [OF assms(1), of "item_text i"] in \<open>auto simp: FB_toString_ok\<close>)

lemma put_all_ok:
  assumes "FB_ok b" and "list_all item_ok is"
  shows "\<exists>b'. put_all is b = (Inr (), b') \<and> FB_ok b' \<and> length (fb_Buffer b') = length (fb_Buffer b) \<and>
     FB_text b' = FB_text b @ written is (FB_room b)"
  using assms
proof (induction "is" arbitrary: b)
  case (Cons i "is")
  obtain b1 where b1: "put i b = (Inr (), b1)" "FB_ok b1" "length (fb_Buffer b1) = length (fb_Buffer b)"
    "FB_text b1 = FB_text b @ (if item_fits i (FB_room b) then item_text i else [])"
    using put_ok [OF Cons.prems(1), of i] Cons.prems(2) by auto
  have "FB_room b1 = FB_room b - length (if item_fits i (FB_room b) then item_text i else [])"
    using FB_room_text [OF b1(2)] FB_room_text [OF Cons.prems(1)] b1(3,4) by auto
  then show ?case using Cons.IH [OF b1(2)] Cons.prems(2) b1 by auto
qed auto

lemma written_all:
  "list_all item_ok is \<Longrightarrow> (\<Sum>i \<leftarrow> is. length (item_text i)) + 32 \<le> room \<Longrightarrow> written is room = concat (map item_text is)"
proof (induction "is" arbitrary: room)
  case (Cons i "is")
  then have "item_fits i room" by (cases i) auto
  then show ?case using Cons by simp
qed simp

section \<open>Hexadecimal numbers\<close>

definition hex_digit :: "char \<Rightarrow> nat" where
  "hex_digit c = (if of_char c < (58 :: nat) then of_char c - 48 else of_char c - 55)"

definition hex_value :: "string \<Rightarrow> nat" where
  "hex_value s = foldl (\<lambda>v c. v * 16 + hex_digit c) 0 s"

lemma hex_digit_nth: "n < 16 \<Longrightarrow> hex_digit (digitsHex ! n) = n"
proof -
  assume "n < 16"
  then have "n \<in> {0, 1, 2, 3, 4, 5, 6, 7, 8, 9, 10, 11, 12, 13, 14, 15}" unfolding insert_iff empty_iff by presburger
  then show ?thesis by (auto simp: hex_digit_def digitsHex_def nth_Cons_numeral)
qed

lemma hex_value_loop: "hex_value (rev (hex_loop n)) = n"
proof (induction n rule: hex_loop.induct)
  case (1 i)
  show ?case
  proof (cases "i div 16 = 0")
    case True
    then show ?thesis using hex_digit_nth [of "i mod 16"] by (simp add: hex_loop.simps [of i] hex_value_def div_eq_0_iff)
  next
    case False
    have "hex_value (xs @ [c]) = hex_value xs * 16 + hex_digit c" for xs c by (simp add: hex_value_def)
    then show ?thesis using 1 False hex_digit_nth [of "i mod 16"] by (simp add: hex_loop.simps [of i] div_mult_mod_eq)
  qed
qed

section \<open>Properties\<close>

text \<open>C29: The conversion of integers with the table of twice nine digits gives the decimal text of every number, the smallest
  one included, and the conversion of pointers a hexadecimal text that reads back as the address.\<close>

theorem conversions_exact: "convert v = dec_string v \<and> hex_value (convertHex p) = unat p"
  by (simp add: convert_dec_string convertHex_def hex_value_loop)

text \<open>C28: Whatever is written into a buffer, no byte is stored outside its block, the spot stays in it, and the text
  grows by the items that fit, each of them whole.\<close>

theorem stream_stays_in_block:
  assumes "FB_ok b" and "list_all item_ok is"
  shows "\<exists>b'. put_all is b = (Inr (), b') \<and> FB_ok b' \<and> length (fb_Buffer b') = length (fb_Buffer b) \<and>
     FB_text b' = FB_text b @ written is (FB_room b)"
  using assms by (rule put_all_ok)

theorem stream_stays_in_block_witness:
  "\<exists>b'. put_all [Put_string ''error'', Put_integer (- 2147483648), Put_cstring None, Put_char CHR ''!'']
       (FixedBuffer_new 40) = (Inr (), b') \<and> FB_text b' = ''error-2147483648(null)!''"
  using stream_stays_in_block [of "FixedBuffer_new 40"
      "[Put_string ''error'', Put_integer (- 2147483648), Put_cstring None, Put_char CHR ''!'']"]
  by (auto simp: integer_ok_def dec_string_def dec_nat.simps char_of_def bit_simps)

end
