(* ===== verification/Log_File.thy ===== *)
theory Log_File
  imports Prelude "HOL-Library.Signed_Division"
begin

text \<open>
  \<open>src/src/log/fileappend.h\<close>, \<open>fileappend.cc\<close>, \<open>logfile.h\<close> and \<open>logfile.cc\<close>: files that are only
  appended to, and the log file that changes its file by size and by day. The world holds the files by name in
  the order of their creation (with what \<open>stdio\<close> has still in its buffer), the values of the next calls of
  \<open>time\<close>, and how much the next calls of \<open>fwrite\<close> take; behind the end of that list they take everything.
  The mutex of a log file excludes concurrent calls and is left out.
\<close>

section \<open>Files\<close>

record log_world =
  wd_files :: "(string \<times> string) list"
  wd_can_open :: "string \<Rightarrow> bool"
  wd_takes :: "nat list"
  wd_clock :: "nat \<Rightarrow> int"
  wd_asked :: nat

definition time_NULL :: "log_world \<Rightarrow> int \<times> log_world" where
  "time_NULL w = (wd_clock w (wd_asked w), w\<lparr>wd_asked := wd_asked w + 1\<rparr>)"

definition fopen_append :: "string \<Rightarrow> log_world \<Rightarrow> log_world" where
  "fopen_append name w =
     (if name \<in> fst ` set (wd_files w) then w else w\<lparr>wd_files := wd_files w @ [(name, [])]\<rparr>)"

definition write_file :: "string \<Rightarrow> string \<Rightarrow> log_world \<Rightarrow> log_world" where
  "write_file name bs w = w\<lparr>wd_files := map (\<lambda>(n, c). if n = name then (n, c @ bs) else (n, c)) (wd_files w)\<rparr>"

record FileAppend =
  fp :: string
  writtenBytes :: int

definition FileAppend_new :: "string \<Rightarrow> log_world \<Rightarrow> (log_world, FileAppend) cpp" where
  "FileAppend_new filename w =
     (if wd_can_open w filename then (Inr \<lparr>fp = filename, writtenBytes = 0\<rparr>, fopen_append filename w)
      else (Inl Assertion_failed, w))"

definition FA_Write :: "FileAppend \<Rightarrow> string \<Rightarrow> log_world \<Rightarrow> nat \<times> log_world" where
  "FA_Write f logline w =
     (case wd_takes w of
        [] \<Rightarrow> (length logline, write_file (fp f) logline w)
      | t # ts \<Rightarrow> (min t (length logline), write_file (fp f) (take t logline) (w\<lparr>wd_takes := ts\<rparr>)))"

function FA_append_loop :: "FileAppend \<Rightarrow> string \<Rightarrow> log_world \<Rightarrow> log_world" where
  "FA_append_loop f rest w =
     (if rest = [] then w
      else
        case FA_Write f rest w of
          (x, w) \<Rightarrow> if x = 0 then w else FA_append_loop f (drop x rest) w)"
  by auto
termination
  by (relation "measure (\<lambda>(f, rest, w). length rest)") auto

declare FA_append_loop.simps [simp del]

definition FA_append :: "string \<Rightarrow> FileAppend \<Rightarrow> log_world \<Rightarrow> FileAppend \<times> log_world" where
  "FA_append logline f w =
     (case FA_Write f logline w of
        (n, w) \<Rightarrow> (f\<lparr>writtenBytes := writtenBytes f + int (length logline)\<rparr>, FA_append_loop f (drop n logline) w))"

section \<open>The log file\<close>

definition Daypreseconds :: int where "Daypreseconds = 60 * 60 * 24"

record logfile =
  lf_basename :: string
  rollSize :: int
  flushInterval :: int
  checkEveryN :: int
  lf_count :: int
  startOfPeriod :: int
  lastRoll :: int
  lastFlush :: int
  lf_file :: FileAppend

text \<open>\<open>stamp\<close> is the text of a time in the format \<open>.%Y%m%d-%H%M%S.\<close>, by \<open>gmtime_r\<close> and \<open>strftime\<close>.\<close>

definition file_name :: "(int \<Rightarrow> string) \<Rightarrow> string \<Rightarrow> int \<Rightarrow> string" where
  "file_name stamp basename now = basename @ stamp now @ ''Yuanmxc'' @ ''.log''"

definition getlogfileName :: "(int \<Rightarrow> string) \<Rightarrow> string \<Rightarrow> log_world \<Rightarrow> (string \<times> int) \<times> log_world" where
  "getlogfileName stamp basename w = (case time_NULL w of (now, w) \<Rightarrow> ((file_name stamp basename now, now), w))"

definition start_of_day :: "int \<Rightarrow> int" where
  "start_of_day now = now - now smod Daypreseconds"

definition rollFile :: "(int \<Rightarrow> string) \<Rightarrow> logfile \<times> log_world \<Rightarrow> (logfile \<times> log_world, unit) cpp" where
  "rollFile stamp s =
     (case s of (l, w) \<Rightarrow>
      case getlogfileName stamp (lf_basename l) w of ((filename, now), w) \<Rightarrow>
        let l = l\<lparr>lastRoll := now, lastFlush := now, startOfPeriod := start_of_day now\<rparr> in
        case FileAppend_new filename w of
          (Inl e, w) \<Rightarrow> (Inl e, l, w)
        | (Inr f, w) \<Rightarrow> (Inr (), l\<lparr>lf_file := f\<rparr>, w))"

definition logfile_new :: "(int \<Rightarrow> string) \<Rightarrow> string \<Rightarrow> int \<Rightarrow> int \<Rightarrow> int \<Rightarrow> log_world \<Rightarrow> (logfile \<times> log_world, unit) cpp" where
  "logfile_new stamp basename roll flush check w =
     (let l = \<lparr>lf_basename = basename, rollSize = roll, flushInterval = flush, checkEveryN = check, lf_count = 0,
               startOfPeriod = 0, lastRoll = 0, lastFlush = 0, lf_file = \<lparr>fp = [], writtenBytes = 0\<rparr>\<rparr> in
      if CHR ''/'' \<in> set basename then (Inl Assertion_failed, l, w) else rollFile stamp (l, w))"

text \<open>Appending without a lock, and the test for a new file after it.\<close>

definition append_unlocked :: "(int \<Rightarrow> string) \<Rightarrow> string \<Rightarrow> logfile \<times> log_world \<Rightarrow> (logfile \<times> log_world, unit) cpp" where
  "append_unlocked stamp logline s =
     (case s of (l, w) \<Rightarrow>
      case FA_append logline (lf_file l) w of (f, w) \<Rightarrow>
        let l = l\<lparr>lf_file := f\<rparr> in
        if writtenBytes f > rollSize l then rollFile stamp (l, w)
        else
          let l = l\<lparr>lf_count := lf_count l + 1\<rparr> in
          if lf_count l \<ge> checkEveryN l then
            let l = l\<lparr>lf_count := 0\<rparr> in
            case time_NULL w of (now, w) \<Rightarrow>
              if start_of_day now \<noteq> startOfPeriod l then rollFile stamp (l, w)
              else if now - lastFlush l > flushInterval l then (Inr (), l\<lparr>lastFlush := now\<rparr>, w)
              else (Inr (), l, w)
          else (Inr (), l, w))"

text \<open>All the lines of a log in one go.\<close>

fun append_lines :: "(int \<Rightarrow> string) \<Rightarrow> string list \<Rightarrow> logfile \<times> log_world \<Rightarrow> (logfile \<times> log_world, unit) cpp" where
  "append_lines stamp [] s = (Inr (), s)"
| "append_lines stamp (x # xs) s = bindc (append_unlocked stamp x s) (\<lambda>_ s. append_lines stamp xs s)"

definition log_text :: "log_world \<Rightarrow> string" where
  "log_text w = concat (map snd (wd_files w))"

section \<open>Writing\<close>

lemma write_file_nothing [simp]: "write_file n [] w = w"
proof -
  have "(\<lambda>(m, c). if m = n then (m, c @ []) else (m, c)) = (id :: string \<times> string \<Rightarrow> _)" by auto
  then show ?thesis by (simp add: write_file_def)
qed

lemma write_file_twice [simp]: "write_file n b (write_file n a w) = write_file n (a @ b) w"
proof -
  have "(\<lambda>(m, c). if m = n then (m, c @ b) else (m, c)) \<circ> (\<lambda>(m, c). if m = n then (m, c @ a) else (m, c)) =
      (\<lambda>(m, c). if m = n then (m, c @ a @ b) else (m, c :: string))" for n :: string by auto
  then show ?thesis by (simp add: write_file_def)
qed

lemma write_file_takes: "write_file n a (w\<lparr>wd_takes := ts\<rparr>) = (write_file n a w)\<lparr>wd_takes := ts\<rparr>"
  by (simp add: write_file_def)

lemma write_file_fields [simp]:
  "wd_takes (write_file n a w) = wd_takes w" "wd_clock (write_file n a w) = wd_clock w"
  "wd_asked (write_file n a w) = wd_asked w" "wd_can_open (write_file n a w) = wd_can_open w"
  "map fst (wd_files (write_file n a w)) = map fst (wd_files w)"
  by (auto simp: write_file_def)

lemma FA_Write_takes:
  assumes "\<forall>t \<in> set (wd_takes w). 0 < t" and "rest \<noteq> []"
  shows "\<exists>x ts. FA_Write f rest w = (x, (write_file (fp f) (take x rest) w)\<lparr>wd_takes := ts\<rparr>) \<and> 0 < x \<and> x \<le> length rest \<and>
     set ts \<subseteq> set (wd_takes w)"
proof (cases "wd_takes w")
  case Nil
  then show ?thesis using assms(2)
    by (intro exI [of _ "length rest"] exI [of _ "[]"]) (auto simp: FA_Write_def write_file_def)
next
  case (Cons t ts)
  then show ?thesis using assms
    by (intro exI [of _ "min t (length rest)"] exI [of _ ts]) (auto simp: FA_Write_def write_file_takes min_def)
qed

lemma FA_append_loop_all:
  assumes "\<forall>t \<in> set (wd_takes w). 0 < t"
  shows "\<exists>ts. FA_append_loop f rest w = (write_file (fp f) rest w)\<lparr>wd_takes := ts\<rparr> \<and> set ts \<subseteq> set (wd_takes w)"
  using assms
proof (induction "length rest" arbitrary: rest w rule: less_induct)
  case less
  show ?case
  proof (cases "rest = []")
    case True
    then show ?thesis by (intro exI [of _ "wd_takes w"]) (simp add: FA_append_loop.simps)
  next
    case False
    obtain x ts where x: "FA_Write f rest w = (x, (write_file (fp f) (take x rest) w)\<lparr>wd_takes := ts\<rparr>)" "0 < x"
      "x \<le> length rest" "set ts \<subseteq> set (wd_takes w)"
      using FA_Write_takes [OF less.prems False] by blast
    let ?w = "(write_file (fp f) (take x rest) w)\<lparr>wd_takes := ts\<rparr>"
    obtain ts' where ts': "FA_append_loop f (drop x rest) ?w = (write_file (fp f) (drop x rest) ?w)\<lparr>wd_takes := ts'\<rparr>"
      "set ts' \<subseteq> set ts"
      using less.hyps [of "drop x rest" ?w] x False less.prems by auto
    have "FA_append_loop f rest w = FA_append_loop f (drop x rest) ?w"
      using x(1,2) False by (simp add: FA_append_loop.simps [of f rest])
    also have "\<dots> = (write_file (fp f) rest w)\<lparr>wd_takes := ts'\<rparr>"
      using ts'(1) by (simp add: write_file_takes)
    finally show ?thesis using ts'(2) x(4) by blast
  qed
qed

text \<open>However small the pieces in which \<open>fwrite\<close> takes a line, all of it is appended.\<close>

lemma FA_append_all:
  assumes "\<forall>t \<in> set (wd_takes w). 0 < t"
  shows "\<exists>ts. FA_append s f w = (f\<lparr>writtenBytes := writtenBytes f + int (length s)\<rparr>, (write_file (fp f) s w)\<lparr>wd_takes := ts\<rparr>) \<and>
     set ts \<subseteq> set (wd_takes w)"
proof (cases "s = []")
  case True
  then show ?thesis
    by (cases "wd_takes w") (auto simp: FA_append_def FA_Write_def FA_append_loop.simps)
next
  case False
  obtain x ts where x: "FA_Write f s w = (x, (write_file (fp f) (take x s) w)\<lparr>wd_takes := ts\<rparr>)" "0 < x" "x \<le> length s"
    "set ts \<subseteq> set (wd_takes w)"
    using FA_Write_takes [OF assms False] by blast
  let ?w = "(write_file (fp f) (take x s) w)\<lparr>wd_takes := ts\<rparr>"
  obtain ts' where "FA_append_loop f (drop x s) ?w = (write_file (fp f) (drop x s) ?w)\<lparr>wd_takes := ts'\<rparr>" "set ts' \<subseteq> set ts"
    using FA_append_loop_all [of ?w f "drop x s"] x(4) assms by auto
  then show ?thesis using x(1,4) by (auto simp: FA_append_def write_file_takes)
qed

section \<open>The files in order\<close>

definition stamp_ok :: "(int \<Rightarrow> string) \<Rightarrow> bool" where
  "stamp_ok stamp \<longleftrightarrow> (\<forall>a b. stamp a = stamp b \<longrightarrow> a = b)"

definition world_ok :: "log_world \<Rightarrow> bool" where
  "world_ok w \<longleftrightarrow> (\<forall>name. wd_can_open w name) \<and> (\<forall>t \<in> set (wd_takes w). 0 < t) \<and>
     (\<forall>i j. i \<le> j \<longrightarrow> wd_clock w i \<le> wd_clock w j)"

text \<open>The files are those of the times \<open>ts\<close>, the last of them is the open one, and its count is within the limit.\<close>

definition files_of :: "(int \<Rightarrow> string) \<Rightarrow> int list \<Rightarrow> logfile \<times> log_world \<Rightarrow> bool" where
  "files_of stamp ts s \<longleftrightarrow>
     (case s of (l, w) \<Rightarrow>
        map fst (wd_files w) = map (file_name stamp (lf_basename l)) ts \<and> sorted_wrt (<) ts \<and>
        (ts \<noteq> [] \<longrightarrow> fp (lf_file l) = file_name stamp (lf_basename l) (last ts)) \<and>
        (\<forall>t \<in> set ts. \<forall>k \<ge> wd_asked w. t \<le> wd_clock w k))"

lemma file_name_eq: "stamp_ok stamp \<Longrightarrow> file_name stamp b s = file_name stamp b t \<longleftrightarrow> s = t"
  by (auto simp: file_name_def stamp_ok_def)

lemma write_last:
  assumes "map fst fs = map f ts" and "ts \<noteq> []" and "\<forall>t \<in> set ts. f t = f (last ts) \<longrightarrow> t = last ts" and "distinct ts"
  shows "concat (map snd (map (\<lambda>(n, c). if n = f (last ts) then (n, c @ bs) else (n, c)) fs)) = concat (map snd fs) @ bs"
proof -
  obtain gs n c where fs: "fs = gs @ [(n, c)]" using assms(1,2) by (cases fs rule: rev_cases) auto
  obtain us t where ts: "ts = us @ [t]" using assms(2) by (cases ts rule: rev_cases) auto
  have g: "map fst gs = map f us" "n = f t" using assms(1) by (simp_all add: fs ts)
  have "map (\<lambda>(n, c). if n = f t then (n, c @ bs) else (n, c)) gs = gs"
  proof (rule map_idI)
    fix x assume "x \<in> set gs"
    then have "fst x \<in> f ` set us" using arg_cong [OF g(1), of set] by auto
    then show "(case x of (n, c) \<Rightarrow> if n = f t then (n, c @ bs) else (n, c)) = x"
      using assms(3,4) by (auto simp: ts split: prod.splits)
  qed
  then show ?thesis by (simp add: fs ts g(2))
qed

lemma sorted_distinct: "sorted_wrt (<) (ts :: int list) \<Longrightarrow> distinct ts"
  by (induction ts) auto

lemma write_open_file:
  assumes "stamp_ok stamp" and "files_of stamp ts (l, w)" and "ts \<noteq> []"
  shows "log_text (write_file (fp (lf_file l)) s w) = log_text w @ s"
  using assms write_last [of "wd_files w" "file_name stamp (lf_basename l)" ts s] sorted_distinct
  by (simp add: files_of_def log_text_def write_file_def file_name_eq)

lemma rollFile_runs:
  assumes "stamp_ok stamp" and "world_ok w" and "files_of stamp ts (l, w)"
  shows "\<exists>l' w' ts'. rollFile stamp (l, w) = (Inr (), l', w') \<and> world_ok w' \<and> files_of stamp ts' (l', w') \<and> ts' \<noteq> [] \<and>
     log_text w' = log_text w \<and> writtenBytes (lf_file l') = 0 \<and> rollSize l' = rollSize l \<and> lf_basename l' = lf_basename l \<and>
     wd_clock w' = wd_clock w \<and> set ts' \<subseteq> insert (wd_clock w (wd_asked w)) (set ts)"
proof -
  define now where "now = wd_clock w (wd_asked w)"
  define name where "name = file_name stamp (lf_basename l) now"
  define w1 where "w1 = w\<lparr>wd_asked := wd_asked w + 1\<rparr>"
  define l1 where "l1 = l\<lparr>lastRoll := now, lastFlush := now, startOfPeriod := start_of_day now,
    lf_file := \<lparr>fp = name, writtenBytes = 0\<rparr>\<rparr>"
  have run: "rollFile stamp (l, w) = (Inr (), l1, fopen_append name w1)"
    using assms(2) by (simp add: rollFile_def getlogfileName_def time_NULL_def FileAppend_new_def Let_def world_ok_def
        now_def name_def l1_def w1_def fopen_append_def)
  have names: "fst ` set (wd_files w) = file_name stamp (lf_basename l) ` set ts"
    using assms(3) by (simp add: files_of_def flip: set_map)
  have later: "\<forall>t \<in> set ts. t \<le> now" "\<forall>k \<ge> wd_asked w + 1. now \<le> wd_clock w k"
    using assms(2,3) by (auto simp: files_of_def now_def world_ok_def)
  have sorted: "sorted_wrt (<) ts" using assms(3) by (simp add: files_of_def)
  let ?ts = "if now \<in> set ts then ts else ts @ [now]"
  have last: "last ?ts = now" "?ts \<noteq> []" "sorted_wrt (<) ?ts"
  proof -
    show "?ts \<noteq> []" by auto
    show "sorted_wrt (<) ?ts" using sorted later(1) by (auto simp: sorted_wrt_append order_le_less)
    show "last ?ts = now"
    proof (cases "now \<in> set ts")
      case True
      then obtain us u where "ts = us @ [u]" by (cases ts rule: rev_cases) auto
      then show ?thesis using True sorted later(1) by (auto simp: sorted_wrt_append)
    qed simp
  qed
  have mem: "name \<in> fst ` set (wd_files w) \<longleftrightarrow> now \<in> set ts"
    using names file_name_eq [OF assms(1)] by (auto simp: name_def)
  have "files_of stamp ?ts (l1, fopen_append name w1)"
    using assms(3) last later mem by (auto simp: files_of_def fopen_append_def l1_def w1_def name_def)
  moreover have "world_ok (fopen_append name w1)" "log_text (fopen_append name w1) = log_text w"
    "wd_clock (fopen_append name w1) = wd_clock w"
    using assms(2) by (auto simp: world_ok_def fopen_append_def w1_def log_text_def)
  moreover have "set ?ts \<subseteq> insert now (set ts)" by auto
  ultimately show ?thesis using run last(2) unfolding now_def [symmetric]
    by (intro exI [of _ l1] exI [of _ "fopen_append name w1"] exI [of _ ?ts] conjI) (auto simp: l1_def)
qed

text \<open>A log in order: its files are those of times of the clock, the last one is open, and its count is within the limit.\<close>

definition log_open :: "(int \<Rightarrow> string) \<Rightarrow> (nat \<Rightarrow> int) \<Rightarrow> string \<Rightarrow> int \<Rightarrow> logfile \<times> log_world \<Rightarrow> bool" where
  "log_open stamp clock basename roll s \<longleftrightarrow>
     (case s of (l, w) \<Rightarrow>
        world_ok w \<and> wd_clock w = clock \<and> lf_basename l = basename \<and> rollSize l = roll \<and> 0 \<le> roll \<and>
        (\<exists>ts. ts \<noteq> [] \<and> files_of stamp ts s \<and> set ts \<subseteq> range clock))"

definition log_good :: "(int \<Rightarrow> string) \<Rightarrow> (nat \<Rightarrow> int) \<Rightarrow> string \<Rightarrow> int \<Rightarrow> logfile \<times> log_world \<Rightarrow> bool" where
  "log_good stamp clock basename roll s \<longleftrightarrow>
     log_open stamp clock basename roll s \<and> writtenBytes (lf_file (fst s)) \<le> roll"

lemma log_open_cong:
  assumes "log_open stamp clock basename roll (l, w)"
    and "lf_basename l' = lf_basename l" and "rollSize l' = rollSize l" and "fp (lf_file l') = fp (lf_file l)"
    and "wd_files w' = wd_files w" and "wd_clock w' = wd_clock w" and "wd_can_open w' = wd_can_open w"
    and "set (wd_takes w') \<subseteq> set (wd_takes w)" and "wd_asked w \<le> wd_asked w'"
  shows "log_open stamp clock basename roll (l', w')" and "log_text w' = log_text w"
proof -
  have "files_of stamp ts (l', w')" if "files_of stamp ts (l, w)" for ts using that assms by (auto simp: files_of_def)
  then show "log_open stamp clock basename roll (l', w')" using assms by (auto simp: log_open_def world_ok_def)
  show "log_text w' = log_text w" using assms(5) by (simp add: log_text_def)
qed

lemma rollFile_good:
  assumes "stamp_ok stamp" and "world_ok w" and "files_of stamp ts (l, w)" and "set ts \<subseteq> range (wd_clock w)" and "0 \<le> rollSize l"
  shows "\<exists>l' w'. rollFile stamp (l, w) = (Inr (), l', w') \<and> log_good stamp (wd_clock w) (lf_basename l) (rollSize l) (l', w') \<and>
     log_text w' = log_text w"
proof -
  from rollFile_runs [OF assms(1-3)] obtain l' w' ts' where
    r: "rollFile stamp (l, w) = (Inr (), l', w')" "world_ok w'" "files_of stamp ts' (l', w')" "ts' \<noteq> []"
      "log_text w' = log_text w" "writtenBytes (lf_file l') = 0" "rollSize l' = rollSize l" "lf_basename l' = lf_basename l"
      "wd_clock w' = wd_clock w" "set ts' \<subseteq> insert (wd_clock w (wd_asked w)) (set ts)" by (elim exE conjE)
  have "set ts' \<subseteq> range (wd_clock w)" using r(10) assms(4) by auto
  then show ?thesis using r assms(5) unfolding log_good_def log_open_def by (intro exI [of _ l'] exI [of _ w']) auto
qed

lemma rollFile_open:
  assumes "stamp_ok stamp" and "log_open stamp clock basename roll (l, w)"
  shows "\<exists>l' w'. rollFile stamp (l, w) = (Inr (), l', w') \<and> log_good stamp clock basename roll (l', w') \<and> log_text w' = log_text w"
  using assms(2) rollFile_good [OF assms(1), of w _ l] by (auto simp: log_open_def)

lemma FA_append_open:
  assumes "stamp_ok stamp" and "log_open stamp clock basename roll (l, w)"
  shows "\<exists>f w'. FA_append s (lf_file l) w = (f, w') \<and> log_open stamp clock basename roll (l\<lparr>lf_file := f\<rparr>, w') \<and>
     log_text w' = log_text w @ s"
proof -
  obtain ts where good: "world_ok w" "ts \<noteq> []" "files_of stamp ts (l, w)" using assms(2) by (auto simp: log_open_def)
  obtain tks where app: "FA_append s (lf_file l) w = ((lf_file l)\<lparr>writtenBytes := writtenBytes (lf_file l) + int (length s)\<rparr>,
      (write_file (fp (lf_file l)) s w)\<lparr>wd_takes := tks\<rparr>)" "set tks \<subseteq> set (wd_takes w)"
    using FA_append_all [of w s "lf_file l"] good(1) by (auto simp: world_ok_def)
  have "files_of stamp ts (l\<lparr>lf_file := (lf_file l)\<lparr>writtenBytes := n\<rparr>\<rparr>, (write_file (fp (lf_file l)) s w)\<lparr>wd_takes := tks\<rparr>)"
    if "files_of stamp ts (l, w)" for n ts using that by (auto simp: files_of_def)
  then show ?thesis
    using app assms(2) write_open_file [OF assms(1) good(3,2), of s]
    by (auto simp: log_open_def world_ok_def log_text_def)
qed

lemma append_unlocked_good:
  assumes "stamp_ok stamp" and "log_open stamp clock basename roll (l, w)"
  shows "\<exists>l' w'. append_unlocked stamp s (l, w) = (Inr (), l', w') \<and> log_good stamp clock basename roll (l', w') \<and>
     log_text w' = log_text w @ s"
proof -
  obtain f w1 where f: "FA_append s (lf_file l) w = (f, w1)" "log_open stamp clock basename roll (l\<lparr>lf_file := f\<rparr>, w1)"
    "log_text w1 = log_text w @ s" using FA_append_open [OF assms, of s] by (elim exE conjE)
  have roll: "rollSize l = roll" using f(2) by (simp add: log_open_def)
  have other: "log_open stamp clock basename roll (l', w')" "log_text w' = log_text w @ s"
    if "lf_basename l' = lf_basename l" "rollSize l' = rollSize l" "lf_file l' = f" "w' = w1 \<or> w' = w1\<lparr>wd_asked := wd_asked w1 + 1\<rparr>"
    for l' w'
    using log_open_cong [OF f(2), of l' w'] f(3) that by auto
  have rolled: "\<exists>l'' w''. rollFile stamp (l', w') = (Inr (), l'', w'') \<and> log_good stamp clock basename roll (l'', w'') \<and>
      concat (map snd (wd_files w'')) = log_text w @ s"
    if "lf_basename l' = lf_basename l" "rollSize l' = rollSize l" "lf_file l' = f" "w' = w1 \<or> w' = w1\<lparr>wd_asked := wd_asked w1 + 1\<rparr>"
    for l' w'
    using rollFile_open [OF assms(1) other(1) [OF that]] other(2) [OF that] by (simp add: log_text_def)
  show ?thesis
    unfolding append_unlocked_def prod.case f(1) using rolled other(1) roll f(3)
    by (simp add: Let_def time_NULL_def log_good_def log_text_def)
qed

lemma append_lines_good:
  assumes "stamp_ok stamp" and "log_good stamp clock basename roll (l, w)"
  shows "\<exists>l' w'. append_lines stamp ls (l, w) = (Inr (), l', w') \<and> log_good stamp clock basename roll (l', w') \<and>
     log_text w' = log_text w @ concat ls"
  using assms(2)
proof (induction ls arbitrary: l w)
  case (Cons x xs)
  from append_unlocked_good [OF assms(1), of clock basename roll l w x] Cons.prems obtain l1 w1 where
    1: "append_unlocked stamp x (l, w) = (Inr (), l1, w1)" "log_good stamp clock basename roll (l1, w1)" "log_text w1 = log_text w @ x"
    by (auto simp: log_good_def)
  show ?case using Cons.IH [OF 1(2)] 1(1,3) by auto
qed auto

lemma logfile_new_good:
  assumes "stamp_ok stamp" and "world_ok w" and "wd_files w = []" and "CHR ''/'' \<notin> set basename" and "0 \<le> roll"
  shows "\<exists>l w'. logfile_new stamp basename roll flush check w = (Inr (), l, w') \<and>
     log_good stamp (wd_clock w) basename roll (l, w') \<and> log_text w' = []"
proof -
  let ?l = "\<lparr>lf_basename = basename, rollSize = roll, flushInterval = flush, checkEveryN = check, lf_count = 0,
     startOfPeriod = 0, lastRoll = 0, lastFlush = 0, lf_file = \<lparr>fp = [], writtenBytes = 0\<rparr>\<rparr>"
  have "files_of stamp [] (?l, w)" using assms(3) by (simp add: files_of_def)
  then show ?thesis using rollFile_good [OF assms(1,2), of "[]" ?l] assms(3-5) by (auto simp: logfile_new_def log_text_def)
qed

lemma log_good_same_time:
  assumes "log_good stamp (\<lambda>_. c) basename roll (l, w)"
  shows "wd_files w = [(file_name stamp basename c, log_text w)]"
proof -
  obtain ts where ts: "ts \<noteq> []" "map fst (wd_files w) = map (file_name stamp basename) ts" "sorted_wrt (<) ts" "set ts \<subseteq> {c}"
    using assms by (auto simp: log_good_def log_open_def files_of_def)
  have "ts = [c]"
  proof (cases ts)
    case (Cons a us)
    have "us = []" using ts(3,4) by (cases us) (auto simp: Cons)
    then show ?thesis using ts(4) Cons by simp
  qed (use ts(1) in simp)
  then obtain d where "wd_files w = [(file_name stamp basename c, d)]" using ts(2) by auto
  then show ?thesis by (simp add: log_text_def)
qed

section \<open>Properties\<close>

text \<open>C30: In however small pieces \<open>fwrite\<close> takes the lines, and whenever files are changed, the files in the order of
  their creation hold all the lines in order, and the count of the open file does not exceed the limit.\<close>

theorem log_files_in_order:
  assumes "stamp_ok stamp" and "world_ok w" and "wd_files w = []" and "CHR ''/'' \<notin> set basename" and "0 \<le> roll"
  shows "\<exists>l w1 l' w'. logfile_new stamp basename roll flush check w = (Inr (), l, w1) \<and>
     append_lines stamp ls (l, w1) = (Inr (), l', w') \<and> log_text w' = concat ls \<and> writtenBytes (lf_file l') \<le> roll"
proof -
  obtain l w1 where n: "logfile_new stamp basename roll flush check w = (Inr (), l, w1)"
    "log_good stamp (wd_clock w) basename roll (l, w1)" "log_text w1 = []"
    using logfile_new_good [OF assms, of flush check] by (elim exE conjE)
  obtain l' w' where a: "append_lines stamp ls (l, w1) = (Inr (), l', w')" "log_good stamp (wd_clock w) basename roll (l', w')"
    "log_text w' = log_text w1 @ concat ls"
    using append_lines_good [OF assms(1) n(2), of ls] by (elim exE conjE)
  show ?thesis using n a by (intro exI [of _ l] exI [of _ w1] exI [of _ l'] exI [of _ w']) (simp add: log_good_def)
qed

definition sample_stamp :: "int \<Rightarrow> string" where
  "sample_stamp t = (if t < 0 then CHR ''-'' else CHR ''+'') # replicate (nat \<bar>t\<bar>) CHR ''x''"

lemma sample_stamp_ok: "stamp_ok sample_stamp"
proof -
  have "s = t" if "sample_stamp s = sample_stamp t" for s t
  proof -
    have "length (sample_stamp s) = length (sample_stamp t)" "hd (sample_stamp s) = hd (sample_stamp t)" using that by simp_all
    then show ?thesis by (auto simp: sample_stamp_def split: if_splits)
  qed
  then show ?thesis by (simp add: stamp_ok_def)
qed

theorem log_files_in_order_witness:
  "\<exists>l w1 l' w'. logfile_new sample_stamp ''web'' 4 15 1
       \<lparr>wd_files = [], wd_can_open = \<lambda>_. True, wd_takes = [2, 1, 3], wd_clock = \<lambda>k. 86399 + int k, wd_asked = 0\<rparr> = (Inr (), l, w1) \<and>
     append_lines sample_stamp [''abcdef'', ''gh'', ''i''] (l, w1) = (Inr (), l', w') \<and> log_text w' = ''abcdefghi''"
  using log_files_in_order [OF sample_stamp_ok, of "\<lparr>wd_files = [], wd_can_open = \<lambda>_. True, wd_takes = [2, 1, 3], wd_clock = \<lambda>k. 86399 + int k, wd_asked = 0\<rparr>"
      "''web''" 4 15 1 "[''abcdef'', ''gh'', ''i'']"]
  by (fastforce simp: world_ok_def)

text \<open>The name of a log file has the time in seconds only: within one second every change of the file opens the same file again with
  a count of zero, so that all lines end up in one file, whatever its limit is.\<close>

theorem file_outgrows_roll_size:
  assumes "stamp_ok stamp" and "world_ok w" and "wd_files w = []" and "CHR ''/'' \<notin> set basename" and "0 \<le> roll"
    and "wd_clock w = (\<lambda>_. c)"
  shows "\<exists>l w1 l' w'. logfile_new stamp basename roll flush check w = (Inr (), l, w1) \<and>
     append_lines stamp ls (l, w1) = (Inr (), l', w') \<and> wd_files w' = [(file_name stamp basename c, concat ls)]"
proof -
  obtain l w1 where n: "logfile_new stamp basename roll flush check w = (Inr (), l, w1)"
    "log_good stamp (\<lambda>_. c) basename roll (l, w1)" "log_text w1 = []"
    using logfile_new_good [OF assms(1-5), of flush check] assms(6) by auto
  obtain l' w' where a: "append_lines stamp ls (l, w1) = (Inr (), l', w')" "log_good stamp (\<lambda>_. c) basename roll (l', w')"
    "log_text w' = log_text w1 @ concat ls"
    using append_lines_good [OF assms(1) n(2), of ls] by (elim exE conjE)
  show ?thesis using n a log_good_same_time [OF a(2)] by (intro exI [of _ l] exI [of _ w1] exI [of _ l'] exI [of _ w']) simp
qed

theorem file_outgrows_roll_size_witness:
  "\<exists>l w1 l' w'. logfile_new sample_stamp ''web'' 4 15 1024
       \<lparr>wd_files = [], wd_can_open = \<lambda>_. True, wd_takes = [], wd_clock = \<lambda>_. 5, wd_asked = 0\<rparr> = (Inr (), l, w1) \<and>
     append_lines sample_stamp [''abcdef'', ''ghijkl''] (l, w1) = (Inr (), l', w') \<and>
     wd_files w' = [(''web+xxxxxYuanmxc.log'', ''abcdefghijkl'')]"
  using file_outgrows_roll_size [OF sample_stamp_ok, of "\<lparr>wd_files = [], wd_can_open = \<lambda>_. True, wd_takes = [], wd_clock = \<lambda>_. 5, wd_asked = 0\<rparr>"
      "''web''" 4 5 15 1024 "[''abcdef'', ''ghijkl'']"]
  by (auto simp: world_ok_def file_name_def sample_stamp_def eval_nat_numeral)

end
