(* ===== verification/Async_Logging.thy ===== *)
theory Async_Logging
  imports Log_Stream Log_File
begin

text \<open>
  \<open>src/src/log/asynclogging.h\<close> and \<open>asynclogging.cc\<close>: lines are appended to buffers under a mutex, and a
  thread takes the buffers and writes them to the log file. A step is what happens between two places where
  another thread can interfere: \<open>append\<close>, the part of the thread's loop under the mutex up to the wait, that behind
  the wait, and the writing. A \<open>unique_ptr\<close> is an option; the size of the buffers is a parameter of the
  model, \<open>LargerBuffer\<close> in the code.
\<close>

section \<open>The two threads\<close>

datatype worker_place = Loop_top | Waiting | Writing | Ended

record AsyncLogging =
  al_running :: bool
  currentBuffer :: "FixedBuffer option"
  nextBuffer :: "FixedBuffer option"
  buffers :: "FixedBuffer option list"
  al_place :: worker_place
  newBuffer1 :: "FixedBuffer option"
  newBuffer2 :: "FixedBuffer option"
  WriteLog :: "FixedBuffer option list"
  al_output :: "logfile \<times> log_world"

text \<open>The constructor and \<open>start\<close>, up to the first turn of the thread's loop.\<close>

definition AL_start :: "nat \<Rightarrow> (int \<Rightarrow> string) \<Rightarrow> string \<Rightarrow> int \<Rightarrow> log_world \<Rightarrow> (AsyncLogging, unit) cpp" where
  "AL_start cap stamp basename rollsize w =
     (case logfile_new stamp basename rollsize 15 1024 w of
        (r, lw) \<Rightarrow>
          (r, \<lparr>al_running = True, currentBuffer = Some (setZero (FixedBuffer_new cap)), nextBuffer = Some (setZero (FixedBuffer_new cap)),
               buffers = [], al_place = Loop_top, newBuffer1 = Some (setZero (FixedBuffer_new cap)),
               newBuffer2 = Some (setZero (FixedBuffer_new cap)), WriteLog = [], al_output = lw\<rparr>))"

definition AL_stop :: "AsyncLogging \<Rightarrow> AsyncLogging" where
  "AL_stop s = s\<lparr>al_running := False\<rparr>"

text \<open>Appending to the buffer that a pointer has.\<close>

definition append_current :: "string \<Rightarrow> AsyncLogging \<Rightarrow> (AsyncLogging, unit) cpp" where
  "append_current line s =
     (case currentBuffer s of
        None \<Rightarrow> (Inl Null_deref, s)
      | Some b \<Rightarrow> (case FB_append line b of (r, b) \<Rightarrow> (r, s\<lparr>currentBuffer := Some b\<rparr>)))"

definition AL_append :: "nat \<Rightarrow> string \<Rightarrow> AsyncLogging \<Rightarrow> (AsyncLogging, unit) cpp" where
  "AL_append cap line s =
     (case currentBuffer s of
        None \<Rightarrow> (Inl Null_deref, s)
      | Some b \<Rightarrow>
          if avail b > of_nat (length line) then append_current line s
          else
            let s = s\<lparr>buffers := buffers s @ [currentBuffer s], currentBuffer := None\<rparr>;
                s = (case nextBuffer s of
                       Some n \<Rightarrow> s\<lparr>currentBuffer := Some n, nextBuffer := None\<rparr>
                     | None \<Rightarrow> s\<lparr>currentBuffer := Some (FixedBuffer_new cap)\<rparr>)
            in append_current line s)"

text \<open>Under the mutex, behind the wait: the buffers are taken and replaced.\<close>

definition take_buffers :: "AsyncLogging \<Rightarrow> AsyncLogging" where
  "take_buffers s =
     (let s = s\<lparr>buffers := buffers s @ [currentBuffer s], currentBuffer := newBuffer1 s, newBuffer1 := None\<rparr>;
          s = s\<lparr>WriteLog := buffers s, buffers := WriteLog s\<rparr>;
          s = (if nextBuffer s = None then s\<lparr>nextBuffer := newBuffer2 s, newBuffer2 := None\<rparr> else s)
      in s\<lparr>al_place := Writing\<rparr>)"

definition AL_enter :: "AsyncLogging \<Rightarrow> AsyncLogging" where
  "AL_enter s =
     (if al_running s then if buffers s = [] then s\<lparr>al_place := Waiting\<rparr> else take_buffers s
      else s\<lparr>al_place := Ended\<rparr>)"

definition out_append :: "(int \<Rightarrow> string) \<Rightarrow> string \<Rightarrow> AsyncLogging \<Rightarrow> (AsyncLogging, unit) cpp" where
  "out_append stamp line s = (case append_unlocked stamp line (al_output s) of (r, lw) \<Rightarrow> (r, s\<lparr>al_output := lw\<rparr>))"

fun write_buffers :: "(int \<Rightarrow> string) \<Rightarrow> FixedBuffer option list \<Rightarrow> AsyncLogging \<Rightarrow> (AsyncLogging, unit) cpp" where
  "write_buffers stamp [] s = (Inr (), s)"
| "write_buffers stamp (None # bs) s = (Inl Null_deref, s)"
| "write_buffers stamp (Some b # bs) s =
     (case FB_toString b of
        Inl e \<Rightarrow> (Inl e, s)
      | Inr line \<Rightarrow> bindc (out_append stamp line s) (\<lambda>_ s. write_buffers stamp bs s))"

text \<open>\<open>back\<close>, \<open>pop_back\<close> and \<open>setSpotBegin\<close> for a buffer that is to be used again.\<close>

definition reuse_back :: "AsyncLogging \<Rightarrow> (AsyncLogging, FixedBuffer) cpp" where
  "reuse_back s =
     (if WriteLog s = [] then (Inl Bad_access, s)
      else
        case last (WriteLog s) of
          None \<Rightarrow> (Inl Null_deref, s)
        | Some b \<Rightarrow> (Inr (setSpotBegin b), s\<lparr>WriteLog := butlast (WriteLog s)\<rparr>))"

definition reuse_buffers :: "AsyncLogging \<Rightarrow> (AsyncLogging, unit) cpp" where
  "reuse_buffers s =
     bindc (if newBuffer1 s = None then bindc (reuse_back s) (\<lambda>b s. (Inr (), s\<lparr>newBuffer1 := Some b\<rparr>)) else (Inr (), s)) (\<lambda>_ s.
       if newBuffer2 s = None then bindc (reuse_back s) (\<lambda>b s. (Inr (), s\<lparr>newBuffer2 := Some b\<rparr>)) else (Inr (), s))"

definition drop_pile :: "(int \<Rightarrow> string) \<Rightarrow> string \<Rightarrow> AsyncLogging \<Rightarrow> (AsyncLogging, unit) cpp" where
  "drop_pile stamp dropped s =
     (if length (WriteLog s) > 25
      then bindc (out_append stamp dropped s) (\<lambda>_ s. (Inr (), s\<lparr>WriteLog := take 2 (WriteLog s)\<rparr>))
      else (Inr (), s))"

text \<open>The loop's body behind the mutex; \<open>dropped\<close> is the text about dropped messages.\<close>

definition AL_write :: "(int \<Rightarrow> string) \<Rightarrow> string \<Rightarrow> AsyncLogging \<Rightarrow> (AsyncLogging, unit) cpp" where
  "AL_write stamp dropped s =
     bindc (drop_pile stamp dropped s) (\<lambda>_ s.
     bindc (write_buffers stamp (WriteLog s) s) (\<lambda>_ s.
     bindc (reuse_buffers (if length (WriteLog s) > 2 then s\<lparr>WriteLog := take 2 (WriteLog s)\<rparr> else s)) (\<lambda>_ s.
       (Inr (), s\<lparr>WriteLog := [], al_place := Loop_top\<rparr>))))"

datatype al_event = Append string | Stop | Worker string

definition AL_worker :: "(int \<Rightarrow> string) \<Rightarrow> string \<Rightarrow> AsyncLogging \<Rightarrow> (AsyncLogging, unit) cpp" where
  "AL_worker stamp dropped s =
     (case al_place s of
        Loop_top \<Rightarrow> (Inr (), AL_enter s)
      | Waiting \<Rightarrow> (Inr (), take_buffers s)
      | Writing \<Rightarrow> AL_write stamp dropped s
      | Ended \<Rightarrow> (Inr (), s))"

fun al_step :: "nat \<Rightarrow> (int \<Rightarrow> string) \<Rightarrow> al_event \<Rightarrow> AsyncLogging \<Rightarrow> (AsyncLogging, unit) cpp" where
  "al_step cap stamp (Append line) s = AL_append cap line s"
| "al_step cap stamp Stop s = (Inr (), AL_stop s)"
| "al_step cap stamp (Worker dropped) s = AL_worker stamp dropped s"

fun al_run :: "nat \<Rightarrow> (int \<Rightarrow> string) \<Rightarrow> al_event list \<Rightarrow> AsyncLogging \<Rightarrow> (AsyncLogging, unit) cpp" where
  "al_run cap stamp [] s = (Inr (), s)"
| "al_run cap stamp (e # es) s = bindc (al_step cap stamp e s) (\<lambda>_ s. al_run cap stamp es s)"

section \<open>The invariant\<close>

definition sound :: "nat \<Rightarrow> FixedBuffer \<Rightarrow> bool" where
  "sound cap b \<longleftrightarrow> FB_ok b \<and> length (fb_Buffer b) = cap"

text \<open>A pointer to a sound buffer without text.\<close>

definition blank :: "nat \<Rightarrow> FixedBuffer option \<Rightarrow> bool" where
  "blank cap p \<longleftrightarrow> (\<exists>b. p = Some b \<and> sound cap b \<and> FB_text b = [])"

definition full :: "nat \<Rightarrow> FixedBuffer option \<Rightarrow> bool" where
  "full cap p \<longleftrightarrow> (\<exists>b. p = Some b \<and> sound cap b)"

fun text_at :: "FixedBuffer option \<Rightarrow> string" where
  "text_at None = []"
| "text_at (Some b) = FB_text b"

text \<open>What waits for being written, oldest first.\<close>

definition al_pending :: "AsyncLogging \<Rightarrow> string" where
  "al_pending s = concat (map text_at (WriteLog s)) @ concat (map text_at (buffers s)) @ text_at (currentBuffer s)"

definition al_inv :: "nat \<Rightarrow> AsyncLogging \<Rightarrow> bool" where
  "al_inv cap s \<longleftrightarrow>
     full cap (currentBuffer s) \<and> list_all (full cap) (buffers s) \<and>
     (nextBuffer s = None \<and> buffers s \<noteq> [] \<or> blank cap (nextBuffer s)) \<and>
     (if al_place s = Writing
      then list_all (full cap) (WriteLog s) \<and> WriteLog s \<noteq> [] \<and> newBuffer1 s = None \<and>
        (newBuffer2 s = None \<and> 2 \<le> length (WriteLog s) \<or> blank cap (newBuffer2 s))
      else WriteLog s = [] \<and> blank cap (newBuffer1 s) \<and> blank cap (newBuffer2 s))"

lemma blank_full: "blank cap p \<Longrightarrow> full cap p"
  by (auto simp: blank_def full_def)

lemma blank_text: "blank cap p \<Longrightarrow> text_at p = []"
  by (auto simp: blank_def)

lemma blank_new: "cap < 2 ^ 32 \<Longrightarrow> blank cap (Some (FixedBuffer_new cap))"
  "cap < 2 ^ 32 \<Longrightarrow> blank cap (Some (setZero (FixedBuffer_new cap)))"
  by (simp_all add: blank_def sound_def setZero_def FixedBuffer_new_def FB_ok_def FB_text_def)

lemma blank_setSpotBegin: "sound cap b \<Longrightarrow> blank cap (Some (setSpotBegin b))"
  by (simp add: blank_def sound_def setSpotBegin_def FB_ok_def FB_text_def)

lemma append_current_ok:
  assumes "currentBuffer s = Some b" and "sound cap b"
  shows "\<exists>b'. append_current line s = (Inr (), s\<lparr>currentBuffer := Some b'\<rparr>) \<and> sound cap b' \<and>
     FB_text b' = FB_text b @ (if length line < FB_room b then line else [])"
  using FB_append_ok [of b line] assms by (auto simp: append_current_def sound_def)

lemma AL_append_ok:
  assumes "al_inv cap s" and "cap < 2 ^ 32" and "length line < 2 ^ 31"
  shows "\<exists>s'. AL_append cap line s = (Inr (), s') \<and> al_inv cap s' \<and>
     al_pending s' = al_pending s @ (if length line < cap then line else []) \<and>
     al_place s' = al_place s \<and> al_running s' = al_running s \<and> al_output s' = al_output s \<and> WriteLog s' = WriteLog s"
proof -
  obtain b where b: "currentBuffer s = Some b" "sound cap b" using assms(1) by (auto simp: al_inv_def full_def)
  have "unat (of_nat (length line) :: 32 word) = length line" using assms(3) by (simp add: unat_of_nat)
  then have fits: "avail b > of_nat (length line) \<longleftrightarrow> length line < FB_room b"
    using unat_avail [of b] b(2) by (simp add: sound_def word_less_nat_alt)
  have room: "FB_room b \<le> cap" using b(2) by (auto simp: sound_def FB_room_def)
  show ?thesis
  proof (cases "length line < FB_room b")
    case True
    then show ?thesis
      using append_current_ok [OF b, of line] b(1) assms(1) fits room
      by (auto simp: AL_append_def al_inv_def al_pending_def full_def)
  next
    case False
    define c where "c = (case nextBuffer s of Some n \<Rightarrow> n | None \<Rightarrow> FixedBuffer_new cap)"
    define s1 where "s1 = s\<lparr>buffers := buffers s @ [currentBuffer s], currentBuffer := Some c, nextBuffer := None\<rparr>"
    have c: "blank cap (Some c)"
      using assms(1) blank_new(1) [OF assms(2)] by (auto simp: c_def al_inv_def blank_def split: option.splits)
    then have sc: "sound cap c" "FB_text c = []" "FB_room c = cap" using FB_room_text [of c] by (auto simp: blank_def sound_def)
    have run: "AL_append cap line s = append_current line s1"
    proof (cases "nextBuffer s")
      case None
      then have "s1 = s\<lparr>buffers := buffers s @ [currentBuffer s], currentBuffer := Some c\<rparr>" by (cases s) (simp add: s1_def)
      then show ?thesis using None False fits b(1) by (simp add: AL_append_def c_def)
    qed (use False fits b(1) in \<open>simp add: AL_append_def s1_def c_def\<close>)
    obtain c' where c': "append_current line s1 = (Inr (), s1\<lparr>currentBuffer := Some c'\<rparr>)" "sound cap c'"
      "FB_text c' = (if length line < cap then line else [])"
      using append_current_ok [of s1 c cap line] sc by (auto simp: s1_def)
    have "al_inv cap (s1\<lparr>currentBuffer := Some c'\<rparr>)"
      using assms(1) c'(2) b by (auto simp: al_inv_def s1_def full_def)
    then show ?thesis using run c' b(1) by (auto simp: al_pending_def s1_def)
  qed
qed

lemma take_buffers_ok:
  assumes "al_inv cap s" and "al_place s \<noteq> Writing"
  shows "al_inv cap (take_buffers s)" "al_pending (take_buffers s) = al_pending s" "al_output (take_buffers s) = al_output s"
    "al_place (take_buffers s) = Writing" "WriteLog (take_buffers s) \<noteq> []" "al_running (take_buffers s) = al_running s"
proof -
  have inv: "WriteLog s = []" "full cap (currentBuffer s)" "list_all (full cap) (buffers s)" "blank cap (newBuffer1 s)"
    "blank cap (newBuffer2 s)" "nextBuffer s = None \<and> buffers s \<noteq> [] \<or> blank cap (nextBuffer s)"
    using assms by (auto simp: al_inv_def)
  show "al_inv cap (take_buffers s)"
    using inv blank_full [OF inv(4)] by (cases "buffers s") (auto simp: al_inv_def take_buffers_def Let_def blank_def)
  show "al_pending (take_buffers s) = al_pending s"
    using inv(1) blank_text [OF inv(4)] by (simp add: al_pending_def take_buffers_def Let_def)
qed (simp_all add: take_buffers_def Let_def)

lemma out_append_ok:
  assumes "stamp_ok stamp" and "log_good stamp clock basename roll (al_output s)"
  shows "\<exists>lw. out_append stamp line s = (Inr (), s\<lparr>al_output := lw\<rparr>) \<and> log_good stamp clock basename roll lw \<and>
     log_text (snd lw) = log_text (snd (al_output s)) @ line"
proof -
  have "log_open stamp clock basename roll (fst (al_output s), snd (al_output s))" using assms(2) by (simp add: log_good_def)
  from append_unlocked_good [OF assms(1) this, of line] obtain l' w' where
    "append_unlocked stamp line (al_output s) = (Inr (), l', w')" "log_good stamp clock basename roll (l', w')"
    "log_text w' = log_text (snd (al_output s)) @ line" by auto
  then show ?thesis by (intro exI [of _ "(l', w')"]) (simp add: out_append_def)
qed

lemma write_buffers_ok:
  assumes "stamp_ok stamp" and "log_good stamp clock basename roll (al_output s)" and "list_all (full cap) bs"
  shows "\<exists>lw. write_buffers stamp bs s = (Inr (), s\<lparr>al_output := lw\<rparr>) \<and> log_good stamp clock basename roll lw \<and>
     log_text (snd lw) = log_text (snd (al_output s)) @ concat (map text_at bs)"
  using assms(2,3)
proof (induction bs arbitrary: s)
  case Nil
  then show ?case by (intro exI [of _ "al_output s"]) simp
next
  case (Cons p bs)
  obtain b where b: "p = Some b" "sound cap b" using Cons.prems(2) by (auto simp: full_def)
  obtain lw where lw: "out_append stamp (FB_text b) s = (Inr (), s\<lparr>al_output := lw\<rparr>)" "log_good stamp clock basename roll lw"
    "log_text (snd lw) = log_text (snd (al_output s)) @ FB_text b"
    using out_append_ok [OF assms(1) Cons.prems(1)] by blast
  show ?case
    using Cons.IH [of "s\<lparr>al_output := lw\<rparr>"] Cons.prems(2) lw b by (auto simp: FB_toString_ok sound_def)
qed

text \<open>What a turn writes of its batch.\<close>

definition batch_text :: "string \<Rightarrow> FixedBuffer option list \<Rightarrow> string" where
  "batch_text dropped bs =
     (if length bs > 25 then dropped @ concat (map text_at (take 2 bs)) else concat (map text_at bs))"

lemma drop_pile_ok:
  assumes "stamp_ok stamp" and "log_good stamp clock basename roll (al_output s)"
  shows "\<exists>lw. drop_pile stamp dropped s =
       (Inr (), s\<lparr>al_output := lw, WriteLog := if length (WriteLog s) > 25 then take 2 (WriteLog s) else WriteLog s\<rparr>) \<and>
     log_good stamp clock basename roll lw \<and>
     log_text (snd lw) = log_text (snd (al_output s)) @ (if length (WriteLog s) > 25 then dropped else [])"
proof (cases "length (WriteLog s) > 25")
  case True
  obtain lw where "out_append stamp dropped s = (Inr (), s\<lparr>al_output := lw\<rparr>)" "log_good stamp clock basename roll lw"
    "log_text (snd lw) = log_text (snd (al_output s)) @ dropped" using out_append_ok [OF assms, of dropped] by blast
  then show ?thesis using True by (intro exI [of _ lw]) (simp add: drop_pile_def)
next
  case False
  then show ?thesis using assms(2) by (intro exI [of _ "al_output s"]) (simp add: drop_pile_def)
qed

lemma reuse_back_ok:
  assumes "list_all (full cap) (WriteLog s)" and "WriteLog s \<noteq> []"
  shows "\<exists>b. reuse_back s = (Inr b, s\<lparr>WriteLog := butlast (WriteLog s)\<rparr>) \<and> blank cap (Some b)"
proof -
  obtain b where b: "last (WriteLog s) = Some b" "sound cap b"
    using assms(1) last_in_set [OF assms(2)] by (auto simp: list_all_iff full_def)
  then show ?thesis using blank_setSpotBegin assms(2) by (auto simp: reuse_back_def)
qed

lemma full_take: "list_all (full cap) bs \<Longrightarrow> list_all (full cap) (take n bs)"
  by (auto simp: list_all_iff dest: in_set_takeD)

lemma full_butlast: "list_all (full cap) bs \<Longrightarrow> list_all (full cap) (butlast bs)"
  by (auto simp: list_all_iff dest: in_set_butlastD)

lemma output_first: "s\<lparr>WriteLog := bs, al_output := lw\<rparr> = s\<lparr>al_output := lw, WriteLog := bs\<rparr>"
  by (cases s) simp

text \<open>The two buffers that the thread needs again are there.\<close>

lemma reuse_both:
  assumes "list_all (full cap) (WriteLog s)" and "WriteLog s \<noteq> []" and "newBuffer1 s = None"
    and "newBuffer2 s = None \<and> 2 \<le> length (WriteLog s) \<or> blank cap (newBuffer2 s)"
  shows "\<exists>p q bs. reuse_buffers s = (Inr (), s\<lparr>WriteLog := bs, newBuffer1 := p, newBuffer2 := q\<rparr>) \<and> blank cap p \<and> blank cap q"
proof -
  obtain b where b: "reuse_back s = (Inr b, s\<lparr>WriteLog := butlast (WriteLog s)\<rparr>)" "blank cap (Some b)"
    using reuse_back_ok [OF assms(1,2)] by blast
  let ?s = "s\<lparr>WriteLog := butlast (WriteLog s), newBuffer1 := Some b\<rparr>"
  show ?thesis
  proof (cases "newBuffer2 s = None")
    case True
    then have "2 \<le> length (WriteLog s)" using assms(4) by (auto simp: blank_def)
    then have "butlast (WriteLog s) \<noteq> []" by (cases "WriteLog s" rule: rev_cases) auto
    then obtain c where "reuse_back ?s = (Inr c, ?s\<lparr>WriteLog := butlast (WriteLog ?s)\<rparr>)" "blank cap (Some c)"
      using reuse_back_ok [of cap ?s] full_butlast [OF assms(1)] by auto
    then show ?thesis using b True assms(3)
      by (intro exI [of _ "Some b"] exI [of _ "Some c"] exI [of _ "butlast (butlast (WriteLog s))"]) (simp add: reuse_buffers_def)
  next
    case False
    then have "?s = s\<lparr>WriteLog := butlast (WriteLog s), newBuffer1 := Some b, newBuffer2 := newBuffer2 s\<rparr>" by simp
    then show ?thesis using b False assms(3,4)
      by (intro exI [of _ "Some b"] exI [of _ "newBuffer2 s"] exI [of _ "butlast (WriteLog s)"]) (auto simp: reuse_buffers_def)
  qed
qed

lemma AL_write_ok:
  assumes "stamp_ok stamp" and "al_inv cap s" and "al_place s = Writing" and "log_good stamp clock basename roll (al_output s)"
  shows "\<exists>s'. AL_write stamp dropped s = (Inr (), s') \<and> al_inv cap s' \<and> al_place s' = Loop_top \<and> al_running s' = al_running s \<and>
     log_good stamp clock basename roll (al_output s') \<and>
     log_text (snd (al_output s')) = log_text (snd (al_output s)) @ batch_text dropped (WriteLog s) \<and>
     al_pending s' = concat (map text_at (buffers s)) @ text_at (currentBuffer s)"
proof -
  define bs where "bs = (if length (WriteLog s) > 25 then take 2 (WriteLog s) else WriteLog s)"
  define cs where "cs = (if length bs > 2 then take 2 bs else bs)"
  have inv: "list_all (full cap) (WriteLog s)" "WriteLog s \<noteq> []" "newBuffer1 s = None"
    "newBuffer2 s = None \<and> 2 \<le> length (WriteLog s) \<or> blank cap (newBuffer2 s)" using assms(2,3) by (auto simp: al_inv_def)
  obtain lw1 where d: "drop_pile stamp dropped s = (Inr (), s\<lparr>al_output := lw1, WriteLog := bs\<rparr>)" "log_good stamp clock basename roll lw1"
    "log_text (snd lw1) = log_text (snd (al_output s)) @ (if length (WriteLog s) > 25 then dropped else [])"
    using drop_pile_ok [OF assms(1,4), of dropped] unfolding bs_def by blast
  have full: "list_all (full cap) bs" "list_all (full cap) cs" using inv(1) full_take by (simp_all add: bs_def cs_def)
  obtain lw2 where w: "write_buffers stamp bs (s\<lparr>al_output := lw1, WriteLog := bs\<rparr>) = (Inr (), s\<lparr>al_output := lw2, WriteLog := bs\<rparr>)"
    "log_good stamp clock basename roll lw2" "log_text (snd lw2) = log_text (snd lw1) @ concat (map text_at bs)"
    using write_buffers_ok [OF assms(1), of clock basename roll "s\<lparr>al_output := lw1, WriteLog := bs\<rparr>" cap bs] d(2) full(1)
    by (auto simp: output_first)
  define s3 where "s3 = s\<lparr>al_output := lw2, WriteLog := cs\<rparr>"
  have "cs \<noteq> []" "newBuffer2 s = None \<Longrightarrow> 2 \<le> length cs" using inv by (auto simp: cs_def bs_def blank_def)
  then obtain p q ds where r: "reuse_buffers s3 = (Inr (), s3\<lparr>WriteLog := ds, newBuffer1 := p, newBuffer2 := q\<rparr>)" "blank cap p" "blank cap q"
    using reuse_both [of cap s3] full(2) inv(3,4) by (auto simp: s3_def)
  have "(if length (WriteLog (s\<lparr>al_output := lw2, WriteLog := bs\<rparr>)) > 2 then (s\<lparr>al_output := lw2, WriteLog := bs\<rparr>)
      \<lparr>WriteLog := take 2 (WriteLog (s\<lparr>al_output := lw2, WriteLog := bs\<rparr>))\<rparr> else s\<lparr>al_output := lw2, WriteLog := bs\<rparr>) = s3"
    by (simp add: s3_def cs_def)
  then have "AL_write stamp dropped s = (Inr (), s3\<lparr>WriteLog := [], newBuffer1 := p, newBuffer2 := q, al_place := Loop_top\<rparr>)"
    using d(1) w(1) r(1) by (simp add: AL_write_def)
  moreover have "log_text (snd lw2) = log_text (snd (al_output s)) @ batch_text dropped (WriteLog s)"
    using d(3) w(3) by (simp add: batch_text_def bs_def)
  ultimately show ?thesis
    using assms(2) r(2,3) w(2) by (auto simp: s3_def al_inv_def al_pending_def)
qed

section \<open>Interleavings\<close>

definition al_all :: "nat \<Rightarrow> (int \<Rightarrow> string) \<Rightarrow> (nat \<Rightarrow> int) \<Rightarrow> string \<Rightarrow> int \<Rightarrow> AsyncLogging \<Rightarrow> bool" where
  "al_all cap stamp clock basename roll s \<longleftrightarrow> al_inv cap s \<and> log_good stamp clock basename roll (al_output s)"

text \<open>All that is in the files or waits for it.\<close>

definition al_total :: "AsyncLogging \<Rightarrow> string" where
  "al_total s = log_text (snd (al_output s)) @ al_pending s"

definition al_event_ok :: "al_event \<Rightarrow> bool" where
  "al_event_ok e = (case e of Append line \<Rightarrow> length line < 2 ^ 31 | _ \<Rightarrow> True)"

fun taken :: "nat \<Rightarrow> al_event \<Rightarrow> string" where
  "taken cap (Append line) = (if length line < cap then line else [])"
| "taken cap _ = []"

lemma AL_worker_ok:
  assumes "stamp_ok stamp" and "al_all cap stamp clock basename roll s"
  shows "\<exists>s'. AL_worker stamp dropped s = (Inr (), s') \<and> al_all cap stamp clock basename roll s' \<and>
     (length (WriteLog s) \<le> 25 \<longrightarrow> al_total s' = al_total s)"
proof -
  have inv: "al_inv cap s" "log_good stamp clock basename roll (al_output s)" using assms(2) by (simp_all add: al_all_def)
  show ?thesis
  proof (cases "al_place s")
    case Loop_top
    have "al_inv cap (s\<lparr>al_place := Waiting\<rparr>)" "al_inv cap (s\<lparr>al_place := Ended\<rparr>)" using inv(1) Loop_top by (auto simp: al_inv_def)
    then show ?thesis
      using Loop_top inv take_buffers_ok(1-3) [OF inv(1)]
      by (auto simp: AL_worker_def AL_enter_def al_all_def al_total_def al_pending_def)
  next
    case Waiting
    then show ?thesis using inv take_buffers_ok(1-3) [OF inv(1)] by (auto simp: AL_worker_def al_all_def al_total_def)
  next
    case Writing
    obtain s' where "AL_write stamp dropped s = (Inr (), s')" "al_inv cap s'" "log_good stamp clock basename roll (al_output s')"
      "log_text (snd (al_output s')) = log_text (snd (al_output s)) @ batch_text dropped (WriteLog s)"
      "al_pending s' = concat (map text_at (buffers s)) @ text_at (currentBuffer s)"
      using AL_write_ok [OF assms(1) inv(1) Writing inv(2), of dropped] by blast
    then show ?thesis using Writing by (auto simp: AL_worker_def al_all_def al_total_def batch_text_def al_pending_def)
  qed (use assms(2) in \<open>simp add: AL_worker_def\<close>)
qed

lemma al_step_ok:
  assumes "stamp_ok stamp" and "cap < 2 ^ 32" and "al_all cap stamp clock basename roll s" and "al_event_ok e"
  shows "\<exists>s'. al_step cap stamp e s = (Inr (), s') \<and> al_all cap stamp clock basename roll s' \<and>
     (length (WriteLog s) \<le> 25 \<longrightarrow> al_total s' = al_total s @ taken cap e)"
proof (cases e)
  case (Append line)
  have inv: "al_inv cap s" "length line < 2 ^ 31" using assms(3,4) Append by (simp_all add: al_all_def al_event_ok_def)
  show ?thesis using AL_append_ok [OF inv(1) assms(2) inv(2)] assms(3) Append by (auto simp: al_all_def al_total_def)
next
  case Stop
  then show ?thesis using assms(3) by (simp add: AL_stop_def al_all_def al_inv_def al_total_def al_pending_def)
next
  case (Worker dropped)
  then show ?thesis using AL_worker_ok [OF assms(1,3)] by simp
qed

lemma al_run_ok:
  assumes "stamp_ok stamp" and "cap < 2 ^ 32" and "al_all cap stamp clock basename roll s" and "list_all al_event_ok es"
  shows "\<exists>s'. al_run cap stamp es s = (Inr (), s') \<and> al_all cap stamp clock basename roll s' \<and>
     ((\<forall>k \<le> length es. length (WriteLog (snd (al_run cap stamp (take k es) s))) \<le> 25) \<longrightarrow>
        al_total s' = al_total s @ concat (map (taken cap) es))"
  using assms(3,4)
proof (induction es arbitrary: s)
  case (Cons e es)
  have e: "al_event_ok e" using Cons.prems(2) by simp
  obtain s1 where s1: "al_step cap stamp e s = (Inr (), s1)" "al_all cap stamp clock basename roll s1"
    "length (WriteLog s) \<le> 25 \<longrightarrow> al_total s1 = al_total s @ taken cap e"
    using al_step_ok [OF assms(1,2) Cons.prems(1) e] by blast
  have es: "list_all al_event_ok es" using Cons.prems(2) by simp
  obtain s' where s': "al_run cap stamp es s1 = (Inr (), s')" "al_all cap stamp clock basename roll s'"
    "(\<forall>k \<le> length es. length (WriteLog (snd (al_run cap stamp (take k es) s1))) \<le> 25) \<longrightarrow>
        al_total s' = al_total s1 @ concat (map (taken cap) es)"
    using Cons.IH [OF s1(2) es] by blast
  have "length (WriteLog s) \<le> 25 \<and> (\<forall>k \<le> length es. length (WriteLog (snd (al_run cap stamp (take k es) s1))) \<le> 25)"
    if small: "\<forall>k \<le> length (e # es). length (WriteLog (snd (al_run cap stamp (take k (e # es)) s))) \<le> 25"
  proof
    show "length (WriteLog s) \<le> 25" using small [rule_format, of 0] by simp
    show "\<forall>k \<le> length es. length (WriteLog (snd (al_run cap stamp (take k es) s1))) \<le> 25"
      using small [rule_format, of "Suc _"] s1(1) by simp
  qed
  then show ?case using s1 s' by simp
qed auto

lemma AL_start_ok:
  assumes "stamp_ok stamp" and "world_ok w" and "wd_files w = []" and "CHR ''/'' \<notin> set basename" and "0 \<le> roll" and "cap < 2 ^ 32"
  shows "\<exists>s. AL_start cap stamp basename roll w = (Inr (), s) \<and> al_all cap stamp (wd_clock w) basename roll s \<and> al_total s = [] \<and>
     al_running s \<and> al_place s = Loop_top"
proof -
  obtain l w' where l: "logfile_new stamp basename roll 15 1024 w = (Inr (), l, w')" "log_good stamp (wd_clock w) basename roll (l, w')"
    "log_text w' = []" using logfile_new_good [OF assms(1-5), of 15 1024] by (elim exE conjE)
  have b: "blank cap (Some (setZero (FixedBuffer_new cap)))" by (rule blank_new(2) [OF assms(6)])
  have "FB_text (setZero (FixedBuffer_new cap)) = []" using blank_text [OF b] by simp
  then show ?thesis using l b blank_full [OF b] by (simp add: AL_start_def al_all_def al_inv_def al_total_def al_pending_def)
qed

lemma al_run_in_order:
  assumes "stamp_ok stamp" and "world_ok w" and "wd_files w = []" and "CHR ''/'' \<notin> set basename" and "0 \<le> roll" and "cap < 2 ^ 32"
    and "list_all al_event_ok es" and "AL_start cap stamp basename roll w = (Inr (), s)"
    and "\<forall>k \<le> length es. length (WriteLog (snd (al_run cap stamp (take k es) s))) \<le> 25"
  shows "\<exists>s'. al_run cap stamp es s = (Inr (), s') \<and>
     log_text (snd (al_output s')) @ al_pending s' = concat (map (taken cap) es)"
proof -
  have s: "al_all cap stamp (wd_clock w) basename roll s" "al_total s = []" using AL_start_ok [OF assms(1-6)] assms(8) by auto
  show ?thesis using al_run_ok [OF assms(1,6) s(1) assms(7)] assms(9) s(2) by (auto simp: al_total_def)
qed

section \<open>Properties\<close>

text \<open>C31: However the calls of \<open>append\<close>, the stop and the steps of the writing thread interleave, no null pointer
  is followed and \<open>back\<close> is never called on an empty vector: the two buffers that the thread takes back are always there,
  and the current buffer exists at every moment.\<close>

theorem async_pointers_safe:
  assumes "stamp_ok stamp" and "world_ok w" and "wd_files w = []" and "CHR ''/'' \<notin> set basename" and "0 \<le> roll" and "cap < 2 ^ 32"
    and "list_all al_event_ok es"
  shows "\<exists>s s'. AL_start cap stamp basename roll w = (Inr (), s) \<and> al_run cap stamp es s = (Inr (), s') \<and> al_inv cap s'"
proof -
  obtain s where s: "AL_start cap stamp basename roll w = (Inr (), s)" "al_all cap stamp (wd_clock w) basename roll s"
    using AL_start_ok [OF assms(1-6)] by (elim exE conjE)
  obtain s' where "al_run cap stamp es s = (Inr (), s')" "al_all cap stamp (wd_clock w) basename roll s'"
    using al_run_ok [OF assms(1,6) s(2) assms(7)] by (elim exE conjE)
  then show ?thesis using s(1) by (auto simp: al_all_def)
qed

text \<open>C32: However the threads interleave, while no batch has more than 25 buffers, the files in their order, followed by the batch that is being
  written, the full buffers and the current one, hold exactly the appended lines in order, but for the lines that are longer than a
  buffer, which are dropped.\<close>

theorem async_log_in_order:
  assumes "stamp_ok stamp" and "world_ok w" and "wd_files w = []" and "CHR ''/'' \<notin> set basename" and "0 \<le> roll" and "cap < 2 ^ 32"
    and "list_all al_event_ok es" and "AL_start cap stamp basename roll w = (Inr (), s)"
    and "\<forall>k \<le> length es. length (WriteLog (snd (al_run cap stamp (take k es) s))) \<le> 25"
  shows "\<exists>s'. al_run cap stamp es s = (Inr (), s') \<and>
     log_text (snd (al_output s')) @ al_pending s' = concat (map (taken cap) es)"
  by (rule al_run_in_order [OF assms])

text \<open>Lines that are appended while the thread writes a batch and before the log is stopped never reach the files: after the batch
  the thread sees that it shall stop and ends, whatever is in the buffers.\<close>

theorem stop_loses_last_lines:
  assumes "stamp_ok stamp" and "world_ok w" and "wd_files w = []" and "CHR ''/'' \<notin> set basename" and "0 \<le> roll" and "cap < 2 ^ 32"
    and "list_all al_event_ok es" and "AL_start cap stamp basename roll w = (Inr (), s0)" and "al_run cap stamp es s0 = (Inr (), s)"
    and "al_place s = Writing" and "length line < cap" and "length line < 2 ^ 31"
  shows "\<exists>s'. al_run cap stamp (Append line # Stop # replicate (Suc (Suc k)) (Worker dropped)) s = (Inr (), s') \<and> al_place s' = Ended \<and>
     log_text (snd (al_output s')) = log_text (snd (al_output s)) @ batch_text dropped (WriteLog s) \<and>
     al_pending s' = concat (map text_at (buffers s)) @ text_at (currentBuffer s) @ line"
proof -
  have "al_all cap stamp (wd_clock w) basename roll s0" using AL_start_ok [OF assms(1-6)] assms(8) by auto
  from al_run_ok [OF assms(1,6) this assms(7)] have "al_all cap stamp (wd_clock w) basename roll s" using assms(9) by auto
  then have inv: "al_inv cap s" "log_good stamp (wd_clock w) basename roll (al_output s)" by (simp_all add: al_all_def)
  obtain s1 where s1: "AL_append cap line s = (Inr (), s1)" "al_inv cap s1" "al_pending s1 = al_pending s @ line"
    "al_place s1 = Writing" "al_output s1 = al_output s" "WriteLog s1 = WriteLog s"
    using AL_append_ok [OF inv(1) assms(6,12)] assms(10,11) by auto
  have s2: "al_inv cap (AL_stop s1)" "al_place (AL_stop s1) = Writing" "log_good stamp (wd_clock w) basename roll (al_output (AL_stop s1))"
    using s1(2,4,5) inv(2) by (auto simp: AL_stop_def al_inv_def)
  obtain s3 where s3: "AL_write stamp dropped (AL_stop s1) = (Inr (), s3)" "al_place s3 = Loop_top" "al_running s3 = al_running (AL_stop s1)"
    "log_text (snd (al_output s3)) = log_text (snd (al_output (AL_stop s1))) @ batch_text dropped (WriteLog (AL_stop s1))"
    "al_pending s3 = concat (map text_at (buffers (AL_stop s1))) @ text_at (currentBuffer (AL_stop s1))"
    using AL_write_ok [OF assms(1) s2, of dropped] by (elim exE conjE)
  have pending: "concat (map text_at (buffers s1)) @ text_at (currentBuffer s1) =
      concat (map text_at (buffers s)) @ text_at (currentBuffer s) @ line"
    using s1(3,6) by (simp add: al_pending_def)
  have ended: "al_run cap stamp (replicate n (Worker dropped)) t = (Inr (), t)" if "al_place t = Ended" for n t
    using that by (induction n) (simp_all add: AL_worker_def)
  define t where "t = s3\<lparr>al_place := Ended\<rparr>"
  have "al_run cap stamp (Append line # Stop # replicate (Suc (Suc k)) (Worker dropped)) s = (Inr (), t)"
    using s1(1) s2(2) s3(1,2,3) ended [of t k] by (simp add: AL_worker_def AL_enter_def t_def AL_stop_def)
  then show ?thesis using s3(4,5) s1(5,6) pending by (simp add: t_def AL_stop_def al_pending_def)
qed

definition sample_world :: log_world where
  "sample_world = \<lparr>wd_files = [], wd_can_open = \<lambda>_. True, wd_takes = [], wd_clock = \<lambda>_. 5, wd_asked = 0\<rparr>"

lemma sample_world_ok: "world_ok sample_world" "wd_files sample_world = []" "CHR ''/'' \<notin> set ''web''"
  by (simp_all add: sample_world_def world_ok_def)

lemma sample_start:
  "AL_start 4 sample_stamp ''web'' 100 sample_world =
     (Inr (), \<lparr>al_running = True, currentBuffer = Some (FixedBuffer_new 4), nextBuffer = Some (FixedBuffer_new 4), buffers = [],
       al_place = Loop_top, newBuffer1 = Some (FixedBuffer_new 4), newBuffer2 = Some (FixedBuffer_new 4), WriteLog = [],
       al_output = (\<lparr>lf_basename = ''web'', rollSize = 100, flushInterval = 15, checkEveryN = 1024, lf_count = 0, startOfPeriod = 0,
         lastRoll = 5, lastFlush = 5, lf_file = \<lparr>fp = ''web+xxxxxYuanmxc.log'', writtenBytes = 0\<rparr>\<rparr>,
         sample_world\<lparr>wd_files := [(''web+xxxxxYuanmxc.log'', [])], wd_asked := 1\<rparr>)\<rparr>)"
  by (simp add: AL_start_def logfile_new_def rollFile_def getlogfileName_def time_NULL_def file_name_def FileAppend_new_def
      fopen_append_def sample_world_def sample_stamp_def setZero_def FixedBuffer_new_def start_of_day_def Daypreseconds_def
      smod_pos eval_nat_numeral)

theorem async_pointers_safe_witness:
  "\<exists>s s'. AL_start 4 sample_stamp ''web'' 100 sample_world = (Inr (), s) \<and>
     al_run 4 sample_stamp [Append ''abc'', Append ''def'', Worker ''dropped'', Append ''ghi'', Stop, Worker ''dropped''] s = (Inr (), s') \<and> al_inv 4 s'"
  by (rule async_pointers_safe [OF sample_stamp_ok sample_world_ok]) (simp_all add: al_event_ok_def)

theorem async_log_in_order_witness:
  "\<exists>s s'. AL_start 4 sample_stamp ''web'' 100 sample_world = (Inr (), s) \<and>
     al_run 4 sample_stamp [Append ''ab'', Append ''cdef'', Worker []] s = (Inr (), s') \<and>
     log_text (snd (al_output s')) @ al_pending s' = ''ab''"
proof -
  obtain s where s: "AL_start 4 sample_stamp ''web'' 100 sample_world = (Inr (), s)" using sample_start by blast
  have small: "length (WriteLog (snd (al_run 4 sample_stamp (take k [Append ''ab'', Append ''cdef'', Worker []]) s))) \<le> 25"
    if k: "k \<le> 3" for k
  proof -
    have k: "k \<in> {0, 1, 2, 3}" using k by auto
    show ?thesis using s sample_start k
      by (auto simp: AL_append_def append_current_def FB_append_def at_current_def avail_def add_def FixedBuffer_new_def
          AL_worker_def AL_enter_def take_buffers_def Let_def)
  qed
  show ?thesis
    using async_log_in_order [OF sample_stamp_ok sample_world_ok, of 100 4 "[Append ''ab'', Append ''cdef'', Worker []]" s] s small
    by (simp add: al_event_ok_def)
qed

theorem stop_loses_last_lines_witness:
  "\<exists>s0 s s'. AL_start 4 sample_stamp ''web'' 100 sample_world = (Inr (), s0) \<and>
     al_run 4 sample_stamp [Append ''ab'', Worker [], Worker []] s0 = (Inr (), s) \<and>
     al_run 4 sample_stamp [Append ''end'', Stop, Worker [], Worker []] s = (Inr (), s') \<and> al_place s' = Ended \<and>
     log_text (snd (al_output s')) = ''ab'' \<and> al_pending s' = ''end''"
proof -
  obtain s0 where s0: "AL_start 4 sample_stamp ''web'' 100 sample_world = (Inr (), s0)" using sample_start by blast
  have block: "replicate 4 NUL = [NUL, NUL, NUL, NUL]" by (simp add: eval_nat_numeral)
  have "\<exists>s. al_run 4 sample_stamp [Append ''ab'', Worker [], Worker []] s0 = (Inr (), s) \<and> al_place s = Writing \<and>
      batch_text [] (WriteLog s) = ''ab'' \<and> buffers s = [] \<and> text_at (currentBuffer s) = [] \<and> log_text (snd (al_output s)) = []"
    using s0 sample_start
    by (auto simp: AL_append_def append_current_def FB_append_def at_current_def avail_def add_def FixedBuffer_new_def
        AL_worker_def AL_enter_def take_buffers_def Let_def batch_text_def FB_text_def blit_def log_text_def block)
  then obtain s where s: "al_run 4 sample_stamp [Append ''ab'', Worker [], Worker []] s0 = (Inr (), s)" "al_place s = Writing"
      "batch_text [] (WriteLog s) = ''ab''" "buffers s = []" "text_at (currentBuffer s) = []" "log_text (snd (al_output s)) = []" by blast
  show ?thesis
    using stop_loses_last_lines [OF sample_stamp_ok sample_world_ok, of 100 4 _ s0 s "''end''" 0 "[]", OF _ _ _ s0 s(1,2)] s0 s
    by (simp add: al_event_ok_def)
qed

end
