(* ===== verification/Time_Zone.thy ===== *)
theory Time_Zone
  imports Calendar
begin

text \<open>
  \<open>src/src/log/timezone.h\<close> and \<open>timezone.cc\<close>: broken-down time, the search for the offset of
  a time zone, and the reader of zone files. \<open>time_t\<close> has 64 bits and is an \<open>int\<close> here. A zone file
  is its bytes, or \<open>None\<close> when \<open>fopen\<close> fails; \<open>gmtime_r\<close> is a parameter.
\<close>

section \<open>Broken-down time\<close>

record tm =
  tm_sec :: int
  tm_min :: int
  tm_hour :: int
  tm_mday :: int
  tm_mon :: int
  tm_year :: int
  tm_wday :: int
  tm_yday :: int
  tm_isdst :: bool
  tm_gmtoff :: int

definition tm_zero :: tm where
  "tm_zero = \<lparr>tm_sec = 0, tm_min = 0, tm_hour = 0, tm_mday = 0, tm_mon = 0, tm_year = 0, tm_wday = 0, tm_yday = 0,
     tm_isdst = False, tm_gmtoff = 0\<rparr>"

definition kSecondsPerDay :: int where
  "kSecondsPerDay = 24 * 60 * 60"

definition fillHMS :: "int \<Rightarrow> tm \<Rightarrow> tm" where
  "fillHMS seconds utc =
     (let minutes = seconds sdiv 60 in
      utc\<lparr>tm_sec := seconds smod 60, tm_min := minutes smod 60, tm_hour := minutes sdiv 60\<rparr>)"

definition int_cast :: "int \<Rightarrow> int" where
  "int_cast i = sint (word_of_int i :: 32 word)"

text \<open>\<open>days\<close> and the numbers of the date are \<open>int\<close>s.\<close>

definition toUtcTime :: "int \<Rightarrow> bool \<Rightarrow> cpp_error + tm" where
  "toUtcTime secondsSinceEpoch yday =
     (let seconds = int_cast (secondsSinceEpoch smod kSecondsPerDay);
          days = int_cast (secondsSinceEpoch sdiv kSecondsPerDay);
          (seconds, days) = (if seconds < 0 then (seconds + kSecondsPerDay, days - 1) else (seconds, days));
          utc = fillHMS seconds tm_zero;
          date = days + kJulianDayOf1970_01_01 in
      if \<not> int32_ok days \<or> \<not> int32_ok date then Inl Signed_overflow
      else
        (case getYearMonthDay date of
           Inl e \<Rightarrow> Inl e
         | Inr ymd \<Rightarrow>
             (case through [ymd_year ymd - 1900, ymd_month ymd - 1] (ymd_year ymd - 1900, ymd_month ymd - 1) of
                Inl e \<Rightarrow> Inl e
              | Inr (year, mon) \<Rightarrow>
                  (case weekDay date of
                     Inl e \<Rightarrow> Inl e
                   | Inr wday \<Rightarrow>
                       let utc = utc\<lparr>tm_year := year, tm_mon := mon, tm_mday := ymd_day ymd, tm_wday := wday\<rparr> in
                       if yday then
                         (case getJulianDayNumber (ymd_year ymd) 1 1 of
                            Inl e \<Rightarrow> Inl e
                          | Inr startOfYear \<Rightarrow> through [date - startOfYear] (utc\<lparr>tm_yday := date - startOfYear\<rparr>))
                       else Inr utc))))"

text \<open>The last multiplication and addition are of \<open>time_t\<close>.\<close>

definition fromUtcTime_parts :: "int \<Rightarrow> int \<Rightarrow> int \<Rightarrow> int \<Rightarrow> int \<Rightarrow> int \<Rightarrow> cpp_error + int" where
  "fromUtcTime_parts year month day hour minute seconds =
     (case getJulianDayNumber year month day of
        Inl e \<Rightarrow> Inl e
      | Inr date \<Rightarrow>
          let secondsInDay = hour * 3600 + minute * 60 + seconds;
              days = date - kJulianDayOf1970_01_01 in
          through [hour * 3600, minute * 60, hour * 3600 + minute * 60, secondsInDay, days] (days * kSecondsPerDay + secondsInDay))"

definition fromUtcTime :: "tm \<Rightarrow> cpp_error + int" where
  "fromUtcTime utc =
     (if \<not> int32_ok (tm_year utc + 1900) \<or> \<not> int32_ok (tm_mon utc + 1) then Inl Signed_overflow
      else fromUtcTime_parts (tm_year utc + 1900) (tm_mon utc + 1) (tm_mday utc) (tm_hour utc) (tm_min utc) (tm_sec utc))"

section \<open>Zones\<close>

record Transition =
  gmttime :: int
  tr_localtime :: int
  localtimeIdx :: nat

record Localtime =
  gmtOffset :: int
  isDst :: bool
  arrbIdx :: nat

record zone_data =
  transitions :: "Transition list"
  localtimes :: "Localtime list"
  tz_abbreviation :: "8 word list"

definition zone_empty :: zone_data where
  "zone_empty = \<lparr>transitions = [], localtimes = [], tz_abbreviation = []\<rparr>"

text \<open>\<open>Comp\<close> compares one of the two times; \<open>key\<close> is that time.\<close>

definition comp_key :: "bool \<Rightarrow> Transition \<Rightarrow> int" where
  "comp_key compareGmt t = (if compareGmt then gmttime t else tr_localtime t)"

definition Comp_less :: "bool \<Rightarrow> Transition \<Rightarrow> Transition \<Rightarrow> bool" where
  "Comp_less compareGmt lhs rhs \<longleftrightarrow> comp_key compareGmt lhs < comp_key compareGmt rhs"

definition Comp_equal :: "bool \<Rightarrow> Transition \<Rightarrow> Transition \<Rightarrow> bool" where
  "Comp_equal compareGmt lhs rhs \<longleftrightarrow> comp_key compareGmt lhs = comp_key compareGmt rhs"

text \<open>\<open>std::lower_bound\<close> on a sorted range: the first element that does not come before the value.\<close>

definition lower_bound :: "bool \<Rightarrow> Transition list \<Rightarrow> Transition \<Rightarrow> nat" where
  "lower_bound compareGmt ts v = length (takeWhile (\<lambda>t. Comp_less compareGmt t v) ts)"

definition vector_at :: "'a list \<Rightarrow> nat \<Rightarrow> cpp_error + 'a" where
  "vector_at xs i = (if i < length xs then Inr (xs ! i) else Inl Bad_access)"

definition findLocaltime :: "zone_data \<Rightarrow> Transition \<Rightarrow> bool \<Rightarrow> cpp_error + Localtime" where
  "findLocaltime data sentry cmp =
     (if transitions data = [] \<or> Comp_less cmp sentry (transitions data ! 0)
      then vector_at (localtimes data) 0
      else
        let transI = lower_bound cmp (transitions data) sentry in
        if transI \<noteq> length (transitions data) then
          if \<not> Comp_equal cmp sentry (transitions data ! transI) then
            if transI = 0 then Inl Assertion_failed
            else vector_at (localtimes data) (localtimeIdx (transitions data ! (transI - 1)))
          else vector_at (localtimes data) (localtimeIdx (transitions data ! transI))
        else vector_at (localtimes data) (localtimeIdx (last (transitions data))))"

text \<open>The fixed offset, and the value of \<open>data_\<close> after the constructor with a file name.\<close>

definition TimeZone_fixed :: "int \<Rightarrow> 8 word list \<Rightarrow> zone_data" where
  "TimeZone_fixed eastOfUtc name =
     \<lparr>transitions = [], localtimes = [\<lparr>gmtOffset = eastOfUtc, isDst = False, arrbIdx = 0\<rparr>], tz_abbreviation = name\<rparr>"

definition toLocalTime :: "(int \<Rightarrow> tm) \<Rightarrow> zone_data option \<Rightarrow> int \<Rightarrow> cpp_error + tm" where
  "toLocalTime gmtime data seconds =
     (case data of
        None \<Rightarrow> Inl Assertion_failed
      | Some data \<Rightarrow>
          (case findLocaltime data \<lparr>gmttime = seconds, tr_localtime = 0, localtimeIdx = 0\<rparr> True of
             Inl e \<Rightarrow> Inl e
           | Inr local \<Rightarrow>
               Inr ((gmtime (seconds + gmtOffset local))\<lparr>tm_isdst := isDst local, tm_gmtoff := gmtOffset local\<rparr>)))"

text \<open>\<open>timegm\<close> is a parameter too.\<close>

definition fromLocalTime :: "(int \<Rightarrow> tm) \<Rightarrow> (tm \<Rightarrow> int) \<Rightarrow> zone_data option \<Rightarrow> tm \<Rightarrow> cpp_error + int" where
  "fromLocalTime gmtime timegm data localTm =
     (case data of
        None \<Rightarrow> Inl Assertion_failed
      | Some d \<Rightarrow>
          let seconds = timegm localTm in
          (case findLocaltime d \<lparr>gmttime = 0, tr_localtime = seconds, localtimeIdx = 0\<rparr> False of
             Inl e \<Rightarrow> Inl e
           | Inr local \<Rightarrow>
               if tm_isdst localTm then
                 (case toLocalTime gmtime data (seconds - gmtOffset local) of
                    Inl e \<Rightarrow> Inl e
                  | Inr tryTm \<Rightarrow>
                      Inr ((if \<not> tm_isdst tryTm \<and> tm_hour tryTm = tm_hour localTm \<and> tm_min tryTm = tm_min localTm
                            then seconds - 3600 else seconds) - gmtOffset local))
               else Inr (seconds - gmtOffset local)))"

section \<open>Zone files\<close>

type_synonym 'a read_file = "8 word list \<times> zone_data \<Rightarrow> (8 word list \<times> zone_data, 'a) cpp"

definition readBytes :: "int \<Rightarrow> (8 word list) read_file" where
  "readBytes n s =
     (if n < 0 then (Inl Bad_access, s)
      else if length (fst s) < nat n then (Inl Logic_error, ([], snd s))
      else (Inr (take (nat n) (fst s)), (drop (nat n) (fst s), snd s)))"

definition be_word :: "8 word list \<Rightarrow> 32 word" where
  "be_word bs = word_of_nat (unat (bs ! 0) * 2 ^ 24 + unat (bs ! 1) * 2 ^ 16 + unat (bs ! 2) * 2 ^ 8 + unat (bs ! 3))"

definition readInt32 :: "int read_file" where
  "readInt32 s =
     (if length (fst s) < 4 then (Inl Logic_error, ([], snd s))
      else (Inr (sint (be_word (take 4 (fst s)))), (drop 4 (fst s), snd s)))"

definition readUInt8 :: "(8 word) read_file" where
  "readUInt8 s = (case fst s of [] \<Rightarrow> (Inl Logic_error, s) | b # bs \<Rightarrow> (Inr b, (bs, snd s)))"

fun read_times :: "nat \<Rightarrow> 'a read_file \<Rightarrow> ('a list) read_file" where
  "read_times 0 f s = (Inr [], s)"
| "read_times (Suc n) f s = bindc (f s) (\<lambda>x s. bindc (read_times n f s) (\<lambda>xs s. (Inr (x # xs), s)))"

definition read_localtime :: "unit read_file" where
  "read_localtime s =
     bindc (readInt32 s) (\<lambda>gmtoff s.
     bindc (readUInt8 s) (\<lambda>isdst s.
     bindc (readUInt8 s) (\<lambda>abbrind s.
       (Inr (), (fst s, (snd s)\<lparr>localtimes := localtimes (snd s) @
          [\<lparr>gmtOffset = gmtoff, isDst = isdst \<noteq> 0, arrbIdx = unat abbrind\<rparr>]\<rparr>)))))"

fun add_transitions :: "int list \<Rightarrow> (8 word) list \<Rightarrow> zone_data \<Rightarrow> (zone_data, unit) cpp" where
  "add_transitions (t # ts) (l # ls) d =
     (case vector_at (localtimes d) (unat l) of
        Inl e \<Rightarrow> (Inl e, d)
      | Inr lt \<Rightarrow>
          add_transitions ts ls
            (d\<lparr>transitions := transitions d @ [\<lparr>gmttime = t, tr_localtime = t + gmtOffset lt, localtimeIdx = unat l\<rparr>]\<rparr>))"
| "add_transitions ts ls d = (Inr (), d)"

text \<open>\<open>reserve\<close> throws for a negative count.\<close>

definition read_zone :: "unit read_file" where
  "read_zone s =
     bindc (readBytes 4 s) (\<lambda>magic s.
     if magic \<noteq> map of_char ''TZif'' then (Inl Logic_error, s)
     else
       bindc (readBytes 1 s) (\<lambda>version s.
       bindc (readBytes 15 s) (\<lambda>_ s.
       bindc (readInt32 s) (\<lambda>isgmtcnt s.
       bindc (readInt32 s) (\<lambda>isstdcnt s.
       bindc (readInt32 s) (\<lambda>leapcnt s.
       bindc (readInt32 s) (\<lambda>timecnt s.
       bindc (readInt32 s) (\<lambda>typecnt s.
       bindc (readInt32 s) (\<lambda>charcnt s.
       if timecnt < 0 then (Inl Logic_error, s)
       else
         bindc (read_times (nat timecnt) readInt32 s) (\<lambda>trans s.
         bindc (read_times (nat timecnt) readUInt8 s) (\<lambda>locals s.
         bindc (read_times (nat typecnt) read_localtime s) (\<lambda>_ s.
         bindc (case add_transitions trans locals (snd s) of (r, d) \<Rightarrow> (r, (fst s, d))) (\<lambda>_ s.
         bindc (readBytes charcnt s) (\<lambda>abbr s.
           (Inr (), (fst s, (snd s)\<lparr>tz_abbreviation := abbr\<rparr>))))))))))))))))"

text \<open>An exception of the reader is caught; the value is true in every case, and \<open>data_\<close> what was read until then.\<close>

definition readTimeZoneFile :: "8 word list option \<Rightarrow> cpp_error + (bool \<times> zone_data)" where
  "readTimeZoneFile f =
     (case f of
        None \<Rightarrow> Inr (True, zone_empty)
      | Some bs \<Rightarrow>
          (case read_zone (bs, zone_empty) of
             (Inr _, s) \<Rightarrow> Inr (True, snd s)
           | (Inl e, s) \<Rightarrow> if thrown e then Inr (True, snd s) else Inl e))"

definition TimeZone_file :: "8 word list option \<Rightarrow> cpp_error + zone_data option" where
  "TimeZone_file f =
     (case readTimeZoneFile f of
        Inl e \<Rightarrow> Inl e
      | Inr (ok, d) \<Rightarrow> Inr (if ok then Some d else None))"

definition tz_valid :: "zone_data option \<Rightarrow> bool" where
  "tz_valid data = (data \<noteq> None)"

section \<open>Seconds and days\<close>

lemma floor_split:
  assumes "0 < (k :: int)"
  shows "(if t smod k < 0 then (t smod k + k, t sdiv k - 1) else (t smod k, t sdiv k)) = (t mod k, t div k)"
proof (cases "0 \<le> t")
  case True
  then have "t sdiv k = t div k" "t smod k = t mod k" "\<not> t mod k < 0" using assms by (simp_all add: sdiv_pos smod_pos not_less)
  then show ?thesis by simp
next
  case False
  define n where "n = - t"
  have t: "t = - n" "0 < n" using False by (simp_all add: n_def)
  have sd: "t sdiv k = - (n div k)" using t assms by (simp add: signed_divide_int_def)
  have sm: "t smod k = - (n mod k)" using t assms by (simp add: signed_modulo_int_def)
  have "n mod k \<noteq> 0 \<longrightarrow> 0 < n mod k" using pos_mod_sign [OF assms, of n] by linarith
  then show ?thesis
    unfolding sd sm unfolding t(1) using zdiv_zminus1_eq_if [of k n] zmod_zminus1_eq_if [of n k] assms by auto
qed

lemma int_cast_small: "- 2147483648 \<le> i \<Longrightarrow> i \<le> 2147483647 \<Longrightarrow> int_cast i = i"
  by (simp add: int_cast_def signed_of_int signed_take_bit_int_eq_self)

lemma clock_split:
  assumes "0 \<le> s" and "s < (86400 :: int)"
  shows "s sdiv 60 sdiv 60 * 3600 + s sdiv 60 smod 60 * 60 + s smod 60 = s"
    and "0 \<le> s sdiv 60 sdiv 60" "s sdiv 60 sdiv 60 < 24" "0 \<le> s sdiv 60 smod 60" "s sdiv 60 smod 60 < 60"
      "0 \<le> s smod 60" "s smod 60 < 60"
proof -
  have sm: "x smod 60 = x mod 60" if "0 \<le> x" for x :: int using that by (simp add: smod_pos)
  have sd: "s sdiv 60 = s div 60" "s div 60 sdiv 60 = s div 60 div 60" using assms by (simp_all add: sdiv_pos)
  have "0 \<le> s div 60" using assms by simp
  note simps = sm [OF assms(1)] sm [OF this] sd
  show "s sdiv 60 sdiv 60 * 3600 + s sdiv 60 smod 60 * 60 + s smod 60 = s"
  proof -
    have "s = s div 60 * 60 + s mod 60" "s div 60 = s div 60 div 60 * 60 + s div 60 mod 60" by simp_all
    then show ?thesis unfolding simps by linarith
  qed
  show "0 \<le> s sdiv 60 sdiv 60" "s sdiv 60 sdiv 60 < 24" "0 \<le> s sdiv 60 smod 60" "s sdiv 60 smod 60 < 60"
    "0 \<le> s smod 60" "s smod 60 < 60"
    unfolding simps using assms by simp_all
qed

text \<open>What \<open>toUtcTime\<close> gives for a time whose day is within the arithmetic.\<close>

definition utc_of :: "int \<Rightarrow> bool \<Rightarrow> tm" where
  "utc_of t yday =
     (let date = t div 86400 + kJulianDayOf1970_01_01; ymd = date_of_number date;
          utc = (fillHMS (t mod 86400) tm_zero)\<lparr>tm_year := ymd_year ymd - 1900, tm_mon := ymd_month ymd - 1, tm_mday := ymd_day ymd,
            tm_wday := (date + 1) smod 7\<rparr>
      in if yday then utc\<lparr>tm_yday := date - julian \<lparr>ymd_year = ymd_year ymd, ymd_month = 1, ymd_day = 1\<rparr>\<rparr> else utc)"

lemma small_day:
  assumes "- 213608966400 \<le> t" and "t < 46172011305600"
  defines "date \<equiv> t div 86400 + kJulianDayOf1970_01_01"
  shows "- 31738 \<le> date" "date \<le> last_day" "date_ok (date_of_number date)" "julian (date_of_number date) = date"
    "- 4800 < ymd_year (date_of_number date)" "ymd_year (date_of_number date) \<le> 1467000"
proof -
  show d: "- 31738 \<le> date" "date \<le> last_day" using assms(1,2) by (simp_all add: date_def kJulianDay last_day_def)
  show ok: "date_ok (date_of_number date)" "julian (date_of_number date) = date" using date_of_number_ok [OF d(1)] by simp_all
  show "- 4800 < ymd_year (date_of_number date)" using ok(1) by (simp add: date_ok_def)
  show "ymd_year (date_of_number date) \<le> 1467000" using julian_year [OF ok(1)] ok(2) d(2) by simp
qed

lemma toUtcTime_parts:
  assumes "- 213608966400 \<le> t" and "t < 46172011305600"
  shows "toUtcTime t yday = Inr (utc_of t yday)"
proof -
  have fs: "(if t smod 86400 < 0 then (t smod 86400 + 86400, t sdiv 86400 - 1) else (t smod 86400, t sdiv 86400)) = (t mod 86400, t div 86400)"
    by (rule floor_split) simp
  have mod: "0 \<le> t mod 86400" "t mod 86400 < 86400" by simp_all
  have div: "- 2472326 \<le> t div 86400" "t div 86400 \<le> 534398279" using assms by simp_all
  have casts: "int_cast (t smod 86400) = t smod 86400" "int_cast (t sdiv 86400) = t sdiv 86400"
    using fs mod div by (auto intro!: int_cast_small split: if_splits)
  have k: "kSecondsPerDay = 86400" by (simp add: kSecondsPerDay_def)
  define date where "date = t div 86400 + kJulianDayOf1970_01_01"
  note small = small_day [OF assms, folded date_def]
  define jan where "jan = \<lparr>ymd_year = ymd_year (date_of_number date), ymd_month = 1, ymd_day = 1\<rparr>"
  have jan: "date_ok jan" "ymd_year jan \<le> 5000000" "getJulianDayNumber (ymd_year (date_of_number date)) 1 1 = Inr (julian jan)"
    using small(5,6) getJulianDayNumber_fits [of jan] by (simp_all add: jan_def date_ok_def days_in_def)
  have "- 31738 \<le> julian jan \<and> julian jan \<le> 600000000"
    using julian_range [OF jan(1)] small(6) by (simp add: jan_def)
  moreover have m: "1 \<le> ymd_month (date_of_number date)" "ymd_month (date_of_number date) \<le> 12" using small(3) by (simp_all add: date_ok_def)
  moreover have "int32_ok (t div 86400)" using div by (simp add: int32_ok_def)
  ultimately show ?thesis
    unfolding toUtcTime_def Let_def k casts fs prod.case date_def [symmetric] getYearMonthDay_fits [OF small(1,2)]
    using small(1,2,5,6) by (simp add: through_def int32_ok_def last_day_def weekDay_def utc_of_def Let_def date_def [symmetric] jan(3) jan_def [symmetric])
qed

section \<open>Searching\<close>

text \<open>The offset in force: that of the last transition that is not later, or the first one.\<close>

definition offset_at :: "bool \<Rightarrow> zone_data \<Rightarrow> int \<Rightarrow> cpp_error + Localtime" where
  "offset_at cmp d v =
     (case filter (\<lambda>t. comp_key cmp t \<le> v) (transitions d) of
        [] \<Rightarrow> vector_at (localtimes d) 0
      | ts \<Rightarrow> vector_at (localtimes d) (localtimeIdx (last ts)))"

lemma take_filter_sorted:
  assumes "sorted_wrt (<) (map f ts)" and "n \<le> length ts" and "\<And>i. i < length ts \<Longrightarrow> P (ts ! i) \<longleftrightarrow> i < n"
  shows "filter P ts = take n ts"
proof -
  have "filter P ts = filter P (take n ts) @ filter P (drop n ts)" by (metis append_take_drop_id filter_append)
  moreover have "filter P (take n ts) = take n ts"
    using assms(2,3) by (intro filter_True) (auto simp: in_set_conv_nth)
  moreover have "filter P (drop n ts) = []"
    using assms(2,3) by (intro filter_False) (auto simp: in_set_conv_nth)
  ultimately show ?thesis by simp
qed

lemma lower_bound_sorted:
  assumes "sorted_wrt (<) (map (comp_key cmp) ts)"
  shows "lower_bound cmp ts v \<le> length ts"
    and "i < length ts \<Longrightarrow> comp_key cmp (ts ! i) < comp_key cmp v \<longleftrightarrow> i < lower_bound cmp ts v"
proof -
  let ?n = "lower_bound cmp ts v"
  show le: "?n \<le> length ts" by (simp add: lower_bound_def length_takeWhile_le)
  assume i: "i < length ts"
  show "comp_key cmp (ts ! i) < comp_key cmp v \<longleftrightarrow> i < ?n"
  proof
    assume "i < ?n"
    then show "comp_key cmp (ts ! i) < comp_key cmp v"
      unfolding lower_bound_def using set_takeWhileD nth_mem takeWhile_nth by (metis (mono_tags, lifting) Comp_less_def)
  next
    assume less: "comp_key cmp (ts ! i) < comp_key cmp v"
    show "i < ?n"
    proof (rule ccontr)
      assume "\<not> i < ?n"
      then have n: "?n \<le> i" "?n < length ts" using i by simp_all
      then have "\<not> Comp_less cmp (ts ! ?n) v" using nth_length_takeWhile unfolding lower_bound_def by blast
      moreover have "comp_key cmp (ts ! ?n) \<le> comp_key cmp (ts ! i)"
        using sorted_wrt_nth_less [OF assms, of ?n i] n i by (cases "?n = i") simp_all
      ultimately show False using less by (simp add: Comp_less_def)
    qed
  qed
qed

lemma findLocaltime_offset:
  assumes "sorted_wrt (<) (map (comp_key cmp) (transitions d))"
  shows "findLocaltime d v cmp = offset_at cmp d (comp_key cmp v)"
proof -
  let ?ts = "transitions d" and ?k = "comp_key cmp v"
  let ?n = "lower_bound cmp ?ts v"
  note lb = lower_bound_sorted [OF assms, where v = v]
  have mono: "comp_key cmp (?ts ! i) < comp_key cmp (?ts ! j)" if "i < j" "j < length ?ts" for i j
    using sorted_wrt_nth_less [OF assms that(1)] that by simp
  show ?thesis
  proof (cases "?ts = [] \<or> Comp_less cmp v (?ts ! 0)")
    case True
    have "filter (\<lambda>t. comp_key cmp t \<le> ?k) ?ts = []"
    proof (cases "?ts = []")
      case False
      then have "?k < comp_key cmp (?ts ! 0)" using True by (simp add: Comp_less_def)
      then have "?k < comp_key cmp (?ts ! i)" if "i < length ?ts" for i using mono [of 0 i] that by (cases "i = 0") auto
      then show ?thesis by (metis (no_types, lifting) filter_False in_set_conv_nth leD)
    qed simp
    then show ?thesis using True by (simp add: findLocaltime_def offset_at_def)
  next
    case False
    then have ne: "?ts \<noteq> []" and first: "comp_key cmp (?ts ! 0) \<le> ?k" by (simp_all add: Comp_less_def)
    define m where "m = (if ?n < length ?ts \<and> comp_key cmp (?ts ! ?n) = ?k then Suc ?n else ?n)"
    have m: "m \<le> length ?ts" using lb(1) by (simp add: m_def)
    have iff: "comp_key cmp (?ts ! i) \<le> ?k \<longleftrightarrow> i < m" if "i < length ?ts" for i
      using lb(2) [OF that] lb(2) [of ?n] mono [of ?n i] mono [of i ?n] that by (cases i ?n rule: linorder_cases) (auto simp: m_def)
    have filter: "filter (\<lambda>t. comp_key cmp t \<le> ?k) ?ts = take m ?ts"
      by (rule take_filter_sorted [OF assms m iff])
    have pos: "0 < m" using lb(2) [of 0] ne first by (cases "?n = 0") (auto simp: m_def)
    have last: "last (take m ?ts) = ?ts ! (m - 1)" using pos m ne by (simp add: last_conv_nth)
    have some: "take m ?ts \<noteq> []" using pos ne by simp
    have "offset_at cmp d ?k = vector_at (localtimes d) (localtimeIdx (last (take m ?ts)))"
      unfolding offset_at_def filter using some by (cases "take m ?ts") simp_all
    then have off: "offset_at cmp d ?k = vector_at (localtimes d) (localtimeIdx (?ts ! (m - 1)))" unfolding last .
    show ?thesis
    proof (cases "?n = length ?ts")
      case True
      then show ?thesis using False off by (simp add: findLocaltime_def m_def last_conv_nth [OF ne])
    next
      case n: False
      then have "?n < length ?ts" using lb(1) by simp
      then show ?thesis
        using False off pos by (auto simp: findLocaltime_def m_def Comp_equal_def Let_def)
    qed
  qed
qed

section \<open>Writing a zone file\<close>

text \<open>The file of a zone by the format's description, with what may follow it; \<open>v\<close> is the byte of the version.\<close>

definition be_bytes :: "int \<Rightarrow> 8 word list" where
  "be_bytes i = [word_of_int (i div 16777216), word_of_int (i div 65536), word_of_int (i div 256), word_of_int i]"

definition zone_file :: "8 word \<Rightarrow> zone_data \<Rightarrow> 8 word list" where
  "zone_file v d =
     map of_char ''TZif'' @ [v] @ replicate 15 0 @ be_bytes 0 @ be_bytes 0 @ be_bytes 0 @
     be_bytes (int (length (transitions d))) @ be_bytes (int (length (localtimes d))) @ be_bytes (int (length (tz_abbreviation d))) @
     concat (map (\<lambda>t. be_bytes (gmttime t)) (transitions d)) @ map (\<lambda>t. word_of_nat (localtimeIdx t)) (transitions d) @
     concat (map (\<lambda>l. be_bytes (gmtOffset l) @ [of_bool (isDst l), word_of_nat (arrbIdx l)]) (localtimes d)) @ tz_abbreviation d"

definition zone_ok :: "zone_data \<Rightarrow> bool" where
  "zone_ok d \<longleftrightarrow>
     length (transitions d) < 2 ^ 31 \<and> length (localtimes d) \<le> 256 \<and> length (tz_abbreviation d) < 2 ^ 31 \<and>
     (\<forall>t \<in> set (transitions d). int32_ok (gmttime t) \<and> localtimeIdx t < length (localtimes d) \<and>
        tr_localtime t = gmttime t + gmtOffset (localtimes d ! localtimeIdx t)) \<and>
     (\<forall>l \<in> set (localtimes d). int32_ok (gmtOffset l) \<and> arrbIdx l < 256)"

lemma be_word_bytes: "be_word (be_bytes i) = word_of_int i"
proof -
  have "unat (word_of_int x :: 8 word) = nat (x mod 256)" for x :: int
    by (simp add: unsigned_of_int take_bit_eq_mod)
  then have "be_word (be_bytes i) = word_of_int (i div 16777216 mod 256 * 16777216 + i div 65536 mod 256 * 65536 + i div 256 mod 256 * 256 + i mod 256)"
    unfolding be_word_def be_bytes_def by simp
  also have "\<dots> = word_of_int i"
  proof -
    have eq: "i = i div 16777216 div 256 * 4294967296 +
       (i div 16777216 mod 256 * 16777216 + i div 65536 mod 256 * 65536 + i div 256 mod 256 * 256 + i mod 256)" (is "i = ?q * _ + ?r")
      using four_bytes [of i] div_mult_mod_eq [of "i div 16777216" 256] by linarith
    have "(word_of_int i :: 32 word) = word_of_int (?q * 4294967296 + ?r)" by (rule arg_cong [OF eq])
    also have "\<dots> = word_of_int ?q * word_of_int 4294967296 + word_of_int ?r" by (simp only: of_int_add of_int_mult)
    also have "(word_of_int 4294967296 :: 32 word) = 0" unfolding word_of_int_eq_0_iff by simp
    also have "word_of_int ?q * 0 + word_of_int ?r = (word_of_int ?r :: 32 word)" by simp
    finally show ?thesis by (rule sym)
  qed
  finally show ?thesis .
qed

lemma length_be_bytes [simp]: "length (be_bytes i) = 4"
  by (simp add: be_bytes_def)

lemma readInt32_bytes: "int32_ok i \<Longrightarrow> readInt32 (be_bytes i @ bs, d) = (Inr i, (bs, d))"
  by (simp add: readInt32_def be_word_bytes signed_of_int signed_take_bit_int_eq_self int32_ok_def)

lemma readBytes_append: "readBytes (int (length xs)) (xs @ bs, d) = (Inr xs, (bs, d))"
  by (simp add: readBytes_def)

lemma read_times_ints:
  assumes "\<forall>t \<in> set ts. int32_ok (f t)"
  shows "read_times (length ts) readInt32 (concat (map (\<lambda>t. be_bytes (f t)) ts) @ bs, d) = (Inr (map f ts), (bs, d))"
  using assms by (induction ts) (simp_all add: readInt32_bytes)

lemma read_times_bytes: "read_times (length xs) readUInt8 (xs @ bs, d) = (Inr xs, (bs, d))"
  by (induction xs) (simp_all add: readUInt8_def)

lemma read_localtime_bytes:
  assumes "int32_ok (gmtOffset l)" and "arrbIdx l < 256"
  shows "read_localtime (be_bytes (gmtOffset l) @ of_bool (isDst l) # word_of_nat (arrbIdx l) # bs, d) =
     (Inr (), (bs, d\<lparr>localtimes := localtimes d @ [l]\<rparr>))"
  using assms by (cases l) (simp add: read_localtime_def readInt32_bytes readUInt8_def unsigned_of_nat take_bit_nat_eq_self)

lemma read_times_localtimes:
  assumes "\<forall>l \<in> set ls. int32_ok (gmtOffset l) \<and> arrbIdx l < 256"
  shows "read_times (length ls) read_localtime
     (concat (map (\<lambda>l. be_bytes (gmtOffset l) @ [of_bool (isDst l), word_of_nat (arrbIdx l)]) ls) @ bs, d) =
     (Inr (replicate (length ls) ()), (bs, d\<lparr>localtimes := localtimes d @ ls\<rparr>))"
  using assms by (induction ls arbitrary: d) (simp_all add: read_localtime_bytes)

lemma add_transitions_all:
  assumes "\<forall>t \<in> set ts. localtimeIdx t < length (localtimes d) \<and> localtimeIdx t < 256 \<and>
     tr_localtime t = gmttime t + gmtOffset (localtimes d ! localtimeIdx t)"
  shows "add_transitions (map gmttime ts) (map (\<lambda>t. word_of_nat (localtimeIdx t)) ts) d =
     (Inr (), d\<lparr>transitions := transitions d @ ts\<rparr>)"
  using assms
proof (induction ts arbitrary: d)
  case (Cons t ts)
  have idx: "unat (word_of_nat (localtimeIdx t) :: 8 word) = localtimeIdx t"
    using Cons.prems by (simp add: unsigned_of_nat take_bit_nat_eq_self)
  have t: "\<lparr>gmttime = gmttime t, tr_localtime = gmttime t + gmtOffset (localtimes d ! localtimeIdx t), localtimeIdx = localtimeIdx t\<rparr> = t"
    using Cons.prems by (cases t) simp
  show ?case
    using Cons.prems Cons.IH [of "d\<lparr>transitions := transitions d @ [t]\<rparr>"] by (simp add: vector_at_def idx t)
qed simp

lemma read_zone_file:
  assumes "zone_ok d"
  shows "read_zone (zone_file v d @ rest, zone_empty) = (Inr (), (rest, d))"
proof -
  let ?ts = "transitions d" and ?ls = "localtimes d" and ?ab = "tz_abbreviation d"
  have idx: "\<forall>t \<in> set ?ts. int32_ok (gmttime t)" "\<forall>l \<in> set ?ls. int32_ok (gmtOffset l) \<and> arrbIdx l < 256"
    "\<forall>t \<in> set ?ts. localtimeIdx t < length ?ls \<and> localtimeIdx t < 256 \<and>
       tr_localtime t = gmttime t + gmtOffset (?ls ! localtimeIdx t)"
    using assms unfolding zone_ok_def by (blast, blast, fastforce)
  have counts: "int32_ok (int (length ?ts))" "int32_ok (int (length ?ls))" "int32_ok (int (length ?ab))" "int32_ok 0"
    using assms by (simp_all add: zone_ok_def int32_ok_def)
  have r: "readBytes 4 (map of_char ''TZif'' @ bs, d) = (Inr (map of_char ''TZif''), bs, d)"
    "readBytes 1 ([v] @ bs, d) = (Inr [v], bs, d)" "readBytes 15 (replicate 15 0 @ bs, d) = (Inr (replicate 15 0), bs, d)" for bs d
    using readBytes_append [of "map of_char ''TZif''" bs d] readBytes_append [of "[v]" bs d]
      readBytes_append [of "replicate 15 0" bs d] by simp_all
  have add: "add_transitions (map gmttime ?ts) (map (\<lambda>t. word_of_nat (localtimeIdx t)) ?ts) (zone_empty\<lparr>localtimes := ?ls\<rparr>) =
     (Inr (), zone_empty\<lparr>localtimes := ?ls, transitions := ?ts\<rparr>)"
    using add_transitions_all [of ?ts "zone_empty\<lparr>localtimes := ?ls\<rparr>"] idx(3) by (simp add: zone_empty_def)
  have lts: "read_times (length ?ls) read_localtime
     (concat (map (\<lambda>l. be_bytes (gmtOffset l) @ [of_bool (isDst l), word_of_nat (arrbIdx l)]) ?ls) @ bs, zone_empty) =
     (Inr (replicate (length ?ls) ()), (bs, zone_empty\<lparr>localtimes := ?ls\<rparr>))" for bs
    using read_times_localtimes [OF idx(2), of bs zone_empty] by (simp add: zone_empty_def)
  have ixs: "read_times (length ?ts) readUInt8 (map (\<lambda>t. word_of_nat (localtimeIdx t)) ?ts @ bs, d) =
     (Inr (map (\<lambda>t. word_of_nat (localtimeIdx t)) ?ts), (bs, d))" for bs d
    using read_times_bytes [of "map (\<lambda>t. word_of_nat (localtimeIdx t)) ?ts" bs d] by simp
  have full: "zone_empty\<lparr>localtimes := ?ls, transitions := ?ts, tz_abbreviation := ?ab\<rparr> = d" by (simp add: zone_empty_def)
  have nonneg: "(int (length ?ts) < 0) = False" by simp
  show ?thesis
    unfolding read_zone_def zone_file_def append_assoc r bindc_simps not_True_eq_False simp_thms if_False
      readInt32_bytes [OF counts(1)] readInt32_bytes [OF counts(2)] readInt32_bytes [OF counts(3)] readInt32_bytes [OF counts(4)]
      nonneg nat_int read_times_ints [OF idx(1)] ixs lts fst_conv snd_conv add prod.case readBytes_append full ..
qed

section \<open>Properties\<close>

text \<open>C25: \<open>fromUtcTime\<close> undoes \<open>toUtcTime\<close>, before 1970 too: for every second from the year -4799 to the point where the
  day number no longer fits its arithmetic, the broken-down time is a date of the calendar and a time of the day, and gives the second back.\<close>

theorem utc_roundtrip:
  assumes "- 213608966400 \<le> t" and "t < 46172011305600"
  shows "\<exists>utc. toUtcTime t yday = Inr utc \<and> fromUtcTime utc = Inr t \<and>
     date_ok \<lparr>ymd_year = tm_year utc + 1900, ymd_month = tm_mon utc + 1, ymd_day = tm_mday utc\<rparr> \<and>
     tm_hour utc \<in> {0..<24} \<and> tm_min utc \<in> {0..<60} \<and> tm_sec utc \<in> {0..<60}"
proof (intro exI conjI)
  define s where "s = t mod 86400"
  define date where "date = t div 86400 + kJulianDayOf1970_01_01"
  define ymd where "ymd = date_of_number date"
  note small = small_day [OF assms, folded date_def, folded ymd_def]
  have s: "0 \<le> s" "s < 86400" by (simp_all add: s_def)
  note clock = clock_split [OF s]
  have utc: "tm_year (utc_of t yday) = ymd_year ymd - 1900" "tm_mon (utc_of t yday) = ymd_month ymd - 1"
    "tm_mday (utc_of t yday) = ymd_day ymd" "tm_hour (utc_of t yday) = s sdiv 60 sdiv 60"
    "tm_min (utc_of t yday) = s sdiv 60 smod 60" "tm_sec (utc_of t yday) = s smod 60"
    by (simp_all add: utc_of_def fillHMS_def Let_def date_def ymd_def s_def)
  show "toUtcTime t yday = Inr (utc_of t yday)" by (rule toUtcTime_parts [OF assms])
  show "date_ok \<lparr>ymd_year = tm_year (utc_of t yday) + 1900, ymd_month = tm_mon (utc_of t yday) + 1, ymd_day = tm_mday (utc_of t yday)\<rparr>"
    using small(3) by (simp add: utc date_ok_def)
  show "tm_hour (utc_of t yday) \<in> {0..<24}" "tm_min (utc_of t yday) \<in> {0..<60}" "tm_sec (utc_of t yday) \<in> {0..<60}"
    using clock(2-7) by (simp_all add: utc)
  have m: "1 \<le> ymd_month ymd" "ymd_month ymd \<le> 12" using small(3) by (simp_all add: date_ok_def)
  have "getJulianDayNumber (ymd_year ymd) (ymd_month ymd) (ymd_day ymd) = Inr date"
    using getJulianDayNumber_fits [OF small(3)] small(4,6) by simp
  moreover have "date - kJulianDayOf1970_01_01 = t div 86400" by (simp add: date_def)
  moreover have "t div 86400 * 86400 + s = t" by (simp add: s_def)
  moreover have "- 2472326 \<le> t div 86400" "t div 86400 \<le> 534398279" using assms by simp_all
  then have "int32_ok (t div 86400)" by (simp add: int32_ok_def)
  ultimately show "fromUtcTime (utc_of t yday) = Inr t"
    using clock m small(5,6)
    by (simp add: fromUtcTime_def fromUtcTime_parts_def utc kSecondsPerDay_def through_def int32_ok_def Let_def)
qed

theorem utc_roundtrip_witness:
  "\<exists>utc utc'. toUtcTime (- 1) True = Inr utc \<and> fromUtcTime utc = Inr (- 1) \<and>
     toUtcTime 1709164799 False = Inr utc' \<and> fromUtcTime utc' = Inr 1709164799"
  using utc_roundtrip [of "- 1" True] utc_roundtrip [of 1709164799 False] by auto

text \<open>C26: On sorted transitions, for the times of the zone and for UTC, \<open>findLocaltime\<close> gives the offset of the last transition that is not
  later than the time, and the first offset before all of them; the assertion in it does not fail.\<close>

theorem findLocaltime_last_transition:
  assumes "sorted_wrt (<) (map (comp_key cmp) (transitions d))"
  shows "findLocaltime d v cmp = offset_at cmp d (comp_key cmp v)"
  using assms by (rule findLocaltime_offset)

definition sample_zone :: zone_data where
  "sample_zone =
     \<lparr>transitions = [\<lparr>gmttime = 100, tr_localtime = 3700, localtimeIdx = 1\<rparr>, \<lparr>gmttime = 9000, tr_localtime = 9000, localtimeIdx = 0\<rparr>],
      localtimes = [\<lparr>gmtOffset = 0, isDst = False, arrbIdx = 0\<rparr>, \<lparr>gmtOffset = 3600, isDst = True, arrbIdx = 4\<rparr>],
      tz_abbreviation = map of_char ''GMTxBST''\<rparr>"

theorem findLocaltime_last_transition_witness:
  "findLocaltime sample_zone \<lparr>gmttime = 5000, tr_localtime = 0, localtimeIdx = 0\<rparr> True =
     Inr \<lparr>gmtOffset = 3600, isDst = True, arrbIdx = 4\<rparr>"
  using findLocaltime_last_transition [of True sample_zone "\<lparr>gmttime = 5000, tr_localtime = 0, localtimeIdx = 0\<rparr>"]
  by (simp add: sample_zone_def offset_at_def comp_key_def vector_at_def)

text \<open>C27: Reading the file of a zone gives the zone back, whatever follows it in the file.\<close>

theorem zone_file_roundtrip:
  assumes "zone_ok d"
  shows "TimeZone_file (Some (zone_file v d @ rest)) = Inr (Some d)"
  using read_zone_file [OF assms] by (simp add: TimeZone_file_def readTimeZoneFile_def)

theorem zone_file_roundtrip_witness:
  "TimeZone_file (Some (zone_file 0 sample_zone @ [10])) = Inr (Some sample_zone)"
  by (rule zone_file_roundtrip) (simp add: zone_ok_def sample_zone_def int32_ok_def)

text \<open>A file that is not there gives a zone that counts as valid and has no offset at all: the first time that is asked for
  is read behind an empty vector.\<close>

theorem missing_zone_is_valid:
  "\<exists>data. TimeZone_file None = Inr data \<and> tz_valid data \<and> toLocalTime gmtime data t = Inl Bad_access"
  by (simp add: TimeZone_file_def readTimeZoneFile_def tz_valid_def toLocalTime_def findLocaltime_def zone_empty_def vector_at_def)

end
