(* ===== verification/Logging.thy ===== *)
theory Logging
  imports Log_Stream Time_Zone
begin

text \<open>
  \<open>src/src/log/timestamp.h\<close>, \<open>timestamp.cc\<close>, \<open>logging.h\<close> and \<open>logging.cc\<close>: time stamps, and the
  lines of the log. There is one static object for each level; a call of \<open>log_INFO\<close> and its like sends the head of
  a line to the output function and returns the object, to whose stream the caller then writes its message.
  \<open>gmtime_r\<close> and \<open>strerror_r\<close> are parameters; the state is that of one thread.
\<close>

section \<open>Formats\<close>

text \<open>\<open>%02d\<close> and its like: zeros between the sign and the digits.\<close>

definition pad_zero :: "nat \<Rightarrow> int \<Rightarrow> string" where
  "pad_zero n i =
     (if i < 0 then CHR ''-'' # pad_left CHR ''0'' (n - 1) (dec_nat (nat (- i))) else pad_left CHR ''0'' n (dec_nat (nat i)))"

text \<open>\<open>%4d%02d%02d %02d:%02d:%02d\<close>.\<close>

definition time_text :: "tm \<Rightarrow> string" where
  "time_text t =
     pad_left CHR '' '' 4 (dec_string (tm_year t + 1900)) @ pad_zero 2 (tm_mon t + 1) @ pad_zero 2 (tm_mday t) @
     '' '' @ pad_zero 2 (tm_hour t) @ '':'' @ pad_zero 2 (tm_min t) @ '':'' @ pad_zero 2 (tm_sec t)"

section \<open>Time stamps\<close>

type_synonym Timestamp = "64 word"

definition KmicroSecond :: int where "KmicroSecond = 1000000"

definition Data_second :: "Timestamp \<Rightarrow> int" where
  "Data_second t = uint t div KmicroSecond"

definition Timestamp_now :: "int \<Rightarrow> int \<Rightarrow> Timestamp" where
  "Timestamp_now tv_sec tv_usec = word_of_int tv_sec * word_of_int KmicroSecond + word_of_int tv_usec"

definition fromUnixTime :: "int \<Rightarrow> int \<Rightarrow> Timestamp" where
  "fromUnixTime t microseconds = word_of_int (t * KmicroSecond + microseconds)"

text \<open>
  The local variable for the fraction of the second has the name of the member and is initialised from
  itself: \<open>junk\<close> is what it holds before.
\<close>

definition Timestamp_toString :: "int \<Rightarrow> Timestamp \<Rightarrow> string" where
  "Timestamp_toString junk t =
     take 30 (dec_string (uint t div KmicroSecond) @ ''.'' @ pad_zero 6 (junk smod KmicroSecond))"

definition toFormattedString :: "(int \<Rightarrow> tm) \<Rightarrow> int \<Rightarrow> bool \<Rightarrow> Timestamp \<Rightarrow> string" where
  "toFormattedString gmtime junk showMicroseconds t =
     (let tm_time = gmtime (uint t div KmicroSecond) in
      if showMicroseconds then take 63 (time_text tm_time @ ''.'' @ pad_zero 6 (junk smod KmicroSecond))
      else take 63 (time_text tm_time))"

section \<open>The objects of the levels\<close>

datatype Loglevel = DEBUG | INFO | WARN | ERROR | FATAL

text \<open>The name of a file without its directories.\<close>

definition Filewrapper :: "string \<Rightarrow> string" where
  "Filewrapper path = rev (takeWhile (\<lambda>c. c \<noteq> CHR ''/'') (rev path))"

text \<open>
  The constructor for an array, as \<open>__FILE__\<close> is one: the end of the name is counted from the length of the array. \<open>strrchr\<close> gives the place of the last
  slash.
\<close>

definition strrchr :: "string \<Rightarrow> char \<Rightarrow> nat option" where
  "strrchr s c = (if c \<in> set s then Some (length s - 1 - length (takeWhile (\<lambda>d. d \<noteq> c) (rev s))) else None)"

definition Filewrapper_array :: "string \<Rightarrow> string" where
  "Filewrapper_array arr =
     (case strrchr arr CHR ''/'' of
        None \<Rightarrow> take (length arr) arr
      | Some point \<Rightarrow> (let data = point + 1 in take (length arr - data) (drop data arr)))"

lemma Filewrapper_constructors: "Filewrapper_array path = Filewrapper path"
proof (cases "CHR ''/'' \<in> set path")
  case True
  then obtain xs ys where path: "path = xs @ CHR ''/'' # ys" "CHR ''/'' \<notin> set ys" using split_list_last by metis
  then have "takeWhile (\<lambda>c. c \<noteq> CHR ''/'') (rev ys @ CHR ''/'' # rev xs) = rev ys" by (subst takeWhile_append2) auto
  then show ?thesis using path by (simp add: Filewrapper_array_def Filewrapper_def strrchr_def Let_def)
next
  case False
  then have "\<forall>c \<in> set (rev path). c \<noteq> CHR ''/''" by auto
  then have "takeWhile (\<lambda>c. c \<noteq> CHR ''/'') (rev path) = rev path" by (simp only: takeWhile_eq_all_conv)
  then show ?thesis unfolding Filewrapper_array_def Filewrapper_def using False by (simp add: strrchr_def del: takeWhile_eq_all_conv)
qed

record logging =
  lw_time :: Timestamp
  lw_stream :: FixedBuffer
  lw_level :: Loglevel
  lw_line :: int
  lw_basename :: string

definition logging_new :: "string \<Rightarrow> int \<Rightarrow> Loglevel \<Rightarrow> Timestamp \<Rightarrow> logging" where
  "logging_new file line level now =
     \<lparr>lw_time = now, lw_stream = FixedBuffer_new SmallBuffer, lw_level = level, lw_line = line, lw_basename = file\<rparr>"

fun LogLevelName :: "Loglevel \<Rightarrow> string" where
  "LogLevelName DEBUG = ''DEBUG ''"
| "LogLevelName INFO = ''INFO  ''"
| "LogLevelName WARN = ''WARN  ''"
| "LogLevelName ERROR = ''ERROR ''"
| "LogLevelName FATAL = ''FATAL ''"

text \<open>The globals and the variables of the thread; \<open>g_out\<close> are the texts given to \<open>g_output_\<close>.\<close>

record log_state =
  t_time :: string
  t_lastSecond :: int
  g_logTimeZone :: "zone_data option"
  g_out :: "string list"
  g_flushed :: nat
  LogData :: "Loglevel \<Rightarrow> logging option"

definition log_start :: "zone_data option \<Rightarrow> log_state" where
  "log_start tz =
     \<lparr>t_time = replicate 64 NUL, t_lastSecond = 0, g_logTimeZone = tz, g_out = [], g_flushed = 0, LogData = \<lambda>_. None\<rparr>"

definition setTimeZone :: "zone_data option \<Rightarrow> log_state \<Rightarrow> log_state" where
  "setTimeZone tz s = s\<lparr>g_logTimeZone := tz\<rparr>"

definition on_stream :: "Loglevel \<Rightarrow> (FixedBuffer \<Rightarrow> (FixedBuffer, 'a) cpp) \<Rightarrow> log_state \<Rightarrow> (log_state, 'a) cpp" where
  "on_stream level f s =
     (case LogData s level of
        None \<Rightarrow> (Inl Null_deref, s)
      | Some l \<Rightarrow> (case f (lw_stream l) of (r, b) \<Rightarrow> (r, s\<lparr>LogData := (LogData s)(level \<mapsto> l\<lparr>lw_stream := b\<rparr>)\<rparr>)))"

text \<open>Writing a \<open>helper\<close>, whose constructor asserts its length.\<close>

definition put_helper :: "string \<Rightarrow> nat \<Rightarrow> FixedBuffer \<Rightarrow> (FixedBuffer, unit) cpp" where
  "put_helper str len b =
     (if length (takeWhile (\<lambda>c. c \<noteq> NUL) str) = len then FB_append (take len str) b else (Inl Assertion_failed, b))"

section \<open>The head of a line\<close>

text \<open>The first part of \<open>formatTime\<close>: the text of a new second.\<close>

definition log_tm :: "(int \<Rightarrow> tm) \<Rightarrow> zone_data option \<Rightarrow> int \<Rightarrow> cpp_error + tm" where
  "log_tm gmtime tz seconds = (if tz_valid tz then toLocalTime gmtime tz seconds else Inr (gmtime seconds))"

definition format_second :: "(int \<Rightarrow> tm) \<Rightarrow> Timestamp \<Rightarrow> log_state \<Rightarrow> (log_state, unit) cpp" where
  "format_second gmtime now s =
     (let seconds = sint now sdiv KmicroSecond in
      if seconds \<noteq> t_lastSecond s then
        let s = s\<lparr>t_lastSecond := seconds\<rparr> in
        (case log_tm gmtime (g_logTimeZone s) seconds of
           Inl e \<Rightarrow> (Inl e, s)
         | Inr tm_time \<Rightarrow>
             let s = s\<lparr>t_time := blit (t_time s) 0 (take 63 (time_text tm_time) @ [NUL])\<rparr> in
             (if length (time_text tm_time) = 17 then Inr () else Inl Assertion_failed, s))
      else (Inr (), s))"

text \<open>The second part: the time and the fraction go to the stream.\<close>

definition put_time :: "zone_data option \<Rightarrow> string \<Rightarrow> Timestamp \<Rightarrow> FixedBuffer \<Rightarrow> (FixedBuffer, unit) cpp" where
  "put_time tz time now b =
     (let microseconds = int_cast (sint now smod KmicroSecond);
          (us, n) = (if tz_valid tz then (''.'' @ pad_zero 6 microseconds @ '' '', 8)
                     else (''.'' @ pad_zero 6 microseconds @ ''Z '', 9)) in
      case Fmt us of
        Inl e \<Rightarrow> (Inl e, b)
      | Inr us \<Rightarrow>
          if length us \<noteq> n then (Inl Assertion_failed, b)
          else bindc (put_helper time 17 b) (\<lambda>_ b. put_helper us n b))"

definition put_errno :: "(int \<Rightarrow> string) \<Rightarrow> int \<Rightarrow> FixedBuffer \<Rightarrow> (FixedBuffer, unit) cpp" where
  "put_errno strerror old_errno b =
     (if old_errno \<noteq> 0
      then put_all [Put_cstring (Some (strerror old_errno)), Put_cstring (Some '' (errno=''), Put_integer old_errno, Put_cstring (Some '') '')] b
      else (Inr (), b))"

definition finish :: "string \<Rightarrow> int \<Rightarrow> FixedBuffer \<Rightarrow> (FixedBuffer, unit) cpp" where
  "finish basename line b =
     put_all [Put_cstring (Some '' - ''), Put_string basename, Put_char CHR '':'', Put_integer line, Put_cstring (Some '' - '')] b"

definition put_head :: "(int \<Rightarrow> string) \<Rightarrow> log_state \<Rightarrow> logging \<Rightarrow> Loglevel \<Rightarrow> int \<Rightarrow> FixedBuffer \<Rightarrow> (FixedBuffer, unit) cpp" where
  "put_head strerror s l level old_errno b =
     bindc (put_time (g_logTimeZone s) (t_time s) (lw_time l) b) (\<lambda>_ b.
     bindc (put_helper ''111111'' 6 b) (\<lambda>_ b.
     bindc (put_helper (LogLevelName level) 6 b) (\<lambda>_ b.
     bindc (put_errno strerror old_errno b) (\<lambda>_ b.
       finish (lw_basename l) (lw_line l) b))))"

text \<open>\<open>g_output_\<close> on what the stream of a level holds.\<close>

definition log_output :: "Loglevel \<Rightarrow> log_state \<Rightarrow> (log_state, unit) cpp" where
  "log_output level s =
     bindc (on_stream level (\<lambda>b. (FB_toString b, b)) s) (\<lambda>line s. (Inr (), s\<lparr>g_out := g_out s @ [line]\<rparr>))"

text \<open>The object of a level is made by its first call, with the file and the line of that call.\<close>

definition getStream ::
  "(int \<Rightarrow> tm) \<Rightarrow> (int \<Rightarrow> string) \<Rightarrow> Loglevel \<Rightarrow> string \<Rightarrow> int \<Rightarrow> int \<Rightarrow> Timestamp \<Rightarrow> log_state \<Rightarrow> (log_state, unit) cpp" where
  "getStream gmtime strerror level file line old_errno now s =
     (let l = (case LogData s level of None \<Rightarrow> logging_new file line level now | Some l \<Rightarrow> l);
          l = l\<lparr>lw_time := now\<rparr>;
          s = s\<lparr>LogData := (LogData s)(level \<mapsto> l)\<rparr> in
      bindc (format_second gmtime now s) (\<lambda>_ s.
      bindc (on_stream level (put_head strerror s l level old_errno) s) (\<lambda>_ s.
      bindc (log_output level s) (\<lambda>_ s.
      bindc (on_stream level (\<lambda>b. (Inr (), FB_reset b)) s) (\<lambda>_ s.
        if lw_level l = FATAL then (Inl Process_aborted, s\<lparr>g_flushed := length (g_out s)\<rparr>) else (Inr (), s))))))"

text \<open>A call of \<open>log_INFO(file, line, errno)\<close> or its like, and the message that is written to the result.\<close>

definition log_call ::
  "(int \<Rightarrow> tm) \<Rightarrow> (int \<Rightarrow> string) \<Rightarrow> Loglevel \<Rightarrow> string \<Rightarrow> int \<Rightarrow> int \<Rightarrow> Timestamp \<Rightarrow> stream_item list \<Rightarrow> log_state \<Rightarrow> (log_state, unit) cpp" where
  "log_call gmtime strerror level file line olderrno now message s =
     bindc (getStream gmtime strerror level (Filewrapper file) line olderrno now s) (\<lambda>_ s. on_stream level (put_all message) s)"

text \<open>The destructor of the object of a level.\<close>

definition loggingFactory_end :: "Loglevel \<Rightarrow> log_state \<Rightarrow> (log_state, unit) cpp" where
  "loggingFactory_end level s = (if LogData s level = None then (Inr (), s) else log_output level s)"

section \<open>Texts of a time\<close>

lemma dec_nat_digits: "c \<in> set (dec_nat n) \<Longrightarrow> of_char c \<in> {48..57 :: nat}"
proof (induction n rule: dec_nat.induct)
  case (1 n)
  have "of_char (char_of (48 + m) :: char) = 48 + m" if "m < 10" for m :: nat using that by simp
  then show ?case using 1 by (auto simp: dec_nat.simps [of n] split: if_splits)
qed

lemma NUL_eq: "NUL = CHR 0x00"
  by (simp add: NUL_def char_of_def bit_simps)

lemma dec_nat_not_NUL: "NUL \<notin> set (dec_nat n)"
  using dec_nat_digits [of NUL n] by (auto simp: NUL_def)

lemma pad_zero_small:
  assumes "0 \<le> i" and "i < 10 ^ n" and "0 < n"
  shows "length (pad_zero n i) = n" "NUL \<notin> set (pad_zero n i)"
proof -
  have "nat i < 10 ^ n" using assms(1,2) by (simp add: nat_less_iff)
  from dec_nat_short [OF this assms(3)] show "length (pad_zero n i) = n" using assms(1) by (simp add: pad_zero_def pad_left_def)
  show "NUL \<notin> set (pad_zero n i)" using dec_nat_not_NUL assms(1) by (auto simp: pad_zero_def pad_left_def NUL_eq)
qed

text \<open>What \<open>gmtime_r\<close> promises for the years 0 to 9999.\<close>

definition civil :: "tm \<Rightarrow> bool" where
  "civil t \<longleftrightarrow> tm_year t \<in> {- 1900..8099} \<and> tm_mon t \<in> {0..11} \<and> tm_mday t \<in> {1..31} \<and>
     tm_hour t \<in> {0..23} \<and> tm_min t \<in> {0..59} \<and> tm_sec t \<in> {0..60}"

lemma time_text_ok:
  assumes "civil t"
  shows "length (time_text t) = 17" "NUL \<notin> set (time_text t)"
proof -
  have year: "length (pad_left CHR '' '' 4 (dec_string (tm_year t + 1900))) = 4"
    "NUL \<notin> set (pad_left CHR '' '' 4 (dec_string (tm_year t + 1900)))"
    using assms dec_nat_short [of "nat (tm_year t + 1900)" 4] dec_nat_not_NUL
    by (auto simp: civil_def pad_left_def dec_string_def NUL_eq)
  have two: "length (pad_zero 2 i) = 2" "NUL \<notin> set (pad_zero 2 i)" if "0 \<le> i" "i < 100" for i
    using pad_zero_small [of i 2] that by simp_all
  show "length (time_text t) = 17"
    using assms year two by (simp add: time_text_def civil_def)
  show "NUL \<notin> set (time_text t)"
    using assms year two by (simp add: time_text_def civil_def) (simp add: NUL_eq)
qed

section \<open>Writing the head\<close>

definition head_text :: "tm \<Rightarrow> bool \<Rightarrow> (int \<Rightarrow> string) \<Rightarrow> Loglevel \<Rightarrow> int \<Rightarrow> Timestamp \<Rightarrow> string \<Rightarrow> int \<Rightarrow> string" where
  "head_text t zone strerror level err now file line =
     time_text t @ ''.'' @ pad_zero 6 (sint now smod KmicroSecond) @ (if zone then '' '' else ''Z '') @ ''111111'' @
     LogLevelName level @ (if err \<noteq> 0 then strerror err @ '' (errno='' @ dec_string err @ '') '' else []) @
     '' - '' @ file @ '':'' @ dec_string line @ '' - ''"

definition head_items :: "tm \<Rightarrow> bool \<Rightarrow> (int \<Rightarrow> string) \<Rightarrow> Loglevel \<Rightarrow> int \<Rightarrow> Timestamp \<Rightarrow> string \<Rightarrow> int \<Rightarrow> stream_item list" where
  "head_items t zone strerror level err now file line =
     [Put_string (time_text t), Put_string (''.'' @ pad_zero 6 (sint now smod KmicroSecond) @ (if zone then '' '' else ''Z '')),
      Put_string ''111111'', Put_string (LogLevelName level)] @
     (if err \<noteq> 0 then [Put_cstring (Some (strerror err)), Put_cstring (Some '' (errno=''), Put_integer err, Put_cstring (Some '') '')] else []) @
     [Put_cstring (Some '' - ''), Put_string file, Put_char CHR '':'', Put_integer line, Put_cstring (Some '' - '')]"

lemma head_items_text: "concat (map item_text (head_items t zone strerror level err now file line)) =
    head_text t zone strerror level err now file line"
  by (simp add: head_items_def head_text_def)

lemma int32_integer_ok: "int32_ok i \<Longrightarrow> integer_ok i"
  by (simp add: int32_ok_def integer_ok_def)

lemma head_items_ok: "int32_ok err \<Longrightarrow> int32_ok line \<Longrightarrow> list_all item_ok (head_items t zone strerror level err now file line)"
  by (simp add: head_items_def int32_integer_ok)

lemma put_all_append: "put_all (is @ js) = (\<lambda>b. bindc (put_all is b) (\<lambda>_. put_all js))"
  by (induction "is") (simp_all add: bindc_assoc ext)

lemma put_helper_all:
  assumes "str = s @ NUL # r \<or> str = s \<and> NUL \<notin> set s" and "NUL \<notin> set s" and "length s = n"
  shows "put_helper str n = put_all [Put_string s]"
proof -
  have "takeWhile (\<lambda>c. c \<noteq> NUL) s = s" using assms(2) by (auto simp: takeWhile_eq_all_conv)
  moreover have "takeWhile (\<lambda>c. c \<noteq> NUL) (s @ NUL # r) = s" using assms(2) by (subst takeWhile_append2) auto
  ultimately have "takeWhile (\<lambda>c. c \<noteq> NUL) str = s" "take n str = s" using assms(1,3) by auto
  then show ?thesis using assms(3) by (auto simp: fun_eq_iff put_helper_def bindc_def split: prod.splits sum.splits)
qed

lemma put_time_items:
  assumes "take 18 time = time_text t @ [NUL]" and "civil t" and "0 \<le> sint (now :: Timestamp)"
  shows "put_time tz time now = put_all [Put_string (time_text t),
     Put_string (''.'' @ pad_zero 6 (sint now smod KmicroSecond) @ (if tz_valid tz then '' '' else ''Z ''))]"
proof -
  let ?us = "sint now smod KmicroSecond"
  have "?us = sint now mod 1000000" using assms(3) by (simp add: KmicroSecond_def smod_pos)
  then have us: "0 \<le> ?us" "?us < 1000000" by simp_all
  have cast: "int_cast ?us = ?us" using us by (intro int_cast_small) simp_all
  have len: "length (pad_zero 6 ?us) = 6" "NUL \<notin> set (pad_zero 6 ?us)" using pad_zero_small [of ?us 6] us by simp_all
  have "time = time_text t @ NUL # drop 18 time" using assms(1) append_take_drop_id [of 18 time] by simp
  then have h1: "put_helper time 17 = put_all [Put_string (time_text t)]"
    using time_text_ok [OF assms(2)] by (intro put_helper_all [of _ _ "drop 18 time"]) auto
  have h2: "put_helper s n = put_all [Put_string s]" if "s = ''.'' @ pad_zero 6 ?us @ (if tz_valid tz then '' '' else ''Z '')"
    "n = (if tz_valid tz then 8 else 9)" for s n
    using that len by (intro put_helper_all [of _ _ "[]"]) (auto simp: NUL_eq)
  show ?thesis
    using h2 len unfolding put_time_def cast h1 Fmt_def
    by (auto simp: fun_eq_iff Let_def bindc_def split: sum.splits prod.splits)
qed

lemma put_head_items:
  assumes "take 18 (t_time s) = time_text t @ [NUL]" and "civil t" and "0 \<le> sint (lw_time l)"
  shows "put_head strerror s l level err =
     put_all (head_items t (tz_valid (g_logTimeZone s)) strerror level err (lw_time l) (lw_basename l) (lw_line l))"
proof -
  have six: "put_helper ''111111'' 6 = put_all [Put_string ''111111'']"
    by (rule put_helper_all [of _ _ "[]"]) (simp_all add: NUL_eq)
  have name: "put_helper (LogLevelName level) 6 = put_all [Put_string (LogLevelName level)]"
    by (rule put_helper_all [of _ _ "[]"]) (cases level; simp add: NUL_eq)+
  show ?thesis
    unfolding put_head_def put_time_items [OF assms] six name put_errno_def finish_def head_items_def put_all_append
    by (auto simp: fun_eq_iff bindc_assoc bindc_def split: sum.splits prod.splits)
qed

section \<open>A call\<close>

record log_request =
  rq_file :: string
  rq_line :: int
  rq_errno :: int
  rq_now :: Timestamp
  rq_message :: "stream_item list"

definition rq_second :: "log_request \<Rightarrow> int" where
  "rq_second c = sint (rq_now c) sdiv KmicroSecond"

text \<open>The line of a call, under the file and the line number of the object.\<close>

definition log_head ::
  "(int \<Rightarrow> tm) \<Rightarrow> (int \<Rightarrow> string) \<Rightarrow> zone_data option \<Rightarrow> Loglevel \<Rightarrow> string \<Rightarrow> int \<Rightarrow> log_request \<Rightarrow> string" where
  "log_head gmtime strerror tz level file line c =
     head_text (projr (log_tm gmtime tz (rq_second c))) (tz_valid tz) strerror level (rq_errno c) (rq_now c) file line"

definition log_message :: "log_request \<Rightarrow> string" where
  "log_message c = concat (map item_text (rq_message c))"

definition request_ok ::
  "(int \<Rightarrow> tm) \<Rightarrow> (int \<Rightarrow> string) \<Rightarrow> zone_data option \<Rightarrow> Loglevel \<Rightarrow> string \<Rightarrow> int \<Rightarrow> log_request \<Rightarrow> bool" where
  "request_ok gmtime strerror tz level file line c \<longleftrightarrow>
     0 \<le> sint (rq_now c) \<and> 0 < rq_second c \<and> (\<exists>t. log_tm gmtime tz (rq_second c) = Inr t \<and> civil t) \<and>
     int32_ok (rq_errno c) \<and> list_all item_ok (rq_message c) \<and>
     length (log_head gmtime strerror tz level file line c) + length (log_message c) \<le> 2000"

text \<open>\<open>t_time\<close> holds the text of the last second, and the object of the level its file, line and what it will write next.\<close>

definition time_cached :: "(int \<Rightarrow> tm) \<Rightarrow> log_state \<Rightarrow> bool" where
  "time_cached gmtime s \<longleftrightarrow> length (t_time s) = 64 \<and>
     (t_lastSecond s \<noteq> 0 \<longrightarrow>
       (\<exists>t. log_tm gmtime (g_logTimeZone s) (t_lastSecond s) = Inr t \<and> civil t \<and> take 18 (t_time s) = time_text t @ [NUL]))"

definition log_ready :: "Loglevel \<Rightarrow> string \<Rightarrow> int \<Rightarrow> string \<Rightarrow> log_state \<Rightarrow> bool" where
  "log_ready level file line pending s \<longleftrightarrow>
     (\<exists>l. LogData s level = Some l \<and> lw_level l = level \<and> lw_basename l = file \<and> lw_line l = line \<and>
       FB_ok (lw_stream l) \<and> length (fb_Buffer (lw_stream l)) = SmallBuffer \<and> FB_text (lw_stream l) = pending)"

lemma format_second_runs:
  assumes "time_cached gmtime s" and "log_tm gmtime (g_logTimeZone s) (sint now sdiv KmicroSecond) = Inr t" and "civil t"
    and "0 < sint now sdiv KmicroSecond"
  shows "\<exists>time. format_second gmtime now s = (Inr (), s\<lparr>t_lastSecond := sint now sdiv KmicroSecond, t_time := time\<rparr>) \<and>
     take 18 time = time_text t @ [NUL] \<and> length time = 64"
proof (cases "sint now sdiv KmicroSecond = t_lastSecond s")
  case True
  then show ?thesis using assms by (intro exI [of _ "t_time s"]) (auto simp: format_second_def time_cached_def)
next
  case False
  note len = time_text_ok(1) [OF assms(3)]
  let ?time = "blit (t_time s) 0 (time_text t @ [NUL])"
  have "take 18 ?time = time_text t @ [NUL]" "length ?time = 64"
    using assms(1) len by (simp_all add: blit_def time_cached_def)
  then show ?thesis using False assms(2) len
    by (intro exI [of _ ?time]) (simp add: format_second_def Let_def)
qed

lemma on_stream_put_all:
  assumes "LogData s level = Some l" and "FB_ok (lw_stream l)" and "list_all item_ok is"
    and "length (FB_text (lw_stream l)) + length (concat (map item_text is)) + 32 \<le> length (fb_Buffer (lw_stream l))"
  shows "\<exists>b. on_stream level (put_all is) s = (Inr (), s\<lparr>LogData := (LogData s)(level \<mapsto> l\<lparr>lw_stream := b\<rparr>)\<rparr>) \<and> FB_ok b \<and>
     length (fb_Buffer b) = length (fb_Buffer (lw_stream l)) \<and> FB_text b = FB_text (lw_stream l) @ concat (map item_text is)"
proof -
  have "length (concat (map item_text is)) = (\<Sum>i \<leftarrow> is. length (item_text i))" by (simp add: length_concat o_def)
  then have "written is (FB_room (lw_stream l)) = concat (map item_text is)"
    using assms(4) FB_room_text [OF assms(2)] by (intro written_all [OF assms(3)]) simp
  then show ?thesis using put_all_ok [OF assms(2,3)] assms(1) by (auto simp: on_stream_def)
qed

lemma emit_runs:
  assumes "LogData s level = Some l" and "FB_ok (lw_stream l)"
  shows "bindc (log_output level s) (\<lambda>_ s. bindc (on_stream level (\<lambda>b. (Inr (), FB_reset b)) s) g) =
     g () (s\<lparr>g_out := g_out s @ [FB_text (lw_stream l)], LogData := (LogData s)(level \<mapsto> l\<lparr>lw_stream := FB_reset (lw_stream l)\<rparr>)\<rparr>)"
  using assms by (simp add: log_output_def on_stream_def FB_toString_ok)

text \<open>What a call has sent, written and left when the head is out.\<close>

lemma getStream_runs:
  assumes "log_ready level base line pending s" and "time_cached gmtime s"
    and "request_ok gmtime strerror (g_logTimeZone s) level base line c" and "length pending \<le> 2000" and "int32_ok line"
  shows "\<exists>s'. getStream gmtime strerror level f' l' (rq_errno c) (rq_now c) s =
       (if level = FATAL then (Inl Process_aborted, s'\<lparr>g_flushed := length (g_out s')\<rparr>) else (Inr (), s')) \<and>
     log_ready level base line [] s' \<and> time_cached gmtime s' \<and> g_logTimeZone s' = g_logTimeZone s \<and>
     g_out s' = g_out s @ [pending @ log_head gmtime strerror (g_logTimeZone s) level base line c]"
proof -
  let ?tz = "g_logTimeZone s" and ?h = "log_head gmtime strerror (g_logTimeZone s) level base line c"
  obtain t where t: "log_tm gmtime ?tz (rq_second c) = Inr t" "civil t" "0 \<le> sint (rq_now c)" "0 < rq_second c" "int32_ok (rq_errno c)"
    "length ?h \<le> 2000" using assms(3) by (auto simp: request_ok_def)
  obtain l where l: "LogData s level = Some l" "lw_level l = level" "lw_basename l = base" "lw_line l = line" "FB_ok (lw_stream l)"
    "length (fb_Buffer (lw_stream l)) = 4048" "FB_text (lw_stream l) = pending"
    using assms(1) by (auto simp: log_ready_def SmallBuffer_def)
  define l1 s1 where "l1 = l\<lparr>lw_time := rq_now c\<rparr>" and "s1 = s\<lparr>LogData := (LogData s)(level \<mapsto> l1)\<rparr>"
  have s1: "time_cached gmtime s1" "g_logTimeZone s1 = ?tz" using assms(2) by (simp_all add: s1_def time_cached_def)
  obtain time where f: "format_second gmtime (rq_now c) s1 = (Inr (), s1\<lparr>t_lastSecond := rq_second c, t_time := time\<rparr>)"
    "take 18 time = time_text t @ [NUL]" "length time = 64"
    using format_second_runs [OF s1(1), of "rq_now c" t] t s1(2) by (auto simp: rq_second_def)
  define s2 where "s2 = s1\<lparr>t_lastSecond := rq_second c, t_time := time\<rparr>"
  define items where "items = head_items t (tz_valid ?tz) strerror level (rq_errno c) (rq_now c) base line"
  have head: "put_head strerror s2 l1 level (rq_errno c) = put_all items" "concat (map item_text items) = ?h" "list_all item_ok items"
    using put_head_items [of s2 t l1] f(2) t l(3,4) head_items_ok [OF t(5) assms(5)]
    by (auto simp: s2_def s1_def l1_def items_def head_items_text log_head_def)
  obtain b where b: "on_stream level (put_all items) s2 = (Inr (), s2\<lparr>LogData := (LogData s2)(level \<mapsto> l1\<lparr>lw_stream := b\<rparr>)\<rparr>)" "FB_ok b"
    "length (fb_Buffer b) = 4048" "FB_text b = pending @ ?h"
    using on_stream_put_all [of s2 level l1 items] l head(2,3) t(6) assms(4) by (auto simp: s2_def s1_def l1_def)
  define s3 where "s3 = s2\<lparr>g_out := g_out s2 @ [pending @ ?h], LogData := (LogData s2)(level \<mapsto> l1\<lparr>lw_stream := FB_reset b\<rparr>)\<rparr>"
  have "log_ready level base line [] s3" using l b(2,3) by (simp add: log_ready_def s3_def l1_def SmallBuffer_def)
  moreover have "time_cached gmtime s3" using f(2,3) t s1(2) by (simp add: s3_def s2_def time_cached_def)
  moreover have "g_logTimeZone s3 = ?tz" "g_out s3 = g_out s @ [pending @ ?h]" by (simp_all add: s3_def s2_def s1_def)
  moreover have "getStream gmtime strerror level f' l' (rq_errno c) (rq_now c) s =
       (if level = FATAL then (Inl Process_aborted, s3\<lparr>g_flushed := length (g_out s3)\<rparr>) else (Inr (), s3))"
  proof -
    let ?s = "s2\<lparr>LogData := (LogData s2)(level \<mapsto> l1\<lparr>lw_stream := b\<rparr>)\<rparr>"
    have "lw_level l1 = level" "LogData ?s level = Some (l1\<lparr>lw_stream := b\<rparr>)" using l(2) by (simp_all add: l1_def)
    moreover have "FB_ok (lw_stream (l1\<lparr>lw_stream := b\<rparr>))" using b(2) by simp
    ultimately show ?thesis
      using f(1) b(1,4)
      unfolding getStream_def Let_def l(1) option.case l1_def [symmetric] s1_def [symmetric]
      by (simp add: s2_def [symmetric] head(1) emit_runs s3_def)
  qed
  ultimately show ?thesis by blast
qed

fun log_calls :: "(int \<Rightarrow> tm) \<Rightarrow> (int \<Rightarrow> string) \<Rightarrow> Loglevel \<Rightarrow> log_request list \<Rightarrow> log_state \<Rightarrow> (log_state, unit) cpp" where
  "log_calls gmtime strerror level [] s = (Inr (), s)"
| "log_calls gmtime strerror level (c # cs) s =
     bindc (log_call gmtime strerror level (rq_file c) (rq_line c) (rq_errno c) (rq_now c) (rq_message c) s)
       (\<lambda>_ s. log_calls gmtime strerror level cs s)"

lemma log_call_runs:
  assumes "log_ready level base line pending s" and "time_cached gmtime s" and "level \<noteq> FATAL"
    and "request_ok gmtime strerror (g_logTimeZone s) level base line c" and "length pending \<le> 2000" and "int32_ok line"
  shows "\<exists>s'. log_call gmtime strerror level f' l' (rq_errno c) (rq_now c) (rq_message c) s = (Inr (), s') \<and>
     log_ready level base line (log_message c) s' \<and> time_cached gmtime s' \<and> g_logTimeZone s' = g_logTimeZone s \<and>
     g_out s' = g_out s @ [pending @ log_head gmtime strerror (g_logTimeZone s) level base line c]"
proof -
  obtain s1 where s1: "getStream gmtime strerror level (Filewrapper f') l' (rq_errno c) (rq_now c) s = (Inr (), s1)"
    "log_ready level base line [] s1" "time_cached gmtime s1" "g_logTimeZone s1 = g_logTimeZone s"
    "g_out s1 = g_out s @ [pending @ log_head gmtime strerror (g_logTimeZone s) level base line c]"
    using getStream_runs [OF assms(1,2,4-6)] assms(3) by auto
  obtain l where l: "LogData s1 level = Some l" "lw_level l = level" "lw_basename l = base" "lw_line l = line" "FB_ok (lw_stream l)"
    "length (fb_Buffer (lw_stream l)) = 4048" "FB_text (lw_stream l) = []"
    using s1(2) by (auto simp: log_ready_def SmallBuffer_def)
  have m: "list_all item_ok (rq_message c)" "length (log_message c) \<le> 2000" using assms(4) by (auto simp: request_ok_def)
  obtain b where b: "on_stream level (put_all (rq_message c)) s1 = (Inr (), s1\<lparr>LogData := (LogData s1)(level \<mapsto> l\<lparr>lw_stream := b\<rparr>)\<rparr>)"
    "FB_ok b" "length (fb_Buffer b) = 4048" "FB_text b = log_message c"
    using on_stream_put_all [OF l(1,5) m(1)] l(6,7) m(2) by (auto simp: log_message_def)
  show ?thesis
    using s1 b l by (intro exI [of _ "s1\<lparr>LogData := (LogData s1)(level \<mapsto> l\<lparr>lw_stream := b\<rparr>)\<rparr>"])
      (simp add: log_call_def log_ready_def time_cached_def SmallBuffer_def)
qed

lemma log_calls_runs:
  assumes "log_ready level base line pending s" and "time_cached gmtime s" and "level \<noteq> FATAL" and "length pending \<le> 2000"
    and "\<forall>c \<in> set cs. request_ok gmtime strerror (g_logTimeZone s) level base line c" and "int32_ok line"
  shows "\<exists>s' s'' ls. log_calls gmtime strerror level cs s = (Inr (), s') \<and> loggingFactory_end level s' = (Inr (), s'') \<and>
     g_out s'' = g_out s @ ls \<and> (\<forall>l \<in> set ls. length l \<le> 4000) \<and>
     concat ls = pending @ concat (map (\<lambda>c. log_head gmtime strerror (g_logTimeZone s) level base line c @ log_message c) cs)"
  using assms(1,2,4,5)
proof (induction cs arbitrary: s pending)
  case Nil
  then obtain l where "LogData s level = Some l" "FB_ok (lw_stream l)" "FB_text (lw_stream l) = pending"
    by (auto simp: log_ready_def)
  then show ?case using Nil.prems(3) by (simp add: loggingFactory_end_def log_output_def on_stream_def FB_toString_ok)
next
  case (Cons c cs)
  have c: "request_ok gmtime strerror (g_logTimeZone s) level base line c" using Cons.prems(4) by simp
  then have m: "length (log_message c) \<le> 2000" "length (log_head gmtime strerror (g_logTimeZone s) level base line c) \<le> 2000"
    by (simp_all add: request_ok_def)
  obtain s1 where s1: "log_call gmtime strerror level (rq_file c) (rq_line c) (rq_errno c) (rq_now c) (rq_message c) s = (Inr (), s1)"
     "log_ready level base line (log_message c) s1" "time_cached gmtime s1" "g_logTimeZone s1 = g_logTimeZone s"
     "g_out s1 = g_out s @ [pending @ log_head gmtime strerror (g_logTimeZone s) level base line c]"
    using log_call_runs [OF Cons.prems(1,2) assms(3) c Cons.prems(3) assms(6)] by blast
  have "\<forall>c \<in> set cs. request_ok gmtime strerror (g_logTimeZone s1) level base line c" using Cons.prems(4) s1(4) by simp
  from Cons.IH [OF s1(2,3) m(1) this] obtain s' s'' ls where r: "log_calls gmtime strerror level cs s1 = (Inr (), s')"
    "loggingFactory_end level s' = (Inr (), s'')" "g_out s'' = g_out s1 @ ls" "\<forall>l \<in> set ls. length l \<le> 4000"
    "concat ls = log_message c @ concat (map (\<lambda>c. log_head gmtime strerror (g_logTimeZone s) level base line c @ log_message c) cs)"
    unfolding s1(4) by blast
  show ?case using s1(1,5) r m(2) Cons.prems(3)
    by (intro exI [of _ s'] exI [of _ s''] exI [of _ "(pending @ log_head gmtime strerror (g_logTimeZone s) level base line c) # ls"]) auto
qed

text \<open>The first call of a level finds no object and makes one with its own file and line.\<close>

lemma log_call_first:
  assumes "LogData s level = None"
  shows "log_call gmtime strerror level file line err now msg s =
     log_call gmtime strerror level file line err now msg
       (s\<lparr>LogData := (LogData s)(level \<mapsto> logging_new (Filewrapper file) line level now)\<rparr>)"
  using assms by (simp add: log_call_def getStream_def Let_def)

lemma log_ready_new:
  "log_ready level (Filewrapper file) line [] (s\<lparr>LogData := (LogData s)(level \<mapsto> logging_new (Filewrapper file) line level now)\<rparr>)"
  by (simp add: log_ready_def logging_new_def SmallBuffer_def)

lemma time_cached_start: "time_cached gmtime (log_start tz)"
  by (simp add: time_cached_def log_start_def)

lemma time_cached_LogData [simp]: "time_cached gmtime (s\<lparr>LogData := d\<rparr>) = time_cached gmtime s"
  by (simp add: time_cached_def)

section \<open>Properties\<close>

lemma log_lines_of_new_level:
  assumes "LogData s level = None" and "time_cached gmtime s" and "level \<noteq> FATAL" and "cs \<noteq> []" and "int32_ok (rq_line (hd cs))"
    and "\<forall>c \<in> set cs. request_ok gmtime strerror (g_logTimeZone s) level (Filewrapper (rq_file (hd cs))) (rq_line (hd cs)) c"
  shows "\<exists>s' s'' ls. log_calls gmtime strerror level cs s = (Inr (), s') \<and> loggingFactory_end level s' = (Inr (), s'') \<and>
     g_out s'' = g_out s @ ls \<and> (\<forall>l \<in> set ls. length l \<le> 4000) \<and>
     concat ls = concat (map (\<lambda>c. log_head gmtime strerror (g_logTimeZone s) level (Filewrapper (rq_file (hd cs))) (rq_line (hd cs)) c @
         log_message c) cs)"
proof -
  obtain c cs' where cs: "cs = c # cs'" using assms(4) by (cases cs) auto
  let ?s = "s\<lparr>LogData := (LogData s)(level \<mapsto> logging_new (Filewrapper (rq_file c)) (rq_line c) level (rq_now c))\<rparr>"
  have "log_calls gmtime strerror level cs s = log_calls gmtime strerror level cs ?s"
    by (simp add: cs log_call_first [OF assms(1)])
  then show ?thesis
    using log_calls_runs [OF log_ready_new, of gmtime s level "rq_file c" "rq_line c" "rq_now c" cs strerror] assms(2,3,5,6)
    by (simp add: cs)
qed

text \<open>C33: For every level but FATAL: over one or more calls, the head and the message of each having at most 2000 bytes together, and the end of
  the level's object, the texts given to the output function are the heads and the messages of all calls in order,
  nothing lost; but each head names the file and the line of the level's first call.\<close>

theorem log_lines_of_level:
  assumes "LogData s level = None" and "time_cached gmtime s" and "level \<noteq> FATAL" and "cs \<noteq> []" and "int32_ok (rq_line (hd cs))"
    and "\<forall>c \<in> set cs. request_ok gmtime strerror (g_logTimeZone s) level (Filewrapper (rq_file (hd cs))) (rq_line (hd cs)) c"
  shows "\<exists>s' s''. log_calls gmtime strerror level cs s = (Inr (), s') \<and> loggingFactory_end level s' = (Inr (), s'') \<and>
     concat (g_out s'') = concat (g_out s) @
       concat (map (\<lambda>c. log_head gmtime strerror (g_logTimeZone s) level (Filewrapper (rq_file (hd cs))) (rq_line (hd cs)) c @
         log_message c) cs)"
proof -
  obtain s' s'' ls where "log_calls gmtime strerror level cs s = (Inr (), s')" "loggingFactory_end level s' = (Inr (), s'')"
    "g_out s'' = g_out s @ ls"
    "concat ls = concat (map (\<lambda>c. log_head gmtime strerror (g_logTimeZone s) level (Filewrapper (rq_file (hd cs))) (rq_line (hd cs)) c @
         log_message c) cs)" using log_lines_of_new_level [OF assms] by blast
  then show ?thesis by (intro exI [of _ s'] exI [of _ s'']) simp
qed

text \<open>A call of the level FATAL aborts inside of the call: the head is output and flushed, and the message, which would be written to the
  result, is in no output.\<close>

theorem fatal_message_is_lost:
  assumes "LogData s FATAL = None" and "time_cached gmtime s" and "int32_ok (rq_line c)"
    and "request_ok gmtime strerror (g_logTimeZone s) FATAL (Filewrapper (rq_file c)) (rq_line c) c"
  shows "\<exists>s'. (\<forall>message. log_call gmtime strerror FATAL (rq_file c) (rq_line c) (rq_errno c) (rq_now c) message s = (Inl Process_aborted, s')) \<and>
     g_out s' = g_out s @ [log_head gmtime strerror (g_logTimeZone s) FATAL (Filewrapper (rq_file c)) (rq_line c) c] \<and>
     g_flushed s' = length (g_out s')"
proof -
  let ?s = "s\<lparr>LogData := (LogData s)(FATAL \<mapsto> logging_new (Filewrapper (rq_file c)) (rq_line c) FATAL (rq_now c))\<rparr>"
  have pre: "time_cached gmtime ?s" "request_ok gmtime strerror (g_logTimeZone ?s) FATAL (Filewrapper (rq_file c)) (rq_line c) c"
    "length ([] :: string) \<le> 2000" using assms(2,4) by simp_all
  have out: "g_out ?s = g_out s" "g_logTimeZone ?s = g_logTimeZone s" by simp_all
  obtain s1 where s1: "getStream gmtime strerror FATAL (Filewrapper (rq_file c)) (rq_line c) (rq_errno c) (rq_now c) ?s =
      (Inl Process_aborted, s1\<lparr>g_flushed := length (g_out s1)\<rparr>)"
    "g_out s1 = g_out s @ [log_head gmtime strerror (g_logTimeZone s) FATAL (Filewrapper (rq_file c)) (rq_line c) c]"
    using getStream_runs [OF log_ready_new pre assms(3), of "Filewrapper (rq_file c)" "rq_line c"]
    unfolding out if_P [OF refl] append_Nil by (elim exE conjE)
  have "log_call gmtime strerror FATAL (rq_file c) (rq_line c) (rq_errno c) (rq_now c) message s =
      (Inl Process_aborted, s1\<lparr>g_flushed := length (g_out s1)\<rparr>)" for message
    using s1(1) by (subst log_call_first [OF assms(1)]) (simp add: log_call_def)
  then show ?thesis using s1(2) by (intro exI [of _ "s1\<lparr>g_flushed := length (g_out s1)\<rparr>"]) simp
qed

definition sample_call :: "int \<Rightarrow> stream_item list \<Rightarrow> log_request" where
  "sample_call line message = \<lparr>rq_file = ''src/a.cc'', rq_line = line, rq_errno = 0, rq_now = 86400000007, rq_message = message\<rparr>"

definition sample_gmtime :: "int \<Rightarrow> tm" where
  "sample_gmtime t = (case toUtcTime t False of Inr utc \<Rightarrow> utc | Inl _ \<Rightarrow> tm_zero)"

lemma sample_civil: "civil (sample_gmtime 86400)"
proof -
  let ?d = "\<lparr>ymd_year = 1970, ymd_month = 1, ymd_day = 2\<rparr>"
  have "date_of_number (1 + kJulianDayOf1970_01_01) = ?d"
    using date_of_number_julian [of ?d] by (simp add: kJulianDay julian_def julian_march march_days_def date_ok_def days_in_def)
  then show ?thesis
    by (simp add: sample_gmtime_def toUtcTime_parts utc_of_def civil_def fillHMS_def Let_def)
qed

lemma sample_call_ok:
  assumes "list_all item_ok message" and "length (concat (map item_text message)) \<le> 100" and "int32_ok line"
  shows "request_ok sample_gmtime strerror None level ''a.cc'' line (sample_call l message)"
proof -
  have now: "sint (86400000007 :: 64 word) = 86400000007" by simp
  have tm: "log_tm sample_gmtime None 86400 = Inr (sample_gmtime 86400)" by (simp add: log_tm_def tz_valid_def)
  have smod: "86400000007 smod KmicroSecond = 7" by (simp add: KmicroSecond_def smod_pos)
  have "rq_second (sample_call l message) = 86400"
    unfolding rq_second_def sample_call_def log_request.simps now by (simp add: KmicroSecond_def sdiv_pos)
  moreover have "length (dec_string line) \<le> 20"
    using convert_short [OF int32_integer_ok [OF assms(3)]] by (simp add: convert_dec_string)
  moreover have "length (LogLevelName level) = 6" by (cases level) simp_all
  moreover have "length (pad_zero 6 7) = 6" by (rule pad_zero_small) simp_all
  ultimately show ?thesis
    using assms(1,2) sample_civil time_text_ok(1) [OF sample_civil] tm
    by (simp add: request_ok_def log_head_def head_text_def log_message_def sample_call_def now smod int32_ok_def)
qed

theorem log_lines_of_level_witness:
  "\<exists>s' s''. log_calls sample_gmtime (\<lambda>_. []) INFO [sample_call 3 [Put_integer 42], sample_call 9 [Put_cstring (Some ''end'')]] (log_start None)
       = (Inr (), s') \<and> loggingFactory_end INFO s' = (Inr (), s'') \<and>
     concat (g_out s'') = time_text (sample_gmtime 86400) @ ''.000007Z 111111INFO   - a.cc:3 - 42'' @
       time_text (sample_gmtime 86400) @ ''.000007Z 111111INFO   - a.cc:3 - end''"
proof -
  let ?cs = "[sample_call 3 [Put_integer 42], sample_call 9 [Put_cstring (Some ''end'')]]"
  have names: "Filewrapper (rq_file (hd ?cs)) = ''a.cc''" "rq_line (hd ?cs) = 3" by (simp_all add: sample_call_def Filewrapper_def)
  have ok: "\<forall>c \<in> set ?cs. request_ok sample_gmtime (\<lambda>_. []) None INFO ''a.cc'' 3 c"
    using sample_call_ok [of "[Put_integer 42]" 3] sample_call_ok [of "[Put_cstring (Some ''end'')]" 3]
    by (simp add: integer_ok_def int32_ok_def dec_string_def dec_nat.simps)
  have zeros: "replicate 5 CHR ''0'' = ''00000''" by (simp add: eval_nat_numeral)
  have head: "log_head sample_gmtime (\<lambda>_. []) None INFO ''a.cc'' 3 (sample_call l m) =
      time_text (sample_gmtime 86400) @ ''.000007Z 111111INFO   - a.cc:3 - ''" for l m
    by (simp add: log_head_def head_text_def sample_call_def rq_second_def KmicroSecond_def sdiv_pos smod_pos log_tm_def
        tz_valid_def pad_zero_def pad_left_def dec_string_def dec_nat.simps char_of_def bit_simps zeros)
  have start: "LogData (log_start None) INFO = None" "g_logTimeZone (log_start None) = None" "g_out (log_start None) = []"
    by (simp_all add: log_start_def)
  have "log_message (sample_call 3 [Put_integer 42]) = ''42''" "log_message (sample_call 9 [Put_cstring (Some ''end'')]) = ''end''"
    by (simp_all add: log_message_def sample_call_def dec_string_def dec_nat.simps char_of_def bit_simps)
  then show ?thesis
    using log_lines_of_level [OF start(1) time_cached_start, of ?cs sample_gmtime "\<lambda>_. []"] ok unfolding names start(2,3)
    by (simp add: head int32_ok_def)
qed

theorem fatal_message_is_lost_witness:
  "\<exists>s'. log_call sample_gmtime (\<lambda>_. []) FATAL ''src/a.cc'' 3 0 86400000007 [Put_cstring (Some ''why'')] (log_start None) = (Inl Process_aborted, s') \<and>
     g_out s' = [log_head sample_gmtime (\<lambda>_. []) None FATAL ''a.cc'' 3 (sample_call 3 [])]"
proof -
  let ?c = "sample_call 3 []"
  have names: "Filewrapper ''src/a.cc'' = ''a.cc''" "rq_line ?c = 3" "rq_file ?c = ''src/a.cc''" "rq_errno ?c = 0" "rq_now ?c = 86400000007"
    by (simp_all add: sample_call_def Filewrapper_def)
  have start: "LogData (log_start None) FATAL = None" "g_logTimeZone (log_start None) = None" "g_out (log_start None) = []"
    by (simp_all add: log_start_def)
  have "request_ok sample_gmtime (\<lambda>_. []) None FATAL ''a.cc'' 3 ?c" by (rule sample_call_ok) (simp_all add: int32_ok_def)
  then show ?thesis
    using fatal_message_is_lost [OF start(1) time_cached_start, of ?c sample_gmtime "\<lambda>_. []"] unfolding names start(2,3)
    by (auto simp: int32_ok_def)
qed

end
