(* ===== verification/Hash_Map.thy ===== *)
theory Hash_Map
  imports Prelude
begin

text \<open>
  \<open>src/src/log/ThreadSafe_hashmap.h\<close>: a hash table of buckets, each a list under its own shared mutex. Every
  operation on a bucket holds the mutex throughout, so it is one step here. An iterator is a position; the hash
  function is a parameter, as in the template. \<open>value_of\<close> has no definition here: the member of the bucket calls \<open>find_entry\<close>,
  which is not const, from a const member and takes \<open>.second\<close> of an iterator, so it does not compile when it is used. What is in a
  table is read by \<open>get_standard_map\<close>.
\<close>

section \<open>Buckets\<close>

type_synonym ('k, 'v) buket_data = "('k \<times> 'v) list"

definition find_entry :: "'k \<Rightarrow> ('k, 'v) buket_data \<Rightarrow> nat" where
  "find_entry key data = length (takeWhile (\<lambda>para. fst para \<noteq> key) data)"

definition buket_add_or_update :: "'k \<Rightarrow> 'v \<Rightarrow> ('k, 'v) buket_data \<Rightarrow> ('k, 'v) buket_data" where
  "buket_add_or_update key v data =
     (let value_iterator = find_entry key data in
      if value_iterator = length data then data @ [(key, v)]
      else data[value_iterator := (fst (data ! value_iterator), v)])"

definition buket_remove :: "'k \<Rightarrow> ('k, 'v) buket_data \<Rightarrow> ('k, 'v) buket_data" where
  "buket_remove key data =
     (let value_iterator = find_entry key data in
      if value_iterator \<noteq> length data then take value_iterator data @ drop (Suc value_iterator) data else data)"

section \<open>The table\<close>

type_synonym ('k, 'v) bukets = "('k, 'v) buket_data list"

definition Threadsafe_unordered_map :: "nat \<Rightarrow> ('k, 'v) bukets" where
  "Threadsafe_unordered_map num_bukets = replicate num_bukets []"

definition get_buket :: "('k \<Rightarrow> nat) \<Rightarrow> 'k \<Rightarrow> ('k, 'v) bukets \<Rightarrow> cpp_error + nat" where
  "get_buket hasher key m = (if length m = 0 then Inl Division_by_zero else Inr (hasher key mod length m))"

definition add_or_update :: "('k \<Rightarrow> nat) \<Rightarrow> 'k \<Rightarrow> 'v \<Rightarrow> ('k, 'v) bukets \<Rightarrow> (('k, 'v) bukets, unit) cpp" where
  "add_or_update hasher key v m =
     (case get_buket hasher key m of
        Inl e \<Rightarrow> (Inl e, m)
      | Inr i \<Rightarrow> (Inr (), m[i := buket_add_or_update key v (m ! i)]))"

definition hm_remove :: "('k \<Rightarrow> nat) \<Rightarrow> 'k \<Rightarrow> ('k, 'v) bukets \<Rightarrow> (('k, 'v) bukets, unit) cpp" where
  "hm_remove hasher key m =
     (case get_buket hasher key m of
        Inl e \<Rightarrow> (Inl e, m)
      | Inr i \<Rightarrow> (Inr (), m[i := buket_remove key (m ! i)]))"

text \<open>\<open>std::map::insert\<close> keeps an entry that is there.\<close>

definition map_insert :: "('k \<rightharpoonup> 'v) \<Rightarrow> 'k \<times> 'v \<Rightarrow> ('k \<rightharpoonup> 'v)" where
  "map_insert instance p = (if instance (fst p) = None then instance(fst p \<mapsto> snd p) else instance)"

definition get_standard_map :: "('k, 'v) bukets \<Rightarrow> ('k \<rightharpoonup> 'v)" where
  "get_standard_map m = foldl (foldl map_insert) Map.empty m"

section \<open>The interface of a table\<close>

datatype ('k, 'v) table_op = Add_or_update 'k 'v | Remove_key 'k

fun run_table ::
  "('k \<Rightarrow> 'v \<Rightarrow> 't \<Rightarrow> ('t, unit) cpp) \<Rightarrow> ('k \<Rightarrow> 't \<Rightarrow> ('t, unit) cpp) \<Rightarrow> ('k, 'v) table_op list \<Rightarrow> 't \<Rightarrow> ('t, unit) cpp" where
  "run_table upd del [] t = (Inr (), t)"
| "run_table upd del (Add_or_update k v # ops) t = bindc (upd k v t) (\<lambda>_ t. run_table upd del ops t)"
| "run_table upd del (Remove_key k # ops) t = bindc (del k t) (\<lambda>_ t. run_table upd del ops t)"

text \<open>The same on a finite map.\<close>

fun map_op :: "('k, 'v) table_op \<Rightarrow> ('k \<rightharpoonup> 'v) \<Rightarrow> ('k \<rightharpoonup> 'v)" where
  "map_op (Add_or_update k v) m = m(k \<mapsto> v)"
| "map_op (Remove_key k) m = m(k := None)"

locale keyed_table =
  fixes copy :: "'t \<Rightarrow> ('k \<rightharpoonup> 'v)"
    and upd :: "'k \<Rightarrow> 'v \<Rightarrow> 't \<Rightarrow> ('t, unit) cpp"
    and del :: "'k \<Rightarrow> 't \<Rightarrow> ('t, unit) cpp"
    and content :: "'t \<Rightarrow> ('k \<rightharpoonup> 'v)"
    and invar :: "'t \<Rightarrow> bool"
  assumes copy_content: "invar t \<Longrightarrow> copy t = content t"
    and upd_content: "invar t \<Longrightarrow> \<exists>t'. upd k v t = (Inr (), t') \<and> invar t' \<and> content t' = (content t)(k \<mapsto> v)"
    and del_content: "invar t \<Longrightarrow> \<exists>t'. del k t = (Inr (), t') \<and> invar t' \<and> content t' = (content t)(k := None)"
begin

lemma run_content:
  assumes "invar t"
  shows "\<exists>t'. run_table upd del ops t = (Inr (), t') \<and> invar t' \<and> content t' = fold map_op ops (content t)"
  using assms
proof (induction ops arbitrary: t)
  case (Cons p ops)
  obtain t1 where t1: "run_table upd del (p # ops) t = run_table upd del ops t1" "invar t1" "content t1 = map_op p (content t)"
  proof (cases p)
    case (Add_or_update k v)
    obtain t1 where "upd k v t = (Inr (), t1)" "invar t1" "content t1 = (content t)(k \<mapsto> v)"
      using upd_content [OF Cons.prems] by blast
    then show ?thesis using that Add_or_update by simp
  next
    case (Remove_key k)
    obtain t1 where "del k t = (Inr (), t1)" "invar t1" "content t1 = (content t)(k := None)"
      using del_content [OF Cons.prems] by blast
    then show ?thesis using that Remove_key by simp
  qed
  show ?case using Cons.IH [OF t1(2)] t1(1,3) by simp
qed simp

lemma copy_after_run:
  assumes "invar t"
  shows "\<exists>t'. run_table upd del ops t = (Inr (), t') \<and> invar t' \<and> copy t' = fold map_op ops (content t)"
  using run_content [OF assms, of ops] copy_content by fastforce

end

section \<open>The hash table is a table\<close>

definition hm_ok :: "('k \<Rightarrow> nat) \<Rightarrow> ('k, 'v) bukets \<Rightarrow> bool" where
  "hm_ok hasher m \<longleftrightarrow> m \<noteq> [] \<and>
     (\<forall>i < length m. distinct (map fst (m ! i)) \<and> (\<forall>k \<in> fst ` set (m ! i). hasher k mod length m = i))"

definition hm_map :: "('k \<Rightarrow> nat) \<Rightarrow> ('k, 'v) bukets \<Rightarrow> ('k \<rightharpoonup> 'v)" where
  "hm_map hasher m k = map_of (m ! (hasher k mod length m)) k"

lemma find_entry_cases:
  "find_entry k xs = length xs \<and> k \<notin> fst ` set xs \<or>
   (\<exists>ys v zs. xs = ys @ (k, v) # zs \<and> k \<notin> fst ` set ys \<and> find_entry k xs = length ys)"
proof -
  define P where "P = (\<lambda>p :: 'a \<times> 'b. fst p \<noteq> k)"
  have xs: "xs = takeWhile P xs @ dropWhile P xs" by simp
  have before: "k \<notin> fst ` set (takeWhile P xs)" by (auto simp: P_def dest: set_takeWhileD)
  have here: "find_entry k xs = length (takeWhile P xs)" by (simp add: find_entry_def P_def)
  show ?thesis
  proof (cases "dropWhile P xs")
    case Nil
    then have "takeWhile P xs = xs" using xs by (metis append_Nil2)
    then show ?thesis using before here by metis
  next
    case (Cons p zs)
    then have "\<not> P p" by (metis hd_dropWhile list.distinct(1) list.sel(1))
    then have "p = (k, snd p)" by (simp add: P_def prod_eq_iff)
    then have "xs = takeWhile P xs @ (k, snd p) # zs" using takeWhile_dropWhile_id [of P xs] Cons by metis
    then show ?thesis using before here by blast
  qed
qed

lemma map_of_absent: "k \<notin> fst ` set xs \<Longrightarrow> map_of xs k = None"
  by (simp add: map_of_eq_None_iff)

lemma buket_add_map:
  assumes "distinct (map fst xs)"
  shows "map_of (buket_add_or_update k v xs) = (map_of xs)(k \<mapsto> v)" "distinct (map fst (buket_add_or_update k v xs))"
    "fst ` set (buket_add_or_update k v xs) = insert k (fst ` set xs)"
proof -
  consider "k \<notin> fst ` set xs" "buket_add_or_update k v xs = xs @ [(k, v)]"
    | ys u zs where "xs = ys @ (k, u) # zs" "buket_add_or_update k v xs = ys @ (k, v) # zs"
    using find_entry_cases [of k xs] by (auto simp: buket_add_or_update_def list_update_append)
  then have "map_of (buket_add_or_update k v xs) = (map_of xs)(k \<mapsto> v) \<and> distinct (map fst (buket_add_or_update k v xs)) \<and>
      fst ` set (buket_add_or_update k v xs) = insert k (fst ` set xs)"
  proof cases
    case 1
    then show ?thesis using assms by (auto simp: map_add_def fun_eq_iff map_of_absent split: option.splits)
  next
    case (2 ys u zs)
    then have "map_of ys k = None" using assms by (auto simp: map_of_absent)
    then show ?thesis using 2 assms by (auto simp: map_add_def fun_eq_iff image_Un split: option.splits)
  qed
  then show "map_of (buket_add_or_update k v xs) = (map_of xs)(k \<mapsto> v)" "distinct (map fst (buket_add_or_update k v xs))"
    "fst ` set (buket_add_or_update k v xs) = insert k (fst ` set xs)" by simp_all
qed

lemma buket_remove_map:
  assumes "distinct (map fst xs)"
  shows "map_of (buket_remove k xs) = (map_of xs)(k := None)" "distinct (map fst (buket_remove k xs))"
    "fst ` set (buket_remove k xs) \<subseteq> fst ` set xs"
proof -
  consider "k \<notin> fst ` set xs" "buket_remove k xs = xs"
    | ys v zs where "xs = ys @ (k, v) # zs" "buket_remove k xs = ys @ zs"
    using find_entry_cases [of k xs] by (auto simp: buket_remove_def)
  then have "map_of (buket_remove k xs) = (map_of xs)(k := None) \<and> distinct (map fst (buket_remove k xs)) \<and>
      fst ` set (buket_remove k xs) \<subseteq> fst ` set xs"
  proof cases
    case 1
    then show ?thesis using assms by (simp add: map_of_absent fun_upd_idem)
  next
    case (2 ys v zs)
    then have "map_of ys k = None" "map_of zs k = None" using assms by (auto simp: map_of_absent)
    then show ?thesis using 2 assms by (auto simp: map_add_def fun_eq_iff split: option.splits)
  qed
  then show "map_of (buket_remove k xs) = (map_of xs)(k := None)" "distinct (map fst (buket_remove k xs))"
    "fst ` set (buket_remove k xs) \<subseteq> fst ` set xs" by simp_all
qed

lemma hm_ok_at:
  assumes "hm_ok hasher m"
  shows "hasher k mod length m < length m" "distinct (map fst (m ! (hasher k mod length m)))" "m \<noteq> []"
  using assms by (auto simp: hm_ok_def)

text \<open>Changing the bucket of a key, to one whose keys are the old ones and perhaps that key.\<close>

lemma hm_change:
  assumes "hm_ok hasher m" and "distinct (map fst data)" and "i = hasher k mod length m"
    and "fst ` set data \<subseteq> insert k (fst ` set (m ! i))" and "map_of data = (map_of (m ! i))(k := v)"
  shows "hm_ok hasher (m[i := data])" "hm_map hasher (m[i := data]) = (hm_map hasher m)(k := v)"
proof -
  have i: "i < length m" using hm_ok_at(1) [OF assms(1)] assms(3) by simp
  have keys: "\<forall>q \<in> fst ` set (m ! j). hasher q mod length m = j" "distinct (map fst (m ! j))" if "j < length m" for j
    using assms(1) that by (auto simp: hm_ok_def)
  have "hasher q mod length m = i" if "q \<in> fst ` set data" for q
  proof -
    have "q = k \<or> q \<in> fst ` set (m ! i)" using that assms(4) by blast
    then show ?thesis using keys(1) [OF i] assms(3) by blast
  qed
  then show "hm_ok hasher (m[i := data])"
    unfolding hm_ok_def
  proof (intro conjI allI impI)
    show "m[i := data] \<noteq> []" using i by auto
    fix j assume j: "j < length (m[i := data])"
    show "distinct (map fst (m[i := data] ! j))" using keys(2) [of j] j assms(2) i by (simp add: nth_list_update)
    show "\<forall>q \<in> fst ` set (m[i := data] ! j). hasher q mod length (m[i := data]) = j"
      using keys(1) [of j] j i \<open>\<And>q. q \<in> fst ` set data \<Longrightarrow> hasher q mod length m = i\<close> by (cases "j = i") simp_all
  qed
  show "hm_map hasher (m[i := data]) = (hm_map hasher m)(k := v)"
  proof
    fix q
    show "hm_map hasher (m[i := data]) q = ((hm_map hasher m)(k := v)) q"
    proof (cases "hasher q mod length m = i")
      case True
      then show ?thesis using i fun_cong [OF assms(5), of q] by (simp add: hm_map_def)
    next
      case False
      then have "q \<noteq> k" using assms(3) by blast
      then show ?thesis using False by (simp add: hm_map_def)
    qed
  qed
qed

lemma hm_add_or_update:
  assumes "hm_ok hasher m"
  shows "\<exists>m'. add_or_update hasher k v m = (Inr (), m') \<and> hm_ok hasher m' \<and> hm_map hasher m' = (hm_map hasher m)(k \<mapsto> v)"
proof -
  note b = buket_add_map [OF hm_ok_at(2) [OF assms, of k], of k v]
  note changed = hm_change [OF assms b(2) refl equalityD1 [OF b(3)] b(1)]
  show ?thesis using changed hm_ok_at(3) [OF assms] by (simp add: add_or_update_def get_buket_def)
qed

lemma hm_remove:
  assumes "hm_ok hasher m"
  shows "\<exists>m'. hm_remove hasher k m = (Inr (), m') \<and> hm_ok hasher m' \<and> hm_map hasher m' = (hm_map hasher m)(k := None)"
proof -
  note b = buket_remove_map [OF hm_ok_at(2) [OF assms, of k], of k]
  note changed = hm_change [OF assms b(2) refl subset_insertI2 [OF b(3)] b(1)]
  show ?thesis using changed hm_ok_at(3) [OF assms] by (simp add: hm_remove_def get_buket_def)
qed

section \<open>The copy into an ordered map\<close>

lemma foldl_map_insert:
  assumes "distinct (map fst xs)" and "\<forall>k \<in> fst ` set xs. m k = None"
  shows "foldl map_insert m xs = m ++ map_of xs"
  using assms
proof (induction xs arbitrary: m)
  case (Cons p xs)
  have "map_insert m p = m(fst p \<mapsto> snd p)" using Cons.prems(2) by (simp add: map_insert_def)
  moreover have "foldl map_insert (m(fst p \<mapsto> snd p)) xs = m(fst p \<mapsto> snd p) ++ map_of xs"
  proof (intro Cons.IH ballI)
    have new: "fst p \<notin> fst ` set xs" using Cons.prems(1) by simp
    fix k assume k: "k \<in> fst ` set xs"
    then have "k \<noteq> fst p" using new by blast
    moreover have "m k = None" by (rule bspec [OF Cons.prems(2)]) (use k in simp)
    ultimately show "(m(fst p \<mapsto> snd p)) k = None" by simp
  qed (use Cons.prems(1) in simp)
  moreover have "m(fst p \<mapsto> snd p) ++ map_of xs = m ++ map_of (p # xs)"
  proof -
    have "map_of xs (fst p) = None" using Cons.prems(1) by (simp add: map_of_absent)
    then show ?thesis by (cases p) (auto simp: fun_eq_iff map_add_def split: option.splits)
  qed
  ultimately show ?case by (simp only: foldl_Cons)
qed simp

lemma copied_bukets:
  assumes "hm_ok hasher m" and "n \<le> length m"
  shows "foldl (foldl map_insert) Map.empty (take n m) k = (if hasher k mod length m < n then hm_map hasher m k else None)"
  using assms(2)
proof (induction n arbitrary: k)
  case (Suc n)
  let ?c = "foldl (foldl map_insert) Map.empty (take n m)"
  have n: "n < length m" using Suc.prems by simp
  have d: "distinct (map fst (m ! n))" "\<forall>q \<in> fst ` set (m ! n). hasher q mod length m = n"
    using assms(1) n by (auto simp: hm_ok_def)
  have "\<forall>q \<in> fst ` set (m ! n). ?c q = None" using Suc.IH n d(2) by simp
  then have "foldl map_insert ?c (m ! n) = ?c ++ map_of (m ! n)" by (rule foldl_map_insert [OF d(1)])
  moreover have "map_of (m ! n) k = None" if "hasher k mod length m \<noteq> n" using that d(2) by (auto simp: map_of_eq_None_iff)
  ultimately show ?case
    using Suc.IH [of k] n by (auto simp: take_Suc_conv_app_nth map_add_def hm_map_def less_Suc_eq split: option.splits)
qed simp

lemma get_standard_map_content: "hm_ok hasher m \<Longrightarrow> get_standard_map m = hm_map hasher m"
  using copied_bukets [of hasher m "length m"] hm_ok_at(1) [of hasher m]
  by (auto simp: get_standard_map_def fun_eq_iff)

interpretation hash: keyed_table get_standard_map "add_or_update hasher" "hm_remove hasher" "hm_map hasher" "hm_ok hasher"
  for hasher :: "'k \<Rightarrow> nat"
  by unfold_locales (auto intro: get_standard_map_content hm_add_or_update hm_remove)

lemma hm_ok_new:
  "0 < n \<Longrightarrow> hm_ok hasher (Threadsafe_unordered_map n)" "0 < n \<Longrightarrow> hm_map hasher (Threadsafe_unordered_map n) = Map.empty"
  by (auto simp: hm_ok_def hm_map_def Threadsafe_unordered_map_def fun_eq_iff)

section \<open>Properties\<close>

text \<open>C34: With any number of buckets but none and any hash function, the table implements a finite map: after any sequence of updates and
  removals, which all succeed, the copy into an ordered map has exactly the entries of the map, the last value for each key.\<close>

theorem hash_table_refines_map:
  assumes "0 < n"
  shows "\<exists>m. run_table (add_or_update hasher) (hm_remove hasher) ops (Threadsafe_unordered_map n) = (Inr (), m) \<and>
     get_standard_map m = fold map_op ops Map.empty"
  using hash.copy_after_run [OF hm_ok_new(1) [OF assms, of hasher], of ops] unfolding hm_ok_new(2) [OF assms] by blast

theorem hash_table_refines_map_witness:
  "\<exists>m. run_table (add_or_update (\<lambda>n. n * 3)) (hm_remove (\<lambda>n. n * 3))
       [Add_or_update 1 ''a'', Add_or_update 24 ''b'', Add_or_update 1 ''c'', Remove_key (24 :: nat)] (Threadsafe_unordered_map 23) = (Inr (), m) \<and>
     get_standard_map m = [1 \<mapsto> ''c'']"
  using hash_table_refines_map [of 23 "\<lambda>n. n * 3" "[Add_or_update 1 ''a'', Add_or_update 24 ''b'', Add_or_update 1 ''c'', Remove_key (24 :: nat)]"]
  by (simp add: fun_upd_twist)

end
