(* ===== verification/Lock_Free_Queue.thy ===== *)
theory Lock_Free_Queue
  imports Prelude
begin

text \<open>
  \<open>src/src/tool/ThreadSafeQueue/lockfreequeue.h\<close>: the queue of linked nodes that several threads change by
  compare-and-swap. Every access to shared memory is a step of its own. The memory maps addresses to nodes; a
  deleted node is not in it any more, and following its address is an error as long as \<open>new\<close> has not given the address to
  another node. Which address \<open>new\<close> gives is up to the allocator: \<open>allocs\<close> are the addresses it would give,
  one for each call, and \<open>delete\<close> makes an address free to be given again.
\<close>

section \<open>Memory\<close>

type_synonym address = nat

record 'a Node =
  data_of :: 'a
  next_of :: "address option"

record 'a LockFreeQueue =
  nodes :: "address \<rightharpoonup> 'a Node"
  allocs :: "nat \<Rightarrow> address"
  made :: nat
  unused :: address
  lf_head :: address
  lf_tail :: address
  lf_count :: int

text \<open>The first node has the value of the default constructor of the item's type.\<close>

definition LockFreeQueue_new :: "(nat \<Rightarrow> address) \<Rightarrow> 'a \<Rightarrow> 'a LockFreeQueue" where
  "LockFreeQueue_new alc dflt =
     \<lparr>nodes = [0 \<mapsto> \<lparr>data_of = dflt, next_of = None\<rparr>], allocs = alc, made = 0, unused = 1, lf_head = 0, lf_tail = 0, lf_count = 0\<rparr>"

text \<open>
  \<open>new\<close> never gives an address that is in use: then it is one above all that were given so far. So for every sequence of addresses
  an allocator can give there is an \<open>allocs\<close> that gives it.
\<close>

definition new_address :: "'a LockFreeQueue \<Rightarrow> address" where
  "new_address q = (if nodes q (allocs q (made q)) = None then allocs q (made q) else unused q)"

definition new_node :: "'a \<Rightarrow> 'a LockFreeQueue \<Rightarrow> address \<times> 'a LockFreeQueue" where
  "new_node v q =
     (let a = new_address q in
      (a, q\<lparr>nodes := (nodes q)(a \<mapsto> \<lparr>data_of = v, next_of = None\<rparr>), made := made q + 1, unused := max (unused q) (a + 1)\<rparr>))"

definition follow :: "address \<Rightarrow> 'a LockFreeQueue \<Rightarrow> cpp_error + 'a Node" where
  "follow a q = (case nodes q a of None \<Rightarrow> Inl Bad_access | Some n \<Rightarrow> Inr n)"

definition delete_node :: "address \<Rightarrow> 'a LockFreeQueue \<Rightarrow> cpp_error + 'a LockFreeQueue" where
  "delete_node a q = (if nodes q a = None then Inl Bad_access else Inr (q\<lparr>nodes := (nodes q)(a := None)\<rparr>))"

definition cas_tail :: "address \<Rightarrow> address \<Rightarrow> 'a LockFreeQueue \<Rightarrow> 'a LockFreeQueue" where
  "cas_tail old_tail a q = (if lf_tail q = old_tail then q\<lparr>lf_tail := a\<rparr> else q)"

section \<open>The steps of \<open>push\<close> and \<open>pop\<close>\<close>

text \<open>
  Where a thread is, with its local variables: \<open>Push_read_tail enqueue_node\<close>, \<open>Push_read_next enqueue_node
  old_tail\<close> and so on. \<open>Pop_delete\<close> and \<open>Pop_count\<close> carry the item that \<open>pop\<close> will return.
\<close>

datatype 'a place =
    Idle
  | Push_read_tail address
  | Push_read_next address address
  | Push_check address address "address option"
  | Push_link address address "address option"
  | Push_move_tail address address
  | Push_count
  | Pop_read_head
  | Pop_read_tail address
  | Pop_read_first address address
  | Pop_check address address "address option"
  | Pop_decide address address "address option"
  | Pop_move_head address address 'a
  | Pop_delete address 'a
  | Pop_count 'a

text \<open>
  What a step makes visible: an item enters or leaves the chain, \<open>pop\<close> writes to the variable it was given, and what it returns,
  \<open>None\<close> for false.
\<close>

datatype 'a label = Entered 'a | Left 'a | Wrote 'a | Popped "'a option"

type_synonym 'a step_result = "cpp_error + ('a place \<times> 'a LockFreeQueue \<times> 'a label list)"

definition silent :: "'a place \<Rightarrow> 'a LockFreeQueue \<Rightarrow> 'a step_result" where
  "silent p q = Inr (p, q, [])"

text \<open>The compare-and-swap of \<open>push\<close> on the last node's \<open>next_\<close>.\<close>

definition link_step :: "address \<Rightarrow> address \<Rightarrow> 'a LockFreeQueue \<Rightarrow> 'a step_result" where
  "link_step enqueue_node old_tail q =
     (case follow old_tail q of
        Inl e \<Rightarrow> Inl e
      | Inr n \<Rightarrow>
          if next_of n = None then
            (case follow enqueue_node q of
               Inl e \<Rightarrow> Inl e
             | Inr m \<Rightarrow>
                 Inr (Push_move_tail enqueue_node old_tail, q\<lparr>nodes := (nodes q)(old_tail \<mapsto> n\<lparr>next_of := Some enqueue_node\<rparr>)\<rparr>,
                   [Entered (data_of m)]))
          else silent (Push_read_tail enqueue_node) q)"

definition decide_step :: "address \<Rightarrow> address \<Rightarrow> address option \<Rightarrow> 'a LockFreeQueue \<Rightarrow> 'a step_result" where
  "decide_step old_head old_tail first_node q =
     (if old_head = old_tail then
        (case first_node of
           None \<Rightarrow> Inr (Idle, q, [Popped None])
         | Some f \<Rightarrow> silent Pop_read_head (cas_tail old_tail f q))
      else
        case first_node of
          None \<Rightarrow> Inl Null_deref
        | Some f \<Rightarrow>
            (case follow f q of
               Inl e \<Rightarrow> Inl e
             | Inr n \<Rightarrow> Inr (Pop_move_head old_head f (data_of n), q, [Wrote (data_of n)])))"

fun place_step :: "'a place \<Rightarrow> 'a LockFreeQueue \<Rightarrow> 'a step_result" where
  "place_step Idle q = silent Idle q"
| "place_step (Push_read_tail enqueue_node) q = silent (Push_read_next enqueue_node (lf_tail q)) q"
| "place_step (Push_read_next enqueue_node old_tail) q =
     (case follow old_tail q of Inl e \<Rightarrow> Inl e | Inr n \<Rightarrow> silent (Push_check enqueue_node old_tail (next_of n)) q)"
| "place_step (Push_check enqueue_node old_tail old_tail_next) q =
     (if old_tail \<noteq> lf_tail q then silent (Push_read_tail enqueue_node) q
      else silent (Push_link enqueue_node old_tail old_tail_next) q)"
| "place_step (Push_link enqueue_node old_tail None) q = link_step enqueue_node old_tail q"
| "place_step (Push_link enqueue_node old_tail (Some n)) q = silent (Push_read_tail enqueue_node) (cas_tail old_tail n q)"
| "place_step (Push_move_tail enqueue_node old_tail) q = silent Push_count (cas_tail old_tail enqueue_node q)"
| "place_step Push_count q = silent Idle (q\<lparr>lf_count := lf_count q + 1\<rparr>)"
| "place_step Pop_read_head q = silent (Pop_read_tail (lf_head q)) q"
| "place_step (Pop_read_tail old_head) q = silent (Pop_read_first old_head (lf_tail q)) q"
| "place_step (Pop_read_first old_head old_tail) q =
     (case follow old_head q of Inl e \<Rightarrow> Inl e | Inr n \<Rightarrow> silent (Pop_check old_head old_tail (next_of n)) q)"
| "place_step (Pop_check old_head old_tail first_node) q =
     (if old_head \<noteq> lf_head q then silent Pop_read_head q else silent (Pop_decide old_head old_tail first_node) q)"
| "place_step (Pop_decide old_head old_tail first_node) q = decide_step old_head old_tail first_node q"
| "place_step (Pop_move_head old_head first_node v) q =
     (if lf_head q = old_head then Inr (Pop_delete old_head v, q\<lparr>lf_head := first_node\<rparr>, [Left v]) else silent Pop_read_head q)"
| "place_step (Pop_delete old_head v) q =
     (case delete_node old_head q of Inl e \<Rightarrow> Inl e | Inr q \<Rightarrow> silent (Pop_count v) q)"
| "place_step (Pop_count v) q = Inr (Idle, q\<lparr>lf_count := lf_count q - 1\<rparr>, [Popped (Some v)])"

section \<open>The threads\<close>

record 'a queue_system =
  the_queue :: "'a LockFreeQueue"
  places :: "nat \<Rightarrow> 'a place"

datatype 'a queue_event = Call_push nat 'a | Call_pop nat | Step nat

definition queue_start :: "(nat \<Rightarrow> address) \<Rightarrow> 'a \<Rightarrow> 'a queue_system" where
  "queue_start alc dflt = \<lparr>the_queue = LockFreeQueue_new alc dflt, places = \<lambda>_. Idle\<rparr>"

text \<open>A call by a thread that is in a call already is no event and changes nothing.\<close>

fun queue_step :: "'a queue_event \<Rightarrow> 'a queue_system \<Rightarrow> ('a queue_system, 'a label list) cpp" where
  "queue_step (Call_push i v) s =
     (if places s i = Idle
      then case new_node v (the_queue s) of
             (a, q) \<Rightarrow> (Inr [], s\<lparr>the_queue := q, places := (places s)(i := Push_read_tail a)\<rparr>)
      else (Inr [], s))"
| "queue_step (Call_pop i) s =
     (if places s i = Idle then (Inr [], s\<lparr>places := (places s)(i := Pop_read_head)\<rparr>) else (Inr [], s))"
| "queue_step (Step i) s =
     (case place_step (places s i) (the_queue s) of
        Inl e \<Rightarrow> (Inl e, s)
      | Inr (p, q, ls) \<Rightarrow> (Inr ls, \<lparr>the_queue = q, places = (places s)(i := p)\<rparr>))"

fun queue_run :: "'a queue_event list \<Rightarrow> 'a queue_system \<Rightarrow> ('a queue_system, 'a label list) cpp" where
  "queue_run [] s = (Inr [], s)"
| "queue_run (e # es) s = bindc (queue_step e s) (\<lambda>ls s. bindc (queue_run es s) (\<lambda>ls' s. (Inr (ls @ ls'), s)))"

definition entered :: "'a label list \<Rightarrow> 'a list" where
  "entered ls = concat (map (\<lambda>l. case l of Entered v \<Rightarrow> [v] | _ \<Rightarrow> []) ls)"

definition left_items :: "'a label list \<Rightarrow> 'a list" where
  "left_items ls = concat (map (\<lambda>l. case l of Left v \<Rightarrow> [v] | _ \<Rightarrow> []) ls)"

section \<open>The chain\<close>

text \<open>An allocator that never gives an address again, and the addresses given so far.\<close>

definition never_twice :: "(nat \<Rightarrow> address) \<Rightarrow> bool" where
  "never_twice alc \<longleftrightarrow> inj alc \<and> (\<forall>n. alc n \<noteq> 0)"

definition given :: "'a LockFreeQueue \<Rightarrow> address set" where
  "given q = insert 0 (allocs q ` {..<made q})"

lemma given_changes [simp]:
  "given (q\<lparr>nodes := ns\<rparr>) = given q" "given (q\<lparr>lf_head := a\<rparr>) = given q" "given (q\<lparr>lf_tail := a\<rparr>) = given q"
  "given (q\<lparr>lf_count := c\<rparr>) = given q"
  by (simp_all add: given_def)

lemma given_finite: "finite (given q)" "card (given q) \<le> Suc (made q)"
proof -
  have "card (allocs q ` {..<made q}) \<le> made q" using card_image_le [of "{..<made q}" "allocs q"] by simp
  then show "finite (given q)" "card (given q) \<le> Suc (made q)" by (simp_all add: given_def card_insert_if)
qed

text \<open>
  With such an allocator:
  All nodes that ever were linked, in order, \<open>h\<close> the place of the head among them, \<open>t\<close> that of the tail. A node that is in
  memory points to its successor; those from the head on are in memory.
\<close>

definition chain :: "'a LockFreeQueue \<Rightarrow> address list \<Rightarrow> 'a list \<Rightarrow> nat \<Rightarrow> nat \<Rightarrow> bool" where
  "chain q H vs h t \<longleftrightarrow>
     h \<le> t \<and> t < length H \<and> length vs = length H \<and> distinct H \<and> lf_head q = H ! h \<and> lf_tail q = H ! t \<and>
     (\<forall>a \<in> set H. a \<in> given q) \<and> (\<forall>a. nodes q a \<noteq> None \<longrightarrow> a \<in> given q) \<and> never_twice (allocs q) \<and>
     (\<forall>i < length H. \<forall>n. nodes q (H ! i) = Some n \<longrightarrow>
        data_of n = vs ! i \<and> next_of n = (if Suc i < length H then Some (H ! Suc i) else None)) \<and>
     (\<forall>i. h \<le> i \<and> i < length H \<longrightarrow> nodes q (H ! i) \<noteq> None)"

definition new_ok :: "'a LockFreeQueue \<Rightarrow> address list \<Rightarrow> address \<Rightarrow> bool" where
  "new_ok q H a \<longleftrightarrow> a \<notin> set H \<and> a \<in> given q \<and> (\<exists>n. nodes q a = Some n \<and> next_of n = None)"

text \<open>A pointer that was read from \<open>next_\<close> of the node at \<open>i\<close>.\<close>

definition next_ok :: "address list \<Rightarrow> nat \<Rightarrow> address option \<Rightarrow> bool" where
  "next_ok H i n \<longleftrightarrow> n = None \<or> Suc i < length H \<and> n = Some (H ! Suc i)"

fun place_ok :: "'a LockFreeQueue \<Rightarrow> address list \<Rightarrow> 'a list \<Rightarrow> nat \<Rightarrow> nat \<Rightarrow> 'a place \<Rightarrow> bool" where
  "place_ok q H vs h t (Push_read_tail a) = new_ok q H a"
| "place_ok q H vs h t (Push_read_next a ot) = (new_ok q H a \<and> (\<exists>i < length H. ot = H ! i))"
| "place_ok q H vs h t (Push_check a ot n) = (new_ok q H a \<and> (\<exists>i < length H. ot = H ! i \<and> next_ok H i n))"
| "place_ok q H vs h t (Push_link a ot n) = (new_ok q H a \<and> (\<exists>i < length H. ot = H ! i \<and> next_ok H i n))"
| "place_ok q H vs h t (Push_move_tail a ot) = (\<exists>i. Suc i < length H \<and> ot = H ! i \<and> a = H ! Suc i)"
| "place_ok q H vs h t (Pop_read_tail oh) = (\<exists>k \<le> h. oh = H ! k)"
| "place_ok q H vs h t (Pop_read_first oh ot) = (\<exists>k \<le> h. oh = H ! k \<and> (oh \<noteq> ot \<and> k = h \<longrightarrow> h < t))"
| "place_ok q H vs h t (Pop_check oh ot f) =
     (\<exists>k \<le> h. oh = H ! k \<and> next_ok H k f \<and> (oh \<noteq> ot \<and> k = h \<longrightarrow> h < t \<and> f \<noteq> None))"
| "place_ok q H vs h t (Pop_decide oh ot f) =
     (\<exists>k \<le> h. oh = H ! k \<and> next_ok H k f \<and> (oh \<noteq> ot \<and> k = h \<longrightarrow> h < t) \<and> (oh \<noteq> ot \<longrightarrow> f \<noteq> None))"
| "place_ok q H vs h t (Pop_move_head oh f v) =
     (\<exists>k \<le> h. oh = H ! k \<and> Suc k < length H \<and> f = H ! Suc k \<and> v = vs ! Suc k \<and> (k = h \<longrightarrow> h < t))"
| "place_ok q H vs h t (Pop_delete oh v) = (\<exists>k < h. oh = H ! k)"
| "place_ok q H vs h t _ = True"

fun new_of :: "'a place \<Rightarrow> address option" where
  "new_of (Push_read_tail a) = Some a"
| "new_of (Push_read_next a ot) = Some a"
| "new_of (Push_check a ot n) = Some a"
| "new_of (Push_link a ot n) = Some a"
| "new_of _ = None"

text \<open>What a step of one thread keeps for the others.\<close>

definition later :: "'a LockFreeQueue \<Rightarrow> address list \<Rightarrow> 'a list \<Rightarrow> nat \<Rightarrow> nat \<Rightarrow>
    'a LockFreeQueue \<Rightarrow> address list \<Rightarrow> 'a list \<Rightarrow> nat \<Rightarrow> nat \<Rightarrow> bool" where
  "later q H vs h t q' H' vs' h' t' \<longleftrightarrow>
     (\<exists>as. H' = H @ as) \<and> (\<exists>ws. vs' = vs @ ws) \<and> h \<le> h' \<and> t \<le> t' \<and> given q \<subseteq> given q' \<and>
     (\<forall>a. a \<notin> set H' \<and> nodes q a \<noteq> None \<longrightarrow> nodes q' a = nodes q a)"

lemma later_nodes:
  assumes "chain q H vs h t" and "later q H vs h t q' H' vs' h' t'"
  shows "h \<le> h'" "t \<le> t'" "\<And>a. new_ok q H a \<Longrightarrow> a \<notin> set H' \<Longrightarrow> new_ok q' H' a"
    "\<And>i. i < length H \<Longrightarrow> H' ! i = H ! i \<and> vs' ! i = vs ! i \<and> i < length H'"
    "\<And>i n. next_ok H i n \<Longrightarrow> i < length H \<Longrightarrow> next_ok H' i n"
    "\<And>k. k \<le> h \<Longrightarrow> k \<le> h' \<and> H ! k = H' ! k \<and> (k = h' \<longrightarrow> k = h) \<and> k < length H"
proof -
  obtain as ws where H: "H' = H @ as" "vs' = vs @ ws" using assms(2) by (auto simp: later_def)
  have len: "length vs = length H" "h < length H" using assms(1) by (auto simp: chain_def)
  show le: "h \<le> h'" "t \<le> t'" using assms(2) by (simp_all add: later_def)
  show "new_ok q' H' a" if "new_ok q H a" "a \<notin> set H'" for a
    using that assms(2) by (auto simp: new_ok_def later_def)
  show nth: "H' ! i = H ! i \<and> vs' ! i = vs ! i \<and> i < length H'" if "i < length H" for i
    using that len by (simp add: H nth_append)
  show "next_ok H' i n" if "next_ok H i n" "i < length H" for i n using that by (auto simp: next_ok_def H nth_append)
  show "k \<le> h' \<and> H ! k = H' ! k \<and> (k = h' \<longrightarrow> k = h) \<and> k < length H" if "k \<le> h" for k
    using that le nth [of k] len(2) by simp
qed

text \<open>What a place says of a node stays true, for the pushing and for the popping side.\<close>

lemma push_node_later:
  assumes "chain q H vs h t" and "later q H vs h t q' H' vs' h' t'"
    and "\<exists>i < length H. ot = H ! i \<and> Q i" and imp: "\<And>i. i < length H \<Longrightarrow> Q i \<Longrightarrow> Q' i"
  shows "\<exists>i < length H'. ot = H' ! i \<and> Q' i"
proof -
  obtain i where i: "i < length H" "ot = H ! i" "Q i" using assms(3) by blast
  show ?thesis using later_nodes(4) [OF assms(1,2) i(1)] i imp [OF i(1,3)] by (intro exI [of _ i]) simp
qed

lemma pop_node_later:
  assumes "chain q H vs h t" and "later q H vs h t q' H' vs' h' t'"
    and "\<exists>k \<le> h. oh = H ! k \<and> P k" and imp: "\<And>k. k \<le> h \<Longrightarrow> P k \<Longrightarrow> P' k"
  shows "\<exists>k \<le> h'. oh = H' ! k \<and> P' k"
proof -
  obtain k where k: "k \<le> h" "oh = H ! k" "P k" using assms(3) by blast
  show ?thesis using later_nodes(6) [OF assms(1,2) k(1)] k imp [OF k(1,3)] by (intro exI [of _ k]) simp
qed

lemma place_ok_later:
  assumes "chain q H vs h t" and "later q H vs h t q' H' vs' h' t'" and "place_ok q H vs h t p"
    and "\<And>a. new_of p = Some a \<Longrightarrow> a \<notin> set H'"
  shows "place_ok q' H' vs' h' t' p"
proof -
  note le = later_nodes(1,2) [OF assms(1,2)] and new = later_nodes(3) [OF assms(1,2)] and nth = later_nodes(4) [OF assms(1,2)]
    and nexts = later_nodes(5) [OF assms(1,2)] and at = later_nodes(6) [OF assms(1,2)]
  note push = push_node_later [OF assms(1,2)] and pop = pop_node_later [OF assms(1,2)]
  show ?thesis
  proof (cases p)
    case (Push_read_tail a) then show ?thesis using assms(3,4) new by simp
  next
    case (Push_read_next a ot)
    then show ?thesis using assms(3,4) new push [of ot "\<lambda>_. True" "\<lambda>_. True"] by simp
  next
    case (Push_check a ot n)
    then show ?thesis using assms(3,4) new push [of ot "\<lambda>i. next_ok H i n" "\<lambda>i. next_ok H' i n"] nexts by simp
  next
    case (Push_link a ot n)
    then show ?thesis using assms(3,4) new push [of ot "\<lambda>i. next_ok H i n" "\<lambda>i. next_ok H' i n"] nexts by simp
  next
    case (Push_move_tail a ot)
    then obtain i where i: "Suc i < length H" "ot = H ! i" "a = H ! Suc i" using assms(3) by auto
    then show ?thesis using Push_move_tail nth [of i] nth [of "Suc i"] by (auto intro!: exI [of _ i])
  next
    case (Pop_read_tail oh)
    then show ?thesis using assms(3) pop [of oh "\<lambda>_. True" "\<lambda>_. True"] by simp
  next
    case (Pop_read_first oh ot)
    show ?thesis using assms(3) at le
      unfolding Pop_read_first place_ok.simps
      by (intro pop [of oh "\<lambda>k. oh \<noteq> ot \<and> k = h \<longrightarrow> h < t" "\<lambda>k. oh \<noteq> ot \<and> k = h' \<longrightarrow> h' < t'"]) auto
  next
    case (Pop_check oh ot f)
    show ?thesis using assms(3) at le nexts
      unfolding Pop_check place_ok.simps
      by (intro pop [of oh "\<lambda>k. next_ok H k f \<and> (oh \<noteq> ot \<and> k = h \<longrightarrow> h < t \<and> f \<noteq> None)"
          "\<lambda>k. next_ok H' k f \<and> (oh \<noteq> ot \<and> k = h' \<longrightarrow> h' < t' \<and> f \<noteq> None)"]) auto
  next
    case (Pop_decide oh ot f)
    show ?thesis using assms(3) at le nexts
      unfolding Pop_decide place_ok.simps
      by (intro pop [of oh "\<lambda>k. next_ok H k f \<and> (oh \<noteq> ot \<and> k = h \<longrightarrow> h < t) \<and> (oh \<noteq> ot \<longrightarrow> f \<noteq> None)"
          "\<lambda>k. next_ok H' k f \<and> (oh \<noteq> ot \<and> k = h' \<longrightarrow> h' < t') \<and> (oh \<noteq> ot \<longrightarrow> f \<noteq> None)"]) auto
  next
    case (Pop_move_head oh f v)
    show ?thesis using assms(3) at le nth
      unfolding Pop_move_head place_ok.simps
      by (intro pop [of oh "\<lambda>k. Suc k < length H \<and> f = H ! Suc k \<and> v = vs ! Suc k \<and> (k = h \<longrightarrow> h < t)"
          "\<lambda>k. Suc k < length H' \<and> f = H' ! Suc k \<and> v = vs' ! Suc k \<and> (k = h' \<longrightarrow> h' < t')"]) auto
  next
    case (Pop_delete oh v)
    then obtain k where "k < h" "oh = H ! k" using assms(3) by auto
    then show ?thesis using Pop_delete at [of k] le by (auto intro!: exI [of _ k])
  qed simp_all
qed

section \<open>One step\<close>

lemma later_refl: "later q H vs h t q H vs h t"
  by (simp add: later_def)

lemma chain_nth_eq: "chain q H vs h t \<Longrightarrow> i < length H \<Longrightarrow> j < length H \<Longrightarrow> H ! i = H ! j \<longleftrightarrow> i = j"
  by (simp add: chain_def nth_eq_iff_index_eq)

lemma chain_fields:
  "chain q H vs h t \<Longrightarrow> chain (q\<lparr>lf_count := c\<rparr>) H vs h t"
  "later q H vs h t (q\<lparr>lf_count := c\<rparr>) H vs h t"
  by (simp_all add: chain_def later_def)

lemma chain_cas_tail:
  assumes "chain q H vs h t" and "Suc i < length H"
  shows "\<exists>t'. chain (cas_tail (H ! i) (H ! Suc i) q) H vs h t' \<and> later q H vs h t (cas_tail (H ! i) (H ! Suc i) q) H vs h t'"
proof (cases "lf_tail q = H ! i")
  case True
  have lt: "t < length H" "lf_tail q = H ! t" using assms(1) by (simp_all add: chain_def)
  have "t = i" using chain_nth_eq [OF assms(1) lt(1), of i] assms(2) True lt(2) by simp
  have "cas_tail (H ! i) (H ! Suc i) q = q\<lparr>lf_tail := H ! Suc i\<rparr>" using True by (simp add: cas_tail_def)
  then show ?thesis using assms \<open>t = i\<close> by (intro exI [of _ "Suc i"]) (simp add: chain_def later_def)
next
  case False
  then show ?thesis using assms(1) later_refl by (intro exI [of _ t]) (simp add: cas_tail_def later_refl)
qed

lemma chain_link:
  assumes "chain q H vs h t" and "new_ok q H a" and "nodes q a = Some m" and "i < length H" and "nodes q (H ! i) = Some n"
    and "next_of n = None"
  defines "q' \<equiv> q\<lparr>nodes := (nodes q)(H ! i \<mapsto> n\<lparr>next_of := Some a\<rparr>)\<rparr>"
  shows "chain q' (H @ [a]) (vs @ [data_of m]) h t" "later q H vs h t q' (H @ [a]) (vs @ [data_of m]) h t" "Suc i = length H"
proof -
  have c: "h \<le> t" "t < length H" "length vs = length H" "distinct H" "lf_head q = H ! h" "lf_tail q = H ! t"
    "\<forall>b \<in> set H. b \<in> given q" "\<forall>b. nodes q b \<noteq> None \<longrightarrow> b \<in> given q"
    "\<forall>j < length H. h \<le> j \<longrightarrow> nodes q (H ! j) \<noteq> None"
    "never_twice (allocs q)"
    using assms(1) by (simp_all add: chain_def)
  have node: "data_of k = vs ! j \<and> next_of k = (if Suc j < length H then Some (H ! Suc j) else None)"
    if "j < length H" "nodes q (H ! j) = Some k" for j k using assms(1) that by (simp add: chain_def)
  have a: "a \<notin> set H" "a \<in> given q" "next_of m = None" using assms(2,3) by (auto simp: new_ok_def)
  show last: "Suc i = length H" using node [OF assms(4,5)] assms(4,6) by (auto split: if_splits)
  have node': "data_of k = (vs @ [data_of m]) ! j \<and> next_of k = (if Suc j < length (H @ [a]) then Some ((H @ [a]) ! Suc j) else None)"
    if j: "j < length (H @ [a])" and k: "nodes q' ((H @ [a]) ! j) = Some k" for j k
  proof -
    consider "j = length H" | "j = i" | "j < i" using j last by (cases "j = length H"; cases "j = i") auto
    then show ?thesis
    proof cases
      case 1
      have "a \<noteq> H ! i" using a(1) nth_mem [OF assms(4)] by metis
      then have "nodes q a = Some k" using k 1 by (simp add: q'_def)
      then show ?thesis using 1 assms(3) a(3) c(3) by (simp add: nth_append)
    next
      case 2
      then have "k = n\<lparr>next_of := Some a\<rparr>" using k assms(4) by (simp add: q'_def nth_append)
      then show ?thesis using 2 node [OF assms(4,5)] assms(4) last c(3) by (simp add: nth_append)
    next
      case 3
      then have "nodes q (H ! j) = Some k" using k assms(4) c(4) by (auto simp: q'_def nth_append nth_eq_iff_index_eq)
      then show ?thesis using node [of j k] 3 assms(4) c(3) by (auto simp: nth_append)
    qed
  qed
  have mem: "nodes q' ((H @ [a]) ! j) \<noteq> None" if "h \<le> j" "j < length (H @ [a])" for j
  proof (cases "j = length H")
    case True
    then show ?thesis using assms(3) by (simp add: q'_def nth_append)
  next
    case False
    then have "j < length H" using that by simp
    then show ?thesis using c(9) that(1) by (simp add: q'_def nth_append)
  qed
  have q': "lf_head q' = lf_head q" "lf_tail q' = lf_tail q" "given q' = given q" "allocs q' = allocs q" by (simp_all add: q'_def)
  have used: "\<forall>b. nodes q' b \<noteq> None \<longrightarrow> b \<in> given q'"
    using c(7,8) assms(4) unfolding q' by (auto simp: q'_def split: if_splits)
  show "chain q' (H @ [a]) (vs @ [data_of m]) h t"
    unfolding chain_def q'(1,2) using c a node' mem used q'(3,4)
    by (auto simp: nth_append)
  show "later q H vs h t q' (H @ [a]) (vs @ [data_of m]) h t"
    using assms(4) q'(3) by (auto simp: later_def q'_def)
qed

lemma chain_move_head:
  assumes "chain q H vs h t" and "h < t"
  shows "chain (q\<lparr>lf_head := H ! Suc h\<rparr>) H vs (Suc h) t" "later q H vs h t (q\<lparr>lf_head := H ! Suc h\<rparr>) H vs (Suc h) t"
  using assms by (auto simp: chain_def later_def)

lemma chain_delete:
  assumes "chain q H vs h t" and "k < h"
  shows "chain (q\<lparr>nodes := (nodes q)(H ! k := None)\<rparr>) H vs h t" "later q H vs h t (q\<lparr>nodes := (nodes q)(H ! k := None)\<rparr>) H vs h t"
proof -
  have k: "k < length H" using assms by (auto simp: chain_def)
  have "H ! i \<noteq> H ! k" if "h \<le> i" "i < length H" for i using chain_nth_eq [OF assms(1) that(2) k] that assms(2) by simp
  then show "chain (q\<lparr>nodes := (nodes q)(H ! k := None)\<rparr>) H vs h t" using assms(1) by (auto simp: chain_def split: if_splits)
  show "later q H vs h t (q\<lparr>nodes := (nodes q)(H ! k := None)\<rparr>) H vs h t" using k by (auto simp: later_def)
qed

lemma label_lists [simp]:
  "entered [] = []" "left_items [] = []" "entered [Entered v] = [v]" "left_items [Entered v] = []"
  "entered [Left v] = []" "left_items [Left v] = [v]" "entered [Popped r] = []" "left_items [Popped r] = []"
  "entered [Wrote v] = []" "left_items [Wrote v] = []"
  "entered (ls @ ls') = entered ls @ entered ls'" "left_items (ls @ ls') = left_items ls @ left_items ls'"
  by (simp_all add: entered_def left_items_def)

definition step_kept :: "'a LockFreeQueue \<Rightarrow> address list \<Rightarrow> 'a list \<Rightarrow> nat \<Rightarrow> nat \<Rightarrow> 'a place \<Rightarrow>
    'a place \<Rightarrow> 'a LockFreeQueue \<Rightarrow> 'a label list \<Rightarrow> address list \<Rightarrow> 'a list \<Rightarrow> nat \<Rightarrow> nat \<Rightarrow> bool" where
  "step_kept q H vs h t p p' q' ls H' vs' h' t' \<longleftrightarrow>
     chain q' H' vs' h' t' \<and> place_ok q' H' vs' h' t' p' \<and> later q H vs h t q' H' vs' h' t' \<and>
     vs' = vs @ entered ls \<and> take h' (tl vs') = take h (tl vs) @ left_items ls \<and>
     (\<forall>a \<in> set H' - set H. new_of p = Some a) \<and> (new_of p' = None \<or> new_of p' = new_of p)"

lemma kept_exI:
  "step_kept q H vs h t p p' q' ls H' vs' h' t' \<Longrightarrow> \<exists>H' vs' h' t'. step_kept q H vs h t p p' q' ls H' vs' h' t'"
  by blast

lemma kept_same:
  assumes "chain q H vs h t" and "place_ok q H vs h t p'" and "new_of p' = None \<or> new_of p' = new_of p"
    and "entered ls = []" and "left_items ls = []"
  shows "\<exists>H' vs' h' t'. step_kept q H vs h t p p' q ls H' vs' h' t'"
  using assms by (intro kept_exI [of _ _ _ _ _ _ _ _ _ H vs h t]) (simp add: step_kept_def later_refl)

lemma kept_cas_tail:
  assumes "chain q H vs h t" and "Suc i < length H" and "new_of p' = None \<or> new_of p' = new_of p"
    and "\<And>q' t'. chain q' H vs h t' \<Longrightarrow> later q H vs h t q' H vs h t' \<Longrightarrow> place_ok q' H vs h t' p'"
  shows "\<exists>H' vs' h' t'. step_kept q H vs h t p p' (cas_tail (H ! i) (H ! Suc i) q) [] H' vs' h' t'"
proof -
  obtain t' where "chain (cas_tail (H ! i) (H ! Suc i) q) H vs h t'" "later q H vs h t (cas_tail (H ! i) (H ! Suc i) q) H vs h t'"
    using chain_cas_tail [OF assms(1,2)] by (elim exE conjE)
  then show ?thesis using assms(3,4)
    by (intro kept_exI [of _ _ _ _ _ _ _ _ _ H vs h t']) (simp add: step_kept_def)
qed

lemma kept_link:
  assumes "chain q H vs h t" and "place_ok q H vs h t (Push_link a ot None)" and "link_step a ot q = Inr (p', q', ls)"
  shows "\<exists>H' vs' h' t'. step_kept q H vs h t (Push_link a ot None) p' q' ls H' vs' h' t'"
proof -
  obtain i where i: "new_ok q H a" "i < length H" "ot = H ! i" using assms(2) by auto
  obtain m where m: "nodes q a = Some m" using i(1) by (auto simp: new_ok_def)
  obtain n where n: "nodes q (H ! i) = Some n" using assms(3) i(3) by (auto simp: link_step_def follow_def split: option.splits)
  show ?thesis
  proof (cases "next_of n = None")
    case False
    then obtain b where "next_of n = Some b" by blast
    then have "p' = Push_read_tail a" "q' = q" "ls = []" using assms(3) n i(3) by (simp_all add: link_step_def follow_def silent_def)
    then show ?thesis using kept_same [OF assms(1), of p' "Push_link a ot None" ls] i(1) by simp
  next
    case True
    define r where "r = q\<lparr>nodes := (nodes q)(H ! i \<mapsto> n\<lparr>next_of := Some a\<rparr>)\<rparr>"
    have res: "p' = Push_move_tail a ot" "q' = r" "ls = [Entered (data_of m)]"
      using assms(3) n i(3) m True by (simp_all add: link_step_def follow_def r_def)
    note c = chain_link [OF assms(1) i(1) m i(2) n True, folded r_def]
    have len: "length vs = length H" "h < length H" using assms(1) by (auto simp: chain_def)
    have "take h (tl (vs @ [data_of m])) = take h (tl vs)" using len by (cases vs) auto
    moreover have "place_ok r (H @ [a]) (vs @ [data_of m]) h t p'"
      using i(2,3) c(3) by (auto simp: res(1) nth_append intro!: exI [of _ i])
    ultimately show ?thesis using c(1,2) res
      by (intro kept_exI [of _ _ _ _ _ _ _ _ _ "H @ [a]" "vs @ [data_of m]" h t]) (auto simp: step_kept_def)
  qed
qed

lemma chain_next:
  assumes "chain q H vs h t" and "i < length H" and "nodes q (H ! i) = Some n"
  shows "next_ok H i (next_of n)" "Suc i < length H \<Longrightarrow> next_of n \<noteq> None" "data_of n = vs ! i"
proof -
  have "data_of n = vs ! i \<and> next_of n = (if Suc i < length H then Some (H ! Suc i) else None)"
    using assms by (simp add: chain_def)
  then show "next_ok H i (next_of n)" "Suc i < length H \<Longrightarrow> next_of n \<noteq> None" "data_of n = vs ! i"
    by (simp_all add: next_ok_def)
qed

lemma kept_decide:
  assumes "chain q H vs h t" and "place_ok q H vs h t (Pop_decide oh ot f)" and "decide_step oh ot f q = Inr (p', q', ls)"
  shows "\<exists>H' vs' h' t'. step_kept q H vs h t (Pop_decide oh ot f) p' q' ls H' vs' h' t'"
proof -
  obtain k where k: "k \<le> h" "oh = H ! k" "next_ok H k f" "oh \<noteq> ot \<and> k = h \<longrightarrow> h < t" "oh \<noteq> ot \<longrightarrow> f \<noteq> None"
    using assms(2) by auto
  show ?thesis
  proof (cases f)
    case None
    then have "oh = ot" "p' = Idle" "q' = q" "ls = [Popped None]" using k(5) assms(3) by (auto simp: decide_step_def)
    then show ?thesis using kept_same [OF assms(1), of p' "Pop_decide oh ot f" ls] by simp
  next
    case (Some b)
    then have b: "Suc k < length H" "b = H ! Suc k" using k(3) by (auto simp: next_ok_def)
    show ?thesis
    proof (cases "oh = ot")
      case True
      then have "p' = Pop_read_head" "q' = cas_tail (H ! k) (H ! Suc k) q" "ls = []"
        using assms(3) Some b k(2) by (simp_all add: decide_step_def silent_def)
      then show ?thesis using kept_cas_tail [OF assms(1) b(1), of p' "Pop_decide oh ot f"] by simp
    next
      case False
      then obtain n where n: "nodes q (H ! Suc k) = Some n" "p' = Pop_move_head oh b (data_of n)" "q' = q" "ls = [Wrote (data_of n)]"
        using assms(3) Some b(2) by (auto simp: decide_step_def silent_def follow_def split: option.splits)
      have "data_of n = vs ! Suc k" using chain_next(3) [OF assms(1) b(1) n(1)] .
      then have "place_ok q H vs h t p'" using n(2) k b False by (auto intro!: exI [of _ k])
      then show ?thesis using kept_same [OF assms(1), of p' "Pop_decide oh ot f" ls] n by simp
    qed
  qed
qed

lemma kept_move_head:
  assumes "chain q H vs h t" and "place_ok q H vs h t (Pop_move_head oh f v)"
    and "place_step (Pop_move_head oh f v) q = Inr (p', q', ls)"
  shows "\<exists>H' vs' h' t'. step_kept q H vs h t (Pop_move_head oh f v) p' q' ls H' vs' h' t'"
proof (cases "lf_head q = oh")
  case False
  then show ?thesis using assms kept_same [OF assms(1), of p' "Pop_move_head oh f v" ls] by (simp add: silent_def)
next
  case True
  obtain k where k: "k \<le> h" "oh = H ! k" "Suc k < length H" "f = H ! Suc k" "v = vs ! Suc k" "k = h \<longrightarrow> h < t" using assms(2) by auto
  have hl: "h < length H" "lf_head q = H ! h" "length vs = length H" using assms(1) by (auto simp: chain_def)
  have kh: "k = h" using chain_nth_eq [OF assms(1) hl(1), of k] k(2,3) True hl(2) by simp
  then have ht: "h < t" using k(6) by simp
  have res: "p' = Pop_delete oh v" "q' = q\<lparr>lf_head := H ! Suc h\<rparr>" "ls = [Left v]" using assms(3) True k(4) kh by simp_all
  have "take (Suc h) (tl vs) = take h (tl vs) @ [v]"
    using k(3,5) kh hl(3) by (cases vs) (simp_all add: take_Suc_conv_app_nth)
  then show ?thesis using chain_move_head [OF assms(1) ht] res k(2) kh
    by (intro kept_exI [of _ _ _ _ _ _ _ _ _ H vs "Suc h" t]) (auto simp: step_kept_def)
qed

lemma kept_delete:
  assumes "chain q H vs h t" and "place_ok q H vs h t (Pop_delete oh v)"
    and "place_step (Pop_delete oh v) q = Inr (p', q', ls)"
  shows "\<exists>H' vs' h' t'. step_kept q H vs h t (Pop_delete oh v) p' q' ls H' vs' h' t'"
proof -
  obtain k where k: "k < h" "oh = H ! k" using assms(2) by auto
  have "p' = Pop_count v" "q' = q\<lparr>nodes := (nodes q)(H ! k := None)\<rparr>" "ls = []"
    using assms(3) k(2) by (auto simp: delete_node_def silent_def split: if_splits)
  then show ?thesis using chain_delete [OF assms(1) k(1)]
    by (intro kept_exI [of _ _ _ _ _ _ _ _ _ H vs h t]) (simp add: step_kept_def)
qed

lemma kept_count:
  assumes "chain q H vs h t" and "new_of p' = None" and "\<And>q H vs h t. place_ok q H vs h t p'" and "entered ls = []" and "left_items ls = []"
  shows "\<exists>H' vs' h' t'. step_kept q H vs h t p p' (q\<lparr>lf_count := c\<rparr>) ls H' vs' h' t'"
proof -
  have "chain (q\<lparr>lf_count := c\<rparr>) H vs h t" "later q H vs h t (q\<lparr>lf_count := c\<rparr>) H vs h t"
    using assms(1) by (simp_all add: chain_def later_def)
  then show ?thesis using assms(2-5) by (intro kept_exI [of _ _ _ _ _ _ _ _ _ H vs h t]) (simp add: step_kept_def)
qed

lemma kept_push_step:
  assumes "chain q H vs h t" and "place_ok q H vs h t p" and "place_step p q = Inr (p', q', ls)"
    and "p = Push_read_tail a \<or> p = Push_read_next a ot \<or> p = Push_check a ot n"
  shows "\<exists>H' vs' h' t'. step_kept q H vs h t p p' q' ls H' vs' h' t'"
proof -
  have t: "lf_tail q = H ! t" "t < length H" using assms(1) by (auto simp: chain_def)
  from assms(4) have "place_ok q H vs h t p' \<and> q' = q \<and> ls = [] \<and> new_of p' = new_of p"
  proof (elim disjE)
    assume "p = Push_read_tail a"
    then show ?thesis using assms(2,3) t by (auto simp: silent_def)
  next
    assume p: "p = Push_read_next a ot"
    then obtain i where i: "i < length H" "ot = H ! i" using assms(2) by auto
    obtain m where m: "nodes q (H ! i) = Some m" using assms(3) p i(2) by (auto simp: follow_def split: option.splits)
    have "p' = Push_check a ot (next_of m)" "q' = q" "ls = []"
      using assms(3) p i(2) m by (simp_all add: follow_def silent_def)
    then show ?thesis using p i assms(2) chain_next(1) [OF assms(1) i(1) m] by auto
  next
    assume "p = Push_check a ot n"
    then show ?thesis using assms(2,3) by (auto simp: silent_def split: if_splits)
  qed
  then show ?thesis using kept_same [OF assms(1), of p' p ls] by simp
qed

lemma kept_pop_step:
  assumes "chain q H vs h t" and "place_ok q H vs h t p" and "place_step p q = Inr (p', q', ls)"
    and "p = Pop_read_head \<or> p = Pop_read_tail oh \<or> p = Pop_read_first oh ot \<or> p = Pop_check oh ot f"
  shows "\<exists>H' vs' h' t'. step_kept q H vs h t p p' q' ls H' vs' h' t'"
proof -
  have t: "lf_tail q = H ! t" "t < length H" "lf_head q = H ! h" "h \<le> t" using assms(1) by (auto simp: chain_def)
  from assms(4) have "place_ok q H vs h t p' \<and> q' = q \<and> ls = [] \<and> new_of p' = new_of p"
  proof (elim disjE)
    assume "p = Pop_read_head"
    then show ?thesis using assms(2,3) t by (auto simp: silent_def)
  next
    assume p: "p = Pop_read_tail oh"
    then obtain k where k: "k \<le> h" "oh = H ! k" using assms(2) by auto
    have "k = h \<longrightarrow> oh \<noteq> H ! t \<longrightarrow> h < t" using k t(4) by (cases "h = t") auto
    then show ?thesis using assms(3) p k t by (auto simp: silent_def)
  next
    assume p: "p = Pop_read_first oh ot"
    then obtain k where k: "k \<le> h" "oh = H ! k" "oh \<noteq> ot \<and> k = h \<longrightarrow> h < t" using assms(2) by auto
    obtain m where m: "nodes q (H ! k) = Some m" using assms(3) p k(2) by (auto simp: follow_def split: option.splits)
    have res: "p' = Pop_check oh ot (next_of m)" "q' = q" "ls = []"
      using assms(3) p k(2) m by (simp_all add: follow_def silent_def)
    have kl: "k < length H" using k(1) t by simp
    have "oh \<noteq> ot \<and> k = h \<longrightarrow> h < t \<and> next_of m \<noteq> None"
      using k(3) t(2) chain_next(2) [OF assms(1) kl m] by auto
    then show ?thesis using p res k(1,2) chain_next(1) [OF assms(1) kl m] by auto
  next
    assume p: "p = Pop_check oh ot f"
    then obtain k where k: "k \<le> h" "oh = H ! k" "next_ok H k f" "oh \<noteq> ot \<and> k = h \<longrightarrow> h < t \<and> f \<noteq> None" using assms(2) by auto
    show ?thesis
    proof (cases "oh = lf_head q")
      case True
      have hl: "h < length H" using t by simp
      have "k = h" using chain_nth_eq [OF assms(1) hl, of k] k(1,2) True t by simp
      then show ?thesis using assms(3) p k True by (auto simp: silent_def)
    next
      case False
      then show ?thesis using assms(3) p by (simp add: silent_def)
    qed
  qed
  then show ?thesis using kept_same [OF assms(1), of p' p ls] by simp
qed

lemma place_step_kept:
  assumes "chain q H vs h t" and "place_ok q H vs h t p" and "place_step p q = Inr (p', q', ls)"
  shows "\<exists>H' vs' h' t'. step_kept q H vs h t p p' q' ls H' vs' h' t'"
proof (cases p)
  case Idle
  then show ?thesis using assms kept_same [OF assms(1), of p' p ls] by (simp add: silent_def)
next
  case (Push_link a ot n)
  show ?thesis
  proof (cases n)
    case None
    then show ?thesis using kept_link [OF assms(1), of a ot p' q' ls] assms(2,3) Push_link by simp
  next
    case (Some b)
    then obtain i where i: "new_ok q H a" "Suc i < length H" "ot = H ! i" "b = H ! Suc i"
      using assms(2) Push_link by (auto simp: next_ok_def)
    have "p' = Push_read_tail a" "q' = cas_tail ot b q" "ls = []" using assms(3) Push_link Some by (simp_all add: silent_def)
    moreover have "place_ok q' H vs h t' (Push_read_tail a)" if "later q H vs h t q' H vs h t'" for q' t'
      using i(1) that by (auto simp: new_ok_def later_def)
    ultimately show ?thesis using kept_cas_tail [OF assms(1) i(2), of p' p] i Push_link by simp
  qed
next
  case (Push_move_tail a ot)
  then obtain i where i: "Suc i < length H" "ot = H ! i" "a = H ! Suc i" using assms(2) by auto
  then show ?thesis using kept_cas_tail [OF assms(1) i(1), of p' p] assms(3) Push_move_tail by (simp add: silent_def)
next
  case Push_count
  then have res: "p' = Idle" "q' = q\<lparr>lf_count := lf_count q + 1\<rparr>" "ls = []" using assms(3) by (simp_all add: silent_def)
  show ?thesis unfolding res by (rule kept_count [OF assms(1)]) simp_all
next
  case (Pop_decide oh ot f)
  then show ?thesis using kept_decide [OF assms(1), of oh ot f p' q' ls] assms(2,3) by simp
next
  case (Pop_move_head oh f v)
  then show ?thesis using kept_move_head [OF assms(1), of oh f v p' q' ls] assms(2,3) by simp
next
  case (Pop_delete oh v)
  then show ?thesis using kept_delete [OF assms(1), of oh v p' q' ls] assms(2,3) by simp
next
  case (Pop_count v)
  then have res: "p' = Idle" "q' = q\<lparr>lf_count := lf_count q - 1\<rparr>" "ls = [Popped (Some v)]" using assms(3) by simp_all
  show ?thesis unfolding res by (rule kept_count [OF assms(1)]) simp_all
next
  case (Push_read_tail a)
  then show ?thesis using kept_push_step [OF assms, of a] by simp
next
  case (Push_read_next a ot)
  then show ?thesis using kept_push_step [OF assms, of a ot] by simp
next
  case (Push_check a ot n)
  then show ?thesis using kept_push_step [OF assms, of a ot n] by simp
next
  case Pop_read_head
  then show ?thesis using kept_pop_step [OF assms] by simp
next
  case (Pop_read_tail oh)
  then show ?thesis using kept_pop_step [OF assms, of oh] by simp
next
  case (Pop_read_first oh ot)
  then show ?thesis using kept_pop_step [OF assms, of oh ot] by simp
next
  case (Pop_check oh ot f)
  then show ?thesis using kept_pop_step [OF assms, of oh ot f] by simp
qed

section \<open>All threads\<close>

definition system_ok :: "'a queue_system \<Rightarrow> address list \<Rightarrow> 'a list \<Rightarrow> nat \<Rightarrow> nat \<Rightarrow> bool" where
  "system_ok s H vs h t \<longleftrightarrow>
     chain (the_queue s) H vs h t \<and> (\<forall>i. place_ok (the_queue s) H vs h t (places s i)) \<and>
     (\<forall>i j a. i \<noteq> j \<longrightarrow> new_of (places s i) = Some a \<longrightarrow> new_of (places s j) \<noteq> Some a)"

lemma new_of_ok: "place_ok q H vs h t p \<Longrightarrow> new_of p = Some a \<Longrightarrow> new_ok q H a"
  by (cases p) auto

lemma system_new_ok: "system_ok s H vs h t \<Longrightarrow> new_of (places s i) = Some a \<Longrightarrow> new_ok (the_queue s) H a"
  using new_of_ok unfolding system_ok_def by blast

lemma system_step_place:
  assumes "system_ok s H vs h t" and "step_kept (the_queue s) H vs h t (places s i) p' q' ls H' vs' h' t'"
  shows "system_ok \<lparr>the_queue = q', places = (places s)(i := p')\<rparr> H' vs' h' t'"
proof -
  have k: "chain q' H' vs' h' t'" "place_ok q' H' vs' h' t' p'" "later (the_queue s) H vs h t q' H' vs' h' t'"
    "\<forall>a \<in> set H' - set H. new_of (places s i) = Some a" "new_of p' = None \<or> new_of p' = new_of (places s i)"
    using assms(2) unfolding step_kept_def by blast+
  have c: "chain (the_queue s) H vs h t" "\<And>j. place_ok (the_queue s) H vs h t (places s j)"
    and diff: "\<And>j l a. j \<noteq> l \<Longrightarrow> new_of (places s j) = Some a \<Longrightarrow> new_of (places s l) \<noteq> Some a"
    using assms(1) unfolding system_ok_def by blast+
  have "place_ok q' H' vs' h' t' (places s j)" if "j \<noteq> i" for j
  proof (rule place_ok_later [OF c(1) k(3) c(2)])
    fix a assume a: "new_of (places s j) = Some a"
    then have "a \<notin> set H" using system_new_ok [OF assms(1)] by (simp add: new_ok_def)
    then show "a \<notin> set H'" using k(4) diff [OF that a] by blast
  qed
  moreover have "new_of (((places s)(i := p')) l) \<noteq> Some a"
    if "j \<noteq> l" "new_of (((places s)(i := p')) j) = Some a" for j l a
    using that k(5) diff [of j l a] by (auto split: if_splits)
  ultimately show ?thesis using k(1,2) by (simp add: system_ok_def)
qed

lemma new_address_fresh: "chain q H vs h t \<Longrightarrow> new_address q \<notin> given q"
proof -
  assume c: "chain q H vs h t"
  then have "allocs q (made q) \<notin> given q" by (auto simp: chain_def never_twice_def given_def dest: injD)
  moreover from this have "new_address q = allocs q (made q)" using c by (auto simp: chain_def new_address_def)
  ultimately show "new_address q \<notin> given q" by simp
qed

lemma new_node_chain:
  fixes v :: 'a
  assumes "chain q H vs h t"
  defines "q' \<equiv> snd (new_node v q)"
  shows "chain q' H vs h t" "later q H vs h t q' H vs h t" "new_ok q' H (new_address q)"
proof -
  have c: "\<forall>a \<in> set H. a \<in> given q" "\<forall>a. nodes q a \<noteq> None \<longrightarrow> a \<in> given q" "inj (allocs q)" "\<forall>n. allocs q n \<noteq> 0"
    using assms(1) unfolding chain_def never_twice_def by blast+
  have new: "allocs q (made q) \<notin> given q" using c(3,4) by (auto simp: given_def dest: injD)
  then have a: "new_address q = allocs q (made q)" using c(2) by (auto simp: new_address_def)
  then have fresh: "new_address q \<notin> given q" using new by simp
  have given: "given q' = insert (new_address q) (given q)"
    by (auto simp: q'_def new_node_def Let_def given_def a lessThan_Suc)
  have q': "lf_head q' = lf_head q" "lf_tail q' = lf_tail q" "allocs q' = allocs q"
    "nodes q' = (nodes q)(new_address q \<mapsto> \<lparr>data_of = v, next_of = None\<rparr>)" by (simp_all add: q'_def new_node_def Let_def)
  have H: "new_address q \<notin> set H" using fresh c(1) by blast
  have "nodes q' (H ! i) = nodes q (H ! i)" if "i < length H" for i using H nth_mem [OF that] by (auto simp: q'(4))
  then show "chain q' H vs h t" using assms(1) by (auto simp: chain_def q'(1-3) given) (simp_all add: q'(4) split: if_splits)
  show "later q H vs h t q' H vs h t" using fresh c(2) by (auto simp: later_def given q'(4))
  show "new_ok q' H (new_address q)" using H by (simp add: new_ok_def given q'(4))
qed

lemma system_push:
  assumes "system_ok s H vs h t" and "places s i = Idle"
  shows "system_ok (s\<lparr>the_queue := snd (new_node v (the_queue s)), places := (places s)(i := Push_read_tail (new_address (the_queue s)))\<rparr>) H vs h t"
proof -
  define q where "q = the_queue s"
  define q' where "q' = snd (new_node v q)"
  have c: "chain q H vs h t" "\<And>j. place_ok q H vs h t (places s j)" using assms(1) by (simp_all add: system_ok_def q_def)
  note new = new_node_chain [OF c(1), where v = v, folded q'_def]
  have others: "place_ok q' H vs h t (places s j)" for j
    by (rule place_ok_later [OF c(1) new(2) c(2)]) (use system_new_ok [OF assms(1)] in \<open>auto simp: new_ok_def\<close>)
  have news: "new_of (places s j) \<noteq> Some (new_address q)" for j
    using system_new_ok [OF assms(1), of j "new_address q"] new_address_fresh [OF c(1)] by (auto simp: new_ok_def q_def)
  show ?thesis using new(1,3) others news assms(1) unfolding q_def [symmetric] q'_def [symmetric]
    by (auto simp: system_ok_def)
qed

lemma system_queue_step:
  assumes "system_ok s H vs h t" and "queue_step e s = (Inr ls, s')" and "take h (tl vs) = gone" and "tl vs = all"
  shows "\<exists>H' vs' h' t'. system_ok s' H' vs' h' t' \<and> take h' (tl vs') = gone @ left_items ls \<and> tl vs' = all @ entered ls"
proof (cases e)
  case (Call_push i v)
  show ?thesis
  proof (cases "places s i = Idle")
    case True
    then have "s' = s\<lparr>the_queue := snd (new_node v (the_queue s)), places := (places s)(i := Push_read_tail (new_address (the_queue s)))\<rparr>" "ls = []"
      using assms(2) Call_push by (auto simp: new_node_def Let_def)
    then show ?thesis using system_push [OF assms(1) True, of v] assms(3,4) by auto
  next
    case False
    then have "s' = s" "ls = []" using assms(2) Call_push by auto
    then show ?thesis using assms by auto
  qed
next
  case (Call_pop i)
  have "system_ok (s\<lparr>places := (places s)(i := Pop_read_head)\<rparr>) H vs h t"
    using assms(1) by (auto simp: system_ok_def)
  then have "system_ok s' H vs h t" "ls = []" using assms(1,2) Call_pop by (auto split: if_splits)
  then show ?thesis using assms(3,4) by auto
next
  case (Step i)
  obtain p' q' where step: "place_step (places s i) (the_queue s) = Inr (p', q', ls)"
    "s' = \<lparr>the_queue = q', places = (places s)(i := p')\<rparr>"
    using assms(2) Step by (auto split: sum.splits)
  have ok: "chain (the_queue s) H vs h t" "place_ok (the_queue s) H vs h t (places s i)" using assms(1) by (simp_all add: system_ok_def)
  then obtain H' vs' h' t' where k: "step_kept (the_queue s) H vs h t (places s i) p' q' ls H' vs' h' t'"
    using place_step_kept [OF ok step(1)] by blast
  have "vs \<noteq> []" using ok(1) by (auto simp: chain_def)
  moreover have "vs' = vs @ entered ls" "take h' (tl vs') = take h (tl vs) @ left_items ls"
    using k unfolding step_kept_def by blast+
  ultimately have "tl vs' = all @ entered ls" "take h' (tl vs') = gone @ left_items ls" using assms(3,4) by simp_all
  then show ?thesis using system_step_place [OF assms(1) k] step(2) by blast
qed

text \<open>The items in the queue: those of the nodes after the first.\<close>

fun items_from :: "nat \<Rightarrow> 'a LockFreeQueue \<Rightarrow> address \<Rightarrow> 'a list" where
  "items_from 0 q a = []"
| "items_from (Suc k) q a =
     (case nodes q a of
        None \<Rightarrow> []
      | Some n \<Rightarrow>
          (case next_of n of
             None \<Rightarrow> []
           | Some b \<Rightarrow> (case nodes q b of None \<Rightarrow> [] | Some m \<Rightarrow> data_of m # items_from k q b)))"

definition queue_items :: "'a LockFreeQueue \<Rightarrow> 'a list" where
  "queue_items q = items_from (Suc (made q)) q (lf_head q)"

lemma items_from_chain:
  assumes "chain q H vs h t" and "h \<le> i" and "i < length H" and "length H \<le> i + k"
  shows "items_from k q (H ! i) = drop (Suc i) vs"
  using assms(2-4)
proof (induction k arbitrary: i)
  case 0
  then show ?case by simp
next
  case (Suc k)
  have there: "\<exists>n. nodes q (H ! j) = Some n" if "h \<le> j" "j < length H" for j using assms(1) that by (auto simp: chain_def)
  have lv: "length vs = length H" using assms(1) by (simp add: chain_def)
  obtain n where n: "nodes q (H ! i) = Some n" using there Suc.prems by blast
  have next_i: "next_of n = (if Suc i < length H then Some (H ! Suc i) else None)"
    using assms(1) Suc.prems(2) n by (simp add: chain_def)
  show ?case
  proof (cases "Suc i < length H")
    case True
    then obtain m where m: "nodes q (H ! Suc i) = Some m" using there [of "Suc i"] Suc.prems by auto
    have "data_of m = vs ! Suc i" using chain_next(3) [OF assms(1) True m] .
    moreover have "items_from k q (H ! Suc i) = drop (Suc (Suc i)) vs" using Suc.IH [of "Suc i"] Suc.prems True by simp
    moreover have "drop (Suc i) vs = vs ! Suc i # drop (Suc (Suc i)) vs" using True lv by (simp add: Cons_nth_drop_Suc)
    ultimately show ?thesis using n m next_i True by simp
  next
    case False
    then show ?thesis using n next_i lv by simp
  qed
qed

lemma queue_items_chain:
  assumes "chain q H vs h t"
  shows "queue_items q = drop h (tl vs)"
proof -
  have c: "h < length H" "distinct H" "set H \<subseteq> given q" "lf_head q = H ! h" using assms by (auto simp: chain_def)
  have "length H \<le> Suc (made q)"
    using card_mono [OF given_finite(1) c(3)] given_finite(2) [of q] c(2) by (simp add: distinct_card)
  then show ?thesis
    using items_from_chain [OF assms, of h "Suc (made q)"] c(1,4) unfolding queue_items_def by (simp add: drop_Suc)
qed

lemma system_queue_run:
  assumes "system_ok s H vs h t" and "queue_run es s = (Inr ls, s')" and "take h (tl vs) = gone" and "tl vs = all"
  shows "\<exists>H' vs' h' t'. system_ok s' H' vs' h' t' \<and> take h' (tl vs') = gone @ left_items ls \<and> tl vs' = all @ entered ls"
  using assms
proof (induction es arbitrary: s H vs h t ls gone all)
  case Nil
  then show ?case by auto
next
  case (Cons e es)
  obtain ls1 ls2 s1 where r: "queue_step e s = (Inr ls1, s1)" "queue_run es s1 = (Inr ls2, s')" "ls = ls1 @ ls2"
    using Cons.prems(2) by (auto simp: bindc_def split: prod.splits sum.splits)
  obtain H1 vs1 h1 t1 where "system_ok s1 H1 vs1 h1 t1" "take h1 (tl vs1) = gone @ left_items ls1" "tl vs1 = all @ entered ls1"
    using system_queue_step [OF Cons.prems(1) r(1) Cons.prems(3,4)] by blast
  from Cons.IH [OF this(1) r(2) this(2,3)] show ?case by (simp add: r(3))
qed

lemma system_start: "never_twice alc \<Longrightarrow> system_ok (queue_start alc d) [0] [d] 0 0"
  by (simp add: system_ok_def queue_start_def LockFreeQueue_new_def chain_def given_def)

section \<open>One producer and one consumer\<close>

text \<open>
  With one thread that pushes and one that pops, whatever addresses the allocator gives, old ones too. The nodes from
  the head on are linked, one behind the other.
\<close>

fun linked :: "'a LockFreeQueue \<Rightarrow> address list \<Rightarrow> 'a list \<Rightarrow> bool" where
  "linked q [a] [v] \<longleftrightarrow> nodes q a = Some \<lparr>data_of = v, next_of = None\<rparr>"
| "linked q (a # b # L) (v # vs) \<longleftrightarrow> nodes q a = Some \<lparr>data_of = v, next_of = Some b\<rparr> \<and> linked q (b # L) vs"
| "linked q _ _ \<longleftrightarrow> False"

definition live :: "'a LockFreeQueue \<Rightarrow> address list \<Rightarrow> 'a list \<Rightarrow> bool" where
  "live q L vs \<longleftrightarrow>
     linked q L vs \<and> distinct L \<and> lf_head q = hd L \<and> lf_tail q \<in> set L \<and>
     (\<forall>a. nodes q a \<noteq> None \<longrightarrow> a < unused q) \<and> finite (dom (nodes q)) \<and> card (dom (nodes q)) \<le> Suc (made q)"

lemma linked_length: "linked q L vs \<Longrightarrow> L \<noteq> [] \<and> length vs = length L"
  by (induction q L vs rule: linked.induct) simp_all

lemma linked_cong: "linked q L vs \<Longrightarrow> \<forall>a \<in> set L. nodes q' a = nodes q a \<Longrightarrow> linked q' L vs"
  by (induction q L vs rule: linked.induct) simp_all

lemma linked_nodes: "linked q L vs \<Longrightarrow> a \<in> set L \<Longrightarrow> nodes q a \<noteq> None"
  by (induction q L vs rule: linked.induct) auto

lemma linked_last: "linked q L vs \<Longrightarrow> nodes q (last L) = Some \<lparr>data_of = last vs, next_of = None\<rparr>"
proof (induction q L vs rule: linked.induct)
  case (2 q a b L v vs)
  then show ?case by (auto dest: linked_length)
qed simp_all

lemma linked_append:
  assumes "linked q L vs" and "distinct L" and "a \<notin> set L" and "nodes q a = Some \<lparr>data_of = v, next_of = None\<rparr>"
    and "nodes q (last L) = Some n"
  shows "linked (q\<lparr>nodes := (nodes q)(last L \<mapsto> n\<lparr>next_of := Some a\<rparr>)\<rparr>) (L @ [a]) (vs @ [v])"
  using assms
proof (induction q L vs rule: linked.induct)
  case (2 q c b L w vs)
  have "c \<noteq> last (b # L)" using 2(3) by (metis distinct.simps(2) last_in_set list.distinct(1))
  then show ?case using 2 by simp
qed auto

lemma linked_second: "linked q L vs \<Longrightarrow> x \<in> set L \<Longrightarrow> x \<noteq> hd L \<Longrightarrow> \<exists>b M w v ws. L = hd L # b # M \<and> vs = w # v # ws"
  by (induction q L vs rule: linked.induct) (auto dest!: linked_length simp: length_Suc_conv)

lemma linked_first: "linked q (b # L) vs \<Longrightarrow> vs \<noteq> [] \<and> (\<exists>n. nodes q b = Some n \<and> data_of n = hd vs)"
  by (cases "(q, b # L, vs)" rule: linked.cases) auto

lemma items_from_linked: "linked q L vs \<Longrightarrow> length L \<le> k \<Longrightarrow> items_from k q (hd L) = tl vs"
proof (induction q L vs arbitrary: k rule: linked.induct)
  case (1 q a v)
  then show ?case by (cases k) simp_all
next
  case (2 q a b L v vs)
  obtain k' where k: "k = Suc k'" using 2(3) by (cases k) simp_all
  then show ?case using 2 linked_first [of q b L vs] by auto
qed simp_all

lemma queue_items_live:
  assumes "live q L vs"
  shows "queue_items q = tl vs"
proof -
  have "set L \<subseteq> dom (nodes q)" using assms linked_nodes by (auto simp: live_def)
  then have "card (set L) \<le> Suc (made q)" using assms card_mono [of "dom (nodes q)" "set L"] by (simp add: live_def)
  then have "length L \<le> Suc (made q)" using assms by (simp add: live_def distinct_card)
  then show ?thesis using assms items_from_linked [of q L vs "Suc (made q)"] unfolding live_def queue_items_def by simp
qed

lemma live_new: "live (LockFreeQueue_new alc d) [0] [d]"
  by (simp add: live_def LockFreeQueue_new_def)

text \<open>What the operations on the memory keep of it.\<close>

lemma live_changes:
  assumes "live q L vs"
  shows "live (q\<lparr>lf_count := c\<rparr>) L vs" and "a \<in> set L \<Longrightarrow> live (q\<lparr>lf_tail := a\<rparr>) L vs"
  using assms by (auto simp: live_def intro: linked_cong)

lemma new_address_free: "live q L vs \<Longrightarrow> nodes q (new_address q) = None"
  unfolding live_def new_address_def by (metis less_irrefl)

lemma live_new_node:
  assumes "live q L vs"
  shows "live (snd (new_node v q)) L vs" and "new_address q \<notin> set L"
proof -
  have free: "nodes q (new_address q) = None" by (rule new_address_free [OF assms])
  then show "new_address q \<notin> set L" using assms linked_nodes unfolding live_def by blast
  moreover have "card (insert (new_address q) (dom (nodes q))) \<le> Suc (Suc (made q))"
    using assms by (simp add: live_def card_insert_if)
  ultimately show "live (snd (new_node v q)) L vs"
    using assms linked_cong [of q L vs "snd (new_node v q)"] by (auto simp: live_def new_node_def Let_def less_max_iff_disj less_Suc_eq)
qed

lemma live_link:
  assumes "live q L vs" and "a \<notin> set L" and "nodes q a = Some \<lparr>data_of = v, next_of = None\<rparr>" and "nodes q (last L) = Some n"
  shows "live (q\<lparr>nodes := (nodes q)(last L \<mapsto> n\<lparr>next_of := Some a\<rparr>)\<rparr>) (L @ [a]) (vs @ [v])"
proof -
  have "dom ((nodes q)(last L \<mapsto> n\<lparr>next_of := Some a\<rparr>)) = dom (nodes q)" using assms(4) by auto
  moreover have "hd (L @ [a]) = hd L" using assms(1) linked_length unfolding live_def by (metis hd_append2)
  ultimately show ?thesis
    using assms linked_append [OF _ _ assms(2,3,4)] by (auto simp: live_def split: if_splits)
qed

lemma live_move_head:
  assumes "live q (a # b # M) (w # v # ws)" and "lf_tail q \<noteq> a"
  shows "live (q\<lparr>lf_head := b\<rparr>) (b # M) (v # ws)"
  using assms linked_cong [of q "b # M" "v # ws" "q\<lparr>lf_head := b\<rparr>"] by (simp add: live_def)

lemma live_delete:
  assumes "live q L vs" and "a \<notin> set L"
  shows "live (q\<lparr>nodes := (nodes q)(a := None)\<rparr>) L vs"
proof -
  have "card (dom (nodes q) - {a}) \<le> Suc (made q)" using assms(1) card_Diff1_le [of "dom (nodes q)" a] by (simp add: live_def)
  then show ?thesis
    using assms linked_cong [of q L vs "q\<lparr>nodes := (nodes q)(a := None)\<rparr>"] by (auto simp: live_def)
qed

text \<open>Where the thread that pushes can be, and the one that pops.\<close>

definition new_item :: "'a LockFreeQueue \<Rightarrow> address list \<Rightarrow> address \<Rightarrow> bool" where
  "new_item q L a \<longleftrightarrow> a \<notin> set L \<and> (\<exists>v. nodes q a = Some \<lparr>data_of = v, next_of = None\<rparr>)"

fun producer_ok :: "'a LockFreeQueue \<Rightarrow> address list \<Rightarrow> 'a place \<Rightarrow> bool" where
  "producer_ok q L Idle \<longleftrightarrow> lf_tail q = last L"
| "producer_ok q L (Push_read_tail a) \<longleftrightarrow> lf_tail q = last L \<and> new_item q L a"
| "producer_ok q L (Push_read_next a ot) \<longleftrightarrow> lf_tail q = last L \<and> new_item q L a \<and> ot = last L"
| "producer_ok q L (Push_check a ot n) \<longleftrightarrow> lf_tail q = last L \<and> new_item q L a \<and> ot = last L \<and> n = None"
| "producer_ok q L (Push_link a ot n) \<longleftrightarrow> lf_tail q = last L \<and> new_item q L a \<and> ot = last L \<and> n = None"
| "producer_ok q L (Push_move_tail a ot) \<longleftrightarrow>
     a = last L \<and> a \<noteq> ot \<and> (lf_tail q = a \<or> lf_tail q = ot \<and> (\<exists>M. L = M @ [ot, a]))"
| "producer_ok q L Push_count \<longleftrightarrow> lf_tail q = last L"
| "producer_ok q L _ \<longleftrightarrow> False"

fun consumer_ok :: "'a LockFreeQueue \<Rightarrow> address list \<Rightarrow> 'a list \<Rightarrow> 'a place \<Rightarrow> bool" where
  "consumer_ok q L vs (Pop_read_tail oh) \<longleftrightarrow> oh = hd L"
| "consumer_ok q L vs (Pop_read_first oh ot) \<longleftrightarrow> oh = hd L \<and> (oh \<noteq> ot \<longrightarrow> lf_tail q \<noteq> hd L)"
| "consumer_ok q L vs (Pop_check oh ot f) \<longleftrightarrow>
     oh = hd L \<and> (oh \<noteq> ot \<longrightarrow> lf_tail q \<noteq> hd L \<and> f \<noteq> None) \<and> (\<forall>b. f = Some b \<longrightarrow> (\<exists>M. L = oh # b # M))"
| "consumer_ok q L vs (Pop_decide oh ot f) \<longleftrightarrow>
     oh = hd L \<and> (oh \<noteq> ot \<longrightarrow> lf_tail q \<noteq> hd L \<and> f \<noteq> None) \<and> (\<forall>b. f = Some b \<longrightarrow> (\<exists>M. L = oh # b # M))"
| "consumer_ok q L vs (Pop_move_head oh f v) \<longleftrightarrow> lf_tail q \<noteq> hd L \<and> (\<exists>M w ws. L = oh # f # M \<and> vs = w # v # ws)"
| "consumer_ok q L vs (Pop_delete oh v) \<longleftrightarrow> oh \<notin> set L \<and> nodes q oh \<noteq> None"
| "consumer_ok q L vs Idle \<longleftrightarrow> True"
| "consumer_ok q L vs Pop_read_head \<longleftrightarrow> True"
| "consumer_ok q L vs (Pop_count v) \<longleftrightarrow> True"
| "consumer_ok q L vs _ \<longleftrightarrow> False"

fun deleting :: "'a place \<Rightarrow> address option" where
  "deleting (Pop_delete oh v) = Some oh"
| "deleting _ = None"

definition pair_ok :: "'a LockFreeQueue \<Rightarrow> address list \<Rightarrow> 'a list \<Rightarrow> 'a place \<Rightarrow> 'a place \<Rightarrow> bool" where
  "pair_ok q L vs p c \<longleftrightarrow> live q L vs \<and> producer_ok q L p \<and> consumer_ok q L vs c \<and> (deleting c = None \<or> deleting c \<noteq> new_of p)"

lemma pair_okI:
  "live q L vs \<Longrightarrow> producer_ok q L p \<Longrightarrow> consumer_ok q L vs c \<Longrightarrow> deleting c = None \<or> deleting c \<noteq> new_of p \<Longrightarrow> pair_ok q L vs p c"
  by (simp add: pair_ok_def)

lemma pair_okD:
  assumes "pair_ok q L vs p c"
  shows "live q L vs" "producer_ok q L p" "consumer_ok q L vs c" "deleting c = None \<or> deleting c \<noteq> new_of p"
    "linked q L vs" "distinct L" "lf_head q = hd L" "lf_tail q \<in> set L" "L \<noteq> []"
  using assms linked_length by (auto simp: pair_ok_def live_def)

text \<open>What the items that have not left the queue become by a step.\<close>

definition pair_step :: "'a list \<Rightarrow> 'a label list \<Rightarrow> 'a list \<Rightarrow> bool" where
  "pair_step vs ls vs' \<longleftrightarrow> tl vs @ entered ls = left_items ls @ tl vs'"

lemma producer_link:
  assumes "pair_ok q L vs (Push_link a ot n) c"
  shows "\<exists>p' q' ls L' vs'. place_step (Push_link a ot n) q = Inr (p', q', ls) \<and> pair_ok q' L' vs' p' c \<and> pair_step vs ls vs' \<and> left_items ls = []"
proof -
  note ok = pair_okD [OF assms]
  obtain v where a: "a \<notin> set L" "nodes q a = Some \<lparr>data_of = v, next_of = None\<rparr>" and ot: "ot = last L" "n = None" "lf_tail q = last L"
    using ok(2) by (auto simp: new_item_def)
  define m where "m = \<lparr>data_of = last vs, next_of = None\<rparr>"
  define q' where "q' = q\<lparr>nodes := (nodes q)(last L \<mapsto> m\<lparr>next_of := Some a\<rparr>)\<rparr>"
  have last: "nodes q (last L) = Some m" using linked_last [OF ok(5)] by (simp add: m_def)
  have run: "place_step (Push_link a ot n) q = Inr (Push_move_tail a ot, q', [Entered v])"
    using last a ot by (simp add: link_step_def follow_def q'_def m_def)
  have more: "\<exists>K. L @ [a] = x # b # K" if "L = x # b # M" for x b M using that by simp
  have "consumer_ok q' (L @ [a]) (vs @ [v]) c"
    using ok(3,4,9) a(1) more by (cases c) (auto simp: q'_def dest: more)
  moreover have "producer_ok q' (L @ [a]) (Push_move_tail a ot)"
    using a(1) ot ok(9) last_in_set [OF ok(9)] by (auto simp: q'_def intro!: exI [of _ "butlast L"])
  moreover have "live q' (L @ [a]) (vs @ [v])" unfolding q'_def by (rule live_link [OF ok(1) a last])
  ultimately have "pair_ok q' (L @ [a]) (vs @ [v]) (Push_move_tail a ot) c" by (intro pair_okI) auto
  moreover have "pair_step vs [Entered v] (vs @ [v])" using linked_length [OF ok(5)] by (cases vs) (auto simp: pair_step_def)
  ultimately show ?thesis using run
    by (intro exI [of _ "Push_move_tail a ot"] exI [of _ q'] exI [of _ "[Entered v]"] exI [of _ "L @ [a]"] exI [of _ "vs @ [v]"]) simp
qed

lemma producer_step:
  assumes "pair_ok q L vs p c"
  shows "\<exists>p' q' ls L' vs'. place_step p q = Inr (p', q', ls) \<and> pair_ok q' L' vs' p' c \<and> pair_step vs ls vs' \<and> left_items ls = []"
proof -
  note ok = pair_okD [OF assms]
  have same: ?thesis if "place_step p q = Inr (p', q, [])" "producer_ok q L p'" "new_of p' = new_of p" for p'
    using that ok(1,3,4) by (intro exI [of _ p'] exI [of _ q] exI [of _ "[]"] exI [of _ L] exI [of _ vs]) (auto simp: pair_ok_def pair_step_def)
  show ?thesis
  proof (cases p)
    case (Push_read_next a ot)
    then show ?thesis using ok(2) linked_last [OF ok(5)] by (intro same [of "Push_check a ot None"]) (simp_all add: follow_def silent_def)
  next
    case (Push_link a ot n)
    show ?thesis using assms unfolding Push_link by (rule producer_link)
  next
    case (Push_move_tail a ot)
    have "a \<noteq> hd L" if "L = M @ [ot, a]" for M using that ok(6) by (cases M) auto
    then have c: "consumer_ok (cas_tail ot a q) L vs c"
      using ok(2,3) Push_move_tail by (cases c) (auto simp: cas_tail_def)
    have "cas_tail ot a q = q \<or> cas_tail ot a q = q\<lparr>lf_tail := a\<rparr>" "a \<in> set L" "producer_ok (cas_tail ot a q) L Push_count"
      using ok(2,9) Push_move_tail by (auto simp: cas_tail_def)
    then have "pair_ok (cas_tail ot a q) L vs Push_count c"
      using c live_changes(2) [OF ok(1), of a] ok(1,4) by (auto intro!: pair_okI)
    then show ?thesis using Push_move_tail
      by (intro exI [of _ Push_count] exI [of _ "cas_tail ot a q"] exI [of _ "[]"] exI [of _ L] exI [of _ vs]) (simp add: silent_def pair_step_def)
  next
    case Push_count
    have "consumer_ok (q\<lparr>lf_count := lf_count q + 1\<rparr>) L vs c" using ok(3) by (cases c) auto
    then have "pair_ok (q\<lparr>lf_count := lf_count q + 1\<rparr>) L vs Idle c"
      using live_changes(1) [OF ok(1)] ok(2,4) Push_count by (intro pair_okI) auto
    then show ?thesis using Push_count
      by (intro exI [of _ Idle] exI [of _ "q\<lparr>lf_count := lf_count q + 1\<rparr>"] exI [of _ "[]"] exI [of _ L] exI [of _ vs])
        (simp add: silent_def pair_step_def)
  qed (use ok(2) same in \<open>auto simp: silent_def\<close>)
qed

lemma consumer_decide:
  assumes "pair_ok q L vs p (Pop_decide oh ot f)"
  shows "\<exists>c' q' ls L' vs'. place_step (Pop_decide oh ot f) q = Inr (c', q', ls) \<and> pair_ok q' L' vs' p c' \<and> pair_step vs ls vs'"
proof -
  note ok = pair_okD [OF assms]
  have oh: "oh = hd L" "oh \<noteq> ot \<Longrightarrow> lf_tail q \<noteq> hd L \<and> f \<noteq> None" "\<And>b. f = Some b \<Longrightarrow> \<exists>M. L = oh # b # M" using ok(3) by auto
  have same: ?thesis if "place_step (Pop_decide oh ot f) q = Inr (c', q, ls)" "consumer_ok q L vs c'" "deleting c' = None" "entered ls = []" "left_items ls = []" for c' ls
    using that ok(1,2) by (intro exI [of _ c'] exI [of _ q] exI [of _ ls] exI [of _ L] exI [of _ vs]) (auto simp: pair_ok_def pair_step_def)
  show ?thesis
  proof (cases f)
    case None
    then show ?thesis using oh(2) by (intro same [of Idle "[Popped None]"]) (auto simp: decide_step_def)
  next
    case (Some b)
    then obtain M where L: "L = oh # b # M" using oh(3) by blast
    obtain w v ws where vs: "vs = w # v # ws" using linked_second [OF ok(5), of b] L ok(6) by auto
    show ?thesis
    proof (cases "oh = ot")
      case True
      have "producer_ok (cas_tail oh b q) L p"
      proof (cases "lf_tail q = oh")
        case eq: True
        have "last L \<noteq> oh" using ok(6) L by (cases M) auto
        then obtain a K where p: "p = Push_move_tail a oh" "L = K @ [oh, a]" using ok(2) eq by (cases p) auto
        then have "K = []" using ok(6) L by (cases K) auto
        then show ?thesis using p eq L ok(6) by (simp add: cas_tail_def)
      next
        case False
        then show ?thesis using ok(2) by (simp add: cas_tail_def)
      qed
      moreover have "live (cas_tail oh b q) L vs" using ok(1) live_changes(2) [OF ok(1), of b] L by (simp add: cas_tail_def)
      ultimately have "pair_ok (cas_tail oh b q) L vs p Pop_read_head" by (intro pair_okI) simp_all
      then show ?thesis using True Some
        by (intro exI [of _ Pop_read_head] exI [of _ "cas_tail oh b q"] exI [of _ "[]"] exI [of _ L] exI [of _ vs])
          (simp add: decide_step_def silent_def pair_step_def)
    next
      case False
      have "\<exists>n. nodes q b = Some n \<and> data_of n = v" using ok(5) L vs by (cases M; cases ws) auto
      then show ?thesis using False Some oh(2) L vs
        by (intro same [of "Pop_move_head oh b v" "[Wrote v]"]) (auto simp: decide_step_def follow_def)
    qed
  qed
qed

lemma consumer_move_head:
  assumes "pair_ok q L vs p (Pop_move_head oh f v)"
  shows "\<exists>c' q' ls L' vs'. place_step (Pop_move_head oh f v) q = Inr (c', q', ls) \<and> pair_ok q' L' vs' p c' \<and> pair_step vs ls vs'"
proof -
  note ok = pair_okD [OF assms]
  obtain M w ws where L: "L = oh # f # M" "vs = w # v # ws" and tail: "lf_tail q \<noteq> oh" using ok(3) by auto
  define q' where "q' = q\<lparr>lf_head := f\<rparr>"
  have run: "place_step (Pop_move_head oh f v) q = Inr (Pop_delete oh v, q', [Left v])" using ok(7) L by (simp add: q'_def)
  have "producer_ok q' (f # M) p"
  proof (cases p)
    case (Push_move_tail a ot)
    have "\<exists>K. f # M = K @ [ot, a]" if "L = K @ [ot, a]" "ot \<noteq> oh" for K using that L(1) by (cases K) auto
    then show ?thesis using ok(2) L(1) tail Push_move_tail by (auto simp: q'_def)
  qed (use ok(2) L(1) in \<open>auto simp: q'_def new_item_def\<close>)
  moreover have "consumer_ok q' (f # M) (v # ws) (Pop_delete oh v)" using ok(6) L(1) linked_nodes [OF ok(5), of oh] by (simp add: q'_def)
  moreover have "live q' (f # M) (v # ws)" unfolding q'_def by (rule live_move_head [OF ok(1) [unfolded L] tail])
  moreover have "new_of p \<noteq> Some oh" using ok(2) L(1) by (cases p) (auto simp: new_item_def)
  ultimately have "pair_ok q' (f # M) (v # ws) p (Pop_delete oh v)" by (intro pair_okI) auto
  then show ?thesis using run L(2) unfolding pair_step_def by fastforce
qed

lemma consumer_delete:
  assumes "pair_ok q L vs p (Pop_delete oh v)"
  shows "\<exists>c' q' ls L' vs'. place_step (Pop_delete oh v) q = Inr (c', q', ls) \<and> pair_ok q' L' vs' p c' \<and> pair_step vs ls vs'"
proof -
  note ok = pair_okD [OF assms]
  have oh: "oh \<notin> set L" "nodes q oh \<noteq> None" "new_of p \<noteq> Some oh" using ok(3,4) by auto
  define q' where "q' = q\<lparr>nodes := (nodes q)(oh := None)\<rparr>"
  have "producer_ok q' L p" using ok(2) oh(3) by (cases p) (auto simp: q'_def new_item_def)
  moreover have "live q' L vs" unfolding q'_def by (rule live_delete [OF ok(1) oh(1)])
  ultimately have "pair_ok q' L vs p (Pop_count v)" by (intro pair_okI) simp_all
  then show ?thesis using oh(2)
    by (intro exI [of _ "Pop_count v"] exI [of _ q'] exI [of _ "[]"] exI [of _ L] exI [of _ vs])
      (simp add: delete_node_def silent_def q'_def pair_step_def)
qed

lemma consumer_step:
  assumes "pair_ok q L vs p c"
  shows "\<exists>c' q' ls L' vs'. place_step c q = Inr (c', q', ls) \<and> pair_ok q' L' vs' p c' \<and> pair_step vs ls vs'"
proof -
  note ok = pair_okD [OF assms]
  have same: ?thesis if "place_step c q = Inr (c', q, [])" "consumer_ok q L vs c'" "deleting c' = None" for c'
    using that ok(1,2) by (intro exI [of _ c'] exI [of _ q] exI [of _ "[]"] exI [of _ L] exI [of _ vs]) (auto simp: pair_ok_def pair_step_def)
  show ?thesis
  proof (cases c)
    case (Pop_read_first oh ot)
    have oh: "oh = hd L" "oh \<noteq> ot \<Longrightarrow> lf_tail q \<noteq> hd L" using ok(3) Pop_read_first by auto
    obtain n where n: "nodes q (hd L) = Some n" "\<And>b. next_of n = Some b \<Longrightarrow> \<exists>M. L = hd L # b # M"
      "\<And>b M. L = hd L # b # M \<Longrightarrow> next_of n = Some b"
      using ok(5) by (cases "(q, L, vs)" rule: linked.cases) auto
    have "next_of n \<noteq> None" if "oh \<noteq> ot" using linked_second [OF ok(5,8) oh(2) [OF that]] n(3) by fastforce
    then show ?thesis using n oh Pop_read_first by (intro same [of "Pop_check oh ot (next_of n)"]) (auto simp: follow_def silent_def)
  next
    case (Pop_check oh ot f)
    then show ?thesis using ok(3,7) by (intro same [of "Pop_decide oh ot f"]) (auto simp: silent_def)
  next
    case (Pop_decide oh ot f)
    show ?thesis using assms unfolding Pop_decide by (rule consumer_decide)
  next
    case (Pop_move_head oh f v)
    show ?thesis using assms unfolding Pop_move_head by (rule consumer_move_head)
  next
    case (Pop_delete oh v)
    show ?thesis using assms unfolding Pop_delete by (rule consumer_delete)
  next
    case (Pop_count v)
    have "producer_ok (q\<lparr>lf_count := lf_count q - 1\<rparr>) L p" using ok(2) by (cases p) (auto simp: new_item_def)
    then have "pair_ok (q\<lparr>lf_count := lf_count q - 1\<rparr>) L vs p Idle"
      using live_changes(1) [OF ok(1)] by (intro pair_okI) auto
    then show ?thesis using Pop_count
      by (intro exI [of _ Idle] exI [of _ "q\<lparr>lf_count := lf_count q - 1\<rparr>"] exI [of _ "[Popped (Some v)]"] exI [of _ L] exI [of _ vs])
        (simp add: pair_step_def)
  qed (use ok(3,7) same in \<open>auto simp: silent_def\<close>)
qed

text \<open>Thread 0 pushes, thread 1 pops.\<close>

fun of_two_threads :: "'a queue_event \<Rightarrow> bool" where
  "of_two_threads (Call_push i v) \<longleftrightarrow> i = 0"
| "of_two_threads (Call_pop i) \<longleftrightarrow> i = 1"
| "of_two_threads (Step i) \<longleftrightarrow> i \<le> 1"

text \<open>What the calls of \<open>pop\<close> returned, and the item a thread has taken but not returned yet.\<close>

definition popped :: "'a label list \<Rightarrow> 'a list" where
  "popped ls = concat (map (\<lambda>l. case l of Popped (Some v) \<Rightarrow> [v] | _ \<Rightarrow> []) ls)"

fun in_flight :: "'a place \<Rightarrow> 'a list" where
  "in_flight (Pop_delete oh v) = [v]"
| "in_flight (Pop_count v) = [v]"
| "in_flight _ = []"

lemma popped_simps [simp]:
  "popped [] = []" "popped [Entered v] = []" "popped [Left v] = []" "popped [Wrote v] = []" "popped [Popped None] = []"
  "popped [Popped (Some v)] = [v]" "popped (ls @ ls') = popped ls @ popped ls'"
  by (simp_all add: popped_def)

lemma place_step_flight:
  assumes "place_step p q = Inr (p', q', ls)"
  shows "in_flight p @ left_items ls = popped ls @ in_flight p'"
  using assms
  by (cases "(p, q)" rule: place_step.cases)
    (auto simp: silent_def link_step_def decide_step_def split: sum.splits option.splits if_splits)

lemma producer_in_flight: "producer_ok q L p \<Longrightarrow> in_flight p = []"
  by (cases p) auto

definition two_threads_ok :: "'a queue_system \<Rightarrow> 'a list \<Rightarrow> bool" where
  "two_threads_ok s vs \<longleftrightarrow> (\<exists>L. pair_ok (the_queue s) L vs (places s 0) (places s 1))"

text \<open>A step of one of the two threads, or the beginning of a call.\<close>

lemma two_threads_step:
  assumes "two_threads_ok s vs" and "of_two_threads e"
  shows "\<exists>ls s' vs'. queue_step e s = (Inr ls, s') \<and> two_threads_ok s' vs' \<and> pair_step vs ls vs' \<and>
    in_flight (places s 1) @ left_items ls = popped ls @ in_flight (places s' 1)"
proof -
  obtain L where ok: "pair_ok (the_queue s) L vs (places s 0) (places s 1)" using assms(1) by (auto simp: two_threads_ok_def)
  note parts = pair_okD [OF ok]
  show ?thesis
  proof (cases e)
    case (Call_push i v)
    let ?q = "snd (new_node v (the_queue s))" and ?a = "new_address (the_queue s)"
    have free: "nodes (the_queue s) ?a = None" by (rule new_address_free [OF parts(1)])
    have q: "nodes ?q = (nodes (the_queue s))(?a \<mapsto> \<lparr>data_of = v, next_of = None\<rparr>)" "lf_tail ?q = lf_tail (the_queue s)"
      by (simp_all add: new_node_def Let_def)
    have "pair_ok ?q L vs (Push_read_tail ?a) (places s 1)" if "places s 0 = Idle"
    proof (rule pair_okI)
      show "live ?q L vs" by (rule live_new_node(1) [OF parts(1)])
      show "producer_ok ?q L (Push_read_tail ?a)" using parts(2) that q live_new_node(2) [OF parts(1)] by (simp add: new_item_def)
      show "consumer_ok ?q L vs (places s 1)" using parts(3) q by (cases "places s 1") auto
      show "deleting (places s 1) = None \<or> deleting (places s 1) \<noteq> new_of (Push_read_tail ?a)"
        using parts(3) free by (cases "places s 1") auto
    qed
    then show ?thesis
      using assms Call_push by (auto simp: two_threads_ok_def new_node_def Let_def pair_step_def)
  next
    case (Call_pop i)
    have "pair_ok (the_queue s) L vs (places s 0) Pop_read_head" using parts(1,2) by (intro pair_okI) simp_all
    then show ?thesis using assms Call_pop by (auto simp: two_threads_ok_def pair_step_def)
  next
    case (Step i)
    consider "i = 0" | "i = 1" using assms(2) Step by (auto simp: le_Suc_eq)
    then show ?thesis
    proof cases
      case 1
      obtain p' q' ls L' vs' where r: "place_step (places s 0) (the_queue s) = Inr (p', q', ls)" "pair_ok q' L' vs' p' (places s 1)"
        "pair_step vs ls vs'" "left_items ls = []" using producer_step [OF ok] by blast
      have "popped ls = []"
        using place_step_flight [OF r(1)] r(4) producer_in_flight [OF parts(2)] by simp
      then show ?thesis using 1 Step r by (auto simp: two_threads_ok_def)
    next
      case 2
      obtain c' q' ls L' vs' where r: "place_step (places s 1) (the_queue s) = Inr (c', q', ls)" "pair_ok q' L' vs' (places s 0) c'"
        "pair_step vs ls vs'" using consumer_step [OF ok] by blast
      then show ?thesis using 2 Step place_step_flight [OF r(1)] by (auto simp: two_threads_ok_def)
    qed
  qed
qed

lemma two_threads_run:
  assumes "two_threads_ok s vs" and "\<forall>e \<in> set es. of_two_threads e"
  shows "\<exists>ls s' vs'. queue_run es s = (Inr ls, s') \<and> two_threads_ok s' vs' \<and> pair_step vs ls vs' \<and>
    in_flight (places s 1) @ left_items ls = popped ls @ in_flight (places s' 1)"
  using assms
proof (induction es arbitrary: s vs)
  case Nil
  then show ?case by (auto simp: pair_step_def)
next
  case (Cons e es)
  obtain ls s1 vs1 where e: "queue_step e s = (Inr ls, s1)" "two_threads_ok s1 vs1" "pair_step vs ls vs1"
    "in_flight (places s 1) @ left_items ls = popped ls @ in_flight (places s1 1)"
    using two_threads_step [OF Cons.prems(1), of e] Cons.prems(2) by auto
  obtain ls' s' vs' where r: "queue_run es s1 = (Inr ls', s')" "two_threads_ok s' vs'" "pair_step vs1 ls' vs'"
    "in_flight (places s1 1) @ left_items ls' = popped ls' @ in_flight (places s' 1)"
    using Cons.IH [OF e(2)] Cons.prems(2) by auto
  have "pair_step vs (ls @ ls') vs'" using e(3) r(3) unfolding pair_step_def by (simp, metis append_assoc)
  moreover have "in_flight (places s 1) @ left_items (ls @ ls') = popped (ls @ ls') @ in_flight (places s' 1)"
    using e(4) r(4) by (simp, metis append_assoc)
  ultimately show ?case using e(1) r(1,2) by auto
qed

lemma two_threads_start: "two_threads_ok (queue_start alc d) [d]"
  unfolding two_threads_ok_def by (intro exI [of _ "[0]"] pair_okI) (simp_all add: queue_start_def live_new, simp add: LockFreeQueue_new_def)

section \<open>Properties\<close>

text \<open>Three items pushed by three calls, one popped, with the steps of the calls interleaved.\<close>

definition sample_events :: "nat queue_event list" where
  "sample_events = [Call_push 0 5, Step 0, Step 0, Call_pop 1, Step 1, Step 0, Step 0, Step 1, Step 1, Step 1, Step 1, Step 1,
     Step 1, Step 1, Step 1, Step 1, Step 1, Step 0, Step 0, Call_push 0 6, Step 0, Step 0, Step 1, Step 0, Step 0, Step 1, Step 0]"

lemmas queue_defs = queue_start_def LockFreeQueue_new_def new_node_def new_address_def Let_def silent_def follow_def link_step_def
  cas_tail_def decide_step_def delete_node_def

text \<open>C35: Any number of threads call \<open>push\<close> and \<open>pop\<close>, their accesses to memory interleaved in any way. As long
  as no thread follows a deleted node and the allocator never gives an address twice, the queue is first in, first out: the items that left
  it, in order, and then the items that are in it are exactly those that entered it, in order. None is lost, none leaves twice.
  Without the condition on the allocator this is false (\<open>reused_address_pops_twice\<close>).\<close>

theorem lock_free_queue_is_fifo:
  assumes "never_twice alc" and "queue_run es (queue_start alc d) = (Inr ls, s)"
  shows "entered ls = left_items ls @ queue_items (the_queue s)"
proof -
  obtain H vs h t where ok: "system_ok s H vs h t" "take h (tl vs) = left_items ls" "tl vs = entered ls"
    using system_queue_run [OF system_start [OF assms(1)] assms(2), of "[]" "[]"] by auto
  then have "queue_items (the_queue s) = drop h (entered ls)" using queue_items_chain ok(1) unfolding system_ok_def by metis
  then show ?thesis using ok(2,3) append_take_drop_id by metis
qed

lemma never_twice_Suc: "never_twice Suc"
  by (simp add: never_twice_def)

theorem lock_free_queue_is_fifo_witness:
  "\<exists>ls s. queue_run sample_events (queue_start Suc 0) = (Inr ls, s) \<and> entered ls = [5, 6] \<and> left_items ls = [5] \<and>
    queue_items (the_queue s) = [6]"
proof -
  have run: "\<exists>ls s. queue_run sample_events (queue_start Suc 0) = (Inr ls, s) \<and> entered ls = [5, 6] \<and> left_items ls = [5]"
    by (simp add: sample_events_def queue_defs entered_def left_items_def)
  then obtain ls s where r: "queue_run sample_events (queue_start Suc 0) = (Inr ls, s)" "entered ls = [5, 6]" "left_items ls = [5]"
    by blast
  then show ?thesis using lock_free_queue_is_fifo [OF never_twice_Suc r(1)] by simp
qed

text \<open>
  Thread 0 pushes three items, threads 1 and 2 pop. Thread 1 has read the first item and stops before its compare-and-swap; thread 2
  pops two items, and the third is pushed in a node at the address of the first node, which was deleted; thread 2 pops that too.
\<close>

definition reuse_events :: "'a \<Rightarrow> 'a \<Rightarrow> 'a \<Rightarrow> 'a queue_event list" where
  "reuse_events x y z =
     Call_push 0 x # replicate 6 (Step 0) @ Call_push 0 y # replicate 6 (Step 0) @ Call_pop 1 # replicate 5 (Step 1) @
     Call_pop 2 # replicate 8 (Step 2) @ Call_pop 2 # replicate 8 (Step 2) @ Call_push 0 z # replicate 6 (Step 0) @
     Call_pop 2 # replicate 8 (Step 2) @ replicate 3 (Step 1)"

definition reusing :: "nat \<Rightarrow> address" where
  "reusing n = (if n = 2 then 0 else Suc n)"

text \<open>When the allocator gives the address of a deleted node to a new one, two threads that pop are enough to break the queue
  although no thread follows a deleted node: \<open>head_\<close> has the old address again when the first thread compares it, and the item that
  it has read is popped a second time.\<close>

theorem reused_address_pops_twice:
  "\<exists>ls s. queue_run (reuse_events x y z) (queue_start reusing d) = (Inr ls, s) \<and>
     entered ls = [x, y, z] \<and> left_items ls = [x, y, z, x] \<and> popped ls = [x, y, z, x]"
  by (simp add: reuse_events_def reusing_def queue_defs entered_def left_items_def popped_def eval_nat_numeral)

text \<open>C36: With one thread that pushes and one that pops, no interleaving of their steps ever follows or deletes a
  deleted node or a null pointer, whatever addresses the allocator gives, those of deleted nodes too, and what the calls of \<open>pop\<close>
  returned, in order, then the item being returned, then the items in the
  queue, are exactly the items that were pushed.\<close>

theorem one_producer_one_consumer:
  assumes "\<forall>e \<in> set es. of_two_threads e"
  shows "\<exists>ls s. queue_run es (queue_start alc d) = (Inr ls, s) \<and>
    entered ls = popped ls @ in_flight (places s 1) @ queue_items (the_queue s)"
proof -
  obtain ls s vs where r: "queue_run es (queue_start alc d) = (Inr ls, s)" "two_threads_ok s vs" "pair_step [d] ls vs"
    "left_items ls = popped ls @ in_flight (places s 1)"
    using two_threads_run [OF two_threads_start assms, of alc d] by (auto simp: queue_start_def)
  have "queue_items (the_queue s) = tl vs" using r(2) queue_items_live pair_okD(1) unfolding two_threads_ok_def by blast
  then show ?thesis using r(1,3,4) by (simp add: pair_step_def)
qed

theorem one_producer_one_consumer_witness:
  "\<exists>ls s. queue_run sample_events (queue_start (\<lambda>_. 0) 0) = (Inr ls, s) \<and>
    entered ls = popped ls @ in_flight (places s 1) @ queue_items (the_queue s)"
  by (rule one_producer_one_consumer) (simp add: sample_events_def)

text \<open>Two threads push and one pops: thread 0 reads \<open>tail_\<close>, thread 1 pushes, thread 2 pops.\<close>

definition two_producer_events :: "'a \<Rightarrow> 'a \<Rightarrow> 'a queue_event list" where
  "two_producer_events v w =
     [Call_push 0 v, Step 0] @ Call_push 1 w # replicate 6 (Step 1) @ Call_pop 2 # replicate 7 (Step 2) @ [Step 0]"

text \<open>With two threads that push the queue is not safe: the node that \<open>tail_\<close> pointed to when one of them read
  it is deleted by \<open>pop\<close> before that thread reads its \<open>next_\<close>, so \<open>push\<close> follows a deleted node.\<close>

theorem second_producer_follows_deleted_node:
  "\<exists>s. queue_run (two_producer_events v w) (queue_start Suc d) = (Inl Bad_access, s)"
  by (simp add: two_producer_events_def queue_defs eval_nat_numeral)

end
