(* ===== verification/Locked_Queues.thy ===== *)
theory Locked_Queues
  imports Lock_Free_Queue
begin

text \<open>
  \<open>src/src/tool/ThreadSafeQueue/basequeue.h\<close> and \<open>effectivequeue.h\<close>: a queue under one mutex, and one of linked
  nodes with a mutex for each end. What a thread does while it holds the mutex of the tail touches nothing that
  others can see meanwhile, so it is one step; the mutex of the head is held over two steps. The making of a
  node is part of the step that links it.
\<close>

section \<open>The interface of a queue\<close>

locale fifo_queue =
  fixes enq :: "'a \<Rightarrow> 'q \<Rightarrow> ('q, unit) cpp"
    and deq :: "'q \<Rightarrow> ('q, 'a option) cpp"
    and content :: "'q \<Rightarrow> 'a list"
    and invar :: "'q \<Rightarrow> bool"
  assumes enq_content: "invar q \<Longrightarrow> \<exists>q'. enq x q = (Inr (), q') \<and> invar q' \<and> content q' = content q @ [x]"
    and deq_empty: "invar q \<Longrightarrow> content q = [] \<Longrightarrow> \<exists>q'. deq q = (Inr None, q') \<and> invar q' \<and> content q' = []"
    and deq_content: "invar q \<Longrightarrow> content q = x # xs \<Longrightarrow> \<exists>q'. deq q = (Inr (Some x), q') \<and> invar q' \<and> content q' = xs"

text \<open>A sequence of calls, \<open>Some x\<close> for a push and \<open>None\<close> for a pop, and the values of the pops.\<close>

fun queue_calls :: "('a \<Rightarrow> 'q \<Rightarrow> ('q, unit) cpp) \<Rightarrow> ('q \<Rightarrow> ('q, 'a option) cpp) \<Rightarrow> 'a option list \<Rightarrow> 'q \<Rightarrow> ('q, 'a option list) cpp" where
  "queue_calls enq deq [] q = (Inr [], q)"
| "queue_calls enq deq (Some x # cs) q = bindc (enq x q) (\<lambda>_ q. queue_calls enq deq cs q)"
| "queue_calls enq deq (None # cs) q = bindc (deq q) (\<lambda>r q. bindc (queue_calls enq deq cs q) (\<lambda>rs q. (Inr (r # rs), q)))"

text \<open>The same on a list.\<close>

fun list_calls :: "'a option list \<Rightarrow> 'a list \<Rightarrow> 'a option list \<times> 'a list" where
  "list_calls [] xs = ([], xs)"
| "list_calls (Some x # cs) xs = list_calls cs (xs @ [x])"
| "list_calls (None # cs) [] = (case list_calls cs [] of (rs, xs) \<Rightarrow> (None # rs, xs))"
| "list_calls (None # cs) (x # xs) = (case list_calls cs xs of (rs, xs) \<Rightarrow> (Some x # rs, xs))"

context fifo_queue
begin

lemma calls_refine:
  "invar q \<Longrightarrow> \<exists>q'. queue_calls enq deq cs q = (Inr (fst (list_calls cs (content q))), q') \<and> invar q' \<and>
    content q' = snd (list_calls cs (content q))"
proof (induction cs "content q" arbitrary: q rule: list_calls.induct)
  case (2 x cs)
  obtain q' where "enq x q = (Inr (), q')" "invar q'" "content q' = content q @ [x]" using enq_content 2(2) by blast
  then show ?case using 2(1) [of q'] by simp
next
  case (3 cs)
  obtain q' where "deq q = (Inr None, q')" "invar q'" "content q' = []" using deq_empty 3(2,3) by metis
  then show ?case using 3(1) [of q'] 3(2) [symmetric] by (auto split: prod.splits)
next
  case (4 cs x xs)
  obtain q' where "deq q = (Inr (Some x), q')" "invar q'" "content q' = xs" using deq_content 4(2,3) by metis
  then show ?case using 4(1) [of q'] 4(2) [symmetric] by (auto split: prod.splits)
qed simp

end

section \<open>The lock-free queue with one call at a time\<close>

text \<open>A call from its first step to its last, with no other thread between; \<open>k\<close> bounds the steps, which are at most eight.\<close>

fun alone :: "nat \<Rightarrow> 'a place \<Rightarrow> 'a LockFreeQueue \<Rightarrow> ('a LockFreeQueue, 'a label list) cpp" where
  "alone 0 p q = (Inr [], q)"
| "alone (Suc k) p q =
     (case place_step p q of
        Inl e \<Rightarrow> (Inl e, q)
      | Inr (p', q', ls) \<Rightarrow> if p' = Idle then (Inr ls, q') else bindc (alone k p' q') (\<lambda>ls' q. (Inr (ls @ ls'), q)))"

definition lf_push :: "'a \<Rightarrow> 'a LockFreeQueue \<Rightarrow> ('a LockFreeQueue, unit) cpp" where
  "lf_push v q = (case new_node v q of (a, q) \<Rightarrow> bindc (alone 8 (Push_read_tail a) q) (\<lambda>_ q. (Inr (), q)))"

definition lf_pop :: "'a LockFreeQueue \<Rightarrow> ('a LockFreeQueue, 'a option) cpp" where
  "lf_pop q = bindc (alone 8 Pop_read_head q) (\<lambda>ls q. (Inr (case popped ls of [] \<Rightarrow> None | v # _ \<Rightarrow> Some v), q))"

definition lf_sound :: "'a LockFreeQueue \<Rightarrow> bool" where
  "lf_sound q \<longleftrightarrow> (\<exists>L vs. live q L vs \<and> lf_tail q = last L)"

lemmas call_steps = eval_nat_numeral silent_def follow_def link_step_def cas_tail_def decide_step_def delete_node_def

lemma lf_push_sound:
  assumes "lf_sound q"
  shows "\<exists>q'. lf_push v q = (Inr (), q') \<and> lf_sound q' \<and> queue_items q' = queue_items q @ [v]"
proof -
  obtain L vs where l: "live q L vs" and tail: "lf_tail q = last L" using assms by (auto simp: lf_sound_def)
  define a where "a = new_address q"
  define q1 where "q1 = snd (new_node v q)"
  have l1: "live q1 L vs" "a \<notin> set L" using live_new_node [OF l] by (simp_all add: q1_def a_def)
  have q1: "new_node v q = (a, q1)" "lf_tail q1 = last L" "nodes q1 a = Some \<lparr>data_of = v, next_of = None\<rparr>"
    by (simp_all add: q1_def new_node_def Let_def a_def tail)
  have L: "L \<noteq> []" "vs \<noteq> []" using l linked_length by (auto simp: live_def)
  have n: "nodes q1 (last L) = Some \<lparr>data_of = last vs, next_of = None\<rparr>" using l1(1) linked_last by (auto simp: live_def)
  have ne: "last L \<noteq> a" using l1(2) L(1) by auto
  define q2 where "q2 = q1\<lparr>nodes := (nodes q1)(last L \<mapsto> \<lparr>data_of = last vs, next_of = Some a\<rparr>)\<rparr>"
  define q3 where "q3 = q2\<lparr>lf_tail := a\<rparr>"
  have run: "lf_push v q = (Inr (), q3\<lparr>lf_count := lf_count q3 + 1\<rparr>)"
    using q1 n ne by (simp add: lf_push_def call_steps q2_def q3_def)
  have "live q2 (L @ [a]) (vs @ [v])" using live_link [OF l1 q1(3) n] by (simp add: q2_def)
  then have "live q3 (L @ [a]) (vs @ [v])" unfolding q3_def by (rule live_changes(2)) simp
  then have l3: "live (q3\<lparr>lf_count := lf_count q3 + 1\<rparr>) (L @ [a]) (vs @ [v])" by (rule live_changes(1))
  then have "lf_sound (q3\<lparr>lf_count := lf_count q3 + 1\<rparr>)" unfolding lf_sound_def q3_def by fastforce
  then show ?thesis using run queue_items_live [OF l3] queue_items_live [OF l] L(2) by simp
qed

lemma lf_pop_empty:
  assumes "lf_sound q" and "queue_items q = []"
  shows "lf_pop q = (Inr None, q)"
proof -
  obtain L vs where l: "live q L vs" and tail: "lf_tail q = last L" using assms(1) by (auto simp: lf_sound_def)
  have "length vs = length L" "L \<noteq> []" "tl vs = []" using l linked_length queue_items_live [OF l] assms(2) by (auto simp: live_def)
  then obtain a v where "L = [a]" "vs = [v]" by (cases L; cases vs) auto
  then show ?thesis using l tail by (simp add: lf_pop_def call_steps live_def)
qed

lemma lf_pop_sound:
  assumes "lf_sound q" and "queue_items q = x # xs"
  shows "\<exists>q'. lf_pop q = (Inr (Some x), q') \<and> lf_sound q' \<and> queue_items q' = xs"
proof -
  obtain L vs where l: "live q L vs" and tail: "lf_tail q = last L" using assms(1) by (auto simp: lf_sound_def)
  have parts: "length vs = length L" "tl vs = x # xs" "distinct L"
    using l linked_length queue_items_live [OF l] assms(2) by (auto simp: live_def)
  then obtain a b M w where L: "L = a # b # M" "vs = w # x # xs" by (cases L; cases "tl L"; cases vs) auto
  have ne: "a \<noteq> b" "a \<noteq> last L" "a \<notin> set (b # M)" using parts(3) L(1) by (auto simp: split: if_splits)
  define q1 where "q1 = q\<lparr>lf_head := b\<rparr>"
  define q2 where "q2 = q1\<lparr>nodes := (nodes q1)(a := None)\<rparr>"
  have "live q1 (b # M) (x # xs)" unfolding q1_def by (rule live_move_head [OF l [unfolded L]]) (use tail ne in simp)
  then have "live q2 (b # M) (x # xs)" unfolding q2_def by (rule live_delete [OF _ ne(3)])
  then have l2: "live (q2\<lparr>lf_count := lf_count q2 - 1\<rparr>) (b # M) (x # xs)" by (rule live_changes(1))
  have n: "nodes q a = Some \<lparr>data_of = w, next_of = Some b\<rparr>" "\<exists>m. nodes q b = Some m \<and> data_of m = x" "lf_head q = a"
    using l linked_first [of q b M "x # xs"] by (auto simp: live_def L)
  have "lf_pop q = (Inr (Some x), q2\<lparr>lf_count := lf_count q2 - 1\<rparr>)"
    using n ne(1,2) tail by (auto simp: lf_pop_def call_steps q1_def q2_def popped_def)
  moreover have "lf_sound (q2\<lparr>lf_count := lf_count q2 - 1\<rparr>)"
    using l2 tail L(1) unfolding lf_sound_def by (intro exI [of _ "b # M"] exI [of _ "x # xs"]) (simp add: q1_def q2_def)
  ultimately show ?thesis using queue_items_live [OF l2] by auto
qed

interpretation lock_free: fifo_queue lf_push lf_pop queue_items lf_sound
proof unfold_locales
  fix q :: "'a LockFreeQueue" and x :: 'a and xs :: "'a list"
  assume q: "lf_sound q"
  show "\<exists>q'. lf_push x q = (Inr (), q') \<and> lf_sound q' \<and> queue_items q' = queue_items q @ [x]" by (rule lf_push_sound [OF q])
  show "queue_items q = [] \<Longrightarrow> \<exists>q'. lf_pop q = (Inr None, q') \<and> lf_sound q' \<and> queue_items q' = []"
    using lf_pop_empty [OF q] q by simp
  show "queue_items q = x # xs \<Longrightarrow> \<exists>q'. lf_pop q = (Inr (Some x), q') \<and> lf_sound q' \<and> queue_items q' = xs"
    by (rule lf_pop_sound [OF q])
qed

section \<open>One mutex\<close>

text \<open>The items behind the shared pointers.\<close>

type_synonym 'a BaseQueue = "'a list"

definition bq_push :: "'a \<Rightarrow> 'a BaseQueue \<Rightarrow> ('a BaseQueue, unit) cpp" where
  "bq_push item que = (Inr (), que @ [item])"

definition bq_pop :: "'a BaseQueue \<Rightarrow> ('a BaseQueue, 'a option) cpp" where
  "bq_pop que = (if que = [] then (Inr None, que) else (Inr (Some (hd que)), tl que))"

definition bq_size :: "'a BaseQueue \<Rightarrow> nat" where
  "bq_size que = length que"

interpretation base: fifo_queue bq_push bq_pop "\<lambda>que. que" "\<lambda>_. True"
  by unfold_locales (auto simp: bq_push_def bq_pop_def)

section \<open>A mutex for each end\<close>

record 'a eq_node =
  eq_val :: "'a option"
  eq_next :: "address option"

text \<open>\<open>head\<close> is a shared pointer, null after it was moved. The address of a node is not used
  again here, which no thread could notice: the one that \<open>get_tail\<close> gave is compared while the mutex of the head is held, and only
  under that mutex a node leaves the queue.\<close>

record 'a EffectiveQueue =
  eq_nodes :: "address \<rightharpoonup> 'a eq_node"
  eq_unused :: address
  eq_head :: "address option"
  eq_tail :: address
  eq_count :: int

text \<open>The constructor does not set \<open>count\<close>: \<open>junk\<close> is what it holds.\<close>

definition EffectiveQueue_new :: "int \<Rightarrow> 'a EffectiveQueue" where
  "EffectiveQueue_new junk =
     \<lparr>eq_nodes = [0 \<mapsto> \<lparr>eq_val = None, eq_next = None\<rparr>], eq_unused = 1, eq_head = Some 0, eq_tail = 0, eq_count = junk\<rparr>"

definition get_tail :: "'a EffectiveQueue \<Rightarrow> address" where
  "get_tail q = eq_tail q"

text \<open>The new node, and the block of \<open>push\<close> under the mutex of the tail.\<close>

definition push_tail :: "'a \<Rightarrow> 'a EffectiveQueue \<Rightarrow> ('a EffectiveQueue, unit) cpp" where
  "push_tail x q =
     (let p = eq_unused q;
          q = q\<lparr>eq_nodes := (eq_nodes q)(p \<mapsto> \<lparr>eq_val = None, eq_next = None\<rparr>), eq_unused := p + 1\<rparr> in
      case eq_nodes q (eq_tail q) of
        None \<Rightarrow> (Inl Bad_access, q)
      | Some n \<Rightarrow> (Inr (), q\<lparr>eq_nodes := (eq_nodes q)(eq_tail q \<mapsto> n\<lparr>eq_val := Some x, eq_next := Some p\<rparr>), eq_tail := p\<rparr>))"

text \<open>\<open>pop_head\<close> behind the call of \<open>get_tail\<close>, which gave \<open>t\<close>.\<close>

definition pop_head :: "address \<Rightarrow> 'a EffectiveQueue \<Rightarrow> ('a EffectiveQueue, address option) cpp" where
  "pop_head t q =
     (if eq_head q = Some t then (Inr None, q)
      else
        case eq_head q of
          None \<Rightarrow> (Inl Null_deref, q)
        | Some oldHead \<Rightarrow>
            (case eq_nodes q oldHead of
               None \<Rightarrow> (Inl Bad_access, q)
             | Some n \<Rightarrow>
                 (Inr (Some oldHead),
                  q\<lparr>eq_nodes := (eq_nodes q)(oldHead \<mapsto> n\<lparr>eq_next := None\<rparr>), eq_head := eq_next n\<rparr>)))"

definition change_count :: "int \<Rightarrow> 'a EffectiveQueue \<Rightarrow> 'a EffectiveQueue" where
  "change_count d q = q\<lparr>eq_count := eq_count q + d\<rparr>"

text \<open>The value of a node that was taken out, and its end with the last pointer to it.\<close>

definition take_value :: "address \<Rightarrow> 'a EffectiveQueue \<Rightarrow> ('a EffectiveQueue, 'a option) cpp" where
  "take_value oldHead q =
     (case eq_nodes q oldHead of
        None \<Rightarrow> (Inl Bad_access, q)
      | Some n \<Rightarrow> (Inr (eq_val n), q\<lparr>eq_nodes := (eq_nodes q)(oldHead := None)\<rparr>))"

text \<open>The calls of one thread.\<close>

definition eq_push :: "'a \<Rightarrow> 'a EffectiveQueue \<Rightarrow> ('a EffectiveQueue, unit) cpp" where
  "eq_push x q = bindc (push_tail x q) (\<lambda>_ q. (Inr (), change_count 1 q))"

definition eq_pop :: "'a EffectiveQueue \<Rightarrow> ('a EffectiveQueue, 'a option) cpp" where
  "eq_pop q =
     bindc (pop_head (get_tail q) q) (\<lambda>r q.
       case r of None \<Rightarrow> (Inr None, q) | Some oldHead \<Rightarrow> take_value oldHead (change_count (- 1) q))"

section \<open>The nodes of the queue\<close>

text \<open>\<open>as\<close> are the nodes from the head to the tail, \<open>vs\<close> the items of all but the last.\<close>

definition eq_chain :: "'a EffectiveQueue \<Rightarrow> address list \<Rightarrow> 'a list \<Rightarrow> bool" where
  "eq_chain q as vs \<longleftrightarrow>
     length as = Suc (length vs) \<and> distinct as \<and> eq_head q = Some (as ! 0) \<and> eq_tail q = as ! length vs \<and>
     (\<forall>i < length vs. eq_nodes q (as ! i) = Some \<lparr>eq_val = Some (vs ! i), eq_next = Some (as ! Suc i)\<rparr>) \<and>
     eq_nodes q (as ! length vs) = Some \<lparr>eq_val = None, eq_next = None\<rparr> \<and>
     (\<forall>a. eq_nodes q a \<noteq> None \<longrightarrow> a < eq_unused q)"

lemma eq_chain_new: "eq_chain (EffectiveQueue_new junk) [0] []"
  by (simp add: eq_chain_def EffectiveQueue_new_def)

lemma eq_chain_used:
  assumes "eq_chain q as vs" and "a \<in> set as"
  shows "a < eq_unused q"
proof -
  obtain i where i: "i < length as" "a = as ! i" using assms(2) by (auto simp: in_set_conv_nth)
  have "eq_nodes q a \<noteq> None"
    using assms(1) i by (cases "i = length vs") (auto simp: eq_chain_def less_Suc_eq)
  then show ?thesis using assms(1) unfolding eq_chain_def by blast
qed

lemma push_tail_chain:
  assumes "eq_chain q as vs"
  defines "p \<equiv> eq_unused q"
  shows "\<exists>q'. push_tail x q = (Inr (), q') \<and> eq_chain q' (as @ [p]) (vs @ [x]) \<and> eq_unused q' = Suc p \<and>
    (\<forall>a. a \<notin> set as \<and> a \<noteq> p \<longrightarrow> eq_nodes q' a = eq_nodes q a)"
proof -
  have c: "length as = Suc (length vs)" "distinct as" "eq_head q = Some (as ! 0)" "eq_tail q = as ! length vs"
    "\<forall>i < length vs. eq_nodes q (as ! i) = Some \<lparr>eq_val = Some (vs ! i), eq_next = Some (as ! Suc i)\<rparr>"
    "eq_nodes q (as ! length vs) = Some \<lparr>eq_val = None, eq_next = None\<rparr>" "\<forall>a. eq_nodes q a \<noteq> None \<longrightarrow> a < eq_unused q"
    using assms(1) by (simp_all add: eq_chain_def)
  have new: "p \<notin> set as" using eq_chain_used [OF assms(1)] unfolding p_def by blast
  define l where "l = as ! length vs"
  have l: "l \<in> set as" "l \<noteq> p" using c(1) new by (auto simp: l_def)
  define q' where "q' = q\<lparr>eq_nodes := (eq_nodes q)(p \<mapsto> \<lparr>eq_val = None, eq_next = None\<rparr>,
      l \<mapsto> \<lparr>eq_val = Some x, eq_next = Some p\<rparr>), eq_unused := Suc p, eq_tail := p\<rparr>"
  have run: "push_tail x q = (Inr (), q')"
    using l c(4,6) by (simp add: push_tail_def Let_def q'_def p_def l_def)
  have "eq_nodes q' ((as @ [p]) ! i) = Some \<lparr>eq_val = Some ((vs @ [x]) ! i), eq_next = Some ((as @ [p]) ! Suc i)\<rparr>"
    if i: "i < length (vs @ [x])" for i
  proof (cases "i = length vs")
    case True
    then show ?thesis using c(1) by (simp add: q'_def l_def nth_append)
  next
    case False
    then have i': "i < length vs" using i by simp
    then have "as ! i \<noteq> l" "as ! i \<noteq> p" using c(1,2) new nth_eq_iff_index_eq [of as i "length vs"] by (auto simp: l_def)
    then show ?thesis using i' c(1,5) by (simp add: q'_def nth_append)
  qed
  moreover have "a < Suc p" if "eq_nodes q' a \<noteq> None" for a
    using that c(6,7) by (auto simp: q'_def p_def l_def less_Suc_eq split: if_splits)
  ultimately have "eq_chain q' (as @ [p]) (vs @ [x])"
    using c(1-3) new l by (auto simp: eq_chain_def q'_def nth_append)
  then show ?thesis using run l by (auto simp: q'_def)
qed

lemma pop_head_empty:
  assumes "eq_chain q as []"
  shows "pop_head (get_tail q) q = (Inr None, q)"
  using assms by (simp add: eq_chain_def pop_head_def get_tail_def)

lemma pop_head_chain:
  assumes "eq_chain q as vs" and "t \<in> set as" and "t \<noteq> as ! 0"
  shows "\<exists>v vs' as' q'. vs = v # vs' \<and> as = as ! 0 # as' \<and> pop_head t q = (Inr (Some (as ! 0)), q') \<and> eq_chain q' as' vs' \<and>
    eq_nodes q' (as ! 0) = Some \<lparr>eq_val = Some v, eq_next = None\<rparr> \<and> eq_unused q' = eq_unused q \<and>
    (\<forall>a. a \<noteq> as ! 0 \<longrightarrow> eq_nodes q' a = eq_nodes q a)"
proof -
  have c: "length as = Suc (length vs)" "distinct as" "eq_head q = Some (as ! 0)" "eq_tail q = as ! length vs"
    "\<forall>i < length vs. eq_nodes q (as ! i) = Some \<lparr>eq_val = Some (vs ! i), eq_next = Some (as ! Suc i)\<rparr>"
    "eq_nodes q (as ! length vs) = Some \<lparr>eq_val = None, eq_next = None\<rparr>" "\<forall>a. eq_nodes q a \<noteq> None \<longrightarrow> a < eq_unused q"
    using assms(1) by (simp_all add: eq_chain_def)
  obtain h as' where as: "as = h # as'" using c(1) by (cases as) auto
  obtain v vs' where vs: "vs = v # vs'" using assms(2,3) c(1) as by (cases vs) auto
  define q' where "q' = q\<lparr>eq_nodes := (eq_nodes q)(h \<mapsto> \<lparr>eq_val = Some v, eq_next = None\<rparr>), eq_head := Some (as' ! 0)\<rparr>"
  have run: "pop_head t q = (Inr (Some h), q')"
    using c(3) c(5) [rule_format, of 0] assms(3) as vs by (simp add: pop_head_def q'_def)
  have other: "as' ! i \<noteq> h" if "i < length as'" for i using c(2) as nth_mem [OF that] by auto
  have len: "length as' = Suc (length vs')" using c(1) as vs by simp
  have "eq_nodes q' (as' ! i) = Some \<lparr>eq_val = Some (vs' ! i), eq_next = Some (as' ! Suc i)\<rparr>" if "i < length vs'" for i
    using c(5) [rule_format, of "Suc i"] other [of i] that len as vs by (simp add: q'_def)
  moreover have "eq_nodes q' (as' ! length vs') = Some \<lparr>eq_val = None, eq_next = None\<rparr>"
    using c(6) other [of "length vs'"] len as vs by (simp add: q'_def)
  moreover have "a < eq_unused q'" if "eq_nodes q' a \<noteq> None" for a
    using that c(7) c(5) [rule_format, of 0] as vs by (auto simp: q'_def split: if_splits)
  ultimately have "eq_chain q' as' vs'" using c(2,4) len as vs by (simp add: eq_chain_def) (simp add: q'_def)
  then show ?thesis using run as vs by (auto simp: q'_def)
qed

lemma eq_chain_delete:
  assumes "eq_chain q as vs" and "a \<notin> set as"
  shows "eq_chain (q\<lparr>eq_nodes := (eq_nodes q)(a := None)\<rparr>) as vs"
proof -
  have "as ! i \<noteq> a" if "i \<le> length vs" for i
    using assms nth_mem [of i as] that by (auto simp: eq_chain_def)
  then show ?thesis using assms(1) by (auto simp: eq_chain_def)
qed

lemma eq_chain_count [simp]: "eq_chain (change_count d q) as vs \<longleftrightarrow> eq_chain q as vs"
  by (simp add: eq_chain_def change_count_def)

text \<open>The items, along the pointers from the head.\<close>

fun eq_items_from :: "nat \<Rightarrow> 'a EffectiveQueue \<Rightarrow> address \<Rightarrow> 'a list" where
  "eq_items_from 0 q a = []"
| "eq_items_from (Suc k) q a =
     (case eq_nodes q a of
        None \<Rightarrow> []
      | Some n \<Rightarrow> (case (eq_val n, eq_next n) of (Some v, Some b) \<Rightarrow> v # eq_items_from k q b | _ \<Rightarrow> []))"

definition eq_items :: "'a EffectiveQueue \<Rightarrow> 'a list" where
  "eq_items q = (case eq_head q of None \<Rightarrow> [] | Some h \<Rightarrow> eq_items_from (eq_unused q) q h)"

lemma eq_items_chain:
  assumes "eq_chain q as vs"
  shows "eq_items q = vs"
proof -
  have walk: "eq_items_from k q (as ! i) = drop i vs" if "i \<le> length vs" "length vs \<le> i + k" for i k
    using that
  proof (induction k arbitrary: i)
    case (Suc k)
    show ?case
    proof (cases "i = length vs")
      case True
      then show ?thesis using assms by (simp add: eq_chain_def)
    next
      case False
      then have i: "i < length vs" using Suc.prems by simp
      then have "eq_items_from k q (as ! Suc i) = drop (Suc i) vs" using Suc by simp
      then show ?thesis using assms i by (simp add: eq_chain_def Cons_nth_drop_Suc)
    qed
  qed simp
  have "set as \<subseteq> {..<eq_unused q}" using eq_chain_used [OF assms] by auto
  then have "card (set as) \<le> eq_unused q" using card_mono [of "{..<eq_unused q}" "set as"] by simp
  then have "length vs \<le> eq_unused q" using assms by (simp add: eq_chain_def distinct_card)
  then show ?thesis using walk [of 0 "eq_unused q"] assms by (simp add: eq_items_def eq_chain_def)
qed

definition eq_sound :: "'a EffectiveQueue \<Rightarrow> bool" where
  "eq_sound q \<longleftrightarrow> (\<exists>as vs. eq_chain q as vs)"

lemma eq_push_sound:
  assumes "eq_sound q"
  shows "\<exists>q'. eq_push x q = (Inr (), q') \<and> eq_sound q' \<and> eq_items q' = eq_items q @ [x]"
proof -
  obtain as vs where c: "eq_chain q as vs" using assms by (auto simp: eq_sound_def)
  obtain q' where "push_tail x q = (Inr (), q')" "eq_chain q' (as @ [eq_unused q]) (vs @ [x])"
    using push_tail_chain [OF c, of x] by blast
  then have "eq_push x q = (Inr (), change_count 1 q')" "eq_chain (change_count 1 q') (as @ [eq_unused q]) (vs @ [x])"
    by (simp_all add: eq_push_def)
  then show ?thesis using eq_items_chain [OF c] eq_items_chain unfolding eq_sound_def by blast
qed

lemma eq_pop_sound:
  assumes "eq_sound q"
  shows "eq_items q = [] \<Longrightarrow> eq_pop q = (Inr None, q)"
    and "eq_items q = x # xs \<Longrightarrow> \<exists>q'. eq_pop q = (Inr (Some x), q') \<and> eq_sound q' \<and> eq_items q' = xs"
proof -
  obtain as vs where c: "eq_chain q as vs" using assms by (auto simp: eq_sound_def)
  have vs: "eq_items q = vs" using eq_items_chain [OF c] .
  show "eq_pop q = (Inr None, q)" if "eq_items q = []"
    using pop_head_empty [of q as] c that vs by (simp add: eq_pop_def)
  assume items: "eq_items q = x # xs"
  have len: "length as = Suc (length vs)" "distinct as" "get_tail q = as ! length vs" using c by (simp_all add: eq_chain_def get_tail_def)
  have t: "get_tail q \<in> set as" "get_tail q \<noteq> as ! 0"
    using len vs items nth_eq_iff_index_eq [of as "length vs" 0] by auto
  obtain v vs' as' q' where p: "vs = v # vs'" "as = as ! 0 # as'" "pop_head (get_tail q) q = (Inr (Some (as ! 0)), q')"
    "eq_chain q' as' vs'" "eq_nodes q' (as ! 0) = Some \<lparr>eq_val = Some v, eq_next = None\<rparr>"
    using pop_head_chain [OF c t] by blast
  define q2 where "q2 = (change_count (- 1) q')\<lparr>eq_nodes := (eq_nodes q')(as ! 0 := None)\<rparr>"
  have "as ! 0 \<notin> set as'" using len(2) p(2) by (metis distinct.simps(2))
  then have "eq_chain q2 as' vs'"
    using eq_chain_delete [of "change_count (- 1) q'" as' vs' "as ! 0"] p(4) by (simp add: q2_def) (simp add: change_count_def)
  moreover have "eq_pop q = (Inr (Some v), q2)"
    using p(3,5) by (simp add: eq_pop_def take_value_def q2_def change_count_def)
  ultimately show "\<exists>q'. eq_pop q = (Inr (Some x), q') \<and> eq_sound q' \<and> eq_items q' = xs"
    using eq_items_chain [of q2] p(1) vs items by (auto simp: eq_sound_def)
qed

interpretation effective: fifo_queue eq_push eq_pop eq_items eq_sound
proof unfold_locales
  fix q :: "'a EffectiveQueue" and x :: 'a and xs :: "'a list"
  assume q: "eq_sound q"
  show "\<exists>q'. eq_push x q = (Inr (), q') \<and> eq_sound q' \<and> eq_items q' = eq_items q @ [x]" by (rule eq_push_sound [OF q])
  show "eq_items q = [] \<Longrightarrow> \<exists>q'. eq_pop q = (Inr None, q') \<and> eq_sound q' \<and> eq_items q' = []"
    using eq_pop_sound(1) [OF q] q by blast
  show "eq_items q = x # xs \<Longrightarrow> \<exists>q'. eq_pop q = (Inr (Some x), q') \<and> eq_sound q' \<and> eq_items q' = xs"
    by (rule eq_pop_sound(2) [OF q])
qed

section \<open>Threads\<close>

datatype 'a eq_place =
    Eq_idle
  | Eq_push 'a
  | Eq_push_count
  | Eq_pop
  | Eq_get_tail
  | Eq_pop_head address
  | Eq_pop_count address
  | Eq_take address

record 'a eq_system =
  the_eq :: "'a EffectiveQueue"
  eq_hm :: "nat option"
  eq_places :: "nat \<Rightarrow> 'a eq_place"

definition eq_start :: "int \<Rightarrow> 'a eq_system" where
  "eq_start junk = \<lparr>the_eq = EffectiveQueue_new junk, eq_hm = None, eq_places = \<lambda>_. Eq_idle\<rparr>"

definition eq_goto :: "nat \<Rightarrow> 'a eq_place \<Rightarrow> 'a eq_system \<Rightarrow> 'a eq_system" where
  "eq_goto i p s = s\<lparr>eq_places := (eq_places s)(i := p)\<rparr>"

text \<open>A thread that finds the mutex of the head taken waits: its step changes nothing.\<close>

fun eq_thread :: "nat \<Rightarrow> 'a eq_place \<Rightarrow> 'a eq_system \<Rightarrow> ('a eq_system, 'a label list) cpp" where
  "eq_thread i Eq_idle s = (Inr [], s)"
| "eq_thread i (Eq_push x) s =
     (case push_tail x (the_eq s) of
        (Inl e, q) \<Rightarrow> (Inl e, s\<lparr>the_eq := q\<rparr>)
      | (Inr _, q) \<Rightarrow> (Inr [Entered x], eq_goto i Eq_push_count (s\<lparr>the_eq := q\<rparr>)))"
| "eq_thread i Eq_push_count s = (Inr [], eq_goto i Eq_idle (s\<lparr>the_eq := change_count 1 (the_eq s)\<rparr>))"
| "eq_thread i Eq_pop s = (if eq_hm s = None then (Inr [], eq_goto i Eq_get_tail (s\<lparr>eq_hm := Some i\<rparr>)) else (Inr [], s))"
| "eq_thread i Eq_get_tail s = (Inr [], eq_goto i (Eq_pop_head (get_tail (the_eq s))) s)"
| "eq_thread i (Eq_pop_head t) s =
     (case pop_head t (the_eq s) of
        (Inl e, q) \<Rightarrow> (Inl e, s\<lparr>the_eq := q\<rparr>)
      | (Inr None, q) \<Rightarrow> (Inr [Popped None], eq_goto i Eq_idle (s\<lparr>the_eq := q, eq_hm := None\<rparr>))
      | (Inr (Some oldHead), q) \<Rightarrow>
          (Inr (case eq_nodes q oldHead of
                  None \<Rightarrow> [] | Some n \<Rightarrow> (case eq_val n of None \<Rightarrow> [] | Some v \<Rightarrow> [Left v])),
           eq_goto i (Eq_pop_count oldHead) (s\<lparr>the_eq := q, eq_hm := None\<rparr>)))"
| "eq_thread i (Eq_pop_count oldHead) s = (Inr [], eq_goto i (Eq_take oldHead) (s\<lparr>the_eq := change_count (- 1) (the_eq s)\<rparr>))"
| "eq_thread i (Eq_take oldHead) s =
     (case take_value oldHead (the_eq s) of
        (Inl e, q) \<Rightarrow> (Inl e, s\<lparr>the_eq := q\<rparr>)
      | (Inr r, q) \<Rightarrow> (Inr [Popped r], eq_goto i Eq_idle (s\<lparr>the_eq := q\<rparr>)))"

fun eq_step :: "'a queue_event \<Rightarrow> 'a eq_system \<Rightarrow> ('a eq_system, 'a label list) cpp" where
  "eq_step (Call_push i x) s = (Inr [], if eq_places s i = Eq_idle then eq_goto i (Eq_push x) s else s)"
| "eq_step (Call_pop i) s = (Inr [], if eq_places s i = Eq_idle then eq_goto i Eq_pop s else s)"
| "eq_step (Step i) s = eq_thread i (eq_places s i) s"

fun eq_run :: "'a queue_event list \<Rightarrow> 'a eq_system \<Rightarrow> ('a eq_system, 'a label list) cpp" where
  "eq_run [] s = (Inr [], s)"
| "eq_run (e # es) s = bindc (eq_step e s) (\<lambda>ls s. bindc (eq_run es s) (\<lambda>ls' s. (Inr (ls @ ls'), s)))"

section \<open>Any number of threads\<close>

fun taken_node :: "'a eq_place \<Rightarrow> address option" where
  "taken_node (Eq_pop_count h) = Some h"
| "taken_node (Eq_take h) = Some h"
| "taken_node _ = None"

text \<open>A place that is only reached with the mutex of the head, and the tail that was read there.\<close>

fun holds_hm :: "'a eq_place \<Rightarrow> bool" where
  "holds_hm Eq_get_tail \<longleftrightarrow> True"
| "holds_hm (Eq_pop_head t) \<longleftrightarrow> True"
| "holds_hm _ \<longleftrightarrow> False"

text \<open>A node that was taken out of the queue still has its item.\<close>

definition has_item :: "'a EffectiveQueue \<Rightarrow> address \<Rightarrow> bool" where
  "has_item q h \<longleftrightarrow> (\<exists>v. eq_nodes q h = Some \<lparr>eq_val = Some v, eq_next = None\<rparr>)"

lemma has_item_same: "eq_nodes q' h = eq_nodes q h \<Longrightarrow> has_item q h \<Longrightarrow> has_item q' h"
  by (simp add: has_item_def)

lemma has_item_used: "has_item q h \<Longrightarrow> eq_nodes q h \<noteq> None"
  by (auto simp: has_item_def)

definition eq_system_ok :: "'a eq_system \<Rightarrow> address list \<Rightarrow> 'a list \<Rightarrow> bool" where
  "eq_system_ok s as vs \<longleftrightarrow>
     eq_chain (the_eq s) as vs \<and>
     (\<forall>i. holds_hm (eq_places s i) \<longrightarrow> eq_hm s = Some i) \<and>
     (\<forall>i t. eq_places s i = Eq_pop_head t \<longrightarrow> t \<in> set as) \<and>
     (\<forall>i h. taken_node (eq_places s i) = Some h \<longrightarrow> h \<notin> set as \<and> has_item (the_eq s) h) \<and>
     (\<forall>i j h. taken_node (eq_places s i) = Some h \<longrightarrow> taken_node (eq_places s j) = Some h \<longrightarrow> i = j)"

lemma eq_system_okI:
  assumes "eq_chain (the_eq s) as vs" and "\<And>i. holds_hm (eq_places s i) \<Longrightarrow> eq_hm s = Some i"
    and "\<And>i t. eq_places s i = Eq_pop_head t \<Longrightarrow> t \<in> set as"
    and "\<And>i h. taken_node (eq_places s i) = Some h \<Longrightarrow> h \<notin> set as \<and> has_item (the_eq s) h"
    and "\<And>i j h. taken_node (eq_places s i) = Some h \<Longrightarrow> taken_node (eq_places s j) = Some h \<Longrightarrow> i = j"
  shows "eq_system_ok s as vs"
  unfolding eq_system_ok_def using assms by blast

lemma eq_system_okD:
  assumes "eq_system_ok s as vs"
  shows "eq_chain (the_eq s) as vs" "holds_hm (eq_places s i) \<Longrightarrow> eq_hm s = Some i"
    "eq_places s i = Eq_pop_head t \<Longrightarrow> t \<in> set as"
    "taken_node (eq_places s i) = Some h \<Longrightarrow> h \<notin> set as \<and> has_item (the_eq s) h"
    "taken_node (eq_places s i) = Some h \<Longrightarrow> taken_node (eq_places s j) = Some h \<Longrightarrow> i = j"
  using assms unfolding eq_system_ok_def by blast+

text \<open>A step to a place that neither holds the mutex nor a node, with the nodes as they are.\<close>

lemma eq_goto_free:
  assumes "eq_system_ok s as vs" and "eq_chain q as vs" and "eq_nodes q = eq_nodes (the_eq s)" and "\<not> holds_hm p"
    and "taken_node p = None \<or> taken_node p = taken_node (eq_places s i)" and "hm = eq_hm s \<or> holds_hm (eq_places s i)"
  shows "eq_system_ok (eq_goto i p (s\<lparr>the_eq := q, eq_hm := hm\<rparr>)) as vs"
proof (rule eq_system_okI)
  let ?s = "eq_goto i p (s\<lparr>the_eq := q, eq_hm := hm\<rparr>)"
  have at: "eq_places ?s j = (if j = i then p else eq_places s j)" for j by (simp add: eq_goto_def)
  have sub: "taken_node (eq_places ?s j) = Some h \<Longrightarrow> taken_node (eq_places s j) = Some h" for j h
    using assms(5) by (auto simp: at split: if_splits)
  show "eq_chain (the_eq ?s) as vs" using assms(2) by (simp add: eq_goto_def)
  show "eq_hm ?s = Some j" if "holds_hm (eq_places ?s j)" for j
  proof -
    have j: "j \<noteq> i" "eq_hm s = Some j" using that assms(4) eq_system_okD(2) [OF assms(1), of j] by (auto simp: at split: if_splits)
    have "\<not> holds_hm (eq_places s i)" using eq_system_okD(2) [OF assms(1), of i] j by auto
    then show ?thesis using j assms(6) by (simp add: eq_goto_def)
  qed
  show "t \<in> set as" if "eq_places ?s j = Eq_pop_head t" for j t
    using that assms(4) eq_system_okD(3) [OF assms(1), of j t] by (auto simp: at split: if_splits)
  show "h \<notin> set as \<and> has_item (the_eq ?s) h" if "taken_node (eq_places ?s j) = Some h" for j h
    using eq_system_okD(4) [OF assms(1) sub [OF that]] assms(3) by (auto simp: eq_goto_def intro: has_item_same)
  show "j = k" if "taken_node (eq_places ?s j) = Some h" "taken_node (eq_places ?s k) = Some h" for j k h
    by (rule eq_system_okD(5) [OF assms(1) sub [OF that(1)] sub [OF that(2)]])
qed

lemma eq_same_state: "s\<lparr>the_eq := the_eq s, eq_hm := eq_hm s\<rparr> = s" for s :: "'a eq_system"
  by simp

lemma eq_goto_call:
  assumes "eq_system_ok s as vs" and "\<not> holds_hm p" and "taken_node p = None"
  shows "eq_system_ok (eq_goto i p s) as vs"
  using eq_goto_free [OF assms(1) eq_system_okD(1) [OF assms(1)] refl assms(2), of i "eq_hm s"] assms(3) by simp

lemma eq_step_push:
  assumes "eq_system_ok s as vs" and "eq_places s i = Eq_push x"
  shows "\<exists>s'. eq_thread i (Eq_push x) s = (Inr [Entered x], s') \<and> eq_system_ok s' (as @ [eq_unused (the_eq s)]) (vs @ [x])"
proof -
  define p where "p = eq_unused (the_eq s)"
  obtain q where q: "push_tail x (the_eq s) = (Inr (), q)" "eq_chain q (as @ [p]) (vs @ [x])"
    "\<forall>a. a \<notin> set as \<and> a \<noteq> p \<longrightarrow> eq_nodes q a = eq_nodes (the_eq s) a"
    using push_tail_chain [OF eq_system_okD(1) [OF assms(1)], of x] unfolding p_def by blast
  let ?s = "eq_goto i Eq_push_count (s\<lparr>the_eq := q\<rparr>)"
  have sub: "eq_places ?s j = Eq_push_count \<or> eq_places ?s j = eq_places s j" for j by (simp add: eq_goto_def)
  have taken: "taken_node (eq_places ?s j) = Some h \<Longrightarrow> taken_node (eq_places s j) = Some h" for j h using sub [of j] by auto
  have "eq_system_ok ?s (as @ [p]) (vs @ [x])"
  proof (rule eq_system_okI)
    show "eq_chain (the_eq ?s) (as @ [p]) (vs @ [x])" using q(2) by (simp add: eq_goto_def)
    show "eq_hm ?s = Some j" if "holds_hm (eq_places ?s j)" for j
      using that sub [of j] eq_system_okD(2) [OF assms(1), of j] by (auto simp: eq_goto_def split: if_splits)
    show "t \<in> set (as @ [p])" if "eq_places ?s j = Eq_pop_head t" for j t
      using that sub [of j] eq_system_okD(3) [OF assms(1), of j t] by auto
    show "h \<notin> set (as @ [p]) \<and> has_item (the_eq ?s) h" if "taken_node (eq_places ?s j) = Some h" for j h
    proof -
      have h: "h \<notin> set as" "has_item (the_eq s) h" using eq_system_okD(4) [OF assms(1) taken [OF that]] by blast+
      then have "h < p" using eq_system_okD(1) [OF assms(1)] has_item_used [OF h(2)] unfolding eq_chain_def p_def by blast
      then show ?thesis using h q(3) by (auto simp: eq_goto_def intro: has_item_same)
    qed
    show "j = k" if "taken_node (eq_places ?s j) = Some h" "taken_node (eq_places ?s k) = Some h" for j k h
      by (rule eq_system_okD(5) [OF assms(1) taken [OF that(1)] taken [OF that(2)]])
  qed
  then show ?thesis using q(1) by (simp add: p_def)
qed

lemma eq_step_pop_head:
  assumes "eq_system_ok s as vs" and "eq_places s i = Eq_pop_head t"
  shows "\<exists>ls s' as' vs'. eq_thread i (Eq_pop_head t) s = (Inr ls, s') \<and> eq_system_ok s' as' vs' \<and>
    vs = left_items ls @ vs' \<and> entered ls = []"
proof (cases "t = as ! 0")
  case True
  have c: "eq_chain (the_eq s) as vs" using eq_system_okD(1) [OF assms(1)] .
  then have "pop_head t (the_eq s) = (Inr None, the_eq s)" using True by (simp add: pop_head_def eq_chain_def)
  moreover have "eq_system_ok (eq_goto i Eq_idle (s\<lparr>the_eq := the_eq s, eq_hm := None\<rparr>)) as vs"
    using eq_goto_free [OF assms(1) c refl, of Eq_idle i None] assms(2) by simp
  ultimately show ?thesis by auto
next
  case False
  obtain v vs' as' q where p: "vs = v # vs'" "as = as ! 0 # as'" "pop_head t (the_eq s) = (Inr (Some (as ! 0)), q)" "eq_chain q as' vs'"
    "eq_nodes q (as ! 0) = Some \<lparr>eq_val = Some v, eq_next = None\<rparr>" "\<forall>a. a \<noteq> as ! 0 \<longrightarrow> eq_nodes q a = eq_nodes (the_eq s) a"
    using pop_head_chain [OF eq_system_okD(1) [OF assms(1)] eq_system_okD(3) [OF assms(1,2)] False] by blast
  define h where "h = as ! 0"
  let ?s = "eq_goto i (Eq_pop_count h) (s\<lparr>the_eq := q, eq_hm := None\<rparr>)"
  have h: "h \<in> set as" "h \<notin> set as'" "set as = insert h (set as')"
    using eq_system_okD(1) [OF assms(1)] p(2) unfolding h_def eq_chain_def by (metis list.set_intros(1), metis distinct.simps(2), metis list.simps(15))
  have hm: "eq_hm s = Some i" using eq_system_okD(2) [OF assms(1), of i] assms(2) by simp
  have at: "eq_places ?s j = (if j = i then Eq_pop_count h else eq_places s j)" for j by (simp add: eq_goto_def)
  have none: "\<not> holds_hm (eq_places ?s j)" for j
    using eq_system_okD(2) [OF assms(1), of j] hm by (auto simp: at)
  have other: "g \<notin> set as \<and> has_item (the_eq s) g" if "taken_node (eq_places s j) = Some g" for j g
    by (rule eq_system_okD(4) [OF assms(1) that])
  have "eq_system_ok ?s as' vs'"
  proof (rule eq_system_okI)
    show "eq_chain (the_eq ?s) as' vs'" using p(4) by (simp add: eq_goto_def)
    show "eq_hm ?s = Some j" if "holds_hm (eq_places ?s j)" for j using none that by blast
    show "u \<in> set as'" if "eq_places ?s j = Eq_pop_head u" for j u using none [of j] that by simp
    show "g \<notin> set as' \<and> has_item (the_eq ?s) g" if "taken_node (eq_places ?s j) = Some g" for j g
    proof (cases "j = i")
      case True
      then show ?thesis using that h(2) p(5) by (simp add: at h_def eq_goto_def has_item_def)
    next
      case False
      then have "g \<notin> set as" "has_item (the_eq s) g" using other [of j g] that by (simp_all add: at)
      then show ?thesis using h(3) p(6) by (auto simp: eq_goto_def h_def intro: has_item_same)
    qed
    show "j = k" if "taken_node (eq_places ?s j) = Some g" "taken_node (eq_places ?s k) = Some g" for j k g
      using that other [of j g] other [of k g] h(1) eq_system_okD(5) [OF assms(1), of j g k] by (auto simp: at split: if_splits)
  qed
  moreover have "eq_thread i (Eq_pop_head t) s = (Inr [Left v], ?s)" using p(3,5) by (simp add: h_def)
  ultimately show ?thesis using p(1) by auto
qed

lemma eq_step_take:
  assumes "eq_system_ok s as vs" and "eq_places s i = Eq_take h"
  shows "\<exists>v s'. eq_thread i (Eq_take h) s = (Inr [Popped (Some v)], s') \<and> eq_system_ok s' as vs"
proof -
  have h: "h \<notin> set as" "has_item (the_eq s) h" using eq_system_okD(4) [OF assms(1), of i h] assms(2) by simp_all
  then obtain v where n: "eq_nodes (the_eq s) h = Some \<lparr>eq_val = Some v, eq_next = None\<rparr>" by (auto simp: has_item_def)
  define q where "q = (the_eq s)\<lparr>eq_nodes := (eq_nodes (the_eq s))(h := None)\<rparr>"
  let ?s = "eq_goto i Eq_idle (s\<lparr>the_eq := q\<rparr>)"
  have sub: "eq_places ?s j = (if j = i then Eq_idle else eq_places s j)" for j by (simp add: eq_goto_def)
  have taken: "j \<noteq> i \<and> taken_node (eq_places s j) = Some g" if "taken_node (eq_places ?s j) = Some g" for j g
    using that by (auto simp: sub split: if_splits)
  have "eq_system_ok ?s as vs"
  proof (rule eq_system_okI)
    show "eq_chain (the_eq ?s) as vs"
      using eq_chain_delete [OF eq_system_okD(1) [OF assms(1)] h(1)] by (simp add: eq_goto_def q_def)
    show "eq_hm ?s = Some j" if "holds_hm (eq_places ?s j)" for j
      using that eq_system_okD(2) [OF assms(1), of j] by (auto simp: sub eq_goto_def split: if_splits)
    show "t \<in> set as" if "eq_places ?s j = Eq_pop_head t" for j t
      using that eq_system_okD(3) [OF assms(1), of j t] by (auto simp: sub split: if_splits)
    show "g \<notin> set as \<and> has_item (the_eq ?s) g" if "taken_node (eq_places ?s j) = Some g" for j g
    proof -
      have j: "j \<noteq> i" "taken_node (eq_places s j) = Some g" using taken [OF that] by simp_all
      have "g \<noteq> h" using eq_system_okD(5) [OF assms(1) j(2), of i] j(1) assms(2) by auto
      then show ?thesis using eq_system_okD(4) [OF assms(1) j(2)] by (auto simp: eq_goto_def q_def intro: has_item_same)
    qed
    show "j = k" if "taken_node (eq_places ?s j) = Some g" "taken_node (eq_places ?s k) = Some g" for j k g
      using taken [OF that(1)] taken [OF that(2)] eq_system_okD(5) [OF assms(1)] by blast
  qed
  then show ?thesis using n by (simp add: take_value_def q_def)
qed

lemma eq_step_get_tail:
  assumes "eq_system_ok s as vs" and "eq_places s i = Eq_get_tail"
  shows "eq_system_ok (eq_goto i (Eq_pop_head (get_tail (the_eq s))) s) as vs"
proof (rule eq_system_okI)
  let ?s = "eq_goto i (Eq_pop_head (get_tail (the_eq s))) s"
  have sub: "eq_places ?s j = (if j = i then Eq_pop_head (get_tail (the_eq s)) else eq_places s j)" for j by (simp add: eq_goto_def)
  have c: "eq_chain (the_eq s) as vs" using eq_system_okD(1) [OF assms(1)] .
  show "eq_chain (the_eq ?s) as vs" using c by (simp add: eq_goto_def)
  show "eq_hm ?s = Some j" if "holds_hm (eq_places ?s j)" for j
    using that assms(2) eq_system_okD(2) [OF assms(1), of j] by (auto simp: sub eq_goto_def split: if_splits)
  have "get_tail (the_eq s) \<in> set as" using c by (simp add: eq_chain_def get_tail_def)
  then show "t \<in> set as" if "eq_places ?s j = Eq_pop_head t" for j t
    using that eq_system_okD(3) [OF assms(1), of j t] by (auto simp: sub split: if_splits)
  have taken: "taken_node (eq_places s j) = Some g" if "taken_node (eq_places ?s j) = Some g" for j g
    using that by (auto simp: sub split: if_splits)
  show "g \<notin> set as \<and> has_item (the_eq ?s) g" if "taken_node (eq_places ?s j) = Some g" for j g
    using eq_system_okD(4) [OF assms(1) taken [OF that]] by (simp add: eq_goto_def)
  show "j = k" if "taken_node (eq_places ?s j) = Some g" "taken_node (eq_places ?s k) = Some g" for j k g
    by (rule eq_system_okD(5) [OF assms(1) taken [OF that(1)] taken [OF that(2)]])
qed

lemma eq_step_lock:
  assumes "eq_system_ok s as vs" and "eq_places s i = Eq_pop" and "eq_hm s = None"
  shows "eq_system_ok (eq_goto i Eq_get_tail (s\<lparr>eq_hm := Some i\<rparr>)) as vs"
proof -
  have none: "\<not> holds_hm (eq_places s j)" for j using eq_system_okD(2) [OF assms(1), of j] assms(3) by auto
  then have "eq_places s j \<noteq> Eq_pop_head t" for j t by (metis holds_hm.simps(2))
  then show ?thesis using assms(1,2) none
    by (auto simp: eq_system_ok_def eq_goto_def)
qed

lemma eq_thread_ok:
  assumes "eq_system_ok s as vs"
  shows "\<exists>ls s' as' vs'. eq_thread i (eq_places s i) s = (Inr ls, s') \<and> eq_system_ok s' as' vs' \<and> vs @ entered ls = left_items ls @ vs'"
proof -
  have c: "eq_chain (the_eq s) as vs" using eq_system_okD(1) [OF assms] .
  have count: "eq_system_ok (eq_goto i p (s\<lparr>the_eq := change_count d (the_eq s)\<rparr>)) as vs"
    if "\<not> holds_hm p" "taken_node p = None \<or> taken_node p = taken_node (eq_places s i)" for p d
    using eq_goto_free [OF assms, of "change_count d (the_eq s)" p i "eq_hm s"] that c by (simp add: change_count_def eq_chain_def)
  show ?thesis
  proof (cases "eq_places s i")
    case (Eq_push x)
    then show ?thesis using eq_step_push [OF assms Eq_push] by fastforce
  next
    case Eq_push_count
    then show ?thesis using count [of Eq_idle 1] by fastforce
  next
    case Eq_pop
    then show ?thesis using eq_step_lock [OF assms Eq_pop] assms by (cases "eq_hm s") fastforce+
  next
    case Eq_get_tail
    then show ?thesis using eq_step_get_tail [OF assms Eq_get_tail] by fastforce
  next
    case (Eq_pop_head t)
    then show ?thesis using eq_step_pop_head [OF assms Eq_pop_head] by fastforce
  next
    case (Eq_pop_count h)
    then show ?thesis using count [of "Eq_take h" "- 1"] by fastforce
  next
    case (Eq_take h)
    then show ?thesis using eq_step_take [OF assms Eq_take] by (metis append_Nil append_Nil2 label_lists(7,8))
  next
    case Eq_idle
    then show ?thesis using assms by fastforce
  qed
qed

lemma eq_step_ok:
  assumes "eq_system_ok s as vs"
  shows "\<exists>ls s' as' vs'. eq_step e s = (Inr ls, s') \<and> eq_system_ok s' as' vs' \<and> vs @ entered ls = left_items ls @ vs'"
proof (cases e)
  case (Call_push i x)
  then show ?thesis using assms eq_goto_call [OF assms, of "Eq_push x" i] by (cases "eq_places s i = Eq_idle") fastforce+
next
  case (Call_pop i)
  then show ?thesis using assms eq_goto_call [OF assms, of Eq_pop i] by (cases "eq_places s i = Eq_idle") fastforce+
next
  case (Step i)
  then show ?thesis using eq_thread_ok [OF assms] by simp
qed

lemma eq_run_ok:
  assumes "eq_system_ok s as vs"
  shows "\<exists>ls s' as' vs'. eq_run es s = (Inr ls, s') \<and> eq_system_ok s' as' vs' \<and> vs @ entered ls = left_items ls @ vs'"
  using assms
proof (induction es arbitrary: s as vs)
  case Nil
  then show ?case by fastforce
next
  case (Cons e es)
  obtain ls1 s1 as1 vs1 where 1: "eq_step e s = (Inr ls1, s1)" "eq_system_ok s1 as1 vs1" "vs @ entered ls1 = left_items ls1 @ vs1"
    using eq_step_ok [OF Cons.prems] by blast
  obtain ls2 s2 as2 vs2 where 2: "eq_run es s1 = (Inr ls2, s2)" "eq_system_ok s2 as2 vs2" "vs1 @ entered ls2 = left_items ls2 @ vs2"
    using Cons.IH [OF 1(2)] by blast
  have "vs @ entered (ls1 @ ls2) = left_items (ls1 @ ls2) @ vs2"
    using 1(3) 2(3) by (metis append_assoc label_lists(11,12))
  then show ?case using 1(1) 2(1,2) by auto
qed

section \<open>Properties\<close>

text \<open>C38: With any number of threads and any interleaving of their steps no thread of the queue with two mutexes follows a null or a deleted
  pointer, and the items that left the queue, in order, and then the items in it are exactly those that entered it, in order.\<close>

theorem two_lock_queue_is_fifo:
  "\<exists>ls s. eq_run es (eq_start junk) = (Inr ls, s) \<and> entered ls = left_items ls @ eq_items (the_eq s)"
proof -
  have "eq_system_ok (eq_start junk :: 'a eq_system) [0] []"
    by (rule eq_system_okI) (simp_all add: eq_start_def eq_chain_new)
  from eq_run_ok [OF this, of es] show ?thesis using eq_items_chain eq_system_okD(1) by fastforce
qed

text \<open>Called one at a time, in any order, the three queues give the values that a list gives: the lock-free queue, the queue
  under one mutex and the queue with two.\<close>

theorem queue_calls_as_list:
  "\<exists>p q r. queue_calls lf_push lf_pop cs (LockFreeQueue_new alc d) = (Inr (fst (list_calls cs [])), p) \<and> queue_items p = q \<and>
     queue_calls bq_push bq_pop cs [] = (Inr (fst (list_calls cs [])), q) \<and>
     queue_calls eq_push eq_pop cs (EffectiveQueue_new junk) = (Inr (fst (list_calls cs [])), r) \<and> eq_items r = q"
proof -
  obtain q where q: "queue_calls bq_push bq_pop cs [] = (Inr (fst (list_calls cs [])), q)" "q = snd (list_calls cs [])"
    using base.calls_refine [OF TrueI, where q = "[]" and cs = cs] by auto
  have lf: "lf_sound (LockFreeQueue_new alc d)" "queue_items (LockFreeQueue_new alc d) = []"
    using live_new [of alc d] queue_items_live [OF live_new, of alc d] unfolding lf_sound_def
    by (auto simp: LockFreeQueue_new_def intro!: exI [of _ "[0]"])
  have "eq_sound (EffectiveQueue_new junk)" using eq_chain_new by (auto simp: eq_sound_def)
  from effective.calls_refine [OF this, of cs] lock_free.calls_refine [OF lf(1), of cs] show ?thesis
    using q unfolding eq_items_chain [OF eq_chain_new] lf(2) by auto
qed

end
