(* ===== verification/Queue_Test.thy ===== *)
theory Queue_Test
  imports Locked_Queues
begin

text \<open>
  \<open>src/src/tool/ThreadSafeQueue/PerformenceTest.cc\<close>: ten threads push to and pop from each of the three queues, and the program prints how
  often a pop found nothing and what remains. A step of the test is a step of one thread; the number of calls of a thread, 100000 in
  the code, is a parameter. The measured times are left out.
\<close>

section \<open>The items\<close>

record test_node =
  son :: "64 word"
  father :: "64 word"

definition test_node_eq :: "test_node \<Rightarrow> test_node \<Rightarrow> bool" where
  "test_node_eq a other = (if son a = son other \<and> father a = father other then True else False)"

definition test_node_0 :: test_node where
  "test_node_0 = \<lparr>son = 0, father = 0\<rparr>"

definition test_node_of :: "32 word \<Rightarrow> 32 word \<Rightarrow> test_node" where
  "test_node_of x y = \<lparr>son = scast x, father = scast y\<rparr>"

text \<open>The item of the loop's index, which the constructor takes as an \<open>int\<close>.\<close>

definition test_item :: "nat \<Rightarrow> test_node" where
  "test_item i = test_node_of (of_nat i) (of_nat (i + 1))"

lemma scast_eq_0: "scast (x :: 32 word) = (0 :: 64 word) \<longleftrightarrow> x = 0"
proof -
  have "signed_take_bit (64 - Suc 0) (sint x) = sint x"
    by (rule signed_take_bit_int_eq_self) (use sint_range_size [of x] in \<open>simp_all add: word_size\<close>)
  then have "sint (scast x :: 64 word) = sint x" by transfer simp
  then show ?thesis by (metis signed_0 signed_word_eqI)
qed

lemma test_item_neq: "\<not> test_node_eq (test_item i) test_node_0"
  by (auto simp: test_node_eq_def test_item_def test_node_of_def test_node_0_def scast_eq_0)

section \<open>The queue under one mutex with its threads\<close>

text \<open>A thread is in no call, or waits for the mutex in a push or a pop; the call behind the mutex is one step.\<close>

record 'a bq_system =
  the_bq :: "'a BaseQueue"
  bq_places :: "nat \<Rightarrow> 'a option option"

definition bq_start :: "'a bq_system" where
  "bq_start = \<lparr>the_bq = [], bq_places = \<lambda>_. None\<rparr>"

definition bq_goto :: "nat \<Rightarrow> 'a option option \<Rightarrow> 'a bq_system \<Rightarrow> 'a bq_system" where
  "bq_goto i p s = s\<lparr>bq_places := (bq_places s)(i := p)\<rparr>"

fun bq_step :: "'a queue_event \<Rightarrow> 'a bq_system \<Rightarrow> ('a bq_system, 'a label list) cpp" where
  "bq_step (Call_push i x) s = (Inr [], if bq_places s i = None then bq_goto i (Some (Some x)) s else s)"
| "bq_step (Call_pop i) s = (Inr [], if bq_places s i = None then bq_goto i (Some None) s else s)"
| "bq_step (Step i) s =
     (case bq_places s i of
        None \<Rightarrow> (Inr [], s)
      | Some (Some x) \<Rightarrow>
          (case bq_push x (the_bq s) of (r, q) \<Rightarrow>
             (case r of Inl e \<Rightarrow> Inl e | Inr _ \<Rightarrow> Inr [Entered x], bq_goto i None (s\<lparr>the_bq := q\<rparr>)))
      | Some None \<Rightarrow>
          (case bq_pop (the_bq s) of (r, q) \<Rightarrow>
             (case r of Inl e \<Rightarrow> Inl e | Inr None \<Rightarrow> Inr [Popped None] | Inr (Some v) \<Rightarrow> Inr [Left v, Popped (Some v)],
              bq_goto i None (s\<lparr>the_bq := q\<rparr>))))"

section \<open>A thread of the test\<close>

text \<open>What a thread does when it is in a call.\<close>

datatype call_kind = Pushing | Popping

fun bq_calling :: "'a bq_system \<Rightarrow> nat \<Rightarrow> call_kind option" where
  "bq_calling s k = map_option (\<lambda>p. if p = None then Popping else Pushing) (bq_places s k)"

fun eq_kind :: "'a eq_place \<Rightarrow> call_kind option" where
  "eq_kind Eq_idle = None"
| "eq_kind (Eq_push x) = Some Pushing"
| "eq_kind Eq_push_count = Some Pushing"
| "eq_kind _ = Some Popping"

fun lf_kind :: "'a place \<Rightarrow> call_kind option" where
  "lf_kind Idle = None"
| "lf_kind (Push_read_tail a) = Some Pushing"
| "lf_kind (Push_read_next a ot) = Some Pushing"
| "lf_kind (Push_check a ot n) = Some Pushing"
| "lf_kind (Push_link a ot n) = Some Pushing"
| "lf_kind (Push_move_tail a ot) = Some Pushing"
| "lf_kind Push_count = Some Pushing"
| "lf_kind _ = Some Popping"

text \<open>
  The loop of a thread: whether it pushes or pops, the index of the loop, how often nothing was found, and what the loop's variable for the popped
  item has: \<open>None\<close> until something was put there, the null pointer or the default item. \<open>null\<close> is the test of the loop on it;
  \<open>step\<close> is the queue's.
\<close>

record test_thread =
  tt_kind :: call_kind
  tt_i :: nat
  tt_count :: int
  tt_item :: "test_node option"

record 's bench =
  bn_system :: 's
  bn_threads :: "test_thread list"

text \<open>The lock-free queue writes to the variable, the others return the pointer.\<close>

definition noted :: "test_node label list \<Rightarrow> test_node option \<Rightarrow> test_node option" where
  "noted ls it = fold (\<lambda>l it. case l of Wrote v \<Rightarrow> Some v | Popped (Some v) \<Rightarrow> Some v | _ \<Rightarrow> it) ls it"

text \<open>The end of an iteration; the next one has a variable of its own.\<close>

definition loop_returned :: "(test_node option \<Rightarrow> bool) \<Rightarrow> test_thread \<Rightarrow> test_thread" where
  "loop_returned null th =
     th\<lparr>tt_i := tt_i th + 1, tt_count := tt_count th + (if tt_kind th = Popping \<and> null (tt_item th) then 1 else 0), tt_item := None\<rparr>"

definition loop_step ::
  "(test_node queue_event \<Rightarrow> 's \<Rightarrow> ('s, test_node label list) cpp) \<Rightarrow> ('s \<Rightarrow> nat \<Rightarrow> call_kind option) \<Rightarrow> (nat \<Rightarrow> test_node)
    \<Rightarrow> (test_node option \<Rightarrow> bool)
    \<Rightarrow> nat \<Rightarrow> nat \<Rightarrow> 's bench \<Rightarrow> ('s bench, unit) cpp" where
  "loop_step step calling item null n k b =
     (if k < length (bn_threads b) then
        let th = bn_threads b ! k in
        if calling (bn_system b) k = None then
          if tt_i th < n then
            case step (if tt_kind th = Pushing then Call_push k (item (tt_i th)) else Call_pop k) (bn_system b) of
              (Inl e, s) \<Rightarrow> (Inl e, b\<lparr>bn_system := s\<rparr>)
            | (Inr _, s) \<Rightarrow> (Inr (), b\<lparr>bn_system := s\<rparr>)
          else (Inr (), b)
        else
          case step (Step k) (bn_system b) of
            (Inl e, s) \<Rightarrow> (Inl e, b\<lparr>bn_system := s\<rparr>)
          | (Inr ls, s) \<Rightarrow>
              let th = th\<lparr>tt_item := noted ls (tt_item th)\<rparr> in
              (Inr (), b\<lparr>bn_system := s,
                 bn_threads := (bn_threads b)[k := if calling s k = None then loop_returned null th else th]\<rparr>)
      else (Inr (), b))"

fun bench_run :: "(nat \<Rightarrow> 's bench \<Rightarrow> ('s bench, unit) cpp) \<Rightarrow> nat list \<Rightarrow> 's bench \<Rightarrow> ('s bench, unit) cpp" where
  "bench_run one [] b = (Inr (), b)"
| "bench_run one (k # ks) b = bindc (one k b) (\<lambda>_ b. bench_run one ks b)"

text \<open>The functions of the threads, for each queue; a popped item counts as nothing when the pointer is null, or the item is the default one.\<close>

definition BaseQueueTest :: "nat \<Rightarrow> nat \<Rightarrow> test_node bq_system bench \<Rightarrow> (test_node bq_system bench, unit) cpp" where
  "BaseQueueTest = loop_step bq_step bq_calling test_item (\<lambda>r. r = None)"

definition EffectiveQueueTest :: "nat \<Rightarrow> nat \<Rightarrow> test_node eq_system bench \<Rightarrow> (test_node eq_system bench, unit) cpp" where
  "EffectiveQueueTest = loop_step eq_step (\<lambda>s k. eq_kind (eq_places s k)) test_item (\<lambda>r. r = None)"

definition LockFreeQueueTest :: "nat \<Rightarrow> nat \<Rightarrow> test_node queue_system bench \<Rightarrow> (test_node queue_system bench, unit) cpp" where
  "LockFreeQueueTest = loop_step queue_step (\<lambda>s k. lf_kind (places s k)) test_item
     (\<lambda>r. test_node_eq (case r of None \<Rightarrow> test_node_0 | Some v \<Rightarrow> v) test_node_0)"

text \<open>
  \<open>main\<close>: the threads of a test are started, and when all of them have ended, the size of the queue is printed behind what the
  popping threads printed. \<open>None\<close> while a thread still runs when its schedule ends. The queues are global, so that the counter of the second one,
  which its constructor leaves alone, is zero. \<open>alc\<close> are the addresses the allocator gives for the nodes of the lock-free queue.
\<close>

definition ThreadNumber :: nat where "ThreadNumber = 10"

definition new_thread :: "call_kind \<Rightarrow> test_thread" where
  "new_thread c = \<lparr>tt_kind = c, tt_i = 0, tt_count = 0, tt_item = None\<rparr>"

definition joined :: "nat \<Rightarrow> test_thread list \<Rightarrow> bool" where
  "joined n = list_all (\<lambda>th. tt_i th = n)"

definition printed_counts :: "test_thread list \<Rightarrow> int list" where
  "printed_counts ths = map tt_count (filter (\<lambda>th. tt_kind th = Popping) ths)"

definition run_test ::
  "(nat \<Rightarrow> 's bench \<Rightarrow> ('s bench, unit) cpp) \<Rightarrow> ('s \<Rightarrow> 'r) \<Rightarrow> nat \<Rightarrow> (nat \<Rightarrow> call_kind) \<Rightarrow> 's \<Rightarrow> nat list
    \<Rightarrow> (cpp_error + (int list \<times> 'r)) option" where
  "run_test one remaining n kinds s ks =
     (case bench_run one ks \<lparr>bn_system = s, bn_threads = map (new_thread \<circ> kinds) [0..<ThreadNumber]\<rparr> of
        (Inl e, _) \<Rightarrow> Some (Inl e)
      | (Inr _, b) \<Rightarrow> if joined n (bn_threads b) then Some (Inr (printed_counts (bn_threads b), remaining (bn_system b))) else None)"

definition alternating :: "nat \<Rightarrow> call_kind" where
  "alternating i = (if odd i then Pushing else Popping)"

definition first_half :: "nat \<Rightarrow> call_kind" where
  "first_half i = (if i < ThreadNumber div 2 then Pushing else Popping)"

definition test_main :: "(nat \<Rightarrow> address) \<Rightarrow> nat \<Rightarrow> nat list \<Rightarrow> nat list \<Rightarrow> nat list \<Rightarrow> (cpp_error + (int list \<times> int) list) option" where
  "test_main alc n ks1 ks2 ks3 =
     (case run_test (BaseQueueTest n) (\<lambda>s. int (bq_size (the_bq s))) n alternating bq_start ks1 of
        None \<Rightarrow> None
      | Some (Inl e) \<Rightarrow> Some (Inl e)
      | Some (Inr out1) \<Rightarrow>
          (case run_test (EffectiveQueueTest n) (\<lambda>s. eq_count (the_eq s)) n alternating (eq_start 0) ks2 of
             None \<Rightarrow> None
           | Some (Inl e) \<Rightarrow> Some (Inl e)
           | Some (Inr out2) \<Rightarrow>
               (case run_test (LockFreeQueueTest n) (\<lambda>s. lf_count (the_queue s)) n first_half (queue_start alc test_node_0) ks3 of
                  None \<Rightarrow> None
                | Some (Inl e) \<Rightarrow> Some (Inl e)
                | Some (Inr out3) \<Rightarrow> Some (Inr [out1, out2, out3]))))"

section \<open>The account of the calls\<close>

text \<open>
  What a queue must promise for the printed numbers to add up: there is an amount that a push raises by one and that a pop lowers by one
  unless it finds nothing, and nothing is put in the variable of the item before the call returns. \<open>pend\<close> is what the call of a thread has changed of it so far.
\<close>

definition call_effect :: "(test_node option \<Rightarrow> bool) \<Rightarrow> call_kind \<Rightarrow> test_node label list \<Rightarrow> int" where
  "call_effect null c ls = (if c = Pushing then 1 else if null (noted ls None) then 0 else - 1)"

text \<open>What the calls that a thread has finished amount to.\<close>

definition thread_effect :: "test_thread \<Rightarrow> int" where
  "thread_effect th = (if tt_kind th = Pushing then int (tt_i th) else tt_count th - int (tt_i th))"

lemma new_thread_start: "thread_effect (new_thread c) = 0" "tt_i (new_thread c) = 0" "tt_kind (new_thread c) = c" "tt_item (new_thread c) = None"
  by (simp_all add: thread_effect_def new_thread_def)

locale accounted =
  fixes step :: "test_node queue_event \<Rightarrow> 's \<Rightarrow> ('s, test_node label list) cpp"
    and calling :: "'s \<Rightarrow> nat \<Rightarrow> call_kind option"
    and item :: "nat \<Rightarrow> test_node"
    and null :: "test_node option \<Rightarrow> bool"
    and amount :: "'s \<Rightarrow> int"
    and pend :: "'s \<Rightarrow> nat \<Rightarrow> int"
    and invar :: "'s \<Rightarrow> bool"
  assumes idle_pend: "calling s k = None \<Longrightarrow> pend s k = 0"
    and call: "invar s \<Longrightarrow> calling s k = None \<Longrightarrow>
      step (if c = Pushing then Call_push k (item i) else Call_pop k) s = (Inr ls, s') \<Longrightarrow>
      invar s' \<and> amount s' = amount s \<and> calling s' k = Some c \<and> pend s' k = 0 \<and>
      (\<forall>j. j \<noteq> k \<longrightarrow> calling s' j = calling s j \<and> pend s' j = pend s j)"
    and work: "invar s \<Longrightarrow> calling s k = Some c \<Longrightarrow> step (Step k) s = (Inr ls, s') \<Longrightarrow>
      invar s' \<and> (\<forall>j. j \<noteq> k \<longrightarrow> calling s' j = calling s j \<and> pend s' j = pend s j) \<and>
      (calling s' k = Some c \<and> noted ls None = None \<and> amount s' - pend s' k = amount s - pend s k \<or>
       calling s' k = None \<and> amount s' = amount s - pend s k + call_effect null c ls)"
begin

definition bench_ok :: "nat \<Rightarrow> 's bench \<Rightarrow> bool" where
  "bench_ok n b \<longleftrightarrow>
     invar (bn_system b) \<and> (\<forall>th \<in> set (bn_threads b). tt_i th \<le> n \<and> tt_item th = None) \<and>
     (\<forall>k c. calling (bn_system b) k = Some c \<longrightarrow>
        k < length (bn_threads b) \<and> c = tt_kind (bn_threads b ! k) \<and> tt_i (bn_threads b ! k) < n) \<and>
     amount (bn_system b) = (\<Sum>k < length (bn_threads b). thread_effect (bn_threads b ! k) + pend (bn_system b) k)"

lemma sum_changed:
  fixes f g :: "nat \<Rightarrow> int"
  assumes "k < l" and "\<And>j. j \<noteq> k \<Longrightarrow> g j = f j"
  shows "(\<Sum>j < l. g j) = (\<Sum>j < l. f j) - f k + g k"
proof -
  have "(\<Sum>j < l. g j) = g k + (\<Sum>j \<in> {..<l} - {k}. g j)" "(\<Sum>j < l. f j) = f k + (\<Sum>j \<in> {..<l} - {k}. f j)"
    using assms(1) by (simp_all add: sum.remove)
  moreover have "(\<Sum>j \<in> {..<l} - {k}. g j) = (\<Sum>j \<in> {..<l} - {k}. f j)" using assms(2) by (intro sum.cong) auto
  ultimately show ?thesis by simp
qed

lemma bench_okD:
  assumes "bench_ok n b"
  shows "invar (bn_system b)" "\<And>th. th \<in> set (bn_threads b) \<Longrightarrow> tt_i th \<le> n \<and> tt_item th = None"
    "\<And>j c. calling (bn_system b) j = Some c \<Longrightarrow> j < length (bn_threads b) \<and> c = tt_kind (bn_threads b ! j) \<and> tt_i (bn_threads b ! j) < n"
    "amount (bn_system b) = (\<Sum>j < length (bn_threads b). thread_effect (bn_threads b ! j) + pend (bn_system b) j)"
  using assms unfolding bench_ok_def by blast+

text \<open>A call begins, and a step of a call.\<close>

lemma call_ok:
  assumes "bench_ok n b" and idle: "calling (bn_system b) k = None" and k: "k < length (bn_threads b)" "tt_i (bn_threads b ! k) < n"
    and "step (if tt_kind (bn_threads b ! k) = Pushing then Call_push k (item (tt_i (bn_threads b ! k))) else Call_pop k) (bn_system b) = (Inr ls, s')"
  shows "bench_ok n (b\<lparr>bn_system := s'\<rparr>)"
proof -
  note ok = bench_okD [OF assms(1)]
  note c = call [OF ok(1) idle assms(5)]
  have "(\<Sum>j < length (bn_threads b). thread_effect (bn_threads b ! j) + pend s' j) =
      (\<Sum>j < length (bn_threads b). thread_effect (bn_threads b ! j) + pend (bn_system b) j)"
    using c idle_pend [OF idle] by (intro sum.cong refl) metis
  moreover have "j < length (bn_threads b) \<and> d = tt_kind (bn_threads b ! j) \<and> tt_i (bn_threads b ! j) < n" if "calling s' j = Some d" for j d
    using that c k ok(3) [of j d] by (cases "j = k") auto
  ultimately show ?thesis using c ok(2,4) by (simp add: bench_ok_def)
qed

lemma work_ok:
  assumes "bench_ok n b" and c: "calling (bn_system b) k = Some c" and run: "step (Step k) (bn_system b) = (Inr ls, s')"
  defines "th' \<equiv> let th = (bn_threads b ! k)\<lparr>tt_item := noted ls (tt_item (bn_threads b ! k))\<rparr> in
    if calling s' k = None then loop_returned null th else th"
  shows "bench_ok n (b\<lparr>bn_system := s', bn_threads := (bn_threads b)[k := th']\<rparr>) \<and> tt_kind th' = tt_kind (bn_threads b ! k)"
proof -
  let ?th = "bn_threads b ! k" and ?l = "length (bn_threads b)" and ?ths = "(bn_threads b)[k := th']"
  note ok = bench_okD [OF assms(1)]
  have k: "k < ?l" "tt_kind ?th = c" "tt_i ?th < n" using ok(3) [OF c] by simp_all
  have item: "tt_item ?th = None" using ok(2) nth_mem [OF k(1)] by blast
  note w = work [OF ok(1) c run]
  have th': "tt_kind th' = c" "tt_i th' \<le> n" "calling s' k \<noteq> None \<Longrightarrow> calling s' k = Some c \<and> tt_i th' < n" "tt_item th' = None"
    using k w item by (auto simp: th'_def Let_def loop_returned_def)
  have "amount s' = amount (bn_system b) - (thread_effect ?th + pend (bn_system b) k) + (thread_effect th' + pend s' k)"
    using w k item idle_pend [of s' k] by (cases c) (auto simp: th'_def Let_def thread_effect_def loop_returned_def call_effect_def)
  also have "\<dots> = (\<Sum>j < ?l. thread_effect (?ths ! j) + pend s' j)"
    using sum_changed [OF k(1), where g = "\<lambda>j. thread_effect (?ths ! j) + pend s' j" and
        f = "\<lambda>j. thread_effect (bn_threads b ! j) + pend (bn_system b) j"] w k(1) ok(4) by simp
  finally have "amount s' = (\<Sum>j < ?l. thread_effect (?ths ! j) + pend s' j)" .
  moreover have "j < ?l \<and> d = tt_kind (?ths ! j) \<and> tt_i (?ths ! j) < n" if "calling s' j = Some d" for j d
    using that w ok(3) [of j d] th' k(1) by (cases "j = k") auto
  moreover have "\<forall>th \<in> set ?ths. tt_i th \<le> n \<and> tt_item th = None"
    using ok(2) th'(2,4) set_update_subset_insert [of "bn_threads b" k th'] by auto
  ultimately show ?thesis using w th'(1) k(2) by (simp add: bench_ok_def)
qed

lemma loop_step_ok:
  assumes "bench_ok n b" and "loop_step step calling item null n k b = (Inr (), b')"
  shows "bench_ok n b' \<and> map tt_kind (bn_threads b') = map tt_kind (bn_threads b)"
proof (cases "k < length (bn_threads b)")
  case k: True
  show ?thesis
  proof (cases "calling (bn_system b) k")
    case None
    then show ?thesis
      using assms k call_ok [OF assms(1) None k] by (auto simp: loop_step_def Let_def split: prod.splits sum.splits if_splits)
  next
    case (Some c)
    obtain ls s' where run: "step (Step k) (bn_system b) = (Inr ls, s')"
      and b': "b' = b\<lparr>bn_system := s', bn_threads := (bn_threads b)
        [k := let th = (bn_threads b ! k)\<lparr>tt_item := noted ls (tt_item (bn_threads b ! k))\<rparr> in
           if calling s' k = None then loop_returned null th else th]\<rparr>"
      using assms(2) k Some by (auto simp: loop_step_def Let_def split: prod.splits sum.splits)
    show ?thesis
      using work_ok [OF assms(1) Some run] unfolding b' by (simp add: map_update) (metis k length_map list_update_id nth_map)
  qed
qed (use assms in \<open>simp add: loop_step_def\<close>)

lemma bench_run_ok:
  "bench_ok n b \<Longrightarrow> bench_run (loop_step step calling item null n) ks b = (Inr (), b') \<Longrightarrow>
     bench_ok n b' \<and> map tt_kind (bn_threads b') = map tt_kind (bn_threads b)"
proof (induction ks arbitrary: b)
  case (Cons k ks)
  obtain b1 where "loop_step step calling item null n k b = (Inr (), b1)" "bench_run (loop_step step calling item null n) ks b1 = (Inr (), b')"
    using Cons.prems(2) by (auto simp: bindc_Inr_iff)
  then show ?case using Cons.IH [of b1] loop_step_ok [OF Cons.prems(1)] by auto
qed simp

lemma all_joined:
  assumes "joined n ths"
  shows "(\<Sum>k < length ths. thread_effect (ths ! k)) =
    sum_list (printed_counts ths) + int n * (int (count_list (map tt_kind ths) Pushing) - int (count_list (map tt_kind ths) Popping))"
proof -
  have "sum_list (map thread_effect ths) =
      sum_list (printed_counts ths) + int n * (int (count_list (map tt_kind ths) Pushing) - int (count_list (map tt_kind ths) Popping))"
    using assms
  proof (induction ths)
    case (Cons th ths)
    then show ?case by (cases "tt_kind th") (simp_all add: joined_def thread_effect_def printed_counts_def algebra_simps)
  qed (simp add: printed_counts_def)
  then show ?thesis by (simp add: sum_list_sum_nth atLeast0LessThan)
qed

lemma bench_start:
  assumes "invar s" and "amount s = 0" and "\<And>k. calling s k = None"
  shows "bench_ok n \<lparr>bn_system = s, bn_threads = map (new_thread \<circ> kinds) [0..<ThreadNumber]\<rparr>"
  using assms idle_pend [OF assms(3)] by (auto simp: bench_ok_def new_thread_start)

text \<open>When all threads of a test have ended, the amount is the sum of what was printed.\<close>

lemma run_test_account:
  assumes start: "invar s" "amount s = 0" "\<And>k. calling s k = None"
    and kinds: "count_list (map kinds [0..<ThreadNumber]) Pushing = count_list (map kinds [0..<ThreadNumber]) Popping"
    and run: "run_test (loop_step step calling item null n) remaining n kinds s ks = Some (Inr (out, r))"
  shows "\<exists>s'. invar s' \<and> (\<forall>k. calling s' k = None) \<and> r = remaining s' \<and> amount s' = sum_list out"
proof -
  let ?b = "\<lparr>bn_system = s, bn_threads = map (new_thread \<circ> kinds) [0..<ThreadNumber]\<rparr>"
  obtain b where b: "bench_run (loop_step step calling item null n) ks ?b = (Inr (), b)" "joined n (bn_threads b)"
    "out = printed_counts (bn_threads b)" "r = remaining (bn_system b)"
    using run by (auto simp: run_test_def split: prod.splits sum.splits if_splits)
  note ok = bench_run_ok [OF bench_start [OF start] b(1)]
  have idle: "calling (bn_system b) k = None" for k
  proof (rule ccontr)
    assume "calling (bn_system b) k \<noteq> None"
    then have "k < length (bn_threads b)" "tt_i (bn_threads b ! k) < n" using ok unfolding bench_ok_def by blast+
    then show False using b(2) by (auto simp: joined_def list_all_length)
  qed
  have "map tt_kind (bn_threads b) = map kinds [0..<ThreadNumber]" using ok by (simp add: new_thread_def comp_def)
  then have "(\<Sum>k < length (bn_threads b). thread_effect (bn_threads b ! k)) = sum_list out"
    using all_joined [OF b(2)] kinds b(3) by simp
  then have "amount (bn_system b) = sum_list out" using ok idle_pend [OF idle] by (simp add: bench_ok_def)
  then show ?thesis using ok idle b(4) unfolding bench_ok_def by blast
qed

end

text \<open>
  A queue whose threads never fail and never wait for each other for ever: when any thread is in a call, the next step of one of them
  finishes its call or lowers its \<open>rank\<close>.
\<close>

locale progressing = accounted step calling item null amount pend invar
  for step :: "test_node queue_event \<Rightarrow> 's \<Rightarrow> ('s, test_node label list) cpp"
    and calling :: "'s \<Rightarrow> nat \<Rightarrow> call_kind option"
    and item :: "nat \<Rightarrow> test_node"
    and null :: "test_node option \<Rightarrow> bool"
    and amount :: "'s \<Rightarrow> int"
    and pend :: "'s \<Rightarrow> nat \<Rightarrow> int"
    and invar :: "'s \<Rightarrow> bool" +
  fixes rank :: "'s \<Rightarrow> nat \<Rightarrow> nat"
  assumes rank_less: "rank s k < 6"
    and call_runs: "invar s \<Longrightarrow> calling s k = None \<Longrightarrow>
      \<exists>ls s'. step (if c = Pushing then Call_push k (item i) else Call_pop k) s = (Inr ls, s') \<and> (\<forall>j. j \<noteq> k \<longrightarrow> rank s' j = rank s j)"
    and work_runs: "invar s \<Longrightarrow> calling s k = Some c \<Longrightarrow>
      \<exists>ls s'. step (Step k) s = (Inr ls, s') \<and> (\<forall>j. j \<noteq> k \<longrightarrow> rank s' j = rank s j)"
    and some_progress: "invar s \<Longrightarrow> calling s k = Some c \<Longrightarrow>
      \<exists>j. calling s j \<noteq> None \<and> (\<forall>ls s'. step (Step j) s = (Inr ls, s') \<longrightarrow> calling s' j = None \<or> rank s' j < rank s j)"
begin

lemma loop_step_runs:
  assumes "bench_ok n b"
  shows "\<exists>b'. loop_step step calling item null n k b = (Inr (), b')"
proof (cases "calling (bn_system b) k")
  case None
  then show ?thesis
    using call_runs [of "bn_system b" k "tt_kind (bn_threads b ! k)" "tt_i (bn_threads b ! k)"] assms
    by (auto simp: bench_ok_def loop_step_def Let_def)
next
  case (Some c)
  then show ?thesis using work_runs [OF _ Some] assms by (auto simp: bench_ok_def loop_step_def Let_def)
qed

lemma bench_run_runs: "bench_ok n b \<Longrightarrow> \<exists>b'. bench_run (loop_step step calling item null n) ks b = (Inr (), b')"
proof (induction ks arbitrary: b)
  case (Cons k ks)
  obtain b' where "loop_step step calling item null n k b = (Inr (), b')" using loop_step_runs [OF Cons.prems] by blast
  then show ?case using Cons.IH loop_step_ok [OF Cons.prems] by auto
qed simp

text \<open>How much a thread has before it.\<close>

definition ahead :: "nat \<Rightarrow> 's bench \<Rightarrow> nat \<Rightarrow> nat" where
  "ahead n b k =
     (if calling (bn_system b) k = None then 7 * (n - tt_i (bn_threads b ! k))
      else 7 * (n - tt_i (bn_threads b ! k) - 1) + 1 + rank (bn_system b) k)"

lemma sum_lowered:
  fixes f g :: "nat \<Rightarrow> nat"
  assumes "k < l" and "g k < f k" and "\<And>j. j \<noteq> k \<Longrightarrow> g j = f j"
  shows "(\<Sum>j < l. g j) < (\<Sum>j < l. f j)"
  by (rule sum_strict_mono_ex1) (use assms in \<open>auto, metis le_refl less_imp_le_nat\<close>)

text \<open>A step of a thread in a call, when it finishes the call or lowers the rank, and the beginning of a call.\<close>

lemma work_lowers:
  assumes "bench_ok n b" and "calling (bn_system b) k \<noteq> None"
    and "\<forall>ls s'. step (Step k) (bn_system b) = (Inr ls, s') \<longrightarrow> calling s' k = None \<or> rank s' k < rank (bn_system b) k"
    and "loop_step step calling item null n k b = (Inr (), b')"
  shows "(\<Sum>j < length (bn_threads b'). ahead n b' j) < (\<Sum>j < length (bn_threads b). ahead n b j)"
proof -
  obtain c where c: "calling (bn_system b) k = Some c" using assms(2) by blast
  have ok: "invar (bn_system b)" and k: "k < length (bn_threads b)" "tt_i (bn_threads b ! k) < n"
    using assms(1) c unfolding bench_ok_def by blast+
  obtain ls s' where run: "step (Step k) (bn_system b) = (Inr ls, s')" and ranks: "\<forall>j. j \<noteq> k \<longrightarrow> rank s' j = rank (bn_system b) j"
    using work_runs [OF ok c] by blast
  note w = work [OF ok c run]
  have b': "bn_system b' = s'"
    "bn_threads b' = (bn_threads b)[k := let th = (bn_threads b ! k)\<lparr>tt_item := noted ls (tt_item (bn_threads b ! k))\<rparr> in
       if calling s' k = None then loop_returned null th else th]"
    using assms(4) c k(1) run by (simp_all add: loop_step_def Let_def) auto
  have "ahead n b' k < ahead n b k" using assms(3) run c k by (auto simp: ahead_def b' Let_def loop_returned_def)
  moreover have "ahead n b' j = ahead n b j" if "j \<noteq> k" for j using that w ranks by (simp add: ahead_def b')
  ultimately show ?thesis using sum_lowered [OF k(1), of "ahead n b'" "ahead n b"] by (simp add: b'(2))
qed

lemma call_lowers:
  assumes "bench_ok n b" and "calling (bn_system b) k = None" and "k < length (bn_threads b)" and "tt_i (bn_threads b ! k) < n"
    and "loop_step step calling item null n k b = (Inr (), b')"
  shows "(\<Sum>j < length (bn_threads b'). ahead n b' j) < (\<Sum>j < length (bn_threads b). ahead n b j)"
proof -
  let ?th = "bn_threads b ! k"
  have ok: "invar (bn_system b)" using assms(1) by (simp add: bench_ok_def)
  obtain ls s' where run: "step (if tt_kind ?th = Pushing then Call_push k (item (tt_i ?th)) else Call_pop k) (bn_system b) = (Inr ls, s')"
    and ranks: "\<forall>j. j \<noteq> k \<longrightarrow> rank s' j = rank (bn_system b) j"
    using call_runs [OF ok assms(2)] by blast
  note c = call [OF ok assms(2) run]
  have b': "b' = b\<lparr>bn_system := s'\<rparr>" using assms(2-5) run by (simp add: loop_step_def Let_def)
  have "ahead n b' k < ahead n b k" using assms(2,4) c rank_less [of s' k] by (simp add: ahead_def b')
  moreover have "ahead n b' j = ahead n b j" if "j \<noteq> k" for j using that c ranks by (simp add: ahead_def b')
  ultimately show ?thesis using sum_lowered [OF assms(3), of "ahead n b'" "ahead n b"] by (simp add: b')
qed

lemma some_step_lowers:
  assumes "bench_ok n b" and "\<not> joined n (bn_threads b)"
  shows "\<exists>k b'. loop_step step calling item null n k b = (Inr (), b') \<and>
    (\<Sum>j < length (bn_threads b'). ahead n b' j) < (\<Sum>j < length (bn_threads b). ahead n b j)"
proof (cases "\<exists>k. calling (bn_system b) k \<noteq> None")
  case True
  have "invar (bn_system b)" using assms(1) by (simp add: bench_ok_def)
  then obtain j where "calling (bn_system b) j \<noteq> None"
    "\<forall>ls s'. step (Step j) (bn_system b) = (Inr ls, s') \<longrightarrow> calling s' j = None \<or> rank s' j < rank (bn_system b) j"
    using some_progress True by blast
  then show ?thesis using loop_step_runs [OF assms(1), of j] work_lowers [OF assms(1)] by blast
next
  case False
  obtain k where "k < length (bn_threads b)" "tt_i (bn_threads b ! k) \<noteq> n"
    using assms(2) by (auto simp: joined_def list_all_length)
  moreover from this have "tt_i (bn_threads b ! k) \<le> n" using assms(1) nth_mem unfolding bench_ok_def by blast
  ultimately show ?thesis using loop_step_runs [OF assms(1), of k] call_lowers [OF assms(1), of k] False by (meson le_neq_implies_less)
qed

lemma bench_finishes:
  "bench_ok n b \<Longrightarrow> \<exists>ks b'. bench_run (loop_step step calling item null n) ks b = (Inr (), b') \<and> joined n (bn_threads b')"
proof (induction "\<Sum>j < length (bn_threads b). ahead n b j" arbitrary: b rule: less_induct)
  case less
  show ?case
  proof (cases "joined n (bn_threads b)")
    case True
    then show ?thesis by (intro exI [of _ "[]"]) simp
  next
    case False
    obtain k b1 where one: "loop_step step calling item null n k b = (Inr (), b1)"
      "(\<Sum>j < length (bn_threads b1). ahead n b1 j) < (\<Sum>j < length (bn_threads b). ahead n b j)"
      using some_step_lowers [OF less.prems False] by blast
    obtain ks b' where "bench_run (loop_step step calling item null n) ks b1 = (Inr (), b')" "joined n (bn_threads b')"
      using less.hyps [OF one(2)] loop_step_ok [OF less.prems one(1)] by blast
    then show ?thesis using one(1) by (intro exI [of _ "k # ks"]) simp
  qed
qed

lemma bench_run_append:
  "bench_run f (ks @ ks') b = bindc (bench_run f ks b) (\<lambda>_ b. bench_run f ks' b)"
  by (induction ks arbitrary: b) (simp_all add: bindc_def split: prod.splits sum.splits)

lemma run_test_finishes:
  assumes "invar s" and "amount s = 0" and "\<And>k. calling s k = None"
  shows "\<exists>ks' out. run_test (loop_step step calling item null n) remaining n kinds s (ks @ ks') = Some (Inr out)"
proof -
  note start = bench_start [OF assms, of n kinds]
  obtain b1 where b1: "bench_run (loop_step step calling item null n) ks
      \<lparr>bn_system = s, bn_threads = map (new_thread \<circ> kinds) [0..<ThreadNumber]\<rparr> = (Inr (), b1)"
    using bench_run_runs [OF start] by blast
  then obtain ks' b2 where "bench_run (loop_step step calling item null n) ks' b1 = (Inr (), b2)" "joined n (bn_threads b2)"
    using bench_finishes bench_run_ok [OF start b1] by blast
  then show ?thesis using b1 by (intro exI [of _ ks']) (simp add: run_test_def bench_run_append)
qed

end

section \<open>The account of each queue\<close>

interpretation base_test: progressing bq_step bq_calling test_item "\<lambda>r. r = None" "\<lambda>s. int (length (the_bq s))" "\<lambda>s k. 0" "\<lambda>_. True"
  "\<lambda>s k. if bq_places s k = None then 0 else 1"
proof unfold_locales
  show "True \<and> (\<forall>j. j \<noteq> k \<longrightarrow> bq_calling s' j = bq_calling s j \<and> (0::int) = 0) \<and>
      (bq_calling s' k = Some c \<and> noted ls None = None \<and> int (length (the_bq s')) - 0 = int (length (the_bq s)) - 0 \<or>
       bq_calling s' k = None \<and> int (length (the_bq s')) = int (length (the_bq s)) - 0 + call_effect (\<lambda>r. r = None) c ls)"
    if "bq_calling s k = Some c" "bq_step (Step k) s = (Inr ls, s')" for s k c ls s'
    using that by (cases "the_bq s") (auto simp: bq_push_def bq_pop_def bq_goto_def call_effect_def noted_def split: option.splits if_splits)
qed (auto simp: bq_goto_def bq_push_def bq_pop_def split: if_splits option.splits intro: call_kind.exhaust)

definition eq_count_pend :: "'a eq_place \<Rightarrow> int" where
  "eq_count_pend p = (case p of Eq_take h \<Rightarrow> - 1 | _ \<Rightarrow> 0)"

definition eq_items_pend :: "'a eq_place \<Rightarrow> int" where
  "eq_items_pend p = (case p of Eq_push_count \<Rightarrow> 1 | Eq_pop_count h \<Rightarrow> - 1 | Eq_take h \<Rightarrow> - 1 | _ \<Rightarrow> 0)"

definition eq_invar :: "'a eq_system \<Rightarrow> bool" where
  "eq_invar s \<longleftrightarrow> (\<exists>as vs. eq_system_ok s as vs) \<and> (\<forall>i. eq_hm s = Some i \<longrightarrow> holds_hm (eq_places s i))"

lemma eq_invar_call:
  assumes "eq_invar s" and "\<not> holds_hm (eq_places s i)" and "\<not> holds_hm p" and "taken_node p = None"
  shows "eq_invar (eq_goto i p s)"
proof -
  have "\<exists>as vs. eq_system_ok (eq_goto i p s) as vs" using assms eq_goto_call unfolding eq_invar_def by blast
  then show ?thesis using assms(1,2) by (auto simp: eq_invar_def eq_goto_def)
qed

lemma eq_call_account:
  assumes "eq_invar s" and "eq_kind (eq_places s k) = None" and "eq_step (if c = Pushing then Call_push k x else Call_pop k) s = (Inr ls, s')"
  shows "eq_invar s' \<and> the_eq s' = the_eq s \<and> eq_kind (eq_places s' k) = Some c \<and> eq_count_pend (eq_places s' k) = 0 \<and>
    eq_items_pend (eq_places s' k) = 0 \<and> (\<forall>j. j \<noteq> k \<longrightarrow> eq_places s' j = eq_places s j)"
proof -
  have idle: "eq_places s k = Eq_idle" using assms(2) by (cases "eq_places s k") simp_all
  then have "s' = eq_goto k (if c = Pushing then Eq_push x else Eq_pop) s" using assms(3) by (auto split: if_splits)
  then show ?thesis
    using idle eq_invar_call [OF assms(1), of k "if c = Pushing then Eq_push x else Eq_pop"]
    by (cases c) (simp_all add: eq_goto_def eq_count_pend_def eq_items_pend_def)
qed

lemma eq_items_length: "eq_system_ok s as vs \<Longrightarrow> length (eq_items (the_eq s)) = length vs"
  using eq_items_chain eq_system_okD(1) by metis

lemma eq_invar_work:
  assumes "eq_invar s" and "eq_step (Step k) s = (Inr ls, s')"
  shows "eq_invar s'"
proof -
  obtain as vs where ok: "eq_system_ok s as vs" using assms(1) by (auto simp: eq_invar_def)
  have "\<exists>as' vs'. eq_system_ok s' as' vs'" using eq_thread_ok [OF ok, of k] assms(2) by auto
  moreover have "holds_hm (eq_places s' i)" if "eq_hm s' = Some i" for i
  proof -
    have "holds_hm (eq_places s j)" if "eq_hm s = Some j" for j using assms(1) that by (simp add: eq_invar_def)
    then show ?thesis using that assms(2)
      by (cases "eq_places s k") (fastforce simp: eq_goto_def split: prod.splits sum.splits option.splits if_splits)+
  qed
  ultimately show ?thesis by (simp add: eq_invar_def)
qed

lemma eq_work_account:
  fixes s :: "test_node eq_system"
  assumes "eq_invar s" and "eq_kind (eq_places s k) = Some c" and "eq_step (Step k) s = (Inr ls, s')"
  shows "eq_invar s' \<and> (\<forall>j. j \<noteq> k \<longrightarrow> eq_places s' j = eq_places s j) \<and>
    (eq_kind (eq_places s' k) = Some c \<and> noted ls None = None \<and>
       eq_count (the_eq s') - eq_count_pend (eq_places s' k) = eq_count (the_eq s) - eq_count_pend (eq_places s k) \<and>
       int (length (eq_items (the_eq s'))) - eq_items_pend (eq_places s' k) = int (length (eq_items (the_eq s))) - eq_items_pend (eq_places s k) \<or>
     eq_kind (eq_places s' k) = None \<and>
       eq_count (the_eq s') = eq_count (the_eq s) - eq_count_pend (eq_places s k) + call_effect (\<lambda>r. r = None) c ls \<and>
       int (length (eq_items (the_eq s'))) = int (length (eq_items (the_eq s))) - eq_items_pend (eq_places s k) + call_effect (\<lambda>r. r = None) c ls)"
proof -
  obtain as vs where ok: "eq_system_ok s as vs" using assms(1) by (auto simp: eq_invar_def)
  have run: "eq_thread k (eq_places s k) s = (Inr ls, s')" using assms(3) by simp
  obtain as' vs' where ok': "eq_system_ok s' as' vs'" "vs @ entered ls = left_items ls @ vs'"
    using eq_thread_ok [OF ok, of k] run by auto
  have len: "length (eq_items (the_eq s)) + length (entered ls) = length (left_items ls) + length (eq_items (the_eq s'))"
    using eq_items_length [OF ok] eq_items_length [OF ok'(1)] arg_cong [OF ok'(2), of length] by simp
  have inv: "eq_invar s'" by (rule eq_invar_work [OF assms(1,3)])
  note defs = eq_goto_def eq_count_pend_def eq_items_pend_def call_effect_def change_count_def noted_def
  show ?thesis
  proof (cases "eq_places s k")
    case (Eq_take h)
    obtain v where "ls = [Popped (Some v)]" using eq_step_take [OF ok Eq_take] run Eq_take by auto
    then show ?thesis using run Eq_take assms(2) inv len
      by (auto simp: defs take_value_def split: option.splits prod.splits sum.splits)
  next
    case (Eq_pop_head t)
    have "has_item (the_eq s') h" if "eq_places s' k = Eq_pop_count h" for h using eq_system_okD(4) [OF ok'(1), of k h] that by simp
    then show ?thesis using run Eq_pop_head assms(2) inv len
      by (auto simp: defs pop_head_def has_item_def split: option.splits prod.splits sum.splits if_splits)
  qed (use run assms(2) inv len in \<open>auto simp: defs push_tail_def pop_head_def get_tail_def Let_def popped_def
      split: option.splits prod.splits sum.splits if_splits\<close>)
qed

fun eq_rank :: "'a eq_place \<Rightarrow> nat" where
  "eq_rank Eq_idle = 0"
| "eq_rank (Eq_push x) = 2"
| "eq_rank Eq_push_count = 1"
| "eq_rank Eq_pop = 5"
| "eq_rank Eq_get_tail = 4"
| "eq_rank (Eq_pop_head t) = 3"
| "eq_rank (Eq_pop_count h) = 2"
| "eq_rank (Eq_take h) = 1"

text \<open>Only a thread that waits for the mutex of the head makes no progress, and then the one that holds it does.\<close>

lemma eq_progress:
  assumes "eq_step (Step k) s = (Inr ls, s')" and "eq_places s k \<noteq> Eq_idle" and "eq_places s k = Eq_pop \<Longrightarrow> eq_hm s = None"
  shows "eq_kind (eq_places s' k) = None \<or> eq_rank (eq_places s' k) < eq_rank (eq_places s k)"
  using assms by (cases "eq_places s k") (auto simp: eq_goto_def split: prod.splits sum.splits option.splits)

lemma eq_some_progress:
  assumes "eq_invar s" and "eq_kind (eq_places s k) = Some c"
  shows "\<exists>j. eq_kind (eq_places s j) \<noteq> None \<and> (\<forall>ls s'. eq_step (Step j) s = (Inr ls, s') \<longrightarrow>
    eq_kind (eq_places s' j) = None \<or> eq_rank (eq_places s' j) < eq_rank (eq_places s j))"
proof (cases "eq_hm s")
  case None
  then show ?thesis using eq_progress assms(2) by (metis eq_kind.simps(1) option.distinct(1))
next
  case (Some i)
  then have "holds_hm (eq_places s i)" using assms(1) by (simp add: eq_invar_def)
  then have "eq_kind (eq_places s i) \<noteq> None" "eq_places s i \<noteq> Eq_idle" "eq_places s i \<noteq> Eq_pop" by (cases "eq_places s i"; simp)+
  then show ?thesis using eq_progress by metis
qed

interpretation effective_count: progressing eq_step "\<lambda>s k. eq_kind (eq_places s k)" test_item "\<lambda>r. r = None"
  "\<lambda>s. eq_count (the_eq s)" "\<lambda>s k. eq_count_pend (eq_places s k)" eq_invar "\<lambda>s k. eq_rank (eq_places s k)"
proof unfold_locales
  show "eq_kind (eq_places s k) = None \<Longrightarrow> eq_count_pend (eq_places s k) = 0" for s :: "test_node eq_system" and k
    by (cases "eq_places s k") (simp_all add: eq_count_pend_def)
next
  fix s :: "test_node eq_system" and k c and i :: nat
  show "eq_rank (eq_places s k) < 6" by (cases "eq_places s k") simp_all
  assume inv: "eq_invar s"
  obtain as vs where ok: "eq_system_ok s as vs" using inv by (auto simp: eq_invar_def)
  show "\<exists>ls s'. eq_step (if c = Pushing then Call_push k (test_item i) else Call_pop k) s = (Inr ls, s') \<and>
      (\<forall>j. j \<noteq> k \<longrightarrow> eq_rank (eq_places s' j) = eq_rank (eq_places s j))" if "eq_kind (eq_places s k) = None"
    using eq_step_ok [OF ok] eq_call_account [OF inv that, of c "test_item i"] by metis
  show "\<exists>ls s'. eq_step (Step k) s = (Inr ls, s') \<and> (\<forall>j. j \<noteq> k \<longrightarrow> eq_rank (eq_places s' j) = eq_rank (eq_places s j))"
    if "eq_kind (eq_places s k) = Some c"
    using eq_step_ok [OF ok, of "Step k"] eq_work_account [OF inv that] by metis
  show "\<exists>j. eq_kind (eq_places s j) \<noteq> None \<and> (\<forall>ls s'. eq_step (Step j) s = (Inr ls, s') \<longrightarrow>
      eq_kind (eq_places s' j) = None \<or> eq_rank (eq_places s' j) < eq_rank (eq_places s j))" if "eq_kind (eq_places s k) = Some c"
    by (rule eq_some_progress [OF inv that])
qed ((drule (2) eq_call_account, simp), (drule (2) eq_work_account, auto))

interpretation effective_items: accounted eq_step "\<lambda>s k. eq_kind (eq_places s k)" test_item "\<lambda>r. r = None"
  "\<lambda>s. int (length (eq_items (the_eq s)))" "\<lambda>s k. eq_items_pend (eq_places s k)" eq_invar
proof unfold_locales
  show "eq_kind (eq_places s k) = None \<Longrightarrow> eq_items_pend (eq_places s k) = 0" for s :: "test_node eq_system" and k
    by (cases "eq_places s k") (simp_all add: eq_items_pend_def)
qed ((drule (2) eq_call_account, simp), (drule (2) eq_work_account, auto))

section \<open>Properties\<close>

lemma kinds_balanced:
  "count_list (map alternating [0..<ThreadNumber]) Pushing = count_list (map alternating [0..<ThreadNumber]) Popping"
  "count_list (map first_half [0..<ThreadNumber]) Pushing = count_list (map first_half [0..<ThreadNumber]) Popping"
  by (simp_all add: alternating_def first_half_def ThreadNumber_def upt_rec)

lemma eq_queue_start:
  "eq_invar (eq_start junk)" "eq_count (the_eq (eq_start junk)) = junk" "eq_items (the_eq (eq_start junk)) = []"
  "eq_kind (eq_places (eq_start junk) k) = None"
proof -
  have "eq_system_ok (eq_start junk) [0] []"
    by (rule eq_system_okI) (simp_all add: eq_start_def eq_chain_new)
  then show "eq_invar (eq_start junk)" "eq_items (the_eq (eq_start junk)) = []"
    using eq_items_length by (fastforce simp: eq_invar_def eq_start_def)+
qed (simp_all add: eq_start_def EffectiveQueue_new_def)

lemma base_test_account:
  assumes "run_test (BaseQueueTest n) (\<lambda>s. int (bq_size (the_bq s))) n alternating bq_start ks = Some (Inr (cs, r))"
  shows "r = sum_list cs"
  using base_test.run_test_account [OF _ _ _ kinds_balanced(1) assms [unfolded BaseQueueTest_def]]
  by (auto simp: bq_start_def bq_size_def)

lemma effective_test_account:
  assumes "run_test (EffectiveQueueTest n) f n alternating (eq_start 0) ks = Some (Inr (cs, r))"
  shows "\<exists>s. r = f s \<and> eq_count (the_eq s) = sum_list cs"
  using effective_count.run_test_account [OF eq_queue_start(1,2,4) kinds_balanced(1) assms [unfolded EffectiveQueueTest_def]] by blast

text \<open>C39: When the program comes to its end, however its threads interleave, then in the tests of the two queues with mutexes the printed
  numbers of vain pops add up to the printed size of the queue. In the third test they need not (\<open>vain_pop_is_missed\<close>).\<close>

theorem printed_numbers_add_up:
  assumes "test_main alc n ks1 ks2 ks3 = Some (Inr outs)"
  shows "\<exists>cs1 r1 cs2 r2 out3. outs = [(cs1, r1), (cs2, r2), out3] \<and> sum_list cs1 = r1 \<and> sum_list cs2 = r2"
  using assms base_test_account [of n ks1] effective_test_account [of n "\<lambda>s. eq_count (the_eq s)" ks2]
  by (fastforce simp: test_main_def split: option.splits sum.splits)

text \<open>The size that the second queue prints is a counter beside it; when the threads have ended it is the number of its items.\<close>

theorem counter_is_size:
  assumes "run_test (EffectiveQueueTest n) the_eq n alternating (eq_start 0) ks = Some (Inr (cs, q))"
  shows "eq_count q = int (length (eq_items q))"
proof -
  have "eq_count q = sum_list cs"
    using effective_count.run_test_account [OF eq_queue_start(1,2,4) kinds_balanced(1) assms [unfolded EffectiveQueueTest_def]] by auto
  moreover have "int (length (eq_items q)) = sum_list cs"
    using effective_items.run_test_account [OF eq_queue_start(1) _ eq_queue_start(4) kinds_balanced(1) assms [unfolded EffectiveQueueTest_def]]
    by (auto simp: eq_queue_start)
  ultimately show ?thesis by simp
qed

text \<open>C40: Neither of the queues with mutexes can fail or come to a standstill: whatever the threads of their tests have done, they can go on
  until all have ended.\<close>

theorem locked_tests_can_end:
  "(\<exists>ks' out. run_test (BaseQueueTest n) f n alternating bq_start (ks @ ks') = Some (Inr out)) \<and>
   (\<exists>ks' out. run_test (EffectiveQueueTest n) g n alternating (eq_start 0) (ks @ ks') = Some (Inr out))"
  using base_test.run_test_finishes [of bq_start n f alternating ks]
    effective_count.run_test_finishes [OF eq_queue_start(1,2,4), of n g alternating ks]
  by (simp add: BaseQueueTest_def EffectiveQueueTest_def bq_start_def)

text \<open>The test of the lock-free queue has five threads that push, so it can follow a deleted node.\<close>

theorem lock_free_test_can_fail:
  assumes "0 < n"
  shows "run_test (LockFreeQueueTest n) f n first_half (queue_start Suc test_node_0) ([0, 0] @ replicate 7 1 @ replicate 8 5 @ [0]) = Some (Inl Bad_access)"
proof -
  have half: "first_half 0 = Pushing" "first_half 1 = Pushing" "first_half 5 = Popping" by (simp_all add: first_half_def ThreadNumber_def)
  show ?thesis
    using assms half
    by (simp add: run_test_def LockFreeQueueTest_def loop_step_def ThreadNumber_def upt_rec new_thread_def Let_def
        noted_def queue_defs eval_nat_numeral)
qed

text \<open>
  One call of each thread, the first item popped by two threads at once: the one whose compare-and-swap fails has the item in its variable
  already, finds the queue empty then, and does not count that.
\<close>

definition lost_race :: "nat list" where
  "lost_race = replicate 7 0 @ replicate 6 5 @ replicate 9 6 @ replicate 6 5 @ concat (map (replicate 9) [1, 2, 3, 4, 7, 8, 9])"

theorem vain_pop_is_missed:
  "run_test (LockFreeQueueTest 1) (\<lambda>s. lf_count (the_queue s)) 1 first_half (queue_start Suc test_node_0) lost_race =
     Some (Inr ([0, 0, 0, 0, 0], 1))"
proof -
  have kinds: "map (new_thread \<circ> first_half) [0..<ThreadNumber] =
     map new_thread [Pushing, Pushing, Pushing, Pushing, Pushing, Popping, Popping, Popping, Popping, Popping]"
    by (simp add: first_half_def ThreadNumber_def upt_rec)
  show ?thesis unfolding run_test_def kinds by code_simp
qed

section \<open>Witnesses\<close>

text \<open>One call of each thread, one thread after the other.\<close>

definition one_by_one :: "nat list" where
  "one_by_one = concat (map (replicate 9) [0..<ThreadNumber])"

lemma sample_kinds:
  "map (new_thread \<circ> alternating) [0..<ThreadNumber] =
     map new_thread [Popping, Pushing, Popping, Pushing, Popping, Pushing, Popping, Pushing, Popping, Pushing]"
  "map (new_thread \<circ> first_half) [0..<ThreadNumber] =
     map new_thread [Pushing, Pushing, Pushing, Pushing, Pushing, Popping, Popping, Popping, Popping, Popping]"
  by (simp_all add: alternating_def first_half_def ThreadNumber_def upt_rec)

lemma sample_base: "run_test (BaseQueueTest 1) (\<lambda>s. int (bq_size (the_bq s))) 1 alternating bq_start one_by_one = Some (Inr ([1, 0, 0, 0, 0], 1))"
  unfolding run_test_def sample_kinds by code_simp

lemma sample_effective: "run_test (EffectiveQueueTest 1) (\<lambda>s. eq_count (the_eq s)) 1 alternating (eq_start 0) one_by_one = Some (Inr ([1, 0, 0, 0, 0], 1))"
  unfolding run_test_def sample_kinds by code_simp

lemma sample_lock_free: "run_test (LockFreeQueueTest 1) (\<lambda>s. lf_count (the_queue s)) 1 first_half (queue_start Suc test_node_0) one_by_one = Some (Inr ([0, 0, 0, 0, 0], 0))"
  unfolding run_test_def sample_kinds by code_simp

theorem printed_numbers_add_up_witness:
  "\<exists>out3. test_main Suc 1 one_by_one one_by_one one_by_one = Some (Inr [([1, 0, 0, 0, 0], 1), ([1, 0, 0, 0, 0], 1), out3]) \<and>
     sum_list [1, 0, 0, 0, 0] = (1 :: int)"
proof -
  have run: "test_main Suc 1 one_by_one one_by_one one_by_one =
      Some (Inr [([1, 0, 0, 0, 0], 1), ([1, 0, 0, 0, 0], 1), ([0, 0, 0, 0, 0], 0)])"
    by (simp only: test_main_def sample_base sample_effective sample_lock_free option.case sum.case)
  have "sum_list [1, 0, 0, 0, 0] = (1 :: int)" using printed_numbers_add_up [OF run] by simp
  then show ?thesis using run by simp
qed

theorem counter_is_size_witness:
  "\<exists>q. run_test (EffectiveQueueTest 1) the_eq 1 alternating (eq_start 0) one_by_one = Some (Inr ([1, 0, 0, 0, 0], q)) \<and>
     eq_count q = 1 \<and> length (eq_items q) = 1"
proof -
  obtain q where "run_test (EffectiveQueueTest 1) the_eq 1 alternating (eq_start 0) one_by_one = Some (Inr ([1, 0, 0, 0, 0], q))" "eq_count q = 1"
    using sample_effective by (auto simp: run_test_def split: prod.splits sum.splits if_splits)
  then show ?thesis using counter_is_size by force
qed

theorem lock_free_test_can_fail_witness:
  "run_test (LockFreeQueueTest 100000) (\<lambda>s. lf_count (the_queue s)) 100000 first_half (queue_start Suc test_node_0)
     ([0, 0] @ replicate 7 1 @ replicate 8 5 @ [0]) = Some (Inl Bad_access)"
  by (rule lock_free_test_can_fail) simp

end
