(* ===== verification/Client.thy ===== *)
theory Client
  imports Timing_Wheel Epoll Socket_Read
begin

text \<open>
  \<open>src/src/client/client.h\<close>, \<open>client.cc\<close>, \<open>connection.h\<close>, \<open>connection.cc\<close> and
  \<open>channel.h\<close>: the client that connects to a server, tries again after growing delays, and hands what is to be sent to
  its loop. The answers of \<open>socket\<close> and \<open>connect\<close> are a function of the number of the attempt; what
  \<open>epoll_wait\<close>, \<open>getsockopt\<close>, \<open>getsockname\<close>, \<open>getpeername\<close> and \<open>recv\<close> give are inputs.
  The timers of the wheel all call \<open>Connect\<close>.
\<close>

section \<open>The state\<close>

datatype ConnectionState = kDisconnected | kConnecting | kConnected

text \<open>A function pushed to the loop is the \<open>write\<close> of a text to a descriptor.\<close>

type_synonym pushed = "int \<times> string"

record client =
  retryDelayMs :: int
  cn_states :: ConnectionState
  cn_socket :: int
  cl_wheel :: "unit TimerWheel"
  cl_key :: int
  Sockers :: "int \<rightharpoonup> Extrabuf"
  cl_timerfd :: int
  cl_armed :: "int option"
  cl_channel :: int
  cl_counter :: nat
  cl_Events :: "pushed list"
  cl_tries :: nat
  cl_calls :: "sys_call list"
  cl_written :: "pushed list"
  cl_printed :: "string list"

definition kMaxRetryDelayMs :: int where "kMaxRetryDelayMs = 48"
definition KInitRetryDelayMs :: int where "KInitRetryDelayMs = 1"

text \<open>The constructors: the channel registers its descriptor.\<close>

definition client_new :: "int \<Rightarrow> int \<Rightarrow> client" where
  "client_new timer chan =
     \<lparr>retryDelayMs = KInitRetryDelayMs, cn_states = kDisconnected, cn_socket = - 1, cl_wheel = TimerWheel_new, cl_key = 0,
      Sockers = Map.empty, cl_timerfd = timer, cl_armed = None, cl_channel = chan, cl_counter = 0, cl_Events = [],
      cl_tries = 0, cl_calls = Epoll_Add (EpollEvent_of chan EpollCanRead) [], cl_written = [], cl_printed = []\<rparr>"

definition close_fd :: "int \<Rightarrow> client \<Rightarrow> client" where
  "close_fd fd s = s\<lparr>cl_calls := cl_calls s @ [Close_fd fd]\<rparr>"

section \<open>Connecting\<close>

definition Connecting :: "int \<Rightarrow> client \<Rightarrow> client" where
  "Connecting fd s = s\<lparr>cn_states := kConnecting, cl_calls := Epoll_Add (EpollEvent_of fd EpollCanWite) (cl_calls s)\<rparr>"

definition ResetEventfd :: "8 word \<Rightarrow> int \<Rightarrow> client \<Rightarrow> (client, unit) cpp" where
  "ResetEventfd junk Delay s =
     (case TW_Add junk (cl_key s + 1) () Delay (cl_wheel s) of
        (r, w) \<Rightarrow>
          let s = s\<lparr>cl_key := cl_key s + 1, cl_wheel := w\<rparr> in
          case r of Inl e \<Rightarrow> (Inl e, s) | Inr _ \<Rightarrow> (Inr (), s\<lparr>cl_armed := Some Delay\<rparr>))"

definition retry :: "8 word \<Rightarrow> int \<Rightarrow> client \<Rightarrow> (client, unit) cpp" where
  "retry junk fd s =
     (let s = (close_fd fd s)\<lparr>cn_socket := - 1, cn_states := kDisconnected\<rparr> in
      if retryDelayMs s = kMaxRetryDelayMs then (Inr (), s)
      else bindc (ResetEventfd junk (retryDelayMs s) s) (\<lambda>_ s.
             (Inr (), s\<lparr>retryDelayMs := min (retryDelayMs s * 2) kMaxRetryDelayMs\<rparr>)))"

text \<open>\<open>EINPROGRESS\<close>, \<open>EINTR\<close> and \<open>EISCONN\<close>; \<open>EAGAIN\<close>, \<open>EADDRINUSE\<close>, \<open>EADDRNOTAVAIL\<close>,
  \<open>ECONNREFUSED\<close> and \<open>ENETUNREACH\<close>.\<close>

definition errnos_connecting :: "int list" where "errnos_connecting = [0, 115, 4, 106]"
definition errnos_retry :: "int list" where "errnos_retry = [11, 98, 99, 111, 101]"

definition Connect :: "8 word \<Rightarrow> (nat \<Rightarrow> int \<times> int) \<Rightarrow> client \<Rightarrow> (client, unit) cpp" where
  "Connect junk net s =
     (case net (cl_tries s) of
        (fd, SaveErrno) \<Rightarrow>
          let s = s\<lparr>cl_tries := cl_tries s + 1, cn_socket := fd\<rparr> in
          if SaveErrno \<in> set errnos_connecting then (Inr (), Connecting fd s)
          else if SaveErrno \<in> set errnos_retry then retry junk fd s
          else (Inr (), close_fd fd s))"

section \<open>The end of a connection attempt\<close>

text \<open>The members of \<open>sockaddr_in6\<close>; \<open>sin_addr\<close> of \<open>sockaddr_in\<close> lies where \<open>sin6_flowinfo\<close> is.\<close>

record sockaddr =
  sin_family :: int
  sin_port :: "16 word"
  sin_addr :: "32 word"
  sin6_addr :: string

definition sockaddr_zero :: sockaddr where
  "sockaddr_zero = \<lparr>sin_family = 0, sin_port = 0, sin_addr = 0, sin6_addr = replicate 16 (CHR 0x00)\<rparr>"

text \<open>\<open>getLocalAddr\<close> and \<open>getPeerAddr\<close>: zeros when the system call fails.\<close>

definition getAddr :: "sockaddr option \<Rightarrow> sockaddr" where
  "getAddr a = (case a of None \<Rightarrow> sockaddr_zero | Some a \<Rightarrow> a)"

definition isSelfConnect :: "sockaddr option \<Rightarrow> sockaddr option \<Rightarrow> bool" where
  "isSelfConnect l p =
     (let localaddr = getAddr l; peeraddr = getAddr p in
      if sin_family localaddr = 2 then sin_port localaddr = sin_port peeraddr \<and> sin_addr localaddr = sin_addr peeraddr
      else if sin_family localaddr = 10 then sin_port localaddr = sin_port peeraddr \<and> sin6_addr localaddr = sin6_addr peeraddr
      else False)"

text \<open>The value of \<open>getsockopt\<close>, \<open>errno\<close> and the option.\<close>

definition getSocketError :: "int \<times> int \<times> int \<Rightarrow> int" where
  "getSocketError a = (case a of (ret, err, optval) \<Rightarrow> if ret < 0 then err else optval)"

text \<open>The new \<open>Socket\<close> takes the place of one with its descriptor, which closes it.\<close>

definition SetFd_inSockers :: "int \<Rightarrow> client \<Rightarrow> client" where
  "SetFd_inSockers fd s =
     (let s = s\<lparr>cl_calls := Epoll_Add (EpollEvent_of fd EpollCanRead) (cl_calls s)\<rparr>;
          s = (if fd \<in> dom (Sockers s) then close_fd fd s else s)
      in s\<lparr>Sockers := (Sockers s)(fd \<mapsto> Extrabuf_new)\<rparr>)"

record client_input =
  ci_error :: "int \<times> int \<times> int"
  ci_local :: "sockaddr option"
  ci_peer :: "sockaddr option"
  ci_recv :: "recv_result list"

definition HandleWrite :: "8 word \<Rightarrow> client_input \<Rightarrow> int \<Rightarrow> client \<Rightarrow> (client, unit) cpp" where
  "HandleWrite junk inp fd s =
     (if cn_states s = kConnecting then
        if getSocketError (ci_error inp) \<noteq> 0 then retry junk fd s
        else if isSelfConnect (ci_local inp) (ci_peer inp) then retry junk fd s
        else (Inr (), (SetFd_inSockers fd (s\<lparr>cn_states := kConnected\<rparr>))\<lparr>retryDelayMs := KInitRetryDelayMs\<rparr>)
      else if cn_states s = kDisconnected then (Inr (), s) else (Inl Assertion_failed, s))"

section \<open>The channel to the loop\<close>

text \<open>\<open>push\<close> first writes to the event descriptor, then puts the function into the queue.\<close>

definition push_write :: "client \<Rightarrow> client" where
  "push_write s = s\<lparr>cl_counter := cl_counter s + 1\<rparr>"

definition push_queue :: "pushed \<Rightarrow> client \<Rightarrow> client" where
  "push_queue e s = s\<lparr>cl_Events := cl_Events s @ [e]\<rparr>"

definition SendToServer :: "(int set \<Rightarrow> int) \<Rightarrow> string \<Rightarrow> client \<Rightarrow> (client, unit) cpp" where
  "SendToServer begin_of Content s =
     (if Sockers s = Map.empty then (Inl Bad_access, s)
      else (Inr (), push_queue (begin_of (dom (Sockers s)), Content) (push_write s)))"

fun run_pushed :: "nat \<Rightarrow> client \<Rightarrow> (client, unit) cpp" where
  "run_pushed 0 s = (Inr (), s)"
| "run_pushed (Suc Temp) s =
     (case cl_Events s of
        [] \<Rightarrow> (Inl Bad_access, s)
      | e # es \<Rightarrow> run_pushed Temp (s\<lparr>cl_Events := es, cl_written := cl_written s @ [e]\<rparr>))"

definition RunAndPop :: "client \<Rightarrow> (client, unit) cpp" where
  "RunAndPop s = run_pushed (cl_counter s) (s\<lparr>cl_counter := 0\<rparr>)"

section \<open>The loop\<close>

text \<open>
  \<open>TW_Tick\<close> with \<open>Connect\<close> as what the timers call. A call adds at most a timer with a delay of
  1 to 32 ticks, so the list that is walked through does not change.
\<close>

fun call_timers :: "8 word \<Rightarrow> (nat \<Rightarrow> int \<times> int) \<Rightarrow> unit slot \<Rightarrow> client \<Rightarrow> (client, unit) cpp" where
  "call_timers junk net [] s = (Inr (), s)"
| "call_timers junk net (x # xs) s = bindc (Connect junk net s) (\<lambda>_ s. call_timers junk net xs s)"

definition Client_Tick :: "8 word \<Rightarrow> (nat \<Rightarrow> int \<times> int) \<Rightarrow> client \<Rightarrow> (client, unit) cpp" where
  "Client_Tick junk net s =
     (let w = (cl_wheel s)\<lparr>currenttime := currenttime (cl_wheel s) + 1\<rparr>; index = FIRST_INDEX (currenttime w) in
      case (if index = 0 then cascade junk [0, 1, 2, 3] w else (Inr (), w)) of
        (Inl e, w) \<Rightarrow> (Inl e, s\<lparr>cl_wheel := w\<rparr>)
      | (Inr _, w) \<Rightarrow>
          bindc (call_timers junk net (tvroot w ! index) (s\<lparr>cl_wheel := w\<rparr>)) (\<lambda>_ s.
            (Inr (), s\<lparr>cl_wheel := (cl_wheel s)\<lparr>tvroot := (tvroot (cl_wheel s))[index := []]\<rparr>\<rparr>)))"

definition Client_Remove :: "int \<Rightarrow> client \<Rightarrow> (client, unit) cpp" where
  "Client_Remove fd s =
     (if fd \<notin> dom (Sockers s) then (Inl Logic_error, s)
      else
        let s = s\<lparr>cl_calls := Epoll_Remove (EpollEvent_of fd EpollTypeBase) (cl_calls s)\<rparr> in
        (Inr (), (close_fd fd s)\<lparr>Sockers := (Sockers s)(fd := None)\<rparr>))"

definition rearm :: "int \<Rightarrow> client \<Rightarrow> client" where
  "rearm fd s = s\<lparr>cl_calls := Epoll_Modify (EpollEvent_of fd EpollCanRead) (cl_calls s)\<rparr>"

definition handle_channel :: "(int set \<Rightarrow> int) \<Rightarrow> client \<Rightarrow> (client, unit) cpp" where
  "handle_channel begin_of s =
     bindc (RunAndPop s) (\<lambda>_ s.
       if Sockers s = Map.empty then (Inl Bad_access, s) else (Inr (), rearm (begin_of (dom (Sockers s))) s))"

text \<open>Reading: \<open>Sockers_[id]\<close> makes a null pointer for a descriptor it does not have.\<close>

definition client_read :: "(nat \<Rightarrow> char) \<Rightarrow> recv_result list \<Rightarrow> int \<Rightarrow> client \<Rightarrow> ((client, unit) cpp) option" where
  "client_read uninit ks fd s =
     (case Sockers s fd of
        None \<Rightarrow> Some (Inl Null_deref, s)
      | Some eb \<Rightarrow>
          (case Socket_Read uninit ks (- 1) (UserBuffer_new 8096, eb) of
             None \<Rightarrow> None
           | Some (r, ub, eb) \<Rightarrow>
               let s = s\<lparr>Sockers := (Sockers s)(fd \<mapsto> eb)\<rparr> in
               Some (case r of
                       Inl e \<Rightarrow> (Inl e, s)
                     | Inr _ \<Rightarrow>
                         (case UB_Read ub (int (UB_Readable ub)) of
                            (Inl e, _) \<Rightarrow> (Inl e, s)
                          | (Inr Content, _) \<Rightarrow> (Inr (), s\<lparr>cl_printed := cl_printed s @ [Content]\<rparr>)))))"

definition client_event ::
  "8 word \<Rightarrow> (nat \<Rightarrow> int \<times> int) \<Rightarrow> (int set \<Rightarrow> int) \<Rightarrow> (nat \<Rightarrow> char) \<Rightarrow> client_input \<Rightarrow> EpollEvent \<Rightarrow> client \<Rightarrow> ((client, unit) cpp) option" where
  "client_event junk net begin_of uninit inp item s =
     (let fd = Return_fd item in
      if fd = cl_timerfd s then Some (bindc (Client_Tick junk net s) (\<lambda>_ s. (Inr (), rearm (cl_timerfd s) s)))
      else if fd = cl_channel s then Some (handle_channel begin_of s)
      else if check item EETRDHUP then Some (Client_Remove fd s)
      else if check item EETCOULDREAD then client_read uninit (ci_recv inp) fd s
      else if check item EETCOULDWRITE then Some (HandleWrite junk inp fd s)
      else Some (Inr (), s))"

function client_events ::
  "8 word \<Rightarrow> (nat \<Rightarrow> int \<times> int) \<Rightarrow> (int set \<Rightarrow> int) \<Rightarrow> (nat \<Rightarrow> char) \<Rightarrow> (nat \<Rightarrow> client_input) \<Rightarrow> nat \<Rightarrow> EpollEvent_Result \<Rightarrow> client
    \<Rightarrow> ((client, unit) cpp) option" where
  "client_events junk net begin_of uninit ins i r s =
     (if \<not> i < Available_length r then Some (Inr (), s)
      else
        case er_at i r of
          Inl e \<Rightarrow> Some (Inl e, s)
        | Inr item \<Rightarrow>
            (case client_event junk net begin_of uninit (ins i) item s of
               None \<Rightarrow> None
             | Some (Inl e, s) \<Rightarrow> Some (Inl e, s)
             | Some (Inr _, s) \<Rightarrow> client_events junk net begin_of uninit ins (i + 1) r s))"
  by pat_completeness auto

termination
  by (relation "measure (\<lambda>(junk, net, b, u, ins, i, r, s). length (er_array r) - i)")
    (auto simp: er_at_def split: if_splits)

declare client_events.simps [simp del]

text \<open>
  The loop from one wait to the next. Nothing catches an exception, so it ends the thread and the program.
\<close>

definition client_deliver :: "wait_answer \<Rightarrow> client \<Rightarrow> client" where
  "client_deliver a s =
     s\<lparr>cl_calls := cl_calls s @ (case a of Wait_failed \<Rightarrow> [] | Ready es \<Rightarrow> map (\<lambda>e. Delivered (Return_fd e)) es)\<rparr>"

definition client_turn ::
  "8 word \<Rightarrow> (nat \<Rightarrow> int \<times> int) \<Rightarrow> (int set \<Rightarrow> int) \<Rightarrow> (nat \<Rightarrow> char) \<Rightarrow> (nat \<Rightarrow> client_input) \<Rightarrow> wait_answer \<Rightarrow> EpollEvent_Result \<times> client
    \<Rightarrow> ((client, EpollEvent_Result) cpp) option" where
  "client_turn junk net begin_of uninit ins a rs =
     (case rs of (r, s) \<Rightarrow>
        let r = Epoll_Wait a r in
        map_option (\<lambda>m. bindc m (\<lambda>_ s. (Inr r, s))) (client_events junk net begin_of uninit ins 0 r (client_deliver a s)))"

definition client_start :: "client \<Rightarrow> EpollEvent_Result \<times> client" where
  "client_start s =
     (EpollEvent_Result_new 8096, s\<lparr>cl_calls := Epoll_Add (EpollEvent_of (cl_timerfd s) EpollCanRead) (cl_calls s)\<rparr>)"

section \<open>Attempts that are refused\<close>

text \<open>How many timers are in each slot of the first wheel; the others are empty.\<close>

definition wheel_lens :: "'f TimerWheel \<Rightarrow> nat list \<Rightarrow> bool" where
  "wheel_lens w L \<longleftrightarrow> map length (tvroot w) = L \<and> length L = 256 \<and> tv w = replicate 4 (replicate 64 [])"

definition keys_used :: "client \<Rightarrow> bool" where
  "keys_used s \<longleftrightarrow> (\<forall>k > cl_key s. k \<notin> dom (mp (cl_wheel s)))"

lemma TW_Add_lens:
  assumes "wheel_lens w L" and "fd \<notin> dom (mp w)" and "0 \<le> t" and "t < 256"
  defines "i \<equiv> (FIRST_INDEX (currenttime w) + nat t) mod 256"
  shows "\<exists>w'. TW_Add junk fd f t w = (Inr (), w') \<and> wheel_lens w' (L[i := L ! i + 1]) \<and> currenttime w' = currenttime w \<and>
    dom (mp w') = insert fd (dom (mp w))"
proof -
  have i: "FIRST_INDEX (currenttime w + word_of_int t) = i" unfolding i_def by (rule FIRST_INDEX_add [OF assms(3,4)])
  have "unat (word_of_int t :: 32 word) = nat t" using assms(3,4) by (rule unat_small)
  then have near: "currenttime w + word_of_int t - currenttime w < 256" using assms(3,4) by (simp add: word_less_nat_alt)
  have "i < 256" by (simp add: i_def)
  moreover have "length (tvroot w) = 256" "map length (tvroot w) = L"
    using assms(1) by (auto simp: wheel_lens_def)
  ultimately show ?thesis using assms(1-4) near
    by (auto simp: TW_Add_def TW_Add_at_def Let_def i wheel_lens_def map_update)
qed

lemma ResetEventfd_lens:
  assumes "wheel_lens (cl_wheel s) L" and "keys_used s" and "0 \<le> D" and "D < 256"
  defines "i \<equiv> (FIRST_INDEX (currenttime (cl_wheel s)) + nat D) mod 256"
  shows "\<exists>w. ResetEventfd junk D s = (Inr (), s\<lparr>cl_key := cl_key s + 1, cl_wheel := w, cl_armed := Some D\<rparr>) \<and>
    wheel_lens w (L[i := L ! i + 1]) \<and> currenttime w = currenttime (cl_wheel s) \<and> keys_used (s\<lparr>cl_key := cl_key s + 1, cl_wheel := w\<rparr>)"
proof -
  have "cl_key s + 1 \<notin> dom (mp (cl_wheel s))" using assms(2) by (simp add: keys_used_def)
  from TW_Add_lens [OF assms(1) this assms(3,4), of junk "()"] obtain w where
    "TW_Add junk (cl_key s + 1) () D (cl_wheel s) = (Inr (), w)" "wheel_lens w (L[i := L ! i + 1])"
    "currenttime w = currenttime (cl_wheel s)" "dom (mp w) = insert (cl_key s + 1) (dom (mp (cl_wheel s)))"
    unfolding i_def by blast
  then show ?thesis using assms(2) by (intro exI [of _ w]) (auto simp: ResetEventfd_def keys_used_def Let_def)
qed

definition refusing :: "(nat \<Rightarrow> int \<times> int) \<Rightarrow> bool" where
  "refusing net \<longleftrightarrow> (\<forall>t. snd (net t) \<in> set errnos_retry)"

lemma Connect_refused:
  assumes "refusing net"
  shows "\<exists>fd. Connect junk net s = retry junk fd (s\<lparr>cl_tries := cl_tries s + 1, cn_socket := fd\<rparr>)"
proof -
  obtain fd e where n: "net (cl_tries s) = (fd, e)" by (cases "net (cl_tries s)")
  have "e \<in> set errnos_retry" using assms n unfolding refusing_def by (metis snd_conv)
  moreover from this have "e \<notin> set errnos_connecting" by (auto simp: errnos_retry_def errnos_connecting_def)
  ultimately show ?thesis using n by (auto simp: Connect_def Let_def)
qed

text \<open>The part of the state that the attempts depend on.\<close>

definition attempts_ok :: "client \<Rightarrow> nat list \<Rightarrow> nat \<Rightarrow> int \<Rightarrow> bool" where
  "attempts_ok s L k r \<longleftrightarrow>
     wheel_lens (cl_wheel s) L \<and> keys_used s \<and> cl_tries s = k \<and> retryDelayMs s = r \<and> cn_states s = kDisconnected"

lemma Connect_last:
  assumes "refusing net" and "attempts_ok s L k 48"
  shows "\<exists>s'. Connect junk net s = (Inr (), s') \<and> attempts_ok s' L (Suc k) 48 \<and> currenttime (cl_wheel s') = currenttime (cl_wheel s)"
proof -
  obtain fd where "Connect junk net s = retry junk fd (s\<lparr>cl_tries := cl_tries s + 1, cn_socket := fd\<rparr>)"
    using Connect_refused [OF assms(1)] by blast
  then show ?thesis using assms(2)
    by (simp add: retry_def Let_def close_fd_def kMaxRetryDelayMs_def attempts_ok_def keys_used_def)
qed

lemma Connect_again:
  assumes "refusing net" and "attempts_ok s L k r" and "0 < r" and "r < 48"
  defines "i \<equiv> (FIRST_INDEX (currenttime (cl_wheel s)) + nat r) mod 256"
  shows "\<exists>s'. Connect junk net s = (Inr (), s') \<and> attempts_ok s' (L[i := L ! i + 1]) (Suc k) (min (2 * r) 48) \<and>
    currenttime (cl_wheel s') = currenttime (cl_wheel s)"
proof -
  obtain fd where c: "Connect junk net s = retry junk fd (s\<lparr>cl_tries := cl_tries s + 1, cn_socket := fd\<rparr>)"
    using Connect_refused [OF assms(1)] by blast
  define t where "t = (close_fd fd (s\<lparr>cl_tries := cl_tries s + 1, cn_socket := fd\<rparr>))\<lparr>cn_socket := - 1, cn_states := kDisconnected\<rparr>"
  have t: "cl_wheel t = cl_wheel s" "cl_key t = cl_key s" "retryDelayMs t = r" "cl_tries t = Suc k" "cn_states t = kDisconnected"
    using assms(2) by (simp_all add: t_def close_fd_def attempts_ok_def)
  have ok: "wheel_lens (cl_wheel t) L" "keys_used t" using assms(2) by (simp_all add: t attempts_ok_def keys_used_def)
  obtain w where w: "ResetEventfd junk r t = (Inr (), t\<lparr>cl_key := cl_key t + 1, cl_wheel := w, cl_armed := Some r\<rparr>)"
    "wheel_lens w (L[i := L ! i + 1])" "currenttime w = currenttime (cl_wheel t)" "keys_used (t\<lparr>cl_key := cl_key t + 1, cl_wheel := w\<rparr>)"
    using ResetEventfd_lens [OF ok, of r junk] assms(3,4) unfolding i_def t(1) by auto
  show ?thesis unfolding c retry_def Let_def t_def [symmetric]
    using w t assms(4) by (simp add: kMaxRetryDelayMs_def attempts_ok_def keys_used_def mult.commute)
qed

text \<open>One timer that is to be called after \<open>d\<close> ticks, or none for 0.\<close>

definition pending :: "client \<Rightarrow> nat \<Rightarrow> nat list" where
  "pending s d =
     (if d = 0 then replicate 256 0 else (replicate 256 0)[(FIRST_INDEX (currenttime (cl_wheel s)) + d) mod 256 := 1])"

lemma Client_Tick_calls:
  assumes "attempts_ok s L k r"
  defines "s1 \<equiv> s\<lparr>cl_wheel := (cl_wheel s)\<lparr>currenttime := currenttime (cl_wheel s) + 1\<rparr>\<rparr>"
  defines "i \<equiv> FIRST_INDEX (currenttime (cl_wheel s1))"
  shows "Client_Tick junk net s =
      bindc (call_timers junk net (tvroot (cl_wheel s) ! i) s1) (\<lambda>_ s.
        (Inr (), s\<lparr>cl_wheel := (cl_wheel s)\<lparr>tvroot := (tvroot (cl_wheel s))[i := []]\<rparr>\<rparr>))"
    and "attempts_ok s1 L k r" and "length (tvroot (cl_wheel s) ! i) = L ! i"
proof -
  have tv: "tv (cl_wheel s) = replicate 4 (replicate 64 [])" and len: "length (tvroot (cl_wheel s)) = 256"
    and L: "map length (tvroot (cl_wheel s)) = L"
    using assms(1) by (auto simp: attempts_ok_def wheel_lens_def)
  have "cascade junk [0, 1, 2, 3] (cl_wheel s1) = (Inr (), cl_wheel s1)" by (rule cascade_empty) (simp_all add: s1_def tv)
  then show "Client_Tick junk net s =
      bindc (call_timers junk net (tvroot (cl_wheel s) ! i) s1) (\<lambda>_ s.
        (Inr (), s\<lparr>cl_wheel := (cl_wheel s)\<lparr>tvroot := (tvroot (cl_wheel s))[i := []]\<rparr>\<rparr>))"
    by (simp add: Client_Tick_def Let_def s1_def i_def)
  show "attempts_ok s1 L k r" using assms(1) by (simp add: s1_def attempts_ok_def wheel_lens_def keys_used_def)
  have "i < 256" unfolding i_def by (rule FIRST_INDEX_less)
  then show "length (tvroot (cl_wheel s) ! i) = L ! i" using L len nth_map [of i "tvroot (cl_wheel s)" length] by simp
qed

lemma attempts_clear:
  assumes "attempts_ok s L k r"
  shows "attempts_ok (s\<lparr>cl_wheel := (cl_wheel s)\<lparr>tvroot := (tvroot (cl_wheel s))[i := []]\<rparr>\<rparr>) (L[i := 0]) k r"
  using assms by (auto simp: attempts_ok_def wheel_lens_def keys_used_def map_update)

lemma mod_turn: "(i + d) mod 256 = i \<Longrightarrow> (i :: nat) < 256 \<Longrightarrow> d < 256 \<Longrightarrow> d = 0"
proof (cases "i + d < 256")
  case False
  assume a: "(i + d) mod 256 = i" "i < 256" "d < 256"
  have "(i + d) mod 256 = (i + d - 256) mod 256" using False by (simp add: le_mod_geq)
  also have "\<dots> = i + d - 256" using a(2,3) False by (intro mod_less) linarith
  finally show "d = 0" using a False by linarith
qed simp

lemma Client_Tick_quiet:
  assumes "attempts_ok s (pending s d) k r" and "d \<noteq> 1" and "d < 256"
  shows "\<exists>s'. Client_Tick junk net s = (Inr (), s') \<and> attempts_ok s' (pending s' (d - 1)) k r"
proof -
  define s1 where "s1 = s\<lparr>cl_wheel := (cl_wheel s)\<lparr>currenttime := currenttime (cl_wheel s) + 1\<rparr>\<rparr>"
  define c where "c = FIRST_INDEX (currenttime (cl_wheel s))"
  define i where "i = FIRST_INDEX (currenttime (cl_wheel s1))"
  have i: "i = (c + 1) mod 256" "i < 256"
    unfolding i_def c_def s1_def by (simp_all add: FIRST_INDEX_Suc FIRST_INDEX_less)
  have at: "(c + d) mod 256 = (i + (d - 1)) mod 256" if "d \<noteq> 0"
  proof -
    from that obtain e where "d = Suc e" by (cases d) simp_all
    then show ?thesis using mod_add_left_eq [of "c + 1" 256 e] by (simp add: i(1))
  qed
  have same: "pending s d = pending s1 (d - 1)"
  proof (cases "d = 0")
    case False
    then have "d - 1 \<noteq> 0" using assms(2) by simp
    then show ?thesis using at [OF False] False unfolding pending_def c_def [symmetric] i_def [symmetric] by (simp only: if_False)
  qed (simp add: pending_def)
  have zero: "pending s1 (d - 1) ! i = 0"
  proof (cases "d - 1 = 0")
    case False
    then have "(i + (d - 1)) mod 256 \<noteq> i" using mod_turn [of i "d - 1"] i(2) assms(3) by (meson less_imp_diff_less)
    then show ?thesis using False i(2) unfolding pending_def i_def [symmetric] by simp
  qed (simp add: pending_def i(2))
  then have "pending s d ! i = 0" by (simp add: same)
  then have none: "tvroot (cl_wheel s) ! i = []"
    using Client_Tick_calls(3) [OF assms(1)] by (simp add: s1_def i_def)
  have "Client_Tick junk net s = (Inr (), s1\<lparr>cl_wheel := (cl_wheel s1)\<lparr>tvroot := (tvroot (cl_wheel s1))[i := []]\<rparr>\<rparr>)"
    using Client_Tick_calls(1) [OF assms(1), of junk net] none unfolding s1_def [symmetric] i_def [symmetric] by simp
  moreover have "(pending s1 (d - 1))[i := 0] = pending s1 (d - 1)" using zero list_update_id by metis
  moreover have "attempts_ok s1 (pending s1 (d - 1)) k r"
    using Client_Tick_calls(2) [OF assms(1)] unfolding s1_def [symmetric] same .
  ultimately show ?thesis
    using attempts_clear [of s1 "pending s1 (d - 1)" k r i] by (auto simp: pending_def)
qed

lemma Client_Tick_fires:
  assumes "refusing net" and "attempts_ok s (pending s 1) k r" and "0 < r" and "r \<le> 48"
  shows "\<exists>s'. Client_Tick junk net s = (Inr (), s') \<and>
    (if r = 48 then attempts_ok s' (pending s' 0) (Suc k) 48 else attempts_ok s' (pending s' (nat r)) (Suc k) (min (2 * r) 48))"
proof -
  define s1 where "s1 = s\<lparr>cl_wheel := (cl_wheel s)\<lparr>currenttime := currenttime (cl_wheel s) + 1\<rparr>\<rparr>"
  define i where "i = FIRST_INDEX (currenttime (cl_wheel s1))"
  have i: "i = (FIRST_INDEX (currenttime (cl_wheel s)) + 1) mod 256" "i < 256"
    unfolding i_def s1_def by (simp_all add: FIRST_INDEX_Suc FIRST_INDEX_less)
  define L where "L = (replicate 256 0 :: nat list)[i := 1]"
  have L: "pending s 1 = L" by (simp add: pending_def L_def i(1))
  have ok1: "attempts_ok s1 L k r" using Client_Tick_calls(2) [OF assms(2)] unfolding s1_def [symmetric] L .
  have "length (tvroot (cl_wheel s) ! i) = 1"
    using Client_Tick_calls(3) [OF assms(2)] i(2) unfolding s1_def [symmetric] i_def [symmetric] L by (simp add: L_def)
  then obtain x where x: "tvroot (cl_wheel s) ! i = [x]" by (auto simp: length_Suc_conv)
  have run: "Client_Tick junk net s = bindc (Connect junk net s1) (\<lambda>_ s.
      (Inr (), s\<lparr>cl_wheel := (cl_wheel s)\<lparr>tvroot := (tvroot (cl_wheel s))[i := []]\<rparr>\<rparr>))"
    using Client_Tick_calls(1) [OF assms(2), of junk net] x unfolding s1_def [symmetric] i_def [symmetric]
    by (simp add: bindc_def split: prod.splits sum.splits)
  show ?thesis
  proof (cases "r = 48")
    case True
    obtain s2 where s2: "Connect junk net s1 = (Inr (), s2)" "attempts_ok s2 L (Suc k) 48"
      using Connect_last [OF assms(1)] ok1 True by blast
    have "L[i := 0] = pending s' 0" for s'
      using i(2) by (intro nth_equalityI) (auto simp: L_def pending_def nth_list_update)
    then show ?thesis using run s2(1) attempts_clear [OF s2(2), of i] True by auto
  next
    case False
    then have r: "r < 48" using assms(4) by simp
    define j where "j = (i + nat r) mod 256"
    have "nat r < 256" "nat r \<noteq> 0" using r assms(3) by linarith+
    then have ij: "j \<noteq> i" "j < 256" using mod_turn [of i "nat r"] i(2) by (auto simp: j_def)
    obtain s2 where s2: "Connect junk net s1 = (Inr (), s2)" "attempts_ok s2 (L[j := L ! j + 1]) (Suc k) (min (2 * r) 48)"
      "currenttime (cl_wheel s2) = currenttime (cl_wheel s1)"
      using Connect_again [OF assms(1) ok1 assms(3) r, of junk] unfolding i_def [symmetric] j_def [symmetric] by blast
    define s3 where "s3 = s2\<lparr>cl_wheel := (cl_wheel s2)\<lparr>tvroot := (tvroot (cl_wheel s2))[i := []]\<rparr>\<rparr>"
    have "FIRST_INDEX (currenttime (cl_wheel s3)) = i" using s2(3) by (simp add: s3_def i_def)
    then have "pending s3 (nat r) = (replicate 256 0)[j := 1]" using assms(3) by (simp add: pending_def j_def)
    also have "\<dots> = (L[j := L ! j + 1])[i := 0]"
      using ij i(2) by (intro nth_equalityI) (auto simp: L_def nth_list_update)
    finally show ?thesis using run s2(1) attempts_clear [OF s2(2), of i] False by (auto simp: s3_def)
  qed
qed

fun client_ticks :: "8 word \<Rightarrow> (nat \<Rightarrow> int \<times> int) \<Rightarrow> nat \<Rightarrow> client \<Rightarrow> (client, unit) cpp" where
  "client_ticks junk net 0 s = (Inr (), s)"
| "client_ticks junk net (Suc n) s = bindc (client_ticks junk net n s) (\<lambda>_ s. Client_Tick junk net s)"

text \<open>After \<open>n\<close> ticks: \<open>k\<close> attempts were made, the next one is due after \<open>d\<close> ticks.\<close>

definition schedule_ok :: "client \<Rightarrow> nat \<Rightarrow> nat \<Rightarrow> nat \<Rightarrow> bool" where
  "schedule_ok s n k d \<longleftrightarrow>
     attempts_ok s (pending s d) k (min (2 ^ k) 48) \<and> 1 \<le> k \<and>
     (if d = 0 then k = 7 \<and> 63 \<le> n else k \<le> 6 \<and> n + d + 1 = 2 ^ k \<and> 2 ^ (k - 1) \<le> n + 1)"

lemma schedule_tick:
  assumes "refusing net" and "schedule_ok s n k d"
  shows "\<exists>s' k' d'. Client_Tick junk net s = (Inr (), s') \<and> schedule_ok s' (Suc n) k' d'"
proof (cases "d = 1")
  case False
  have "k \<le> 6 \<Longrightarrow> (2 :: nat) ^ k \<le> 2 ^ 6" by (rule power_increasing) simp_all
  then have "d < 256" using assms(2) by (auto simp: schedule_ok_def split: if_splits)
  then obtain s' where "Client_Tick junk net s = (Inr (), s')" "attempts_ok s' (pending s' (d - 1)) k (min (2 ^ k) 48)"
    using Client_Tick_quiet [of s d k "min (2 ^ k) 48" junk net] False assms(2) unfolding schedule_ok_def by blast
  then show ?thesis using assms(2) False
    by (intro exI [of _ s'] exI [of _ k] exI [of _ "d - 1"]) (auto simp: schedule_ok_def split: if_splits)
next
  case True
  have k: "1 \<le> k" "k \<le> 6" "n + 2 = 2 ^ k" and ok: "attempts_ok s (pending s 1) k (min (2 ^ k) 48)"
    using assms(2) True by (auto simp: schedule_ok_def)
  have r: "(0 :: int) < min (2 ^ k) 48" "min (2 ^ k) 48 \<le> (48 :: int)" by simp_all
  obtain s' where s': "Client_Tick junk net s = (Inr (), s')"
    "if min (2 ^ k) 48 = (48 :: int) then attempts_ok s' (pending s' 0) (Suc k) 48
     else attempts_ok s' (pending s' (nat (min (2 ^ k) 48))) (Suc k) (min (2 * min (2 ^ k) 48) 48)"
    using Client_Tick_fires [OF assms(1) ok r] by blast
  consider "k = 6" | "k \<le> 5" using k(2) by linarith
  then show ?thesis
  proof cases
    case 1
    then show ?thesis using s' k(3) by (intro exI [of _ s'] exI [of _ 7] exI [of _ 0]) (simp add: schedule_ok_def)
  next
    case 2
    then have p: "(2 :: int) ^ k \<le> 2 ^ 5" by (intro power_increasing) simp_all
    have "nat (min (2 ^ k) 48) = 2 ^ k" using p by (simp add: nat_power_eq)
    then have "schedule_ok s' (Suc n) (Suc k) (2 ^ k)" using s'(2) p k 2
      by (auto simp: schedule_ok_def min_def nat_power_eq split: if_splits)
    then show ?thesis using s'(1) by blast
  qed
qed

section \<open>The registration of the channel\<close>

fun call_fd :: "sys_call \<Rightarrow> int" where
  "call_fd (Epoll_add fd m) = fd"
| "call_fd (Epoll_mod fd m) = fd"
| "call_fd (Epoll_del fd) = fd"
| "call_fd (Close_fd fd) = fd"
| "call_fd (Delivered fd) = fd"

text \<open>A step that leaves the registration of \<open>chan\<close> alone.\<close>

definition leaves :: "int \<Rightarrow> client \<Rightarrow> client \<Rightarrow> bool" where
  "leaves chan s s' \<longleftrightarrow>
     cl_channel s' = cl_channel s \<and> cl_timerfd s' = cl_timerfd s \<and> (chan \<notin> dom (Sockers s) \<longrightarrow> chan \<notin> dom (Sockers s')) \<and>
     (\<exists>cs. cl_calls s' = cl_calls s @ cs \<and> (\<forall>c \<in> set cs. call_fd c \<noteq> chan))"

lemma leaves_refl [simp]: "leaves chan s s"
  by (simp add: leaves_def)

lemma leaves_trans [trans]: "leaves chan s s' \<Longrightarrow> leaves chan s' s'' \<Longrightarrow> leaves chan s s''"
  unfolding leaves_def by (elim conjE exE, intro conjI) (auto simp: ball_Un)

lemma leaves_call:
  assumes "call_fd c \<noteq> chan" and "cl_calls s' = cl_calls s @ [c]" and "cl_channel s' = cl_channel s"
    and "cl_timerfd s' = cl_timerfd s" and "Sockers s' = Sockers s"
  shows "leaves chan s s'"
  using assms by (simp add: leaves_def)

lemma leaves_same:
  "cl_calls s' = cl_calls s \<Longrightarrow> cl_channel s' = cl_channel s \<Longrightarrow> cl_timerfd s' = cl_timerfd s \<Longrightarrow>
    chan \<notin> dom (Sockers s') \<or> dom (Sockers s') \<subseteq> dom (Sockers s) \<Longrightarrow> leaves chan s s'"
  by (auto simp: leaves_def)

lemma leaves_bindc:
  assumes "leaves chan s (snd m)" and "\<And>a. leaves chan (snd m) (snd (f a (snd m)))"
  shows "leaves chan s (snd (bindc m f))"
  using assms by (cases m; cases "fst m") (auto simp: bindc_def intro: leaves_trans)

lemma leaves_ResetEventfd: "leaves chan s (snd (ResetEventfd junk D s))"
  by (auto simp: ResetEventfd_def Let_def split: prod.splits sum.splits intro!: leaves_same)

lemma leaves_retry:
  assumes "fd \<noteq> chan"
  shows "leaves chan s (snd (retry junk fd s))"
proof -
  define t where "t = (close_fd fd s)\<lparr>cn_socket := - 1, cn_states := kDisconnected\<rparr>"
  have "leaves chan s t" by (rule leaves_call [of "Close_fd fd"]) (simp_all add: t_def close_fd_def assms)
  moreover have "leaves chan t (snd (bindc (ResetEventfd junk d t) (\<lambda>_ s. (Inr (), s\<lparr>retryDelayMs := f s\<rparr>))))" for d f
    by (rule leaves_bindc [OF leaves_ResetEventfd]) (simp add: leaves_same)
  ultimately show ?thesis unfolding retry_def Let_def t_def [symmetric] by (auto intro: leaves_trans)
qed

lemma leaves_Connect:
  assumes "\<forall>t. fst (net t) \<noteq> chan"
  shows "leaves chan s (snd (Connect junk net s))"
proof -
  obtain fd e where n: "net (cl_tries s) = (fd, e)" by (cases "net (cl_tries s)")
  then have fd: "fd \<noteq> chan" using assms by (metis fst_conv)
  define t where "t = s\<lparr>cl_tries := cl_tries s + 1, cn_socket := fd\<rparr>"
  have "leaves chan s t" by (rule leaves_same) (simp_all add: t_def)
  moreover have "leaves chan t (Connecting fd t)"
    by (rule leaves_call [of "Epoll_add fd EpollCanWite"]) (simp_all add: fd Connecting_def Epoll_Add_def EpollEvent_of_def)
  moreover have "leaves chan t (close_fd fd t)" by (rule leaves_call [of "Close_fd fd"]) (simp_all add: fd close_fd_def)
  ultimately show ?thesis using leaves_retry [OF fd, of t junk] leaves_trans
    unfolding Connect_def n prod.case Let_def t_def [symmetric] by (auto split: if_splits)
qed

lemma leaves_Client_Tick:
  assumes "\<forall>t. fst (net t) \<noteq> chan"
  shows "leaves chan s (snd (Client_Tick junk net s))"
proof -
  have calls: "leaves chan s (snd (call_timers junk net xs s))" for xs s
    by (induction xs arbitrary: s) (auto intro!: leaves_bindc leaves_Connect [OF assms])
  have wheel: "leaves chan s (s\<lparr>cl_wheel := w\<rparr>)" for s w by (rule leaves_same) simp_all
  show ?thesis unfolding Client_Tick_def Let_def
    by (auto split: prod.splits sum.splits intro!: leaves_bindc wheel intro: leaves_trans [OF wheel calls])
qed

lemma leaves_HandleWrite:
  assumes "fd \<noteq> chan"
  shows "leaves chan s (snd (HandleWrite junk inp fd s))"
proof -
  define t where "t = s\<lparr>cn_states := kConnected\<rparr>"
  have "leaves chan s ((SetFd_inSockers fd t)\<lparr>retryDelayMs := KInitRetryDelayMs\<rparr>)"
    using assms by (auto simp: leaves_def t_def SetFd_inSockers_def Let_def close_fd_def Epoll_Add_def EpollEvent_of_def)
  then show ?thesis using leaves_retry [OF assms] by (auto simp: HandleWrite_def t_def [symmetric])
qed

text \<open>What \<open>begin\<close> gives is one of the sockets, so not a descriptor that is none of them.\<close>

definition chooses :: "(int set \<Rightarrow> int) \<Rightarrow> int \<Rightarrow> bool" where
  "chooses begin_of chan \<longleftrightarrow> (\<forall>A. A \<noteq> {} \<and> chan \<notin> A \<longrightarrow> begin_of A \<noteq> chan)"

lemma leaves_run_pushed: "leaves chan s (snd (run_pushed k s)) \<and> Sockers (snd (run_pushed k s)) = Sockers s"
proof (induction k arbitrary: s)
  case (Suc k)
  show ?case
  proof (cases "cl_Events s")
    case (Cons e es)
    define t where "t = s\<lparr>cl_Events := es, cl_written := cl_written s @ [e]\<rparr>"
    have "leaves chan s t" by (rule leaves_same) (simp_all add: t_def)
    then show ?thesis using Suc.IH [of t] leaves_trans Cons by (auto simp: t_def)
  qed simp
qed simp

lemma leaves_handle_channel:
  assumes "chooses begin_of chan" and "chan \<notin> dom (Sockers s)"
  shows "leaves chan s (snd (handle_channel begin_of s))"
proof -
  have pop: "leaves chan s (snd (RunAndPop s))" "Sockers (snd (RunAndPop s)) = Sockers s"
    using leaves_run_pushed [of chan "s\<lparr>cl_counter := 0\<rparr>" "cl_counter s"]
      leaves_trans [OF leaves_same [of "s\<lparr>cl_counter := 0\<rparr>" s chan], of "snd (RunAndPop s)"]
    by (auto simp: RunAndPop_def)
  have "leaves chan t (rearm (begin_of (dom (Sockers t))) t)" if "Sockers t = Sockers s" "Sockers s \<noteq> Map.empty" for t
  proof -
    have "begin_of (dom (Sockers t)) \<noteq> chan" using assms that unfolding chooses_def by (metis dom_eq_empty_conv)
    then show ?thesis
      by (intro leaves_call [of "Epoll_mod (begin_of (dom (Sockers t))) EpollCanRead"])
        (simp_all add: rearm_def Epoll_Modify_def EpollEvent_of_def)
  qed
  then show ?thesis unfolding handle_channel_def
    by (intro leaves_bindc [OF pop(1)]) (use pop(2) in \<open>auto split: if_splits\<close>)
qed

lemma leaves_client_event:
  assumes "chooses begin_of chan" and "\<forall>t. fst (net t) \<noteq> chan" and "cl_channel s = chan" and "cl_timerfd s \<noteq> chan"
    and "chan \<notin> dom (Sockers s)" and "client_event junk net begin_of uninit inp item s = Some m"
  shows "leaves chan s (snd m)"
proof -
  let ?fd = "Return_fd item"
  have tick: "leaves chan s (snd (bindc (Client_Tick junk net s) (\<lambda>_ s. (Inr (), rearm (cl_timerfd s) s))))"
  proof (rule leaves_bindc [OF leaves_Client_Tick [OF assms(2)]])
    let ?t = "snd (Client_Tick junk net s)"
    have "cl_timerfd ?t \<noteq> chan" using leaves_Client_Tick [OF assms(2), of s junk] assms(4) by (simp add: leaves_def)
    then show "leaves chan ?t (snd (Inr (), rearm (cl_timerfd ?t) ?t))"
      by (intro leaves_call [of "Epoll_mod (cl_timerfd ?t) EpollCanRead"]) (simp_all add: rearm_def Epoll_Modify_def EpollEvent_of_def)
  qed
  have remove: "leaves chan s (snd (Client_Remove ?fd s))" if "?fd \<noteq> chan"
    using that by (auto simp: Client_Remove_def Let_def leaves_def close_fd_def Epoll_Remove_def EpollEvent_of_def)
  have read: "leaves chan s (snd m)" if "client_read uninit (ci_recv inp) ?fd s = Some m" "?fd \<noteq> chan"
    using that assms(5) by (auto simp: client_read_def Let_def split: option.splits sum.splits prod.splits intro!: leaves_same)
  consider "?fd = cl_timerfd s" | "?fd = chan" "?fd \<noteq> cl_timerfd s" | "?fd \<noteq> chan" "?fd \<noteq> cl_timerfd s" by blast
  then show ?thesis
  proof cases
    case 1
    then show ?thesis using tick assms(6) by (auto simp: client_event_def Let_def)
  next
    case 2
    then show ?thesis using leaves_handle_channel [OF assms(1,5)] assms(3,6) by (auto simp: client_event_def Let_def)
  next
    case 3
    then show ?thesis using assms(3,6) remove read leaves_HandleWrite [of ?fd chan s junk inp]
      by (auto simp: client_event_def Let_def split: if_splits)
  qed
qed

lemma watched_leaves:
  assumes "leaves chan s s'"
  shows "watched (cl_calls s') chan = watched (cl_calls s) chan"
proof -
  have "fold watched_step cs W chan = W chan" if "\<forall>c \<in> set cs. call_fd c \<noteq> chan" for cs W
    using that
  proof (induction cs arbitrary: W)
    case (Cons c cs)
    have "watched_step c W chan = W chan" using Cons.prems by (cases c) (auto split: option.splits)
    then show ?case using Cons by simp
  qed simp
  then show ?thesis using assms by (auto simp: leaves_def watched_append)
qed

text \<open>The channel is registered, but disabled.\<close>

definition channel_off :: "int \<Rightarrow> client \<Rightarrow> bool" where
  "channel_off chan s \<longleftrightarrow>
     cl_channel s = chan \<and> cl_timerfd s \<noteq> chan \<and> chan \<notin> dom (Sockers s) \<and> watched (cl_calls s) chan = Some 0"

lemma channel_off_leaves: "channel_off chan s \<Longrightarrow> leaves chan s s' \<Longrightarrow> channel_off chan s'"
  using watched_leaves [of chan s s'] unfolding channel_off_def by (auto simp: leaves_def)

lemma channel_off_deliver:
  assumes "channel_off chan s"
  shows "channel_off chan (client_deliver a s)"
proof -
  have "fold watched_step (map (\<lambda>e. Delivered (Return_fd e)) es) W chan = Some 0" if "W chan = Some 0" for es W
    using that
  proof (induction es arbitrary: W)
    case (Cons e es)
    have "watched_step (Delivered (Return_fd e)) W chan = Some 0" using Cons.prems by (auto split: option.splits)
    then show ?case using Cons.IH by simp
  qed simp
  then show ?thesis using assms by (auto simp: channel_off_def client_deliver_def watched_append split: wait_answer.splits)
qed

lemma channel_off_events:
  assumes "chooses begin_of chan" and "\<forall>t. fst (net t) \<noteq> chan" and "channel_off chan s"
    and "client_events junk net begin_of uninit ins i r s = Some m"
  shows "channel_off chan (snd m)"
  using assms
proof (induction junk net begin_of uninit ins i r s rule: client_events.induct)
  case (1 junk net begin_of uninit ins i r s)
  show ?case
  proof (cases "i < Available_length r")
    case False
    then show ?thesis using "1.prems"(3,4) by (auto simp: client_events.simps)
  next
    case True
    show ?thesis
    proof (cases "er_at i r")
      case (Inl e)
      then show ?thesis using "1.prems"(3,4) True by (auto simp: client_events.simps)
    next
      case (Inr item)
      obtain m' where m': "client_event junk net begin_of uninit (ins i) item s = Some m'"
        using "1.prems"(4) True Inr by (cases "client_event junk net begin_of uninit (ins i) item s") (simp_all add: client_events.simps)
      have "leaves chan s (snd m')"
        by (rule leaves_client_event [OF "1.prems"(1,2) _ _ _ m']) (use "1.prems"(3) in \<open>auto simp: channel_off_def\<close>)
      then have off: "channel_off chan (snd m')" by (rule channel_off_leaves [OF "1.prems"(3)])
      obtain x s' where x: "m' = (x, s')" by (cases m')
      show ?thesis
      proof (cases x)
        case (Inl e)
        then show ?thesis using "1.prems"(4) True \<open>er_at i r = Inr item\<close> m' x off by (simp add: client_events.simps)
      next
        case (Inr u)
        then have "client_events junk net begin_of uninit ins (i + 1) r s' = Some m"
          using "1.prems"(4) True \<open>er_at i r = Inr item\<close> m' x by (simp add: client_events.simps)
        then show ?thesis using "1.IH" [OF _ \<open>er_at i r = Inr item\<close> m' x [symmetric] Inr] True "1.prems"(1,2) off x by simp
      qed
    qed
  qed
qed

lemma client_turn_events:
  assumes "client_turn junk net begin_of uninit ins a (r, s) = Some m"
  shows "\<exists>m'. client_events junk net begin_of uninit ins 0 (Epoll_Wait a r) (client_deliver a s) = Some m' \<and> snd m = snd m'"
proof -
  obtain m' where m': "client_events junk net begin_of uninit ins 0 (Epoll_Wait a r) (client_deliver a s) = Some m'"
    "m = bindc m' (\<lambda>_ s. (Inr (Epoll_Wait a r), s))"
    using assms by (auto simp: client_turn_def Let_def)
  then have "snd m = snd m'" by (cases m'; cases "fst m'") auto
  then show ?thesis using m'(1) by blast
qed

text \<open>Turns of the loop, up to one that fails.\<close>

fun client_turns ::
  "8 word \<Rightarrow> (nat \<Rightarrow> int \<times> int) \<Rightarrow> (int set \<Rightarrow> int) \<Rightarrow> (nat \<Rightarrow> char) \<Rightarrow> ((nat \<Rightarrow> client_input) \<times> wait_answer) list \<Rightarrow> EpollEvent_Result \<times> client
    \<Rightarrow> ((client, EpollEvent_Result) cpp) option" where
  "client_turns junk net begin_of uninit [] (r, s) = Some (Inr r, s)"
| "client_turns junk net begin_of uninit ((ins, a) # ts) (r, s) =
     (case client_turn junk net begin_of uninit ins a (r, s) of
        None \<Rightarrow> None
      | Some (Inl e, s) \<Rightarrow> Some (Inl e, s)
      | Some (Inr r, s) \<Rightarrow> client_turns junk net begin_of uninit ts (r, s))"

lemma channel_off_turns:
  assumes "chooses begin_of chan" and "\<forall>t. fst (net t) \<noteq> chan" and "channel_off chan s"
    and "client_turns junk net begin_of uninit ts (r, s) = Some m"
  shows "channel_off chan (snd m)"
  using assms(3,4)
proof (induction ts arbitrary: r s)
  case (Cons t ts)
  obtain ins a where t: "t = (ins, a)" by (cases t)
  obtain m1 where m1: "client_turn junk net begin_of uninit ins a (r, s) = Some m1"
    using Cons.prems(2) t by (cases "client_turn junk net begin_of uninit ins a (r, s)") simp_all
  obtain m2 where m2: "client_events junk net begin_of uninit ins 0 (Epoll_Wait a r) (client_deliver a s) = Some m2" "snd m1 = snd m2"
    using client_turn_events [OF m1] by blast
  have off: "channel_off chan (snd m1)"
    using channel_off_events [OF assms(1,2) channel_off_deliver [OF Cons.prems(1)] m2(1)] m2(2) by simp
  obtain x s1 where x: "m1 = (x, s1)" by (cases m1)
  show ?case
  proof (cases x)
    case (Inl e)
    then show ?thesis using Cons.prems(2) t m1 x off by simp
  next
    case (Inr r1)
    then show ?thesis using Cons.IH [of s1 r1] Cons.prems(2) t m1 x off by simp
  qed
qed auto

section \<open>A connection that is refused later\<close>

text \<open>
  When the server does not run, the kernel reports a hang-up for the socket that is connecting. It is not among the
  connected ones, and the exception of \<open>Remove\<close> ends the loop.
\<close>

lemma refused_socket_ends_client:
  assumes "Return_fd item \<noteq> cl_timerfd s" and "Return_fd item \<noteq> cl_channel s" and "check item EETRDHUP" and "Return_fd item \<notin> dom (Sockers s)"
    and "0 < length (er_array r)"
  shows "\<exists>s'. client_turn junk net begin_of uninit ins (Ready [item]) (r, s) = Some (Inl Logic_error, s')"
proof -
  have "er_at 0 (Epoll_Wait (Ready [item]) r) = Inr item" using Epoll_Wait_at [of "[item]" r 0] assms(5) by simp
  moreover have "Available_length (Epoll_Wait (Ready [item]) r) = 1" by (simp add: Epoll_Wait_def)
  moreover have "client_event junk net begin_of uninit (ins 0) item (client_deliver (Ready [item]) s) =
      Some (Inl Logic_error, client_deliver (Ready [item]) s)"
    using assms(1-4) by (simp add: client_event_def Client_Remove_def client_deliver_def dom_def)
  ultimately show ?thesis by (simp add: client_turn_def Let_def client_events.simps)
qed

text \<open>Between the two halves of \<open>push\<close> the loop finds the count without the function.\<close>

lemma push_half_done: "cl_Events s = [] \<Longrightarrow> \<exists>s'. RunAndPop (push_write s) = (Inl Bad_access, s')"
  by (simp add: RunAndPop_def push_write_def)

lemma pushed_in_order:
  assumes "cl_counter s = length (cl_Events s)"
  shows "RunAndPop s = (Inr (), s\<lparr>cl_counter := 0, cl_Events := [], cl_written := cl_written s @ cl_Events s\<rparr>)"
proof -
  have "run_pushed (length (cl_Events t)) t = (Inr (), t\<lparr>cl_Events := [], cl_written := cl_written t @ cl_Events t\<rparr>)" for t
  proof (induction "cl_Events t" arbitrary: t)
    case (Cons e es)
    then have "cl_Events t = e # es" by simp
    then show ?case using Cons.hyps(1) [of "t\<lparr>cl_Events := es, cl_written := cl_written t @ [e]\<rparr>"] by simp
  qed simp
  from this [of "s\<lparr>cl_counter := 0\<rparr>"] show ?thesis using assms by (simp add: RunAndPop_def)
qed

section \<open>Properties\<close>

text \<open>C37: While every attempt to connect is refused, the client waits 1, 2, 4, 8, 16 and 32 ticks of its wheel: after \<open>n\<close> ticks it has
  made as many attempts as the times 0, 1, 3, 7, 15, 31 and 63 that are reached, and never more than seven.\<close>

theorem retries_double:
  assumes "refusing net"
  shows "\<exists>s s'. Connect junk net (client_new timer chan) = (Inr (), s) \<and> client_ticks junk net n s = (Inr (), s') \<and>
    cl_tries s' = length (filter (\<lambda>t. t \<le> n) [0, 1, 3, 7, 15, 31, 63]) \<and> cn_states s' = kDisconnected"
proof -
  have "attempts_ok (client_new timer chan) (replicate 256 0) 0 1"
    by (simp add: attempts_ok_def client_new_def wheel_lens_def TimerWheel_new_def keys_used_def KInitRetryDelayMs_def)
  from Connect_again [OF assms this, of junk] obtain s where s: "Connect junk net (client_new timer chan) = (Inr (), s)"
    "attempts_ok s (pending s 1) 1 2"
    by (auto simp: pending_def)
  have "\<exists>s' k d. client_ticks junk net n s = (Inr (), s') \<and> schedule_ok s' n k d"
  proof (induction n)
    case 0
    have "schedule_ok s 0 1 1" using s(2) by (simp add: schedule_ok_def)
    then show ?case by auto
  next
    case (Suc n)
    then show ?case using schedule_tick [OF assms] by fastforce
  qed
  then obtain s' k d where r: "client_ticks junk net n s = (Inr (), s')" "schedule_ok s' n k d" by blast
  have "k \<in> {1, 2, 3, 4, 5, 6, 7}" using r(2) by (auto simp: schedule_ok_def split: if_splits)
  then have "k = length (filter (\<lambda>t. t \<le> n) [0, 1, 3, 7, 15, 31, 63])"
    using r(2) by (auto simp: schedule_ok_def split: if_splits)
  then show ?thesis using s(1) r by (auto simp: schedule_ok_def attempts_ok_def)
qed

theorem retries_double_witness:
  "\<exists>s s'. Connect 0 (\<lambda>t. (5, 111)) (client_new 3 4) = (Inr (), s) \<and> client_ticks 0 (\<lambda>t. (5, 111)) 10 s = (Inr (), s') \<and>
    cl_tries s' = 4"
proof -
  have "length (filter (\<lambda>t. t \<le> (10 :: nat)) [0, 1, 3, 7, 15, 31, 63]) = 4" by simp
  moreover have "refusing (\<lambda>t. (5, 111))" by (simp add: refusing_def errnos_retry_def)
  ultimately show ?thesis using retries_double [of "\<lambda>t. (5, 111)" 0 3 4 10] by metis
qed

text \<open>The descriptor of the channel is registered for one event, and its handler renews the registration of a socket instead: once an event of
  the channel was reported, whatever happens in any number of turns, the kernel never reports one again.\<close>

theorem channel_reports_once:
  assumes "chooses begin_of chan" and "\<forall>t. fst (net t) \<noteq> chan"
    and "cl_channel s = chan" and "cl_timerfd s \<noteq> chan" and "chan \<notin> dom (Sockers s)" and "watched (cl_calls s) chan = Some EpollCanRead"
    and "chan \<in> Return_fd ` set es"
    and "client_turns junk net begin_of uninit ((ins, Ready es) # ts) (r, s) = Some (x, s')"
  shows "watched (cl_calls s') chan = Some 0"
proof -
  have off: "W chan \<in> {Some EpollCanRead, Some 0} \<Longrightarrow>
      fold watched_step (map (\<lambda>e. Delivered (Return_fd e)) es) W chan = (if chan \<in> Return_fd ` set es then Some 0 else W chan)" for es W
  proof (induction es arbitrary: W)
    case (Cons e es)
    then show ?case using one_shot_masks(1) by (cases "Return_fd e = chan") (auto split: option.splits)
  qed simp
  have "channel_off chan (client_deliver (Ready es) s)"
    using off [of "watched (cl_calls s)" es] assms(3-7) by (simp add: channel_off_def client_deliver_def watched_append)
  moreover obtain m1 where m1: "client_turn junk net begin_of uninit ins (Ready es) (r, s) = Some m1"
    using assms(8) by (cases "client_turn junk net begin_of uninit ins (Ready es) (r, s)") simp_all
  moreover obtain m2 where "client_events junk net begin_of uninit ins 0 (Epoll_Wait (Ready es) r) (client_deliver (Ready es) s) = Some m2"
    "snd m1 = snd m2" using client_turn_events [OF m1] by blast
  ultimately have off1: "channel_off chan (snd m1)" using channel_off_events [OF assms(1,2)] by simp
  obtain y s1 where y: "m1 = (y, s1)" by (cases m1)
  show ?thesis
  proof (cases y)
    case (Inl e)
    then show ?thesis using assms(8) m1 y off1 by (simp add: channel_off_def)
  next
    case (Inr r1)
    then have "client_turns junk net begin_of uninit ts (r1, s1) = Some (x, s')" using assms(8) m1 y by simp
    then show ?thesis using channel_off_turns [OF assms(1,2), of s1] off1 y by (auto simp: channel_off_def)
  qed
qed

text \<open>A client that is connected by descriptor 7, whose channel has descriptor 4.\<close>

definition sample_client :: client where
  "sample_client = snd (SendToServer (\<lambda>A. 7) ''GET'' ((client_new 3 4)\<lparr>Sockers := [7 \<mapsto> Extrabuf_new]\<rparr>))"

definition sample_input :: "nat \<Rightarrow> client_input" where
  "sample_input i = \<lparr>ci_error = (0, 0, 0), ci_local = None, ci_peer = None, ci_recv = []\<rparr>"

theorem channel_reports_once_witness:
  "\<exists>x s. client_turns 0 (\<lambda>t. (5, 111)) (\<lambda>A. 7) (\<lambda>_. CHR 0x00)
      [(sample_input, Ready [EpollEvent_of 4 EETCOULDREAD]), (sample_input, Ready [])] (EpollEvent_Result_new 8, sample_client) = Some (x, s) \<and>
    cl_written s = [(7, ''GET'')] \<and> watched (cl_calls s) 4 = Some 0"
proof -
  have "\<exists>x s. client_turns 0 (\<lambda>t. (5, 111)) (\<lambda>A. 7) (\<lambda>_. CHR 0x00)
      [(sample_input, Ready [EpollEvent_of 4 EETCOULDREAD]), (sample_input, Ready [])] (EpollEvent_Result_new 8, sample_client) = Some (x, s) \<and>
    cl_written s = [(7, ''GET'')]"
    by (simp add: client_turn_def Let_def client_events.simps Epoll_Wait_def EpollEvent_Result_new_def er_at_def blit_def client_event_def
        EpollEvent_of_def sample_client_def SendToServer_def client_new_def client_deliver_def handle_channel_def RunAndPop_def
        push_queue_def push_write_def rearm_def eval_nat_numeral)
  then obtain x s where r: "client_turns 0 (\<lambda>t. (5, 111)) (\<lambda>A. 7) (\<lambda>_. CHR 0x00)
      [(sample_input, Ready [EpollEvent_of 4 EETCOULDREAD]), (sample_input, Ready [])] (EpollEvent_Result_new 8, sample_client) = Some (x, s)"
    "cl_written s = [(7, ''GET'')]" by blast
  have "cl_channel sample_client = 4" "cl_timerfd sample_client \<noteq> 4" "4 \<notin> dom (Sockers sample_client)"
    "watched (cl_calls sample_client) 4 = Some EpollCanRead" "4 \<in> Return_fd ` set [EpollEvent_of 4 EETCOULDREAD]"
    by (simp_all add: sample_client_def SendToServer_def client_new_def push_queue_def push_write_def Epoll_Add_def EpollEvent_of_def
        watched_def)
  from channel_reports_once [OF _ _ this r(1)] have "watched (cl_calls s) 4 = Some 0" by (simp add: chooses_def)
  then show ?thesis using r by blast
qed

end
