(* ===== verification/Server_Setup.thy ===== *)
theory Server_Setup
  imports Dispatch "HOL-Library.Signed_Division"
begin

text \<open>
  What the server does before its loop: \<open>src/src/net/address.cc\<close>, \<open>src/src/tool/timer.h\<close>,
  the constructor of \<open>src/src/tool/fileopen.h\<close>, \<open>FastCgi::Conection\<close>, \<open>src/src/client/eventfdWrapper.h\<close>, the options of \<open>src/src/server/server.h\<close> and \<open>server.cc\<close> and the beginning of
  \<open>Running\<close> in \<open>ws.cc\<close>. The kernel's options of a socket are a map from level and name to the value;
  \<open>inet_addr\<close> and the results of \<open>bind\<close> and \<open>listen\<close> are parameters.
\<close>

section \<open>Addresses and timers\<close>

text \<open>The bytes of \<open>sin_port\<close> in the order of the network.\<close>

record sockaddr_in =
  si_family :: int
  si_port :: "8 word list"
  si_addr :: "32 word"

definition htons :: "16 word \<Rightarrow> 8 word list" where
  "htons p = [ucast (drop_bit 8 p), ucast p]"

definition Address_new :: "(string \<Rightarrow> 32 word) \<Rightarrow> string \<Rightarrow> int \<Rightarrow> cpp_error + sockaddr_in" where
  "Address_new inet_addr IP port =
     (if port > 0 then Inr \<lparr>si_family = 2, si_port = htons (word_of_int port), si_addr = inet_addr IP\<rparr>
      else Inl Assertion_failed)"

text \<open>The constructor with a port alone.\<close>

definition Address_of_port :: "(string \<Rightarrow> 32 word) \<Rightarrow> int \<Rightarrow> cpp_error + sockaddr_in" where
  "Address_of_port inet_addr port = Address_new inet_addr ''127.0.0.1'' port"

record itimerspec =
  it_interval :: "int \<times> int"
  it_value :: "int \<times> int"

definition timer_base :: int where "timer_base = 1000000000"

text \<open>The argument of \<open>timerfd_settime\<close>, seconds and nanoseconds.\<close>

definition SetTimer :: "int \<Rightarrow> int \<Rightarrow> itimerspec" where
  "SetTimer intervalNanoseconds firstNanoseconds =
     \<lparr>it_interval = (intervalNanoseconds sdiv timer_base, intervalNanoseconds smod timer_base),
      it_value = (firstNanoseconds sdiv timer_base, firstNanoseconds smod timer_base)\<rparr>"

text \<open>\<open>FastCgi::Conection\<close>: the address is the one of the program behind FastCGI, \<open>connect\<close> a parameter.\<close>

definition Conection :: "(string \<Rightarrow> 32 word) \<Rightarrow> (sockaddr_in \<Rightarrow> int) \<Rightarrow> cpp_error + sockaddr_in" where
  "Conection inet_addr connect =
     (let ServerAddress = \<lparr>si_family = 2, si_port = htons 9000, si_addr = inet_addr ''127.0.0.1''\<rparr>; ret = connect ServerAddress in
      if ret \<ge> 0 then Inr ServerAddress else Inl Assertion_failed)"

section \<open>Event descriptors\<close>

text \<open>
  \<open>src/src/client/eventfdWrapper.h\<close>. By its documentation the kernel adds what is written to a counter, unless that would reach the largest number, and a
  read gives the counter and resets it, or fails when it is zero; then \<open>Read\<close> returns what its variable held before. \<open>Write\<close> gives no value.
\<close>

definition eventfd_write :: "64 word \<Rightarrow> 64 word \<Rightarrow> 64 word" where
  "eventfd_write para c = (if uint c + uint para < 2 ^ 64 - 1 then c + para else c)"

definition eventfd_read :: "64 word \<Rightarrow> 64 word option \<times> 64 word" where
  "eventfd_read c = (if c = 0 then (None, 0) else (Some c, 0))"

definition EventFdWrapper_Read :: "64 word \<Rightarrow> 64 word \<Rightarrow> 64 word \<times> 64 word" where
  "EventFdWrapper_Read junk c = (case eventfd_read c of (None, c) \<Rightarrow> (junk, c) | (Some howmany, c) \<Rightarrow> (howmany, c))"

definition EventFdWrapper_Write :: "64 word \<Rightarrow> 64 word \<Rightarrow> 64 word" where
  "EventFdWrapper_Write para c = eventfd_write para c"

section \<open>The descriptor in reserve\<close>

text \<open>\<open>O_EXCL\<close> with \<open>O_CREAT\<close> fails when the file exists; closing and opening it again are in \<open>Descriptor_Limit\<close>.\<close>

definition fileopen_new :: "bool \<Rightarrow> int \<Rightarrow> int" where
  "fileopen_new there fd = (if there then - 1 else fd)"

section \<open>Options of a socket\<close>

type_synonym sock_options = "int \<times> int \<rightharpoonup> int list"

definition SOL_SOCKET :: int where "SOL_SOCKET = 1"
definition SOL_TCP :: int where "SOL_TCP = 6"
definition SO_REUSEADDR :: int where "SO_REUSEADDR = 2"
definition SO_KEEPALIVE :: int where "SO_KEEPALIVE = 9"
definition SO_LINGER :: int where "SO_LINGER = 13"
definition SO_REUSEPORT :: int where "SO_REUSEPORT = 15"
definition TCP_NODELAY :: int where "TCP_NODELAY = 1"
definition TCP_CORK :: int where "TCP_CORK = 3"
definition TCP_DEFER_ACCEPT :: int where "TCP_DEFER_ACCEPT = 9"
definition TCP_QUICKACK :: int where "TCP_QUICKACK = 12"

lemmas option_names =
  SOL_SOCKET_def SOL_TCP_def SO_REUSEADDR_def SO_KEEPALIVE_def SO_LINGER_def SO_REUSEPORT_def TCP_NODELAY_def TCP_CORK_def
  TCP_DEFER_ACCEPT_def TCP_QUICKACK_def

text \<open>A value is the list of the integers that \<open>setsockopt\<close> is given.\<close>

definition setsockopt :: "int \<Rightarrow> int \<Rightarrow> int list \<Rightarrow> sock_options \<Rightarrow> sock_options" where
  "setsockopt level name v O' = O'((level, name) \<mapsto> v)"

definition Set_Socket :: "int \<Rightarrow> int \<Rightarrow> sock_options \<Rightarrow> sock_options" where
  "Set_Socket event_type level O' = setsockopt level event_type [0] O'"

definition Set_AddrRUseA :: "sock_options \<Rightarrow> sock_options" where "Set_AddrRUseA = Set_Socket SO_REUSEADDR SOL_SOCKET"
definition Set_AddrRUseP :: "sock_options \<Rightarrow> sock_options" where "Set_AddrRUseP = Set_Socket SO_REUSEPORT SOL_SOCKET"
definition Set_KeepAlive :: "sock_options \<Rightarrow> sock_options" where "Set_KeepAlive = Set_Socket SO_KEEPALIVE SOL_SOCKET"
definition Set_Nodelay :: "sock_options \<Rightarrow> sock_options" where "Set_Nodelay = Set_Socket TCP_NODELAY SOL_TCP"
definition Set_COPK :: "sock_options \<Rightarrow> sock_options" where "Set_COPK = Set_Socket TCP_CORK SOL_TCP"
definition Set_QuickAck :: "sock_options \<Rightarrow> sock_options" where "Set_QuickAck = Set_Socket TCP_QUICKACK SOL_TCP"
definition Base_Setting :: "sock_options \<Rightarrow> sock_options" where "Base_Setting = Set_Socket (TCP_NODELAY OR TCP_QUICKACK) SOL_TCP"

definition Set_Linger :: "sock_options \<Rightarrow> sock_options" where "Set_Linger = setsockopt SOL_SOCKET SO_LINGER [1, 0]"
definition Set_GracefullyClose :: "sock_options \<Rightarrow> sock_options" where "Set_GracefullyClose = setsockopt SOL_SOCKET SO_LINGER [1, 1]"
definition Server_DeferAccept :: "sock_options \<Rightarrow> sock_options" where "Server_DeferAccept = setsockopt SOL_TCP TCP_DEFER_ACCEPT [10]"

text \<open>The options that a \<open>Socket\<close> of its own sets, as the server's does.\<close>

definition Socket_SetNoDelay :: "sock_options \<Rightarrow> sock_options" where "Socket_SetNoDelay = setsockopt SOL_TCP TCP_NODELAY [1]"
definition Socket_SetKeepAlive :: "sock_options \<Rightarrow> sock_options" where "Socket_SetKeepAlive = setsockopt SOL_SOCKET SO_KEEPALIVE [1]"

definition Socket_options :: sock_options where
  "Socket_options = Socket_SetNoDelay (Socket_SetKeepAlive Map.empty)"

section \<open>The beginning of the server\<close>

definition Server_BindAndListen :: "int \<Rightarrow> int \<Rightarrow> cpp_error option" where
  "Server_BindAndListen para1 para2 =
     (if para1 = - 1 then Some Runtime_error else if para2 = - 1 then Some Runtime_error else None)"

text \<open>
  The first part of \<open>Running\<close>: the options of the listening socket, and the state of the loop unless
  binding or listening fails, which ends \<open>Running\<close> with a message.
\<close>

definition Running_setup :: "int \<Rightarrow> int \<Rightarrow> Server \<Rightarrow> int \<Rightarrow> nat \<Rightarrow> LoadBalance \<Rightarrow> sock_options \<times> (cpp_error + Web_Server \<times> itimerspec)" where
  "Running_setup para1 para2 sv timer hardware_concurrency lb =
     (let O1 = Base_Setting (Set_AddrRUseA Socket_options) in
      case Server_BindAndListen para1 para2 of
        Some e \<Rightarrow> (O1, Inl e)
      | None \<Rightarrow> (Server_DeferAccept O1, Inr (Running_start sv timer hardware_concurrency lb, SetTimer 100000000 200000000)))"

section \<open>What they do\<close>

lemma port_in_order:
  assumes "0 < port" and "port < 65536" and "Address_new inet_addr IP port = Inr a"
  shows "\<exists>hi lo. si_port a = [hi, lo] \<and> uint hi * 256 + uint lo = port"
proof -
  define p where "p = (word_of_int port :: 16 word)"
  have u: "uint p = port" using assms(1,2) by (simp add: p_def unsigned_of_int take_bit_int_eq_self)
  have "si_port a = [ucast (drop_bit 8 p), ucast p]" using assms(1,3) by (auto simp: Address_new_def htons_def p_def)
  moreover have "uint (ucast (drop_bit 8 p) :: 8 word) = port div 256"
  proof -
    have "uint (drop_bit 8 p) = port div 256" by (simp add: drop_bit_eq_div uint_div u)
    then show ?thesis using assms(1,2) by (simp add: unsigned_ucast_eq take_bit_int_eq_self del: drop_bit_eq_div)
  qed
  moreover have "uint (ucast p :: 8 word) = port mod 256" by (simp add: unsigned_ucast_eq u take_bit_eq_mod)
  ultimately show ?thesis by (intro exI conjI) (assumption, simp)
qed

text \<open>However often was written since the last read, a read gives the sum, and one without a write before gives what was in the variable.\<close>

lemma written_is_read:
  assumes "(\<Sum>p \<leftarrow> ps. uint p) < 2 ^ 64 - 1"
  shows "EventFdWrapper_Read junk (foldl (\<lambda>c p. EventFdWrapper_Write p c) 0 ps) = (if sum_list ps = 0 then junk else sum_list ps, 0)"
    "uint (sum_list ps) = (\<Sum>p \<leftarrow> ps. uint p)"
proof -
  have "foldl (\<lambda>c p. EventFdWrapper_Write p c) 0 ps = sum_list ps \<and> uint (sum_list ps) = (\<Sum>p \<leftarrow> ps. uint p)"
    using assms
  proof (induction ps rule: rev_induct)
    case (snoc p ps)
    have le: "0 \<le> uint p" "(\<Sum>p \<leftarrow> ps. uint p) + uint p < 2 ^ 64 - 1" using snoc.prems by simp_all
    then have IH: "foldl (\<lambda>c p. EventFdWrapper_Write p c) 0 ps = sum_list ps" "uint (sum_list ps) = (\<Sum>p \<leftarrow> ps. uint p)"
      using snoc.IH by linarith+
    have "0 \<le> (\<Sum>p \<leftarrow> ps. uint p)" using IH(2) by (metis unsigned_greater_eq)
    then have "((\<Sum>p \<leftarrow> ps. uint p) + uint p) mod 2 ^ 64 = (\<Sum>p \<leftarrow> ps. uint p) + uint p"
      using le by (intro mod_pos_pos_trivial) simp_all
    then show ?case using IH le by (simp add: EventFdWrapper_Write_def eventfd_write_def uint_word_ariths)
  qed simp
  then show "EventFdWrapper_Read junk (foldl (\<lambda>c p. EventFdWrapper_Write p c) 0 ps) = (if sum_list ps = 0 then junk else sum_list ps, 0)"
    "uint (sum_list ps) = (\<Sum>p \<leftarrow> ps. uint p)"
    by (simp_all add: EventFdWrapper_Read_def eventfd_read_def)
qed

lemma connected_to_fastcgi:
  "Conection inet_addr connect = Inr a \<Longrightarrow> Address_new inet_addr ''127.0.0.1'' 9000 = Inr a"
  by (simp add: Conection_def Address_new_def Let_def split: if_splits)

lemma timer_parts:
  "fst (it_interval (SetTimer i f)) * 1000000000 + snd (it_interval (SetTimer i f)) = i"
  "fst (it_value (SetTimer i f)) * 1000000000 + snd (it_value (SetTimer i f)) = f"
  by (simp_all add: SetTimer_def timer_base_def sdiv_mult_smod_eq)

text \<open>
  The server means to switch on the reuse of its address and to join two options in one call: the first is switched off, the second call names
  \<open>TCP_CONGESTION\<close>, the 13th option.
\<close>

lemma options_of_server:
  assumes "Running_setup para1 para2 sv timer n lb = (opts, r)"
  shows "opts (SOL_SOCKET, SO_REUSEADDR) = Some [0]" "opts (SOL_TCP, 13) = Some [0]" "opts (SOL_TCP, TCP_QUICKACK) = None"
    "opts (SOL_TCP, TCP_NODELAY) = Some [1]" "opts (SOL_SOCKET, SO_KEEPALIVE) = Some [1]"
  using assms
  by (auto simp: Running_setup_def Let_def Base_Setting_def Set_AddrRUseA_def Set_Socket_def setsockopt_def Socket_options_def
      Socket_SetNoDelay_def Socket_SetKeepAlive_def Server_DeferAccept_def option_names split: option.splits)

lemma running_needs_listening:
  "snd (Running_setup para1 para2 sv timer n lb) =
    (if para1 = - 1 \<or> para2 = - 1 then Inl Runtime_error else Inr (Running_start sv timer n lb, SetTimer 100000000 200000000))"
  by (simp add: Running_setup_def Server_BindAndListen_def Let_def)

end
