(* ===== verification/Support.thy ===== *)
theory Support
  imports Prelude
begin

text \<open>
  \<open>src/src/base/new_handler.h\<close>, handlers for a lack of memory that a class can have of its own, and the switch for the profiler in
  \<open>src/src/Web_Server.cc\<close>.
\<close>

section \<open>Handlers of a class\<close>

text \<open>The handler of the process, and the one of the class; null stands for none.\<close>

record 'h handlers =
  new_handler :: "'h option"
  Current_Hander :: "'h option"

definition set_new_handler :: "'h option \<Rightarrow> 'h handlers \<Rightarrow> 'h option \<times> 'h handlers" where
  "set_new_handler nh s = (new_handler s, s\<lparr>new_handler := nh\<rparr>)"

definition Set_new_handler :: "'h option \<Rightarrow> 'h handlers \<Rightarrow> 'h option \<times> 'h handlers" where
  "Set_new_handler nh s = (let oh = Current_Hander s in (oh, s\<lparr>Current_Hander := nh\<rparr>))"

text \<open>The destructor of \<open>NewhSupport\<close>, which has the handler \<open>nh\<close>.\<close>

definition NewhSupport_destroy :: "'h option \<Rightarrow> 'h handlers \<Rightarrow> 'h handlers" where
  "NewhSupport_destroy nh s = snd (set_new_handler nh s)"

text \<open>
  \<open>operator new\<close>: the allocation \<open>alloc\<close> is a parameter. It may call the handler, change the handlers, and throw; the destructor runs in
  every case.
\<close>

definition operator_new :: "('h handlers \<Rightarrow> (cpp_error + 'p) \<times> 'h handlers) \<Rightarrow> 'h handlers \<Rightarrow> (cpp_error + 'p) \<times> 'h handlers" where
  "operator_new alloc s =
     (case set_new_handler (Current_Hander s) s of (nh, s) \<Rightarrow>
        (case alloc s of (r, s) \<Rightarrow> (r, NewhSupport_destroy nh s)))"

text \<open>
  The allocation sees the handler of the class, and after it the process has its own again, also when the allocation
  failed or changed the handler.
\<close>

lemma operator_new_restores:
  assumes "operator_new alloc s = (r, s')"
  shows "new_handler s' = new_handler s"
    "\<exists>t'. alloc (s\<lparr>new_handler := Current_Hander s\<rparr>) = (r, t') \<and> Current_Hander s' = Current_Hander t'"
  using assms by (auto simp: operator_new_def set_new_handler_def NewhSupport_destroy_def split: prod.splits)

lemma Set_new_handler_next:
  assumes "Set_new_handler nh s = (oh, s1)" and "operator_new alloc s1 = (r, s2)"
  shows "new_handler s2 = new_handler s" "\<exists>t'. alloc (s\<lparr>Current_Hander := nh, new_handler := nh\<rparr>) = (r, t')"
  using operator_new_restores [OF assms(2)] assms(1) by (auto simp: Set_new_handler_def)

section \<open>The switch for the profiler\<close>

datatype profiler_call = ProfilerStart | ProfilerStop

definition SIGUSR1 :: int where "SIGUSR1 = 10"

text \<open>\<open>is_open\<close> is a static variable of the handler.\<close>

definition setGperfStatus :: "int \<Rightarrow> bool \<Rightarrow> profiler_call list \<times> bool" where
  "setGperfStatus signum is_open =
     (if signum \<noteq> SIGUSR1 then ([], is_open)
      else if \<not> is_open then ([ProfilerStart], True)
      else ([ProfilerStop], False))"

fun signals :: "int list \<Rightarrow> bool \<Rightarrow> profiler_call list \<times> bool" where
  "signals [] b = ([], b)"
| "signals (s # ss) b = (case setGperfStatus s b of (cs, b) \<Rightarrow> (case signals ss b of (cs', b) \<Rightarrow> (cs @ cs', b)))"

text \<open>Starts and stops alternate, beginning with a start.\<close>

fun alternate :: "bool \<Rightarrow> profiler_call list \<Rightarrow> bool" where
  "alternate b [] \<longleftrightarrow> True"
| "alternate b (c # cs) \<longleftrightarrow> c = (if b then ProfilerStop else ProfilerStart) \<and> alternate (\<not> b) cs"

lemma signals_alternate:
  "signals ss b = (cs, b') \<Longrightarrow> alternate b cs \<and> length cs = count_list ss SIGUSR1 \<and> (b' \<longleftrightarrow> b \<noteq> odd (count_list ss SIGUSR1))"
  by (induction ss arbitrary: b cs) (auto simp: setGperfStatus_def split: prod.splits if_splits)

end
