(* ===== verification/Spec2Isabelle.thy ===== *)
theory Spec2Isabelle
  imports Whole_Server Descriptor_Limit FastCgi Async_Logging Logging Hash_Map Queue_Test Client Server_Setup Support
begin

text \<open>
  This library models the web server under \<open>src/src\<close>: what arrives on a connection, how it is parsed and
  answered, how connections are spread over threads, the FastCGI client, the log and the small client program. Each
  definition has the name of the function it translates; names that clash with the library or with another
  class have a prefix of that class (\<open>UB_\<close> for \<open>UserBuffer\<close>, \<open>FB_\<close> for \<open>FixedBuffer\<close> and so on).

  \<^bold>\<open>Conventions\<close> (\<open>Prelude\<close>). An operation on an object of type \<open>'s\<close> has the type \<open>('s, 'a) cpp\<close>: it
  returns a value or a \<open>cpp_error\<close>, and the object as it is then, because an exception does not undo what was
  done before. \<open>cpp_error\<close> has the exceptions of the source and, apart from them (\<open>thrown\<close>), what C++
  leaves undefined or ends the process with: an access outside a block, a null pointer, an overflow of a signed number, a
  failed assertion. \<open>size_t\<close> is a natural number with \<open>size_add\<close> and \<open>size_sub\<close> that wrap at \<open>2^64\<close>;
  where a width matters the type is \<open>w word\<close>. A loop that may not end is \<open>partial_function (option)\<close> or
  returns an option, and \<open>None\<close> means that it is still running when the inputs end. The kernel's answers (\<open>recv\<close>,
  \<open>send\<close>, \<open>epoll_wait\<close>, \<open>accept4\<close>, \<open>connect\<close>, \<open>fwrite\<close>, the clock) are inputs, as lists or
  functions of a counter. Values that the code reads before it sets them are parameters called \<open>junk\<close> or \<open>uninit\<close>.

  \<^bold>\<open>A connection.\<close>
  \<^item> \<open>User_Buffer\<close>: \<open>tool/userbuffer\<close>, the buffer with a read and a write position. The locale \<open>byte_fifo\<close>
    states what a buffer of bytes promises; both forms of \<open>Write\<close> are interpretations of it.
  \<^item> \<open>Socket_Read\<close>: \<open>net/socket\<close>, the loop around \<open>recv\<close> and the overflow buffer \<open>Extrabuf\<close>.
  \<^item> \<open>Http_Status\<close>, \<open>Http_Request\<close>: \<open>http/httpstatus.h\<close>, \<open>http/parsed_header\<close>, \<open>http/httprequest\<close>, the
    working record of the parser, the table of header fields and the request.
  \<^item> \<open>Http_Parser\<close>: \<open>http/httpparser\<close>, one equation for each state of the machine, the loop over them and the entry
    point. \<open>Http_Parser_Safety\<close> has the invariant of each state and the termination, \<open>Http_Parser_Roundtrip\<close> the parsing of
    a printed request, \<open>Http_Theorems\<close> the properties.
  \<^item> \<open>Write_Loop\<close>, \<open>Write_Loop_Order\<close>: \<open>tool/writeloop\<close> and the opened files it sends, the queue of what is to
    be sent; the closures of the queue are a datatype of tasks. \<open>DoAll\<close> is compared with the bytes pending in order.
  \<^item> \<open>Mime_Table\<close>, \<open>Provider\<close>, \<open>Provider_Response\<close>: \<open>http/provider\<close>, content types, the head of a response, files, error pages. The
    locale \<open>text_sink\<close> is what the head of a response needs of the place it is written to.
  \<^item> \<open>Member\<close>, \<open>Member_Theorems\<close>: \<open>server/member\<close>, which composes all of these: \<open>DoRead\<close> receives, parses and answers,
    \<open>DoWrite\<close> sends.

  \<^item> \<open>Descriptors\<close>: \<open>tool/fileproxy\<close>, \<open>tool/filereader\<close> and \<open>net/socket\<close> on a table of descriptors: opening, \<open>stat\<close>, sending and
    closing. A reader sends its file once and in order; the reader of \<open>Write_Loop\<close> is the same with the bytes of the file in it.

  \<^bold>\<open>The server.\<close>
  \<^item> \<open>Timing_Wheel\<close>: \<open>tool/timing_wheel\<close>; the specification is a multiset of timers with the ticks they have left, which a tick
    implements while no distance of 256 ticks or more is asked for.
  \<^item> \<open>Epoll\<close>: \<open>net/epoll.h\<close>, \<open>epoll_event.h\<close> and \<open>epoll_event_result.h\<close>; the calls are recorded, and \<open>watched\<close>
    computes from them what the kernel watches.
  \<^item> \<open>Manger\<close>, \<open>Event_Loop\<close>: \<open>server/manger\<close>, \<open>server/channel\<close>, the connections of a worker and its loop.
    \<open>Worker_Serving\<close> composes the loop with the connections: what comes from the main thread, the requests of several
    connections in one batch, and peers that take a reply slowly. \<open>Whole_Server\<close> composes it with the main thread of \<open>Dispatch\<close>, from the
    connection that is accepted to its answer.
  \<^item> \<open>Load_Balance\<close>: \<open>tool/loadbalance\<close>, the weighted round robin and the exchange of the loads.
  \<^item> \<open>Dispatch\<close>: \<open>channel_helper\<close> of \<open>server/channel\<close>, \<open>server/server.cc\<close>, \<open>server/ws.cc\<close>, the main thread and the
    workers as an inductive relation of steps; the reachable states keep the invariant \<open>helper_inv\<close>.
  \<^item> \<open>Server_Setup\<close>: \<open>net/address\<close>, \<open>tool/timer.h\<close>, \<open>tool/fileopen.h\<close> and the socket options of \<open>server/server.h\<close>, event
    descriptors (\<open>client/eventfdWrapper.h\<close>). \<open>Descriptor_Limit\<close>: accepting when the numbers of descriptors run out, on the table
    of \<open>Descriptors\<close>.
  \<^item> \<open>FastCgi\<close>: \<open>FastCgi/\<close>, the records of a request and the reader of the answer. The decoder of the records is written from
    the rules of the protocol and not from the code.

  \<^bold>\<open>The queues between threads.\<close>
  \<^item> \<open>Lock_Free_Queue\<close>: \<open>tool/ThreadSafeQueue/lockfreequeue.h\<close>. Every access to shared memory is a step; a deleted node is not in the
    memory any more, and the addresses that \<open>new\<close> gives are a parameter: any that is not in use, that of a deleted node too. For any number of
    threads the queue is correct only if no address is given twice; the invariant \<open>system_ok\<close> has the list of all nodes ever linked, with the
    places of head and tail in it. For one thread that pushes and one that pops it is correct with every allocator; \<open>pair_ok\<close> has the list of
    the nodes from the head on. The load balance abstracts the queue to the list of its items.
  \<^item> \<open>Locked_Queues\<close>: \<open>basequeue.h\<close> and \<open>effectivequeue.h\<close>; both, and the lock-free queue called by one thread at a time, are
    interpretations of the locale \<open>fifo_queue\<close>; the threads of the second one.
  \<^item> \<open>Queue_Test\<close>: \<open>PerformenceTest.cc\<close>, ten threads on each queue. The locale \<open>accounted\<close> is what a queue promises so that the
    printed numbers add up (an interpretation for each queue with mutexes, and one for the number of items); the lock-free queue does not
    promise it, because its \<open>pop\<close> may write to its argument and return false (\<open>vain_pop_is_missed\<close>). \<open>progressing\<close> adds that the
    threads never wait for each other for ever; the queues with mutexes are interpretations of it. The number of calls of a thread is a parameter.

  \<^bold>\<open>The log.\<close>
  \<^item> \<open>Calendar\<close>, \<open>Time_Zone\<close>: \<open>log/date\<close>, \<open>log/timezone\<close>. Their numbers are 32-bit numbers, and an overflow is an
    error. The specification of a date is the number of steps from day to day since 1970, that of a zone the last transition not later than a time.
  \<^item> \<open>Log_Stream\<close>: \<open>log/Fixedbuffer.h\<close>, \<open>log/logstream\<close>, the output operators and the conversion of numbers.
  \<^item> \<open>Logging\<close>: \<open>log/timestamp\<close>, \<open>log/logging\<close>, the lines of the levels.
  \<^item> \<open>Log_File\<close>, \<open>Async_Logging\<close>: \<open>log/fileappend\<close>, \<open>log/logfile\<close>, \<open>log/asynclogging\<close>, the files and the thread that writes them. A
    step of \<open>Async_Logging\<close> is what a thread does under the mutex, or the writing of a batch; the size of the buffers is
    a parameter below \<open>2^32\<close>. The two parts of the log are not composed, because no program of the repository hands the second to
    \<open>setOutput\<close> of the first.
  \<^item> \<open>Hash_Map\<close>: \<open>log/ThreadSafe_hashmap.h\<close>, an interpretation of the locale \<open>keyed_table\<close>, whose clients see a finite map;
    \<open>value_of\<close> does not compile as it is written and is left out.

  \<^bold>\<open>The client.\<close> \<open>Client\<close>: \<open>client/\<close>, the connection with its retries, which uses the timing wheel, and the loop with
  its channel.

  \<^bold>\<open>The rest.\<close> \<open>Support\<close>: \<open>base/new_handler.h\<close> and the profiler's switch of \<open>Web_Server.cc\<close>.

  \<^bold>\<open>How they interact.\<close> The main thread (\<open>Dispatch\<close>) accepts a descriptor, chooses a worker by \<open>Load_Balance\<close> and wakes it; the worker
  (\<open>Event_Loop\<close>) registers it through \<open>Epoll\<close>, and its events call \<open>Manger\<close>, which owns a \<open>Member\<close> for each descriptor and the
  \<open>Timing_Wheel\<close>. A \<open>Member\<close> fills its \<open>UserBuffer\<close> by \<open>Socket_Read\<close>, parses, lets the provider queue the answer in its
  \<open>WriteLoop\<close>, and sends it on later events.

  \<^bold>\<open>What the properties show.\<close> A connection that is accepted gets the answer to its request, which may arrive in any pieces, parsing a printed
  request gives it back, the parser ends on every input, what is queued is sent in order when the socket takes all of it, and, while no file is queued, however little it takes; cleared connections are
  as good as new but for one flag; the distribution is fair and loses no descriptor in any interleaving, the wheel implements its
  specification, every handled event renews its registration; dates, zones and numbers are converted exactly, dates as far as they fit 32 bits; the log keeps its lines in
  order in any interleaving; the queues with mutexes are first in, first out, and never stand still, and the lock-free queue is so for one
  thread at each end, or while no address is used again and no deleted node followed. Several properties are about what does not hold: they give the
  conditions under which the code loses data, stops or reaches undefined behaviour, and each is a theorem for all
  inputs of its kind.

  \<^bold>\<open>Bounds and fuel.\<close> No definition runs on fuel that may be too small: the parser's loop is a partial function that is
  proved to end, the walk through the queues of nodes (\<open>queue_items\<close>, \<open>eq_items\<close>) has the number of nodes made so far as its
  bound, which is at least the number of nodes, and a call of the lock-free queue by one thread (\<open>alone\<close>) ends within its eight steps.
  The tests of the queues take a schedule, and \<open>None\<close> means that a thread still runs when it ends. Hypotheses on sizes (a request shorter than the buffer, a line shorter than 2000
  bytes, fewer than 25 buffers in a batch) are limits of the code and stated in the theorems.

  \<^bold>\<open>Not modelled.\<close> Output to the terminal; CPU affinity; how the operating system finds the file of a path
  (a parameter) and what it does with advice about its cache; the copying of parameters and other behaviour without effect on the
  state; \<open>base/\<close> but for \<open>new_handler.h\<close> (empty base classes, constants); the main functions (\<open>Web_Server.cc\<close>,
  \<open>fc_test.cc\<close>, \<open>log_test.cc\<close>, \<open>client_test.cc\<close>), which only call the parts above.
  Data races are modelled as interleavings of whole accesses, so what a compiler may do beyond that is not covered.
\<close>

end
